(* ===== verification/Zcc_Prelude.thy ===== *)
theory Zcc_Prelude
  imports Main "HOL-Library.Word" "HOL-Library.Signed_Division"
begin

text \<open>
  What the other theories share: the machine integers of the compiler's host language,
  the loops of the C code as folds with an invariant rule, the list edits that stand for
  the linking and unlinking of instructions, and the fact collections.
\<close>

unbundle bit_operations_syntax

named_theorems ir_simps \<open>unfolding equations of the instruction and block accessors\<close>
named_theorems keeps \<open>what an operation leaves unchanged\<close>

section \<open>Machine integers\<close>

type_synonym int64 = "64 word"

abbreviation int64_max :: int64 where
  "int64_max \<equiv> 9223372036854775807"

abbreviation int64_min :: int64 where
  "int64_min \<equiv> 9223372036854775808"

text \<open>
  C's \<open>/\<close> and \<open>%\<close> on a signed 64-bit operand pair truncate towards zero. On the host
  (\<open>idivq\<close>) the quotient that does not fit, \<open>INT64_MIN / -1\<close>, raises a signal, as a zero
  divisor does: both are \<open>None\<close>.
\<close>

definition c_sdiv :: "int64 \<Rightarrow> int64 \<Rightarrow> int64 option" where
  "c_sdiv a b = (if b = 0 \<or> (a = int64_min \<and> b = -1) then None
                 else Some (word_of_int (sint a sdiv sint b)))"

definition c_smod :: "int64 \<Rightarrow> int64 \<Rightarrow> int64 option" where
  "c_smod a b = (if b = 0 \<or> (a = int64_min \<and> b = -1) then None
                 else Some (word_of_int (sint a smod sint b)))"

text \<open>
  The host's shifts take the count modulo the operand width; the C operator is undefined for
  a count outside the width, where the compiled code does the same as the instruction.
\<close>

definition c_shl :: "int64 \<Rightarrow> int64 \<Rightarrow> int64" where
  "c_shl a b = push_bit (unat (b AND 63)) a"

definition c_sar :: "int64 \<Rightarrow> int64 \<Rightarrow> int64" where
  "c_sar a b = signed_drop_bit (unat (b AND 63)) a"

definition c_shr :: "int64 \<Rightarrow> int64 \<Rightarrow> int64" where
  "c_shr a b = drop_bit (unat (b AND 63)) a"

definition c_bool :: "bool \<Rightarrow> int64" where
  "c_bool p = (if p then 1 else 0)"

lemma c_shl_0 [simp]: "c_shl a 0 = a"
  by (simp add: c_shl_def)

lemma c_sar_0 [simp]: "c_sar a 0 = a"
  by (simp add: c_sar_def)

lemma c_shr_0 [simp]: "c_shr a 0 = a"
  by (simp add: c_shr_def)

subsection \<open>Signed arithmetic that does not wrap\<close>

lemma sint64_bounds: "- 9223372036854775808 \<le> sint (a :: int64)" "sint (a :: int64) \<le> 9223372036854775807"
  using sint_range_size [of a] by (simp_all add: word_size)

lemma sint64_of_int: "- 9223372036854775808 \<le> k \<Longrightarrow> k \<le> 9223372036854775807 \<Longrightarrow>
    sint (word_of_int k :: int64) = k"
  by (simp add: sint_sbintrunc' signed_take_bit_int_eq_self)

lemma sint_int64_max [simp]: "sint (9223372036854775807 :: int64) = 9223372036854775807"
  by (simp add: sint_sbintrunc')
lemma sint_int64_min [simp]: "sint (9223372036854775808 :: int64) = - 9223372036854775808"
  using sint64_of_int [of "- 9223372036854775808"] by simp

lemma sint64_add: "- 9223372036854775808 \<le> sint a + sint b \<Longrightarrow> sint a + sint b \<le> 9223372036854775807 \<Longrightarrow>
    sint (a + b :: int64) = sint a + sint b"
  using sint64_of_int [of "sint a + sint b"] by simp
lemma sint64_sub: "- 9223372036854775808 \<le> sint a - sint b \<Longrightarrow> sint a - sint b \<le> 9223372036854775807 \<Longrightarrow>
    sint (a - b :: int64) = sint a - sint b"
  using sint64_of_int [of "sint a - sint b"] by simp
lemma sint64_mult: "- 9223372036854775808 \<le> sint a * sint b \<Longrightarrow> sint a * sint b \<le> 9223372036854775807 \<Longrightarrow>
    sint (a * b :: int64) = sint a * sint b"
  using sint64_of_int [of "sint a * sint b"] by simp

lemma int_div_less_iff: "0 < b \<Longrightarrow> m div b < a \<longleftrightarrow> m < a * b" for a b m :: int
proof -
  assume b: "0 < b"
  have "a \<le> m div b \<longleftrightarrow> a * b \<le> m"
  proof
    assume "a \<le> m div b"
    then have "a * b \<le> m div b * b" using b by simp
    also have "\<dots> \<le> m" using minus_mod_eq_div_mult [of m b] pos_mod_sign [OF b, of m] by linarith
    finally show "a * b \<le> m" .
  next
    assume "a * b \<le> m"
    then have "(a * b) div b \<le> m div b" using b by (rule zdiv_mono1)
    then show "a \<le> m div b" using b by simp
  qed
  then show ?thesis by auto
qed

lemma sdiv_less_pos:
  fixes a b m :: int
  assumes "0 < a" "0 < b" "0 \<le> m"
  shows "m sdiv b < a \<longleftrightarrow> m < a * b"
  using assms by (auto simp: signed_divide_int_def sgn_if int_div_less_iff)

lemma sdiv_greater_neg:
  fixes a b m :: int
  assumes "0 < a" "m < 0" "b < 0"
  shows "b < m sdiv a \<longleftrightarrow> a * b < m"
proof -
  have "b < m sdiv a \<longleftrightarrow> (- m) div a < - b"
    using assms by (auto simp: signed_divide_int_def sgn_if)
  also have "\<dots> \<longleftrightarrow> - m < (- b) * a" using assms by (simp only: int_div_less_iff)
  finally show ?thesis by (auto simp: algebra_simps)
qed

lemma sdiv_greater_pos_neg:
  fixes a b m :: int
  assumes "a < 0" "0 < m" "b < 0"
  shows "b < m sdiv a \<longleftrightarrow> m < a * b"
proof -
  have "b < m sdiv a \<longleftrightarrow> m div (- a) < - b"
    using assms by (auto simp: signed_divide_int_def sgn_if)
  also have "\<dots> \<longleftrightarrow> m < (- b) * (- a)" using assms int_div_less_iff [of "- a" m "- b"] by simp
  finally show ?thesis by (auto simp: algebra_simps)
qed

lemma int_div_bounds: "0 < k \<Longrightarrow> 0 \<le> m \<Longrightarrow> 0 \<le> m div k \<and> m div k \<le> m" for m k :: int
  using zdiv_mono2 [of m 1 k] by (simp add: pos_imp_zdiv_nonneg_iff)

section \<open>Loops\<close>

text \<open>
  A C loop over the blocks or over the instructions of a block is a \<^const>\<open>fold\<close> with the
  variables it assigns as the accumulator. The rules below are the loop invariants.
\<close>

lemma fold_invariant:
  assumes "I s" and "\<And>x s. x \<in> set xs \<Longrightarrow> I s \<Longrightarrow> I (f x s)"
  shows "I (fold f xs s)"
  using assms by (induction xs arbitrary: s) auto

lemma fold_id:
  assumes "\<And>x s. x \<in> set xs \<Longrightarrow> f x s = s"
  shows "fold f xs s = s"
  using assms by (induction xs arbitrary: s) auto

text \<open>A loop whose body may trap: the rest of the loop is not run.\<close>

fun fold_opt :: "('a \<Rightarrow> 's \<Rightarrow> 's option) \<Rightarrow> 'a list \<Rightarrow> 's \<Rightarrow> 's option" where
  "fold_opt f [] s = Some s"
| "fold_opt f (x # xs) s = (case f x s of None \<Rightarrow> None | Some s' \<Rightarrow> fold_opt f xs s')"

lemma fold_opt_append:
  "fold_opt f (xs @ ys) s = (case fold_opt f xs s of None \<Rightarrow> None | Some s' \<Rightarrow> fold_opt f ys s')"
  by (induction xs arbitrary: s) (auto split: option.split)

lemma fold_opt_invariant:
  assumes "fold_opt f xs s = Some s'" and "I s"
    and "\<And>x s s'. x \<in> set xs \<Longrightarrow> I s \<Longrightarrow> f x s = Some s' \<Longrightarrow> I s'"
  shows "I s'"
  using assms
proof (induction xs arbitrary: s)
  case Nil
  then show ?case by simp
next
  case (Cons x xs)
  from Cons.prems(1) obtain t where "f x s = Some t" "fold_opt f xs t = Some s'"
    by (auto split: option.splits)
  with Cons show ?case by (metis list.set_intros)
qed

text \<open>A loop that ends in a state no iteration can have come to by a change has changed nothing.\<close>

lemma fold_opt_quiet:
  assumes "fold_opt f xs s = Some s'" "Q s'"
    and "\<And>x s s'. x \<in> set xs \<Longrightarrow> f x s = Some s' \<Longrightarrow> Q s' \<Longrightarrow> s' = s"
  shows "s' = s \<and> (\<forall>x \<in> set xs. f x s = Some s)"
  using assms
proof (induction xs arbitrary: s)
  case (Cons x xs)
  from Cons.prems(1) obtain t where t: "f x s = Some t" "fold_opt f xs t = Some s'"
    by (auto split: option.splits)
  with Cons have "s' = t \<and> (\<forall>x \<in> set xs. f x t = Some t)" by (metis list.set_intros(2))
  moreover from this Cons.prems t have "t = s" by (metis list.set_intros(1))
  ultimately show ?case using t by simp
qed simp

section \<open>Linked lists\<close>

text \<open>
  The instructions of a block form a doubly linked list; the model keeps the list of their
  addresses. Linking a new node before an existing one and unlinking a node:
\<close>

fun link_before :: "'a \<Rightarrow> 'a \<Rightarrow> 'a list \<Rightarrow> 'a list" where
  "link_before y x [] = []"
| "link_before y x (z # zs) = (if z = y then x # z # zs else z # link_before y x zs)"

lemma set_link_before: "y \<in> set xs \<Longrightarrow> set (link_before y x xs) = insert x (set xs)"
  by (induction xs) auto

lemma link_before_notin [simp]: "y \<notin> set xs \<Longrightarrow> link_before y x xs = xs"
  by (induction xs) auto

lemma length_link_before: "y \<in> set xs \<Longrightarrow> length (link_before y x xs) = Suc (length xs)"
  by (induction xs) auto

lemma distinct_link_before:
  "distinct xs \<Longrightarrow> x \<notin> set xs \<Longrightarrow> distinct (link_before y x xs)"
  by (induction xs) (auto simp: set_link_before split: if_splits
      dest: link_before_notin, (metis insertE link_before_notin set_link_before)+)

lemma last_link_before: "xs \<noteq> [] \<Longrightarrow> last (link_before y x xs) = last xs"
  by (induction xs) (auto split: if_splits, metis link_before.simps(1) list.exhaust
      link_before.simps(2) list.distinct(1))

section \<open>Decimal numerals\<close>

text \<open>\<^verbatim>\<open>sprintf("%d")\<close> of a number that is not negative.\<close>

fun nat_str :: "nat \<Rightarrow> string" where
  "nat_str n = (if n < 10 then [char_of (48 + n)] else nat_str (n div 10) @ [char_of (48 + n mod 10)])"

declare nat_str.simps [simp del]

end
