(* ===== verification/IR.thy ===== *)
theory IR
  imports Zcc_Prelude
begin

text \<open>
  The data model of the middle end, \<open>src/prelude.h\<close>: instructions, basic blocks and functions.

  An \<^verbatim>\<open>Instr\<close> is a heap object that blocks, the def-use table and the optimiser's local
  variables point to, and that the passes rewrite in place; it lives at an address of the
  function's \<open>heap\<close>. A block holds the list of the addresses of its instructions, which is the
  doubly linked list from \<^verbatim>\<open>head\<close> to \<^verbatim>\<open>tail\<close>, and, apart from it, the counter \<^verbatim>\<open>n_instrs\<close> that the
  code maintains by hand. \<^verbatim>\<open>fn->blocks\<close> is a list of possibly absent blocks, \<^verbatim>\<open>n_blocks\<close> its length.
  Register, block and instruction identifiers (\<^verbatim>\<open>uint32_t\<close>) are natural numbers. The fixed
  arrays that come with a counter and are only read below it (\<^verbatim>\<open>phi\<close>, \<^verbatim>\<open>call_args\<close>, \<^verbatim>\<open>succs\<close>,
  \<^verbatim>\<open>preds\<close>) are lists; \<^verbatim>\<open>src\<close>, which the code also reads beyond \<^verbatim>\<open>n_src\<close>, is a function of the
  index. Floating-point profile data (\<^verbatim>\<open>exec_freq\<close>, \<^verbatim>\<open>branch_prob\<close>) is left out: no modelled code
  reads it.
\<close>

section \<open>Identifiers and limits\<close>

type_synonym regid = nat
type_synonym blockid = nat
type_synonym addr = nat

definition MAX_INSTRS :: nat where "MAX_INSTRS = 65536"
definition MAX_BLOCKS :: nat where "MAX_BLOCKS = 32768"
definition MAX_PHI_SOURCES :: nat where "MAX_PHI_SOURCES = 32"
definition NO_BLOCK :: nat where "NO_BLOCK = 4294967295"

datatype irtype = IR_TY_I64 | IR_TY_I32 | IR_TY_U32 | IR_TY_U64

datatype alias_class = ALIAS_UNKNOWN | ALIAS_LOCAL_STACK

text \<open>\<^verbatim>\<open>OP_GET_RDX\<close> is an operation of \<open>compiler_passes.c\<close> only, whose copy of this data model is otherwise the same.\<close>

datatype opcode =
    OP_NOP | OP_CONST | OP_PHI
  | OP_ADD | OP_SUB | OP_MUL | OP_DIV | OP_MOD
  | OP_BAND | OP_BOR | OP_BXOR | OP_BNOT | OP_SHL | OP_SHR
  | OP_LT | OP_EQ | OP_NE | OP_GT | OP_GE | OP_LE
  | OP_LOAD | OP_STORE | OP_ALLOCA | OP_GEP | OP_CALL
  | OP_RET | OP_BR | OP_CONDBR | OP_COPY | OP_UNDEF
  | OP_PGO_COUNTER_ADDR | OP_GLOBAL | OP_ASM | OP_VLA_ALLOC | OP_GET_RDX

section \<open>Instructions\<close>

text \<open>The address-mode folding record of an instruction.\<close>

record amf_rec =
  folded :: bool
  base :: regid
  disp :: int64

record instr =
  instr_id :: nat
  op :: opcode
  dst :: regid
  src :: "nat \<Rightarrow> regid"
  n_src :: nat
  phi :: "(regid \<times> blockid) list"
  imm :: int64
  call_name :: string
  call_args :: "regid list"
  call_args_is_float :: "int list"
  dead :: bool
  is_float :: int
  src_is_float :: int
  src_size :: int
  dst_size :: int
  src_unsigned :: int
  dst_unsigned :: int
  escape :: bool
  is_param :: bool
  line_no :: int
  ir_type :: irtype
  amf :: amf_rec
  alias_cls :: alias_class
  sbt_base :: regid
  sbt_offset :: int64
  sbt_has_cast :: bool
  asm_string :: "string option"

text \<open>\<^verbatim>\<open>calloc(1, sizeof(Instr))\<close>: every field zero.\<close>

definition calloc_instr :: instr where
  "calloc_instr = \<lparr>instr_id = 0, op = OP_NOP, dst = 0, src = (\<lambda>_. 0), n_src = 0, phi = [],
     imm = 0, call_name = [], call_args = [], call_args_is_float = [], dead = False,
     is_float = 0, src_is_float = 0, src_size = 0, dst_size = 0, src_unsigned = 0,
     dst_unsigned = 0, escape = False, is_param = False, line_no = 0, ir_type = IR_TY_I64,
     amf = \<lparr>folded = False, base = 0, disp = 0\<rparr>, alias_cls = ALIAS_UNKNOWN, sbt_base = 0,
     sbt_offset = 0, sbt_has_cast = False, asm_string = None\<rparr>"

abbreviation src1 :: "instr \<Rightarrow> regid" where "src1 i \<equiv> src i 0"
abbreviation src2 :: "instr \<Rightarrow> regid" where "src2 i \<equiv> src i 1"

definition set_src :: "nat \<Rightarrow> regid \<Rightarrow> instr \<Rightarrow> instr" where
  "set_src k r i = i\<lparr>src := (src i)(k := r)\<rparr>"

lemma set_src_simps [simp]:
  "op (set_src k r i) = op i" "dst (set_src k r i) = dst i" "n_src (set_src k r i) = n_src i"
  "imm (set_src k r i) = imm i" "phi (set_src k r i) = phi i"
  "ir_type (set_src k r i) = ir_type i" "call_args (set_src k r i) = call_args i"
  "src (set_src k r i) = (src i)(k := r)" "dead (set_src k r i) = dead i"
  "is_float (set_src k r i) = is_float i" "src_is_float (set_src k r i) = src_is_float i"
  by (simp_all add: set_src_def)

definition is_terminator :: "opcode \<Rightarrow> bool" where
  "is_terminator opc \<longleftrightarrow> opc = OP_RET \<or> opc = OP_BR \<or> opc = OP_CONDBR"

text \<open>\<^verbatim>\<open>is_reg_operand\<close>: which entries of \<^verbatim>\<open>src\<close> name registers; the targets of branches do not.\<close>

definition is_reg_operand :: "opcode \<Rightarrow> nat \<Rightarrow> bool" where
  "is_reg_operand opc k = (if opc = OP_BR then False
     else if opc = OP_CONDBR then k = 0 else True)"

section \<open>Blocks and functions\<close>

record block =
  block_id :: blockid
  block_name :: string
  instrs :: "addr list"
  n_instrs :: nat
  succs :: "blockid list"
  preds :: "blockid list"
  reachable :: bool
  loop_depth :: nat
  is_loop_header :: bool
  is_pre_header :: bool

definition calloc_block :: block where
  "calloc_block = \<lparr>block_id = 0, block_name = [], instrs = [], n_instrs = 0, succs = [],
     preds = [], reachable = False, loop_depth = 0, is_loop_header = False,
     is_pre_header = False\<rparr>"

record func =
  blocks :: "block option list"
  heap :: "addr \<Rightarrow> instr"
  next_addr :: addr
  def_tab :: "regid \<Rightarrow> addr option"
  def_block :: "regid \<Rightarrow> blockid"
  n_regs :: nat
  func_name :: string
  ret_type :: string
  licm_hoisted :: nat

abbreviation n_blocks :: "func \<Rightarrow> nat" where
  "n_blocks fn \<equiv> length (blocks fn)"

text \<open>The parser's tables about the registers of the function at hand.\<close>

record reg_info =
  g_reg_types :: "regid \<Rightarrow> string"
  g_reg_is_param :: "regid \<Rightarrow> bool"
  g_fn_ret_type :: string

record modul =
  funcs :: "func list"

definition blk_at :: "func \<Rightarrow> blockid \<Rightarrow> block option" where
  "blk_at fn b = (if b < n_blocks fn then blocks fn ! b else None)"

definition upd_blk :: "blockid \<Rightarrow> (block \<Rightarrow> block) \<Rightarrow> func \<Rightarrow> func" where
  "upd_blk b g fn = fn\<lparr>blocks := (blocks fn)[b := map_option g (blocks fn ! b)]\<rparr>"

definition upd_instr :: "addr \<Rightarrow> (instr \<Rightarrow> instr) \<Rightarrow> func \<Rightarrow> func" where
  "upd_instr a g fn = fn\<lparr>heap := (heap fn)(a := g (heap fn a))\<rparr>"

definition tail_of :: "func \<Rightarrow> block \<Rightarrow> instr option" where
  "tail_of fn b = (if instrs b = [] then None else Some (heap fn (last (instrs b))))"

definition blk_instrs :: "block option \<Rightarrow> addr list" where
  "blk_instrs bo = (case bo of None \<Rightarrow> [] | Some b \<Rightarrow> instrs b)"

text \<open>All instructions in the order of the loops \<^verbatim>\<open>for bi ... for it\<close>.\<close>

definition all_addrs :: "func \<Rightarrow> addr list" where
  "all_addrs fn = concat (map blk_instrs (blocks fn))"

lemma upd_instr_simps [simp]:
  "blocks (upd_instr a g fn) = blocks fn" "n_regs (upd_instr a g fn) = n_regs fn"
  "def_tab (upd_instr a g fn) = def_tab fn" "def_block (upd_instr a g fn) = def_block fn"
  "next_addr (upd_instr a g fn) = next_addr fn"
  "heap (upd_instr a g fn) = (heap fn)(a := g (heap fn a))"
  "blk_at (upd_instr a g fn) = blk_at fn"
  "all_addrs (upd_instr a g fn) = all_addrs fn"
  by (auto simp: upd_instr_def blk_at_def all_addrs_def)

lemma all_addrs_cong [simp]:
  "all_addrs (fn\<lparr>heap := h\<rparr>) = all_addrs fn" "all_addrs (fn\<lparr>def_tab := t\<rparr>) = all_addrs fn"
  "all_addrs (fn\<lparr>n_regs := n\<rparr>) = all_addrs fn" "all_addrs (fn\<lparr>def_block := d\<rparr>) = all_addrs fn"
  by (simp_all add: all_addrs_def)

lemma upd_blk_simps [simp]:
  "n_blocks (upd_blk b g fn) = n_blocks fn" "heap (upd_blk b g fn) = heap fn"
  "n_regs (upd_blk b g fn) = n_regs fn" "def_tab (upd_blk b g fn) = def_tab fn"
  "next_addr (upd_blk b g fn) = next_addr fn" "def_block (upd_blk b g fn) = def_block fn"
  by (auto simp: upd_blk_def)

lemma blk_at_upd_blk:
  "blk_at (upd_blk b g fn) c = (if c = b then map_option g (blk_at fn b) else blk_at fn c)"
  by (auto simp: blk_at_def upd_blk_def)

lemma blk_at_Some_lt: "blk_at fn b = Some blk \<Longrightarrow> b < n_blocks fn"
  by (auto simp: blk_at_def split: if_splits)

lemma blk_at_Some_iff: "blk_at fn b = Some blk \<longleftrightarrow> b < n_blocks fn \<and> blocks fn ! b = Some blk"
  by (auto simp: blk_at_def)

lemma blk_at_mem: "(\<exists>b. blk_at fn b = Some blk) \<longleftrightarrow> Some blk \<in> set (blocks fn)"
  by (auto simp: blk_at_Some_iff in_set_conv_nth)

lemma set_all_addrs:
  "a \<in> set (all_addrs fn) \<longleftrightarrow> (\<exists>b blk. blk_at fn b = Some blk \<and> a \<in> set (instrs blk))"
proof -
  have "a \<in> set (all_addrs fn) \<longleftrightarrow> (\<exists>blk. Some blk \<in> set (blocks fn) \<and> a \<in> set (instrs blk))"
    by (auto simp: all_addrs_def blk_instrs_def split: option.splits)
  then show ?thesis by (metis blk_at_mem)
qed

section \<open>Loops over blocks and instructions\<close>

text \<open>
  The C loop \<^verbatim>\<open>for (bi = 0; bi < fn->n_blocks; bi++) { bb = fn->blocks[bi]; if (!bb) continue; ... }\<close>
  with a state \<open>s\<close> from which the current function is read: for an analysis it stays the same,
  for a transformation it is part of the state. \<open>nb\<close> is the value of \<^verbatim>\<open>n_blocks\<close>, which no loop
  that uses this combinator changes.
\<close>

definition for_blk :: "(blockid \<Rightarrow> block \<Rightarrow> 's \<Rightarrow> 's) \<Rightarrow> ('s \<Rightarrow> func) \<Rightarrow> nat \<Rightarrow> 's \<Rightarrow> 's" where
  "for_blk body get nb s0 =
     fold (\<lambda>bi s. case blk_at (get s) bi of None \<Rightarrow> s | Some b \<Rightarrow> body bi b s) [0..<nb] s0"

lemma for_blk_invariant:
  assumes "I s0"
    and "\<And>bi b s. bi < n \<Longrightarrow> blk_at (get s) bi = Some b \<Longrightarrow> I s \<Longrightarrow> I (body bi b s)"
  shows "I (for_blk body get n s0)"
  unfolding for_blk_def
  by (rule fold_invariant) (use assms in \<open>auto split: option.split\<close>)

lemma for_blk_Suc:
  "for_blk body get (Suc k) s = (case blk_at (get (for_blk body get k s)) k of
      None \<Rightarrow> for_blk body get k s | Some b \<Rightarrow> body k b (for_blk body get k s))"
  unfolding for_blk_def by simp

text \<open>The instructions of the reachable blocks, with the block they are in, in loop order.\<close>

definition reach_list :: "func \<Rightarrow> (blockid \<times> addr) list" where
  "reach_list fn = concat (map (\<lambda>bi. case blk_at fn bi of None \<Rightarrow> []
     | Some b \<Rightarrow> (if reachable b then map (Pair bi) (instrs b) else [])) [0..<n_blocks fn])"

lemma for_blk_reach_list:
  "for_blk (\<lambda>bi b s. if \<not> reachable b then s else fold (f bi) (instrs b) s) (\<lambda>_. fn) (n_blocks fn) s
     = fold (\<lambda>(bi, a). f bi a) (reach_list fn) s"
proof -
  have "fold (\<lambda>bi s. case blk_at fn bi of None \<Rightarrow> s
           | Some b \<Rightarrow> if \<not> reachable b then s else fold (f bi) (instrs b) s) bs s
      = fold (\<lambda>(bi, a). f bi a) (concat (map (\<lambda>bi. case blk_at fn bi of None \<Rightarrow> []
          | Some b \<Rightarrow> (if reachable b then map (Pair bi) (instrs b) else [])) bs)) s" for bs
    by (induction bs arbitrary: s) (auto simp: fold_map comp_def split: option.split)
  then show ?thesis by (simp add: for_blk_def reach_list_def)
qed

lemma set_reach_list:
  "(b, a) \<in> set (reach_list fn) \<longleftrightarrow>
     (\<exists>blk. blk_at fn b = Some blk \<and> reachable blk \<and> a \<in> set (instrs blk))"
proof -
  have "(b, a) \<in> set (reach_list fn) \<longleftrightarrow> b < n_blocks fn \<and>
     (b, a) \<in> set (case blk_at fn b of None \<Rightarrow> [] | Some blk \<Rightarrow>
        (if reachable blk then map (Pair b) (instrs blk) else []))"
    by (fastforce simp: reach_list_def split: option.splits if_splits)
  then show ?thesis by (cases "blk_at fn b") (auto dest: blk_at_Some_lt)
qed

lemma reach_list_all_addrs: "(b, a) \<in> set (reach_list fn) \<Longrightarrow> a \<in> set (all_addrs fn)"
  by (auto simp: set_reach_list set_all_addrs)

text \<open>What depends on the lists of blocks only.\<close>

lemma blk_at_blocks: "blocks f = blocks g \<Longrightarrow> blk_at f = blk_at g"
  by (simp add: blk_at_def fun_eq_iff)

lemma all_addrs_blocks: "blocks f = blocks g \<Longrightarrow> all_addrs f = all_addrs g"
  by (simp add: all_addrs_def)

lemma reach_list_blocks: "blocks f = blocks g \<Longrightarrow> reach_list f = reach_list g"
  using blk_at_blocks [of f g] by (simp add: reach_list_def)

text \<open>A body that leaves the lists of blocks alone may as well read them from the first state.\<close>

lemma for_blk_fixed:
  assumes "\<And>bi b s. blocks (get (body bi b s)) = blocks (get s)"
  shows "for_blk body get n s = for_blk body (\<lambda>_. get s) n s"
proof -
  have "for_blk body get n s = for_blk body (\<lambda>_. get s) n s \<and> blocks (get (for_blk body get n s)) = blocks (get s)"
  proof (induction n)
    case 0
    then show ?case by (simp add: for_blk_def)
  next
    case (Suc n)
    have e: "for_blk body get n s = for_blk body (\<lambda>_. get s) n s" by (rule Suc.IH [THEN conjunct1])
    have b: "blocks (get (for_blk body (\<lambda>_. get s) n s)) = blocks (get s)"
      using Suc.IH [THEN conjunct2] unfolding e .
    show ?case unfolding for_blk_Suc e blk_at_blocks [OF b]
      using assms b by (simp split: option.split)
  qed
  then show ?thesis ..
qed

section \<open>Well-formed heaps\<close>

text \<open>
  What the pointer structure keeps: an instruction is linked in one place only, was allocated,
  and every block's counter is the length of its list.
\<close>

definition heap_ok :: "func \<Rightarrow> bool" where
  "heap_ok fn \<longleftrightarrow> distinct (all_addrs fn) \<and> (\<forall>a \<in> set (all_addrs fn). a < next_addr fn)"

definition counters_ok :: "func \<Rightarrow> bool" where
  "counters_ok fn \<longleftrightarrow>
     (\<forall>b < n_blocks fn. case blocks fn ! b of None \<Rightarrow> True | Some blk \<Rightarrow> n_instrs blk = length (instrs blk))"

lemma counters_ok_blk: "counters_ok fn \<Longrightarrow> blk_at fn b = Some blk \<Longrightarrow> n_instrs blk = length (instrs blk)"
  by (auto simp: counters_ok_def blk_at_def split: if_splits option.splits)

lemma counters_okI:
  "(\<And>b blk. blk_at fn b = Some blk \<Longrightarrow> n_instrs blk = length (instrs blk)) \<Longrightarrow> counters_ok fn"
  by (simp add: counters_ok_def blk_at_Some_iff split: option.split)

lemma counters_ok_upd_instr [simp]: "counters_ok (upd_instr a g fn) = counters_ok fn"
  by (simp add: counters_ok_def)

lemma heap_ok_upd_instr [simp]: "heap_ok (upd_instr a g fn) = heap_ok fn"
  by (simp add: heap_ok_def)

section \<open>Rewriting loops\<close>

text \<open>
  The loops that rewrite instructions one by one and note whether they did: the rewriting function
  \<open>rw\<close> looks at the instruction only, so the loop is the pointwise image of the heap.
\<close>

definition rewrite_loop :: "(instr \<Rightarrow> instr \<times> bool) \<Rightarrow> addr list \<Rightarrow> func \<times> bool \<Rightarrow> func \<times> bool" where
  "rewrite_loop rw = fold (\<lambda>a (fn, ch). let (i, c) = rw (heap fn a) in (upd_instr a (\<lambda>_. i) fn, ch \<or> c))"

definition rewrite_set :: "(instr \<Rightarrow> instr \<times> bool) \<Rightarrow> addr set \<Rightarrow> func \<Rightarrow> func" where
  "rewrite_set rw A fn = fn\<lparr>heap := (\<lambda>a. if a \<in> A then fst (rw (heap fn a)) else heap fn a)\<rparr>"

lemma rewrite_loop_eq:
  "distinct as \<Longrightarrow> rewrite_loop rw as (fn, ch) =
     (rewrite_set rw (set as) fn, ch \<or> (\<exists>a \<in> set as. snd (rw (heap fn a))))"
proof (induction as arbitrary: fn ch)
  case (Cons a as)
  let ?fn = "upd_instr a (\<lambda>_. fst (rw (heap fn a))) fn"
  have "rewrite_loop rw (a # as) (fn, ch) = rewrite_loop rw as (?fn, ch \<or> snd (rw (heap fn a)))"
    by (simp add: rewrite_loop_def split_beta Let_def)
  also have "\<dots> = (rewrite_set rw (set as) ?fn, (ch \<or> snd (rw (heap fn a))) \<or> (\<exists>b \<in> set as. snd (rw (heap ?fn b))))"
    using Cons by simp
  also have "rewrite_set rw (set as) ?fn = rewrite_set rw (set (a # as)) fn"
    using Cons.prems by (auto simp: rewrite_set_def upd_instr_def fun_eq_iff)
  also have "(\<exists>b \<in> set as. snd (rw (heap ?fn b))) = (\<exists>b \<in> set as. snd (rw (heap fn b)))"
    using Cons.prems by (intro bex_cong) auto
  finally show ?case by simp
qed (simp add: rewrite_loop_def rewrite_set_def)

lemma rewrite_set_simps [simp]:
  "blocks (rewrite_set rw A fn) = blocks fn" "blk_at (rewrite_set rw A fn) = blk_at fn"
  "all_addrs (rewrite_set rw A fn) = all_addrs fn" "n_regs (rewrite_set rw A fn) = n_regs fn"
  "def_tab (rewrite_set rw A fn) = def_tab fn" "next_addr (rewrite_set rw A fn) = next_addr fn"
  "heap (rewrite_set rw A fn) = (\<lambda>a. if a \<in> A then fst (rw (heap fn a)) else heap fn a)"
  by (simp_all add: rewrite_set_def blk_at_def fun_eq_iff)

lemma distinct_blk:
  assumes "distinct (all_addrs fn)" "blk_at fn b = Some x"
  shows "distinct (instrs x)"
  using assms blk_at_mem [of fn x] unfolding all_addrs_def
  by (auto simp: distinct_concat_iff blk_instrs_def)

lemma heap_ok_disjoint:
  assumes "heap_ok fn" "blk_at fn b = Some x" "blk_at fn c = Some y" "b < c"
  shows "set (instrs x) \<inter> set (instrs y) = {}"
proof -
  let ?xs = "map blk_instrs (blocks fn)"
  have c: "c < length (blocks fn)" using assms(3) by (rule blk_at_Some_lt)
  have "distinct (concat (take c ?xs) @ concat (drop c ?xs))"
    using assms(1) by (simp add: heap_ok_def all_addrs_def flip: concat_append)
  moreover have "set (instrs x) \<subseteq> set (concat (take c ?xs))"
  proof -
    have "instrs x = ?xs ! b" using assms(2,4) c by (simp add: blk_at_Some_iff blk_instrs_def)
    then have "instrs x = take c ?xs ! b" using assms(4) by simp
    then have "instrs x \<in> set (take c ?xs)" using assms(4) c by (metis length_map length_take min.absorb4 nth_mem)
    then show ?thesis by auto
  qed
  moreover have "set (instrs y) \<subseteq> set (concat (drop c ?xs))"
  proof -
    have "instrs y = ?xs ! c" using assms(3) c by (simp add: blk_at_Some_iff blk_instrs_def)
    then have "drop c ?xs = instrs y # drop (Suc c) ?xs" using c Cons_nth_drop_Suc [of c ?xs] by simp
    then show ?thesis by simp
  qed
  ultimately show ?thesis unfolding distinct_append by blast
qed

lemma reach_list_distinct:
  assumes ok: "heap_ok fn"
  shows "distinct (map snd (reach_list fn))"
proof -
  define f where "f = (\<lambda>bi. case blk_at fn bi of None \<Rightarrow> []
     | Some b \<Rightarrow> (if reachable b then map (Pair bi) (instrs b) else []))"
  have f: "snd ` set (f b) \<subseteq> {a. \<exists>blk. blk_at fn b = Some blk \<and> a \<in> set (instrs blk)}" for b
    by (cases "blk_at fn b") (auto simp: f_def)
  have d: "distinct (map snd (f b))" for b
    using ok distinct_blk by (auto simp: f_def heap_ok_def comp_def split: option.split)
  have "distinct (map snd (concat (map f [0..<n])))" for n
  proof (induction n)
    case (Suc n)
    have "snd ` set (concat (map f [0..<n])) \<inter> snd ` set (f n) = {}"
    proof -
      have "snd ` set (f b) \<inter> snd ` set (f n) = {}" if "b < n" for b
        using that f [of b] f [of n] heap_ok_disjoint [OF ok, of b _ n] by blast
      moreover have "snd ` set (concat (map f [0..<n])) = (\<Union>b < n. snd ` set (f b))"
        by (simp add: image_UN atLeast0LessThan)
      ultimately show ?thesis by blast
    qed
    with Suc d [of n] show ?case by simp
  qed simp
  then show ?thesis by (simp add: reach_list_def f_def)
qed

text \<open>The same over the blocks that satisfy \<open>L\<close>.\<close>

definition addrs_of :: "(blockid \<Rightarrow> block \<Rightarrow> bool) \<Rightarrow> func \<Rightarrow> nat \<Rightarrow> addr set" where
  "addrs_of L fn n = {a. \<exists>b < n. \<exists>blk. blk_at fn b = Some blk \<and> L b blk \<and> a \<in> set (instrs blk)}"

lemma for_blk_rewrite:
  assumes ok: "heap_ok fn"
  shows "for_blk (\<lambda>bi b st. if \<not> L bi b then st else rewrite_loop rw (instrs b) st) fst n (fn, ch) =
    (rewrite_set rw (addrs_of L fn n) fn, ch \<or> (\<exists>a \<in> addrs_of L fn n. snd (rw (heap fn a))))"
proof (induction n)
  case 0
  then show ?case by (simp add: for_blk_def addrs_of_def rewrite_set_def)
next
  case (Suc n)
  let ?A = "addrs_of L fn n"
  show ?case
  proof (cases "blk_at fn n")
    case None
    then have "addrs_of L fn (Suc n) = ?A" by (auto simp: addrs_of_def less_Suc_eq)
    then show ?thesis using Suc None by (simp add: for_blk_Suc)
  next
    case (Some blk)
    show ?thesis
    proof (cases "L n blk")
      case False
      then have "addrs_of L fn (Suc n) = ?A" using Some by (auto simp: addrs_of_def less_Suc_eq)
      then show ?thesis using Suc Some False by (simp add: for_blk_Suc)
    next
      case True
      have A: "addrs_of L fn (Suc n) = ?A \<union> set (instrs blk)"
        using Some True by (auto simp: addrs_of_def less_Suc_eq)
      have dj: "?A \<inter> set (instrs blk) = {}"
        using heap_ok_disjoint [OF ok _ Some] by (fastforce simp: addrs_of_def)
      have d: "distinct (instrs blk)" using ok Some by (auto simp: heap_ok_def intro: distinct_blk)
      have "rewrite_set rw (set (instrs blk)) (rewrite_set rw ?A fn) = rewrite_set rw (?A \<union> set (instrs blk)) fn"
        using dj by (intro func.equality) (auto simp: rewrite_set_def fun_eq_iff)
      moreover have "(\<exists>a \<in> set (instrs blk). snd (rw (heap (rewrite_set rw ?A fn) a))) =
          (\<exists>a \<in> set (instrs blk). snd (rw (heap fn a)))"
        using dj by (intro bex_cong) auto
      ultimately show ?thesis
        using Suc Some True by (simp add: for_blk_Suc rewrite_loop_eq [OF d] A bex_Un)
    qed
  qed
qed

section \<open>Building functions\<close>

text \<open>
  Closed functions for the instances: the instruction at position \<open>k\<close> of the list lives at
  address \<open>k\<close>; a block is given by its addresses and its edges.
\<close>

definition mk_block :: "addr list \<Rightarrow> blockid list \<Rightarrow> blockid list \<Rightarrow> block" where
  "mk_block as ss ps = calloc_block\<lparr>instrs := as, n_instrs := length as, succs := ss, preds := ps,
     reachable := True\<rparr>"

definition mk_instr :: "opcode \<Rightarrow> regid \<Rightarrow> regid list \<Rightarrow> instr" where
  "mk_instr opc d ss = calloc_instr\<lparr>op := opc, dst := d,
     src := (\<lambda>k. if k < length ss then ss ! k else 0), n_src := length ss\<rparr>"

definition mk_const :: "regid \<Rightarrow> int64 \<Rightarrow> instr" where
  "mk_const d k = (mk_instr OP_CONST d [])\<lparr>imm := k\<rparr>"

definition mk_phi :: "regid \<Rightarrow> (regid \<times> blockid) list \<Rightarrow> instr" where
  "mk_phi d ps = (mk_instr OP_PHI d [])\<lparr>phi := ps\<rparr>"

definition mk_func :: "block list \<Rightarrow> instr list \<Rightarrow> nat \<Rightarrow> func" where
  "mk_func bs is n = \<lparr>blocks = map Some bs,
     heap = (\<lambda>a. if a < length is then is ! a else calloc_instr), next_addr = length is,
     def_tab = (\<lambda>_. None), def_block = (\<lambda>_. NO_BLOCK), n_regs = n, func_name = ''f'',
     ret_type = [], licm_hoisted = 0\<rparr>"

definition no_info :: reg_info where
  "no_info = \<lparr>g_reg_types = (\<lambda>_. []), g_reg_is_param = (\<lambda>_. False), g_fn_ret_type = []\<rparr>"

lemmas mk_defs = mk_block_def mk_instr_def mk_const_def mk_phi_def mk_func_def no_info_def
  calloc_block_def calloc_instr_def

end
