(* ===== verification/IR_Helpers.thy ===== *)
theory IR_Helpers
  imports IR
begin

text \<open>
  \<open>src/src/opt/zcc_ir_opt_helpers.c\<close>: the def-use table, the constant pool of a function, the
  in-place rewrites, copy resolution and the overflow policy of the reassociation rules.
\<close>

section \<open>Definitions\<close>

definition def_of :: "func \<Rightarrow> regid \<Rightarrow> addr option" where
  "def_of fn r = (if r = 0 \<or> r \<ge> MAX_INSTRS then None else def_tab fn r)"

definition reg_is_const :: "func \<Rightarrow> regid \<Rightarrow> int64 option" where
  "reg_is_const fn r = (case def_of fn r of
      None \<Rightarrow> None
    | Some a \<Rightarrow> (if op (heap fn a) = OP_CONST then Some (imm (heap fn a)) else None))"

text \<open>
  \<^verbatim>\<open>make_const\<close>: the first \<^verbatim>\<open>OP_CONST\<close> of the function with this value and type, or a new
  instruction linked before \<open>insert_before\<close> (at the head of the entry block without one). The code
  writes the table of definitions at the new register without a test; the model's table is a
  function and takes the write whatever the register, so what is proved of a new constant holds of the
  code while \<open>n_regs + 1 < MAX_INSTRS\<close>.
\<close>

definition find_const :: "func \<Rightarrow> irtype \<Rightarrow> int64 \<Rightarrow> addr option" where
  "find_const fn ty k =
     find (\<lambda>a. op (heap fn a) = OP_CONST \<and> imm (heap fn a) = k \<and> ir_type (heap fn a) = ty)
       (all_addrs fn)"

definition link_in_block :: "addr \<Rightarrow> addr \<Rightarrow> block \<Rightarrow> block" where
  "link_in_block a new b = (if a \<in> set (instrs b)
     then b\<lparr>instrs := link_before a new (instrs b), n_instrs := n_instrs b + 1\<rparr> else b)"

definition link_instr :: "addr option \<Rightarrow> addr \<Rightarrow> func \<Rightarrow> func" where
  "link_instr ib new fn = (case ib of
      Some a \<Rightarrow> fn\<lparr>blocks := map (map_option (link_in_block a new)) (blocks fn)\<rparr>
    | None \<Rightarrow> upd_blk 0 (\<lambda>b. b\<lparr>instrs := new # instrs b, n_instrs := n_instrs b + 1\<rparr>) fn)"

definition const_instr :: "func \<Rightarrow> irtype \<Rightarrow> int64 \<Rightarrow> instr" where
  "const_instr fn ty k = calloc_instr\<lparr>instr_id := n_regs fn + 1, op := OP_CONST,
     dst := n_regs fn + 1, imm := k, ir_type := ty\<rparr>"

definition make_const :: "func \<Rightarrow> irtype \<Rightarrow> int64 \<Rightarrow> addr option \<Rightarrow> func \<times> regid" where
  "make_const fn ty k ib = (case find_const fn ty k of
      Some a \<Rightarrow> (fn, dst (heap fn a))
    | None \<Rightarrow>
        let new = next_addr fn; r = n_regs fn + 1;
            fn1 = fn\<lparr>heap := (heap fn)(new := const_instr fn ty k), next_addr := new + 1,
                     n_regs := r\<rparr>;
            fn2 = link_instr ib new fn1
        in (fn2\<lparr>def_tab := (def_tab fn2)(r \<mapsto> new)\<rparr>, r))"

section \<open>In-place rewrites\<close>

text \<open>One instruction's uses of a register, replaced; the flag says whether there were any.\<close>

definition uses_in_src :: "regid \<Rightarrow> instr \<Rightarrow> bool" where
  "uses_in_src r i \<longleftrightarrow> (\<exists>k \<in> set [0..<n_src i]. is_reg_operand (op i) k \<and> src i k = r)"

definition replace_uses_instr :: "regid \<Rightarrow> regid \<Rightarrow> instr \<Rightarrow> instr \<times> bool" where
  "replace_uses_instr old new i =
     (let i1 = i\<lparr>src := (\<lambda>k. if k < n_src i \<and> is_reg_operand (op i) k \<and> src i k = old
                            then new else src i k)\<rparr>;
          c1 = uses_in_src old i
      in if op i = OP_PHI
         then (i1\<lparr>phi := map (\<lambda>(r, b). (if r = old then new else r, b)) (phi i)\<rparr>,
               c1 \<or> old \<in> fst ` set (phi i))
         else (i1, c1))"

definition replace_all_uses :: "func \<Rightarrow> regid \<Rightarrow> regid \<Rightarrow> func \<times> bool" where
  "replace_all_uses fn old new =
     rewrite_loop (replace_uses_instr old new) (all_addrs fn) (fn, False)"

text \<open>\<^verbatim>\<open>erase_instr\<close>: unlink from the first block that holds it, forget its definition.\<close>

definition block_of_addr :: "func \<Rightarrow> addr \<Rightarrow> blockid option" where
  "block_of_addr fn a =
     find (\<lambda>b. a \<in> set (blk_instrs (blocks fn ! b))) [0..<n_blocks fn]"

definition erase_instr :: "func \<Rightarrow> addr \<Rightarrow> func \<times> bool" where
  "erase_instr fn a = (case block_of_addr fn a of
      None \<Rightarrow> (fn, False)
    | Some b \<Rightarrow>
        let fn1 = upd_blk b (\<lambda>blk. blk\<lparr>instrs := remove1 a (instrs blk),
                                      n_instrs := n_instrs blk - 1\<rparr>) fn;
            d = dst (heap fn a)
        in (if d \<noteq> 0 \<and> d < MAX_INSTRS
            then fn1\<lparr>def_tab := (def_tab fn1)(d := None)\<rparr> else fn1, True))"

definition rewrite_to_copy :: "regid \<Rightarrow> instr \<Rightarrow> instr" where
  "rewrite_to_copy r i = i\<lparr>op := OP_COPY, src := (src i)(0 := r), n_src := 1\<rparr>"

definition rewrite_to_const :: "int64 \<Rightarrow> instr \<Rightarrow> instr" where
  "rewrite_to_const k i = i\<lparr>op := OP_CONST, imm := k, n_src := 0\<rparr>"

definition count_uses :: "func \<Rightarrow> regid \<Rightarrow> nat" where
  "count_uses fn r = (if r = 0 then 0 else
     sum_list (map (\<lambda>a. let i = heap fn a in
        length (filter (\<lambda>k. src i k = r) [0..<n_src i]) +
        (if op i = OP_PHI then length (filter (\<lambda>p. fst p = r) (phi i)) else 0)) (all_addrs fn)))"

text \<open>\<^verbatim>\<open>resolve_copy\<close> follows at most 100 copies.\<close>

fun resolve_copy_n :: "nat \<Rightarrow> func \<Rightarrow> regid \<Rightarrow> regid" where
  "resolve_copy_n 0 fn r = r"
| "resolve_copy_n (Suc n) fn r = (case def_of fn r of
      None \<Rightarrow> r
    | Some a \<Rightarrow> (if op (heap fn a) = OP_COPY then resolve_copy_n n fn (src1 (heap fn a)) else r))"

definition resolve_copy :: "func \<Rightarrow> regid \<Rightarrow> regid" where
  "resolve_copy fn r = resolve_copy_n 100 fn r"

section \<open>Overflow policy\<close>

definition will_overflow_add :: "irtype \<Rightarrow> int64 \<Rightarrow> int64 \<Rightarrow> bool" where
  "will_overflow_add ty a b = (if ty = IR_TY_I32
     then (let s = a + b in s <s - 2147483648 \<or> 2147483647 <s s)
     else if 0 <s b \<and> int64_max - b <s a then True
     else if b <s 0 \<and> a <s int64_min - b then True
     else False)"

definition sdiv64 :: "int64 \<Rightarrow> int64 \<Rightarrow> int64" where
  "sdiv64 a b = word_of_int (sint a sdiv sint b)"

definition will_overflow_mul :: "irtype \<Rightarrow> int64 \<Rightarrow> int64 \<Rightarrow> bool" where
  "will_overflow_mul ty a b = (if ty = IR_TY_I32
     then (let p = a * b in p <s - 2147483648 \<or> 2147483647 <s p)
     else if 0 <s a \<and> 0 <s b \<and> sdiv64 int64_max b <s a then True
     else if 0 <s a \<and> b <s 0 \<and> b <s sdiv64 int64_min a then True
     else if a <s 0 \<and> 0 <s b \<and> a <s sdiv64 int64_min b then True
     else if a <s 0 \<and> b <s 0 \<and> b <s sdiv64 int64_max a then True
     else False)"

definition is_all_ones_for_type :: "irtype \<Rightarrow> int64 \<Rightarrow> bool" where
  "is_all_ones_for_type ty k = (if ty = IR_TY_I32 \<or> ty = IR_TY_U32
     then k = -1 \<or> (ucast k :: 32 word) = 0xFFFFFFFF
     else k = -1 \<or> k = 0xFFFFFFFFFFFFFFFF)"

section \<open>Tables and counts\<close>

definition rebuild_def_use :: "func \<Rightarrow> func" where
  "rebuild_def_use fn = fn\<lparr>def_tab :=
     fold (\<lambda>a t. let d = dst (heap fn a) in
             if d \<noteq> 0 \<and> d < MAX_INSTRS then t(d \<mapsto> a) else t) (all_addrs fn) (\<lambda>_. None)\<rparr>"

definition fn_count_instructions :: "func \<Rightarrow> nat" where
  "fn_count_instructions fn =
     sum_list (map (\<lambda>bo. case bo of None \<Rightarrow> 0 | Some b \<Rightarrow> n_instrs b) (blocks fn))"

definition fn_count_blocks :: "func \<Rightarrow> nat" where
  "fn_count_blocks fn = length (filter (\<lambda>bo. bo \<noteq> None) (blocks fn))"

definition licm_build_def_block :: "func \<Rightarrow> func" where
  "licm_build_def_block fn =
     for_blk (\<lambda>bi b fn. if \<not> reachable b then fn else
        fold (\<lambda>a fn. let d = dst (heap fn a) in
                if d \<noteq> 0 \<and> d < MAX_INSTRS
                then fn\<lparr>def_block := (def_block fn)(d := bi), def_tab := (def_tab fn)(d \<mapsto> a)\<rparr>
                else fn) (instrs b) fn)
       (\<lambda>fn. fn) (n_blocks fn)
       (fn\<lparr>def_block := (\<lambda>_. NO_BLOCK), def_tab := (\<lambda>_. None)\<rparr>)"

definition max_reg_step :: "instr \<Rightarrow> nat \<Rightarrow> nat" where
  "max_reg_step i m0 =
     (let m1 = (if dst i > m0 \<and> dst i < MAX_INSTRS then dst i else m0);
          m2 = (if src i 0 > m1 \<and> src i 0 < MAX_INSTRS then src i 0 else m1)
      in if src i 1 > m2 \<and> src i 1 < MAX_INSTRS then src i 1 else m2)"

definition fn_max_register :: "func \<Rightarrow> nat" where
  "fn_max_register fn = fold (\<lambda>a m. max_reg_step (heap fn a) m) (all_addrs fn) 0"

section \<open>The overflow policy is exact\<close>

lemma will_overflow_add_exact:
  assumes "ty \<noteq> IR_TY_I32"
  shows "will_overflow_add ty a b \<longleftrightarrow>
    \<not> (- 9223372036854775808 \<le> sint a + sint b \<and> sint a + sint b \<le> 9223372036854775807)"
proof -
  have 1: "0 <s b \<Longrightarrow> sint (int64_max - b) = 9223372036854775807 - sint b"
    using sint64_bounds [of b] by (subst sint64_sub) (auto simp: word_sless_alt)
  have 2: "b <s 0 \<Longrightarrow> sint (int64_min - b) = - 9223372036854775808 - sint b"
    using sint64_bounds [of b] by (subst sint64_sub) (auto simp: word_sless_alt)
  show ?thesis
    using assms 1 2 sint64_bounds [of a] sint64_bounds [of b]
    by (auto simp: will_overflow_add_def word_sless_alt)
qed

lemma will_overflow_add_exact32:
  assumes "- 2147483648 \<le> sint a" "sint a \<le> 2147483647" "- 2147483648 \<le> sint b" "sint b \<le> 2147483647"
  shows "will_overflow_add IR_TY_I32 a b \<longleftrightarrow>
    \<not> (- 2147483648 \<le> sint a + sint b \<and> sint a + sint b \<le> 2147483647)"
proof -
  have "sint (a + b) = sint a + sint b" by (rule sint64_add) (use assms in auto)
  moreover have "sint (-2147483648 :: int64) = -2147483648" using sint64_of_int [of "-2147483648"] by simp
  moreover have "sint (2147483647 :: int64) = 2147483647" using sint64_of_int [of "2147483647"] by simp
  ultimately show ?thesis by (auto simp: will_overflow_add_def word_sless_alt Let_def)
qed

lemma sdiv64_max: "b \<noteq> 0 \<Longrightarrow> sint (sdiv64 int64_max b) = 9223372036854775807 sdiv sint b"
proof -
  assume b: "b \<noteq> 0"
  have "\<bar>9223372036854775807 sdiv sint b\<bar> \<le> 9223372036854775807"
    using b int_div_bounds [of "\<bar>sint b\<bar>" 9223372036854775807]
    by (simp add: signed_divide_int_def abs_mult abs_sgn_eq)
  then show ?thesis unfolding sdiv64_def by (subst sint64_of_int) auto
qed

lemma sdiv64_min: "0 < sint b \<Longrightarrow> sint (sdiv64 int64_min b) = - 9223372036854775808 sdiv sint b"
proof -
  assume b: "0 < sint b"
  have "9223372036854775808 div sint b \<le> 9223372036854775808" "0 \<le> 9223372036854775808 div sint b"
    using int_div_bounds [OF b, of 9223372036854775808] by simp_all
  then show ?thesis using b unfolding sdiv64_def
    by (subst sint64_of_int) (auto simp: signed_divide_int_def sgn_if)
qed

lemma will_overflow_mul_exact:
  assumes "ty \<noteq> IR_TY_I32"
  shows "will_overflow_mul ty a b \<longleftrightarrow>
    \<not> (- 9223372036854775808 \<le> sint a * sint b \<and> sint a * sint b \<le> 9223372036854775807)"
proof -
  consider "sint a = 0 \<or> sint b = 0" | "0 < sint a" "0 < sint b" | "0 < sint a" "sint b < 0"
    | "sint a < 0" "0 < sint b" | "sint a < 0" "sint b < 0" by linarith
  then show ?thesis
  proof cases
    case 1
    then show ?thesis using assms by (auto simp: will_overflow_mul_def word_sless_alt)
  next
    case 2
    then have "b \<noteq> 0" by auto
    with 2 show ?thesis using assms
      by (simp add: will_overflow_mul_def word_sless_alt sdiv64_max sdiv_less_pos)
        (use mult_pos_pos [OF 2] in linarith)
  next
    case 3
    then have "sint a * sint b < 0" by (rule mult_pos_neg)
    with 3 show ?thesis using assms sdiv_greater_neg [of "sint a" "- 9223372036854775808" "sint b"]
      by (simp add: will_overflow_mul_def word_sless_alt sdiv64_min)
  next
    case 4
    then have "sint a * sint b < 0" by (rule mult_neg_pos)
    with 4 show ?thesis using assms sdiv_greater_neg [of "sint b" "- 9223372036854775808" "sint a"]
      by (simp add: will_overflow_mul_def word_sless_alt sdiv64_min mult.commute)
  next
    case 5
    then have "a \<noteq> 0" "0 < sint a * sint b" by (auto intro: mult_neg_neg)
    with 5 show ?thesis using assms
      by (simp add: will_overflow_mul_def word_sless_alt sdiv64_max sdiv_greater_pos_neg)
  qed
qed

section \<open>The in-place rewrites\<close>

text \<open>
  \<open>names_reg i r\<close>: the register is an operand or in a phi entry; \<open>reads\<close> counts the arguments of a call
  as well, which are not operands.
\<close>

definition names_reg :: "instr \<Rightarrow> regid \<Rightarrow> bool" where
  "names_reg i r \<longleftrightarrow> uses_in_src r i \<or> (op i = OP_PHI \<and> r \<in> fst ` set (phi i))"

definition reads :: "instr \<Rightarrow> regid \<Rightarrow> bool" where
  "reads i r \<longleftrightarrow> names_reg i r \<or> (op i = OP_CALL \<and> r \<in> set (call_args i))"

lemma fst_set_map: "fst ` set (map (\<lambda>(r, b). (f r, b)) ps) = f ` fst ` set ps"
  by (induction ps) auto

lemma replace_uses_flag: "snd (replace_uses_instr old new i) = names_reg i old"
  by (auto simp: replace_uses_instr_def names_reg_def Let_def)

lemma replace_uses_reads:
  "names_reg (fst (replace_uses_instr old new i)) r \<longleftrightarrow>
     (r \<noteq> old \<and> names_reg i r) \<or> (r = new \<and> names_reg i old)"
proof -
  let ?f = "\<lambda>q. if q = old then new else q"
  have 1: "uses_in_src r (fst (replace_uses_instr old new i)) \<longleftrightarrow>
      (r \<noteq> old \<and> uses_in_src r i) \<or> (r = new \<and> uses_in_src old i)"
    by (auto simp: replace_uses_instr_def Let_def uses_in_src_def)
  have 2: "fst ` set (phi (fst (replace_uses_instr old new i))) = ?f ` fst ` set (phi i)" if "op i = OP_PHI"
    using that fst_set_map [of ?f "phi i"] by (simp add: replace_uses_instr_def Let_def)
  have 3: "op (fst (replace_uses_instr old new i)) = op i" by (simp add: replace_uses_instr_def Let_def)
  have img: "r \<in> ?f ` F \<longleftrightarrow> (r \<noteq> old \<and> r \<in> F) \<or> (r = new \<and> old \<in> F)" for F by auto
  show ?thesis unfolding names_reg_def 1 3
    by (cases "op i = OP_PHI") (simp only: 2 img, blast, blast)
qed

lemma replace_uses_id: "\<not> names_reg i old \<Longrightarrow> fst (replace_uses_instr old new i) = i"
proof -
  assume n: "\<not> names_reg i old"
  have "map (\<lambda>(r, b). (if r = old then new else r, b)) (phi i) = phi i" if "op i = OP_PHI"
    using n that by (intro map_idI) (force simp: names_reg_def)
  moreover have "(\<lambda>k. if k < n_src i \<and> is_reg_operand (op i) k \<and> src i k = old then new else src i k)
      = src i"
    using n by (auto simp: names_reg_def uses_in_src_def fun_eq_iff)
  ultimately show ?thesis by (simp add: replace_uses_instr_def Let_def)
qed

lemma replace_uses_keeps:
  "op (fst (replace_uses_instr old new i)) = op i" "dst (fst (replace_uses_instr old new i)) = dst i"
  "imm (fst (replace_uses_instr old new i)) = imm i"
  "n_src (fst (replace_uses_instr old new i)) = n_src i"
  "call_args (fst (replace_uses_instr old new i)) = call_args i"
  "map snd (phi (fst (replace_uses_instr old new i))) = map snd (phi i)"
  by (auto simp: replace_uses_instr_def Let_def)

lemma replace_all_uses_eq:
  assumes "heap_ok fn"
  shows "replace_all_uses fn old new =
    (fn\<lparr>heap := (\<lambda>a. if a \<in> set (all_addrs fn) then fst (replace_uses_instr old new (heap fn a))
                    else heap fn a)\<rparr>,
     \<exists>a \<in> set (all_addrs fn). names_reg (heap fn a) old)"
  using assms by (simp add: replace_all_uses_def heap_ok_def rewrite_loop_eq replace_uses_flag rewrite_set_def)

section \<open>Linking and unlinking\<close>

lemma find_Some_in: "find P xs = Some x \<Longrightarrow> x \<in> set xs \<and> P x"
  by (auto simp: find_Some_iff in_set_conv_nth)

lemma find_const_Some: "find_const fn ty k = Some a \<Longrightarrow>
    a \<in> set (all_addrs fn) \<and> op (heap fn a) = OP_CONST \<and> imm (heap fn a) = k \<and> ir_type (heap fn a) = ty"
  unfolding find_const_def by (drule find_Some_in) auto

lemma blk_at_link: "blk_at (link_instr (Some a) new fn) b = map_option (link_in_block a new) (blk_at fn b)"
  by (auto simp: blk_at_def link_instr_def)

lemma all_addrs_link_map:
  "set (concat (map blk_instrs (map (map_option (link_in_block a new)) bs))) =
     (if a \<in> set (concat (map blk_instrs bs)) then insert new else id) (set (concat (map blk_instrs bs)))"
  by (induction bs) (auto simp: blk_instrs_def link_in_block_def set_link_before split: option.splits if_splits)

lemma distinct_link_map:
  assumes "distinct (concat (map blk_instrs bs))" "new \<notin> set (concat (map blk_instrs bs))"
  shows "distinct (concat (map blk_instrs (map (map_option (link_in_block a new)) bs)))"
  using assms
proof (induction bs)
  case (Cons b bs)
  let ?g = "map_option (link_in_block a new)"
  have 1: "set (blk_instrs (?g b)) = (if a \<in> set (blk_instrs b) then insert new else id) (set (blk_instrs b))"
    by (auto simp: blk_instrs_def link_in_block_def set_link_before split: option.splits if_splits)
  have 2: "distinct (blk_instrs (?g b))"
    using Cons.prems by (auto simp: blk_instrs_def link_in_block_def distinct_link_before split: option.splits)
  have 3: "distinct (concat (map blk_instrs (map ?g bs)))" using Cons by simp
  have "set (blk_instrs (?g b)) \<inter> set (concat (map blk_instrs (map ?g bs))) = {}"
    unfolding 1 all_addrs_link_map using Cons.prems by (auto split: if_splits)
  with 2 3 show ?case by simp
qed simp

lemma all_addrs_upd_blk:
  assumes "b < n_blocks fn"
  shows "all_addrs (upd_blk b g fn) = concat (map blk_instrs (take b (blocks fn))) @
    blk_instrs (map_option g (blocks fn ! b)) @ concat (map blk_instrs (drop (Suc b) (blocks fn)))"
    "all_addrs fn = concat (map blk_instrs (take b (blocks fn))) @
    blk_instrs (blocks fn ! b) @ concat (map blk_instrs (drop (Suc b) (blocks fn)))"
proof -
  show "all_addrs (upd_blk b g fn) = concat (map blk_instrs (take b (blocks fn))) @
    blk_instrs (map_option g (blocks fn ! b)) @ concat (map blk_instrs (drop (Suc b) (blocks fn)))"
    using assms by (simp add: all_addrs_def upd_blk_def upd_conv_take_nth_drop)
  show "all_addrs fn = concat (map blk_instrs (take b (blocks fn))) @
    blk_instrs (blocks fn ! b) @ concat (map blk_instrs (drop (Suc b) (blocks fn)))"
    using assms unfolding all_addrs_def by (subst id_take_nth_drop [of b]) auto
qed

lemma heap_ok_link:
  assumes ok: "heap_ok fn" and b0: "blk_at fn 0 = Some e" and fresh: "next_addr fn \<le> new"
    and fn': "fn' = link_instr ib new fn"
  shows "distinct (all_addrs fn')" "set (all_addrs fn') \<subseteq> insert new (set (all_addrs fn))"
    "set (all_addrs fn) \<subseteq> set (all_addrs fn')"
    "new \<in> set (all_addrs fn') \<longleftrightarrow> (\<forall>a. ib = Some a \<longrightarrow> a \<in> set (all_addrs fn))"
proof -
  have new: "new \<notin> set (all_addrs fn)" and d: "distinct (all_addrs fn)"
    using ok fresh by (auto simp: heap_ok_def)
  have all: "distinct (all_addrs fn') \<and> set (all_addrs fn') \<subseteq> insert new (set (all_addrs fn)) \<and>
    set (all_addrs fn) \<subseteq> set (all_addrs fn') \<and>
    (new \<in> set (all_addrs fn') \<longleftrightarrow> (\<forall>a. ib = Some a \<longrightarrow> a \<in> set (all_addrs fn)))"
  proof (cases ib)
    case None
    have lt: "0 < n_blocks fn" using b0 by (rule blk_at_Some_lt)
    then have "blocks fn ! 0 = Some e" using b0 by (simp add: blk_at_def)
    then show ?thesis
      using d new None by (auto simp: fn' link_instr_def all_addrs_upd_blk [OF lt] blk_instrs_def)
  next
    case (Some a)
    have "all_addrs fn' = concat (map blk_instrs (map (map_option (link_in_block a new)) (blocks fn)))"
      by (simp add: fn' Some link_instr_def all_addrs_def)
    then show ?thesis
      using distinct_link_map [of "blocks fn" new a] all_addrs_link_map [of a new "blocks fn"] d new Some
      by (auto simp: all_addrs_def split: if_splits)
  qed
  then show "distinct (all_addrs fn')" "set (all_addrs fn') \<subseteq> insert new (set (all_addrs fn))"
    "set (all_addrs fn) \<subseteq> set (all_addrs fn')"
    "new \<in> set (all_addrs fn') \<longleftrightarrow> (\<forall>a. ib = Some a \<longrightarrow> a \<in> set (all_addrs fn))"
    by blast+
qed

lemma link_in_block_counter:
  "n_instrs b = length (instrs b) \<Longrightarrow> n_instrs (link_in_block a new b) = length (instrs (link_in_block a new b))"
  by (simp add: link_in_block_def length_link_before)

lemma counters_ok_link: "counters_ok fn \<Longrightarrow> counters_ok (link_instr ib new fn)"
proof (rule counters_okI)
  fix b blk
  assume c: "counters_ok fn" and b: "blk_at (link_instr ib new fn) b = Some blk"
  then show "n_instrs blk = length (instrs blk)"
  proof (cases ib)
    case None
    with b c show ?thesis by (auto simp: link_instr_def blk_at_upd_blk counters_ok_blk split: if_splits)
  next
    case (Some a)
    with b c show ?thesis by (auto simp: blk_at_link link_in_block_counter counters_ok_blk)
  qed
qed

lemma link_instr_keeps:
  "heap (link_instr ib new fn) = heap fn" "n_regs (link_instr ib new fn) = n_regs fn"
  "next_addr (link_instr ib new fn) = next_addr fn" "def_tab (link_instr ib new fn) = def_tab fn"
  "n_blocks (link_instr ib new fn) = n_blocks fn"
  by (auto simp: link_instr_def split: option.split)

text \<open>The contract of \<^verbatim>\<open>make_const\<close>.\<close>

lemma make_const_spec:
  assumes ok: "heap_ok fn" "counters_ok fn" and b0: "blk_at fn 0 = Some e"
    and ib: "\<And>a. ib = Some a \<Longrightarrow> a \<in> set (all_addrs fn)"
    and run: "make_const fn ty k ib = (fn', r)"
  shows "heap_ok fn'" "counters_ok fn'" "n_regs fn \<le> n_regs fn'"
    "\<exists>a \<in> set (all_addrs fn'). op (heap fn' a) = OP_CONST \<and> imm (heap fn' a) = k \<and>
       ir_type (heap fn' a) = ty \<and> dst (heap fn' a) = r"
    "\<And>a. a \<in> set (all_addrs fn) \<Longrightarrow> a \<in> set (all_addrs fn') \<and> heap fn' a = heap fn a"
    "\<And>a. a \<in> set (all_addrs fn') \<Longrightarrow> a \<notin> set (all_addrs fn) \<Longrightarrow> heap fn' a = const_instr fn ty k"
proof -
  have all: "heap_ok fn' \<and> counters_ok fn' \<and> n_regs fn \<le> n_regs fn' \<and>
    (\<exists>a \<in> set (all_addrs fn'). op (heap fn' a) = OP_CONST \<and> imm (heap fn' a) = k \<and>
       ir_type (heap fn' a) = ty \<and> dst (heap fn' a) = r) \<and>
    (\<forall>a \<in> set (all_addrs fn). a \<in> set (all_addrs fn') \<and> heap fn' a = heap fn a) \<and>
    (\<forall>a \<in> set (all_addrs fn') - set (all_addrs fn). heap fn' a = const_instr fn ty k)"
  proof (cases "find_const fn ty k")
    case (Some a)
    with run have "fn' = fn" "r = dst (heap fn a)" by (auto simp: make_const_def)
    with ok find_const_Some [OF Some] show ?thesis by auto
  next
    case None
    define fn1 where "fn1 = fn\<lparr>heap := (heap fn)(next_addr fn := const_instr fn ty k),
       next_addr := next_addr fn + 1, n_regs := n_regs fn + 1\<rparr>"
    define fn2 where "fn2 = link_instr ib (next_addr fn) fn1"
    have r: "r = n_regs fn + 1" and fn': "fn' = fn2\<lparr>def_tab := (def_tab fn2)(r \<mapsto> next_addr fn)\<rparr>"
      using run None by (auto simp: make_const_def fn1_def fn2_def Let_def)
    define fn0 where "fn0 = fn\<lparr>heap := (heap fn)(next_addr fn := const_instr fn ty k), n_regs := n_regs fn + 1\<rparr>"
    have a0: "all_addrs fn0 = all_addrs fn" "all_addrs fn1 = all_addrs fn" "blk_at fn0 = blk_at fn"
      by (auto simp: all_addrs_def fn0_def fn1_def blk_at_def)
    have ok0: "heap_ok fn0" using ok(1) by (simp add: heap_ok_def a0) (simp add: fn0_def)
    have same: "blocks (link_instr ib (next_addr fn) fn0) = blocks fn2"
      by (auto simp: fn0_def fn2_def fn1_def link_instr_def upd_blk_def split: option.split)
    have addrs: "all_addrs fn' = all_addrs (link_instr ib (next_addr fn) fn0)"
      by (simp add: fn' all_addrs_def same)
    have e0: "blk_at fn0 0 = Some e" using b0 by (simp add: a0)
    have na: "next_addr fn0 \<le> next_addr fn" by (simp add: fn0_def)
    note L = heap_ok_link [OF ok0 e0 na refl, of ib, folded addrs, unfolded a0]
    have new: "next_addr fn \<in> set (all_addrs fn')" using L(4) ib by blast
    have cnt: "counters_ok fn'"
    proof -
      have "counters_ok fn1" using ok(2) by (simp add: counters_ok_def fn1_def)
      then have "counters_ok fn2" unfolding fn2_def by (rule counters_ok_link)
      then show ?thesis by (simp add: fn' counters_ok_def)
    qed
    have hp: "heap fn' = (heap fn)(next_addr fn := const_instr fn ty k)"
      "next_addr fn' = next_addr fn + 1" "n_regs fn' = n_regs fn + 1"
      by (simp_all add: fn' fn2_def link_instr_keeps fn1_def)
    have "heap_ok fn'"
      using L(1,2) ok(1) by (auto simp: heap_ok_def hp less_Suc_eq)
    moreover have "\<forall>a \<in> set (all_addrs fn). a \<in> set (all_addrs fn') \<and> heap fn' a = heap fn a"
      using L(3) ok(1) by (auto simp: heap_ok_def hp)
    moreover have "\<forall>a \<in> set (all_addrs fn') - set (all_addrs fn). heap fn' a = const_instr fn ty k"
      using L(2) by (auto simp: hp)
    moreover have "\<exists>a \<in> set (all_addrs fn'). op (heap fn' a) = OP_CONST \<and> imm (heap fn' a) = k \<and>
       ir_type (heap fn' a) = ty \<and> dst (heap fn' a) = r"
      using new by (intro bexI [of _ "next_addr fn"]) (auto simp: hp const_instr_def r)
    ultimately show ?thesis using cnt hp by simp
  qed
  then show "heap_ok fn'" "counters_ok fn'" "n_regs fn \<le> n_regs fn'"
    "\<exists>a \<in> set (all_addrs fn'). op (heap fn' a) = OP_CONST \<and> imm (heap fn' a) = k \<and>
       ir_type (heap fn' a) = ty \<and> dst (heap fn' a) = r" by blast+
  from all show "a \<in> set (all_addrs fn') \<and> heap fn' a = heap fn a" if "a \<in> set (all_addrs fn)" for a
    using that by blast
  from all show "heap fn' a = const_instr fn ty k"
    if "a \<in> set (all_addrs fn')" "a \<notin> set (all_addrs fn)" for a
    using that by blast
qed


text \<open>The contract of \<^verbatim>\<open>erase_instr\<close>.\<close>

lemma remove1_middle:
  "distinct (xs @ ys @ zs) \<Longrightarrow> a \<in> set ys \<Longrightarrow>
   set (xs @ remove1 a ys @ zs) = set (xs @ ys @ zs) - {a} \<and> distinct (xs @ remove1 a ys @ zs)"
  by auto

lemma block_of_addr_None: "block_of_addr fn a = None \<longleftrightarrow> a \<notin> set (all_addrs fn)"
  by (auto simp: block_of_addr_def find_None_iff all_addrs_def in_set_conv_nth Ball_def)

lemma block_of_addr_Some:
  "block_of_addr fn a = Some b \<Longrightarrow> b < n_blocks fn \<and> a \<in> set (blk_instrs (blocks fn ! b))"
  unfolding block_of_addr_def by (drule find_Some_in) auto

lemma erase_instr_spec:
  assumes ok: "heap_ok fn" "counters_ok fn" and run: "erase_instr fn a = (fn', done)"
  shows "heap_ok fn'" "counters_ok fn'" "set (all_addrs fn') = set (all_addrs fn) - {a}"
    "heap fn' = heap fn" "done \<longleftrightarrow> a \<in> set (all_addrs fn)" "n_regs fn' = n_regs fn"
    "\<And>r. def_tab fn' r = (if done \<and> r = dst (heap fn a) \<and> r \<noteq> 0 \<and> r < MAX_INSTRS then None else def_tab fn r)"
proof -
  have all: "heap_ok fn' \<and> counters_ok fn' \<and> set (all_addrs fn') = set (all_addrs fn) - {a} \<and>
     heap fn' = heap fn \<and> (done \<longleftrightarrow> a \<in> set (all_addrs fn)) \<and> n_regs fn' = n_regs fn \<and>
     (\<forall>r. def_tab fn' r = (if done \<and> r = dst (heap fn a) \<and> r \<noteq> 0 \<and> r < MAX_INSTRS then None else def_tab fn r))"
  proof (cases "block_of_addr fn a")
    case None
    with run have "fn' = fn" "\<not> done" by (auto simp: erase_instr_def)
    with ok None show ?thesis by (auto simp: block_of_addr_None)
  next
    case (Some b)
    define fn1 where "fn1 = upd_blk b (\<lambda>blk. blk\<lparr>instrs := remove1 a (instrs blk),
                                      n_instrs := n_instrs blk - 1\<rparr>) fn"
    from block_of_addr_Some [OF Some] have lt: "b < n_blocks fn" and "in": "a \<in> set (blk_instrs (blocks fn ! b))"
      by auto
    from "in" obtain blk where blk: "blocks fn ! b = Some blk" and a: "a \<in> set (instrs blk)"
      by (cases "blocks fn ! b") (auto simp: blk_instrs_def)
    have "done" and fn': "blocks fn' = blocks fn1" "heap fn' = heap fn" "next_addr fn' = next_addr fn"
      "n_regs fn' = n_regs fn"
      "\<And>r. def_tab fn' r = (if r = dst (heap fn a) \<and> r \<noteq> 0 \<and> r < MAX_INSTRS then None else def_tab fn r)"
      using run Some by (auto simp: erase_instr_def fn1_def Let_def split: if_splits)
    have aa: "all_addrs fn' = all_addrs fn1" by (simp add: all_addrs_def fn')
    note split = all_addrs_upd_blk [OF lt]
    have mem: "a \<in> set (all_addrs fn)" using a by (simp add: split(2) blk blk_instrs_def)
    have d: "distinct (all_addrs fn)" using ok(1) by (simp add: heap_ok_def)
    have rm: "set (all_addrs fn1) = set (all_addrs fn) - {a}" "distinct (all_addrs fn1)"
      using d a remove1_middle [of "concat (map blk_instrs (take b (blocks fn)))" "instrs blk"
          "concat (map blk_instrs (drop (Suc b) (blocks fn)))" a]
      unfolding fn1_def split by (simp_all add: blk blk_instrs_def del: set_concat)
    have "counters_ok fn'"
    proof (rule counters_okI)
      fix c cb
      assume "blk_at fn' c = Some cb"
      then have "blk_at fn1 c = Some cb" by (simp add: blk_at_Some_iff fn')
      then show "n_instrs cb = length (instrs cb)"
        using ok(2) a blk lt
        by (auto simp: fn1_def blk_at_upd_blk counters_ok_blk length_remove1 blk_at_Some_iff split: if_splits)
    qed
    moreover have "heap_ok fn'" using ok(1) rm by (auto simp: heap_ok_def aa fn')
    ultimately show ?thesis using rm mem \<open>done\<close> by (simp add: aa fn')
  qed
  then show "heap_ok fn'" "counters_ok fn'" "set (all_addrs fn') = set (all_addrs fn) - {a}"
    "heap fn' = heap fn" "done \<longleftrightarrow> a \<in> set (all_addrs fn)" "n_regs fn' = n_regs fn"
    "\<And>r. def_tab fn' r = (if done \<and> r = dst (heap fn a) \<and> r \<noteq> 0 \<and> r < MAX_INSTRS then None else def_tab fn r)"
    by blast+
qed

section \<open>The def-use table\<close>

lemma rebuild_fold:
  "fold (\<lambda>a t. let d = dst (h a) in if d \<noteq> 0 \<and> d < MAX_INSTRS then t(d \<mapsto> a) else t) as t r =
     (if r = 0 \<or> r \<ge> MAX_INSTRS then t r
      else case find (\<lambda>a. dst (h a) = r) (rev as) of None \<Rightarrow> t r | Some a \<Rightarrow> Some a)"
  by (induction as rule: rev_induct) (auto simp: Let_def split: option.split)

text \<open>After \<^verbatim>\<open>rebuild_def_use\<close> the table holds the last definition of every register.\<close>

lemma def_of_rebuild:
  "def_of (rebuild_def_use fn) r = (if r = 0 \<or> r \<ge> MAX_INSTRS then None
     else find (\<lambda>a. dst (heap fn a) = r) (rev (all_addrs fn)))"
  using rebuild_fold [of "heap fn" "all_addrs fn" "\<lambda>_. None" r]
  by (simp add: def_of_def rebuild_def_use_def split: option.split)

lemma rebuild_keeps:
  "heap (rebuild_def_use fn) = heap fn" "blocks (rebuild_def_use fn) = blocks fn"
  "n_regs (rebuild_def_use fn) = n_regs fn" "all_addrs (rebuild_def_use fn) = all_addrs fn"
  "next_addr (rebuild_def_use fn) = next_addr fn"
  by (simp_all add: rebuild_def_use_def all_addrs_def)

text \<open>
  \<open>def_use_ok\<close>: an entry of the table points to a linked instruction that defines the register.
\<close>

definition def_use_ok :: "func \<Rightarrow> bool" where
  "def_use_ok fn \<longleftrightarrow> (\<forall>r a. def_of fn r = Some a \<longrightarrow> a \<in> set (all_addrs fn) \<and> dst (heap fn a) = r)"

definition ssa_unique :: "func \<Rightarrow> bool" where
  "ssa_unique fn \<longleftrightarrow> (\<forall>a \<in> set (all_addrs fn). \<forall>b \<in> set (all_addrs fn).
     dst (heap fn a) = dst (heap fn b) \<longrightarrow> dst (heap fn a) \<noteq> 0 \<longrightarrow> a = b)"

lemma rebuild_def_use_ok: "def_use_ok (rebuild_def_use fn)"
  unfolding def_use_ok_def def_of_rebuild rebuild_keeps by (auto split: if_splits dest!: find_Some_in)

lemma rebuild_def_use_complete:
  assumes "ssa_unique fn" "a \<in> set (all_addrs fn)" "dst (heap fn a) = r" "0 < r" "r < MAX_INSTRS"
  shows "def_of (rebuild_def_use fn) r = Some a"
proof -
  have "find (\<lambda>a. dst (heap fn a) = r) (rev (all_addrs fn)) \<noteq> None"
    using assms by (auto simp: find_None_iff)
  then obtain b where b: "find (\<lambda>a. dst (heap fn a) = r) (rev (all_addrs fn)) = Some b" by blast
  from find_Some_in [OF b] have "b \<in> set (all_addrs fn)" "dst (heap fn b) = r" by auto
  with assms have "b = a" by (auto simp: ssa_unique_def)
  with b assms show ?thesis by (simp add: def_of_rebuild)
qed

section \<open>Properties\<close>

text \<open>
  C27: The overflow policy of the reassociation rules is exact. For a 64-bit type
  \<^verbatim>\<open>will_overflow_add\<close> and \<^verbatim>\<open>will_overflow_mul\<close> hold precisely when the mathematical sum or product
  of the signed operands does not fit 64 bits, although they only compute with 64-bit integers;
  for \<^verbatim>\<open>i32\<close> operands the sum test is exact for the 32-bit range.
\<close>

theorem will_overflow_exact:
  assumes "ty \<noteq> IR_TY_I32"
  shows "(will_overflow_add ty a b \<longleftrightarrow> sint (a + b) \<noteq> sint a + sint b) \<and>
    (will_overflow_mul ty a b \<longleftrightarrow> sint (a * b) \<noteq> sint a * sint b)"
proof -
  have "sint (a + b) \<noteq> sint a + sint b \<longleftrightarrow>
      \<not> (- 9223372036854775808 \<le> sint a + sint b \<and> sint a + sint b \<le> 9223372036854775807)"
    using sint64_bounds [of "a + b"] sint64_add [of a b] by metis
  moreover have "sint (a * b) \<noteq> sint a * sint b \<longleftrightarrow>
      \<not> (- 9223372036854775808 \<le> sint a * sint b \<and> sint a * sint b \<le> 9223372036854775807)"
    using sint64_bounds [of "a * b"] sint64_mult [of a b] by metis
  ultimately show ?thesis
    using will_overflow_add_exact [OF assms] will_overflow_mul_exact [OF assms] by simp
qed

theorem will_overflow_exact_witness:
  "will_overflow_mul IR_TY_I64 int64_min (-1) \<longleftrightarrow> sint (int64_min * -1) \<noteq> sint int64_min * sint (-1 :: int64)"
  using will_overflow_exact [of IR_TY_I64 int64_min "-1"] by blast

text \<open>
  C23: \<^verbatim>\<open>make_const\<close> keeps its contract. On a well-formed function, asked for a constant before a
  linked instruction (or none), it returns the destination of a linked \<^verbatim>\<open>OP_CONST\<close> of this
  value and type, leaves every other instruction in place and unchanged, adds at most that one
  instruction, and keeps the lists and the counters of the blocks well formed.
\<close>

theorem make_const_contract:
  assumes "heap_ok fn" "counters_ok fn" "blk_at fn 0 = Some e"
    and "\<And>a. ib = Some a \<Longrightarrow> a \<in> set (all_addrs fn)"
    and "make_const fn ty k ib = (fn', r)"
  shows "heap_ok fn' \<and> counters_ok fn' \<and>
    (\<exists>a \<in> set (all_addrs fn'). op (heap fn' a) = OP_CONST \<and> imm (heap fn' a) = k \<and>
       ir_type (heap fn' a) = ty \<and> dst (heap fn' a) = r) \<and>
    (\<forall>a \<in> set (all_addrs fn). a \<in> set (all_addrs fn') \<and> heap fn' a = heap fn a) \<and>
    (\<forall>a \<in> set (all_addrs fn') - set (all_addrs fn). heap fn' a = const_instr fn ty k)"
  using make_const_spec [OF assms] by blast

definition demo_helpers :: func where
  "demo_helpers = mk_func [mk_block [0, 1, 2] [] []]
     [mk_const 1 7, mk_instr OP_ADD 2 [1, 1], mk_instr OP_RET 0 [2]] 2"

lemma demo_helpers_ok:
  "heap_ok demo_helpers" "counters_ok demo_helpers" "all_addrs demo_helpers = [0, 1, 2]"
  "blk_at demo_helpers 0 = Some (mk_block [0, 1, 2] [] [])"
  by (simp_all add: demo_helpers_def mk_defs heap_ok_def counters_ok_def all_addrs_def blk_instrs_def
      blk_at_def)

lemma demo_helpers_dst:
  "dst (heap demo_helpers 0) = 1" "dst (heap demo_helpers (Suc 0)) = 2" "dst (heap demo_helpers 2) = 0"
  by (simp_all add: demo_helpers_def mk_defs)

theorem make_const_contract_witness:
  "heap_ok (fst (make_const demo_helpers IR_TY_I64 14 (Some 1)))"
proof -
  obtain fn' r where "make_const demo_helpers IR_TY_I64 14 (Some 1) = (fn', r)" by fastforce
  from make_const_contract [OF demo_helpers_ok(1,2,4) _ this] this show ?thesis
    by (simp add: demo_helpers_ok)
qed

text \<open>
  C24: \<^verbatim>\<open>replace_all_uses\<close> replaces the operands and the phi entries, and leaves the arguments of calls.
  Afterwards an instruction names a register other than the old one exactly if it named it before, or if
  it is the new one and the old one was named. Opcodes, destinations, operand counts, the
  predecessors of phi entries and call arguments stay, and the result says whether an operand or a
  phi entry was replaced. So with different registers the old one is still read exactly by the calls that
  have it as an argument: a caller that erases its definition leaves them without one.
\<close>

theorem replace_all_uses_spares_calls:
  assumes "heap_ok fn" "replace_all_uses fn old new = (fn', changed)"
  shows "all_addrs fn' = all_addrs fn \<and> (changed \<longleftrightarrow> (\<exists>a \<in> set (all_addrs fn). names_reg (heap fn a) old)) \<and>
    (\<forall>a \<in> set (all_addrs fn).
       op (heap fn' a) = op (heap fn a) \<and> dst (heap fn' a) = dst (heap fn a) \<and>
       n_src (heap fn' a) = n_src (heap fn a) \<and> call_args (heap fn' a) = call_args (heap fn a) \<and>
       map snd (phi (heap fn' a)) = map snd (phi (heap fn a))) \<and>
    (\<forall>a \<in> set (all_addrs fn). \<forall>r. names_reg (heap fn' a) r \<longleftrightarrow>
       (r \<noteq> old \<and> names_reg (heap fn a) r) \<or> (r = new \<and> names_reg (heap fn a) old)) \<and>
    (old \<noteq> new \<longrightarrow> (\<forall>a \<in> set (all_addrs fn). reads (heap fn' a) old \<longleftrightarrow>
       op (heap fn a) = OP_CALL \<and> old \<in> set (call_args (heap fn a))))"
proof -
  from assms(2) have "fn' = fn\<lparr>heap := (\<lambda>a. if a \<in> set (all_addrs fn)
        then fst (replace_uses_instr old new (heap fn a)) else heap fn a)\<rparr>"
    and "changed \<longleftrightarrow> (\<exists>a \<in> set (all_addrs fn). names_reg (heap fn a) old)"
    unfolding replace_all_uses_eq [OF assms(1)] by auto
  then show ?thesis by (simp add: replace_uses_reads replace_uses_keeps reads_def)
qed

text \<open>A call of a register and an addition that reads it.\<close>

definition demo_call_use :: func where
  "demo_call_use = mk_func [mk_block [0, 1, 2] [] []]
     [mk_const 1 5, mk_instr OP_ADD 2 [1, 1], (mk_instr OP_CALL 3 [])\<lparr>call_args := [1]\<rparr>] 3"

theorem replace_all_uses_spares_calls_witness:
  "\<not> reads (heap (fst (replace_all_uses demo_call_use 1 9)) 1) 1 \<and> reads (heap (fst (replace_all_uses demo_call_use 1 9)) 2) 1"
proof -
  obtain fn' c where r: "replace_all_uses demo_call_use 1 9 = (fn', c)" by fastforce
  have all: "all_addrs demo_call_use = [0, 1, 2]"
    by (simp add: demo_call_use_def mk_func_def mk_block_def calloc_block_def all_addrs_def blk_instrs_def)
  have h: "heap_ok demo_call_use" by (simp add: heap_ok_def all) (simp add: demo_call_use_def mk_func_def)
  have i: "heap demo_call_use 1 = mk_instr OP_ADD 2 [1, 1]" "heap demo_call_use 2 = (mk_instr OP_CALL 3 [])\<lparr>call_args := [1]\<rparr>"
    by (simp_all add: demo_call_use_def mk_func_def)
  have "\<forall>a \<in> set (all_addrs demo_call_use). reads (heap fn' a) 1 \<longleftrightarrow>
       op (heap demo_call_use a) = OP_CALL \<and> 1 \<in> set (call_args (heap demo_call_use a))"
    using replace_all_uses_spares_calls [OF h r] by simp
  then show ?thesis unfolding r all using i by (simp add: mk_defs)
qed

text \<open>
  C25: \<^verbatim>\<open>erase_instr\<close> unlinks exactly the given instruction. It reports whether the instruction was
  linked; afterwards all the others are linked as before, the block lists and counters are well
  formed, and the def-use table has lost the entry of the erased destination only.
\<close>

theorem erase_instr_unlinks:
  assumes "heap_ok fn" "counters_ok fn" "erase_instr fn a = (fn', done)"
  shows "heap_ok fn' \<and> counters_ok fn' \<and> set (all_addrs fn') = set (all_addrs fn) - {a} \<and>
    heap fn' = heap fn \<and> (done \<longleftrightarrow> a \<in> set (all_addrs fn)) \<and>
    (\<forall>r. r \<noteq> dst (heap fn a) \<longrightarrow> def_tab fn' r = def_tab fn r) \<and>
    (done \<longrightarrow> def_of fn' (dst (heap fn a)) = None)"
  using erase_instr_spec [OF assms] by (auto simp: def_of_def)

theorem erase_instr_unlinks_witness:
  "set (all_addrs (fst (erase_instr demo_helpers 1))) = {0, 2}"
proof -
  obtain fn' d where r: "erase_instr demo_helpers 1 = (fn', d)" by fastforce
  have "set (all_addrs fn') = set (all_addrs demo_helpers) - {1}"
    using erase_instr_unlinks [OF demo_helpers_ok(1,2) r] by (elim conjE)
  then show ?thesis unfolding r demo_helpers_ok(3) by (simp add: insert_Diff_if)
qed

text \<open>
  C26: \<^verbatim>\<open>rebuild_def_use\<close> builds the def-use table: every entry points to a linked instruction that
  defines the register, and when no two linked instructions define the same register, every
  definition of a register below \<^verbatim>\<open>MAX_INSTRS\<close> is found.
\<close>

theorem rebuild_def_use_correct:
  "def_use_ok (rebuild_def_use fn) \<and>
   (ssa_unique fn \<longrightarrow> (\<forall>a \<in> set (all_addrs fn). dst (heap fn a) \<noteq> 0 \<longrightarrow> dst (heap fn a) < MAX_INSTRS \<longrightarrow>
      def_of (rebuild_def_use fn) (dst (heap fn a)) = Some a))"
  using rebuild_def_use_ok rebuild_def_use_complete by auto

theorem rebuild_def_use_correct_witness:
  "def_of (rebuild_def_use demo_helpers) 2 = Some 1"
proof -
  have ssa: "ssa_unique demo_helpers"
    unfolding ssa_unique_def demo_helpers_ok
    by (simp add: demo_helpers_dst)
  note * = rebuild_def_use_correct [THEN conjunct2, THEN mp, OF ssa]
  have "1 \<in> set (all_addrs demo_helpers)" by (simp add: demo_helpers_ok)
  note found = bspec [OF * this]
  have "dst (heap demo_helpers 1) = 2" by (simp add: demo_helpers_dst)
  from found [unfolded this] show ?thesis by (simp add: MAX_INSTRS_def)
qed

end
