(* ===== verification/IR_Verify.thy ===== *)
theory IR_Verify
  imports IR_Helpers
begin

text \<open>
  \<open>src/src/opt/ir_verify.c\<close>: the structural and SSA verifier that runs before and after the
  optimiser. Each check returns its verdict and the report it filled. Then the declarative
  well-formedness that the verdicts decide.
\<close>

section \<open>Reports\<close>

record verify_error =
  err_kind :: string
  err_bb :: nat
  err_inst :: nat
  err_reg :: nat
  err_msg :: string

record verify_report =
  rep_ok :: bool
  rep_errors :: "verify_error list"
  cap_errors :: nat

definition report_error ::
  "string \<Rightarrow> nat \<Rightarrow> nat \<Rightarrow> nat \<Rightarrow> string \<Rightarrow> verify_report \<Rightarrow> verify_report" where
  "report_error kind bb inst reg msg out = out\<lparr>rep_ok := False,
     rep_errors := (if length (rep_errors out) < cap_errors out
       then rep_errors out @ [\<lparr>err_kind = kind, err_bb = bb, err_inst = inst, err_reg = reg,
                               err_msg = msg\<rparr>]
       else rep_errors out)\<rparr>"

type_synonym verdict = "bool \<times> verify_report"

text \<open>\<^verbatim>\<open>report_error(...); ok = false;\<close>\<close>

definition fails :: "string \<Rightarrow> nat \<Rightarrow> nat \<Rightarrow> nat \<Rightarrow> string \<Rightarrow> verdict \<Rightarrow> verdict" where
  "fails kind bb inst reg msg v = (False, report_error kind bb inst reg msg (snd v))"

definition fails_if ::
  "bool \<Rightarrow> string \<Rightarrow> nat \<Rightarrow> nat \<Rightarrow> nat \<Rightarrow> string \<Rightarrow> verdict \<Rightarrow> verdict" where
  "fails_if c kind bb inst reg msg v = (if c then fails kind bb inst reg msg v else v)"

section \<open>Terminators\<close>

text \<open>
  \<^verbatim>\<open>tail->op\<close> of a block whose counter is not zero but whose list is empty would be a null
  dereference; the counters are in step in every function the parser and the passes build, and
  the model reads the terminator of such a block as missing.
\<close>

definition verify_term_block :: "func \<Rightarrow> blockid \<Rightarrow> block \<Rightarrow> verdict \<Rightarrow> verdict" where
  "verify_term_block fn bi bb v =
     (if \<not> reachable bb then v
      else if n_instrs bb = 0 then fails ''E_TERM_001'' bi 0 0 ''missing terminator'' v
      else
        fold (\<lambda>a v. fails_if (a \<noteq> last (instrs bb) \<and> is_terminator (op (heap fn a)))
                ''E_TERM_002'' bi (instr_id (heap fn a)) 0 ''multiple terminators'' v)
          (instrs bb)
          (case tail_of fn bb of
             None \<Rightarrow> fails ''E_TERM_001'' bi 0 0 ''missing terminator'' v
           | Some t \<Rightarrow> fails_if (\<not> is_terminator (op t)) ''E_TERM_001'' bi (instr_id t) 0
                         ''missing terminator'' v))"

definition verify_terminators :: "func \<Rightarrow> verify_report \<Rightarrow> verdict" where
  "verify_terminators fn out =
     for_blk (verify_term_block fn) (\<lambda>_. fn) (n_blocks fn) (True, out)"

section \<open>Control flow graph\<close>

definition tail_id :: "func \<Rightarrow> block \<Rightarrow> nat" where
  "tail_id fn bb = (case tail_of fn bb of None \<Rightarrow> 0 | Some t \<Rightarrow> instr_id t)"

definition verify_succ :: "func \<Rightarrow> blockid \<Rightarrow> block \<Rightarrow> blockid \<Rightarrow> verdict \<Rightarrow> verdict" where
  "verify_succ fn bi bb s v = (case blk_at fn s of
      None \<Rightarrow> fails ''E_CFG_001'' bi (tail_id fn bb) 0 ''unknown target block'' v
    | Some sb \<Rightarrow> fails_if (bi \<notin> set (preds sb)) ''E_CFG_002'' bi (tail_id fn bb) 0
                  ''predecessor/successor consistency mismatch'' v)"

definition verify_pred :: "func \<Rightarrow> blockid \<Rightarrow> blockid \<Rightarrow> verdict \<Rightarrow> verdict" where
  "verify_pred fn bi p v = (case blk_at fn p of
      None \<Rightarrow> fails ''E_CFG_001'' bi 0 0 ''unknown predecessor block'' v
    | Some pb \<Rightarrow> fails_if (bi \<notin> set (succs pb)) ''E_CFG_002'' bi 0 0
                  ''predecessor/successor consistency mismatch'' v)"

definition verify_cfg :: "func \<Rightarrow> verify_report \<Rightarrow> verdict" where
  "verify_cfg fn out =
     (let v0 = (case blk_at fn 0 of
            None \<Rightarrow> (True, out)
          | Some e \<Rightarrow> fails_if (preds e \<noteq> []) ''E_CFG_003'' 0 0 0
                       ''entry block has predecessors'' (True, out))
      in for_blk (\<lambda>bi bb v.
           fold (verify_pred fn bi) (preds bb) (fold (verify_succ fn bi bb) (succs bb) v))
         (\<lambda>_. fn) (n_blocks fn) v0)"

section \<open>SSA form\<close>

text \<open>
  \<open>def_count\<close> is a static array: only the entries up to \<^verbatim>\<open>max_reg\<close> are cleared, the others keep
  what an earlier call left there. It is therefore an argument and a result.
\<close>

type_synonym def_counts = "regid \<Rightarrow> nat"

definition ssa_max_reg :: "func \<Rightarrow> nat" where
  "ssa_max_reg fn = (if fn_max_register fn \<ge> MAX_INSTRS then MAX_INSTRS - 1 else fn_max_register fn)"

definition ssa_init_counts :: "func \<Rightarrow> reg_info \<Rightarrow> def_counts \<Rightarrow> def_counts" where
  "ssa_init_counts fn info stale = (\<lambda>r.
     if r \<le> ssa_max_reg fn then (if 1 \<le> r \<and> g_reg_is_param info r then 1 else 0) else stale r)"

definition ssa_count_def :: "func \<Rightarrow> blockid \<Rightarrow> addr \<Rightarrow> def_counts \<times> verdict \<Rightarrow> def_counts \<times> verdict" where
  "ssa_count_def fn bi a = (\<lambda>(cnt, v).
     let it = heap fn a in
     if dst it = 0 then (cnt, v)
     else if dst it \<ge> MAX_INSTRS then
       (cnt, fails ''E_SSA_002'' bi (instr_id it) (dst it) ''multiple definitions'' v)
     else
       let cnt' = cnt(dst it := cnt (dst it) + 1)
       in (cnt', fails_if (cnt' (dst it) > 1) ''E_SSA_002'' bi (instr_id it) (dst it)
                   ''multiple definitions'' v))"

definition ssa_count_defs :: "func \<Rightarrow> def_counts \<times> verdict \<Rightarrow> def_counts \<times> verdict" where
  "ssa_count_defs fn = for_blk (\<lambda>bi bb s. if \<not> reachable bb then s
       else fold (ssa_count_def fn bi) (instrs bb) s) (\<lambda>_. fn) (n_blocks fn)"

definition undef_use :: "def_counts \<Rightarrow> regid \<Rightarrow> bool" where
  "undef_use cnt r \<longleftrightarrow> r \<ge> MAX_INSTRS \<or> cnt r = 0"

definition ssa_check_operands :: "def_counts \<Rightarrow> blockid \<Rightarrow> instr \<Rightarrow> verdict \<Rightarrow> verdict" where
  "ssa_check_operands cnt bi it v =
     fold (\<lambda>k v. fails_if (is_reg_operand (op it) k \<and> src it k \<noteq> 0 \<and> undef_use cnt (src it k))
              ''E_SSA_001'' bi (instr_id it) (src it k) ''use of undefined value'' v)
       [0..<n_src it] v"

definition ssa_check_phi :: "def_counts \<Rightarrow> blockid \<Rightarrow> instr \<Rightarrow> verdict \<Rightarrow> verdict" where
  "ssa_check_phi cnt bi it v = (if op it \<noteq> OP_PHI then v else
     fold (\<lambda>(r, _) v. fails_if (undef_use cnt r) ''E_SSA_001'' bi (instr_id it) r
              ''use of undefined value'' v) (phi it) v)"

definition ssa_check_types :: "def_counts \<Rightarrow> reg_info \<Rightarrow> blockid \<Rightarrow> instr \<Rightarrow> verdict \<Rightarrow> verdict" where
  "ssa_check_types cnt info bi it v =
     (let v1 = fails_if (op it = OP_CONDBR \<and> src it 0 < MAX_INSTRS \<and>
                  g_reg_types info (src it 0) \<noteq> [] \<and> g_reg_types info (src it 0) \<noteq> ''i1'')
                 ''E_TYPE_001'' bi (instr_id it) (src it 0) ''branch condition must be i1'' v
      in fails_if (op it = OP_RET \<and> n_src it > 0 \<and> src it 0 < MAX_INSTRS \<and> cnt (src it 0) > 0 \<and>
              g_reg_types info (src it 0) \<noteq> [] \<and> g_fn_ret_type info \<noteq> [] \<and>
              g_reg_types info (src it 0) \<noteq> g_fn_ret_type info)
           ''E_TYPE_002'' bi (instr_id it) (src it 0) ''return type mismatch'' v1)"

definition verify_ssa ::
  "func \<Rightarrow> reg_info \<Rightarrow> def_counts \<Rightarrow> verify_report \<Rightarrow> def_counts \<times> verdict" where
  "verify_ssa fn info stale out =
     (let (cnt, v1) = ssa_count_defs fn (ssa_init_counts fn info stale, (True, out))
      in (cnt, for_blk (\<lambda>bi bb v. if \<not> reachable bb then v
            else fold (\<lambda>a v. let it = heap fn a in
                   ssa_check_types cnt info bi it
                     (ssa_check_phi cnt bi it (ssa_check_operands cnt bi it v)))
                 (instrs bb) v)
           (\<lambda>_. fn) (n_blocks fn) v1))"

section \<open>Phi nodes\<close>

definition phi_check_entry ::
  "reg_info \<Rightarrow> blockid \<Rightarrow> block \<Rightarrow> instr \<Rightarrow> nat \<Rightarrow> verdict \<Rightarrow> verdict" where
  "phi_check_entry info bi bb it i v =
     (let (r, p) = phi it ! i;
          v1 = fails_if (p \<notin> set (preds bb)) ''E_PHI_002'' bi (instr_id it) (dst it)
                 ''phi incoming predecessor not found'' v;
          v2 = fails_if (p \<in> snd ` set (take i (phi it))) ''E_PHI_003'' bi (instr_id it) (dst it)
                 ''duplicate phi predecessor'' v1
      in fails_if (r < MAX_INSTRS \<and> dst it < MAX_INSTRS \<and> g_reg_types info r \<noteq> [] \<and>
              g_reg_types info (dst it) \<noteq> [] \<and> g_reg_types info r \<noteq> g_reg_types info (dst it))
           ''E_PHI_004'' bi (instr_id it) (dst it) ''phi incoming type mismatch'' v2)"

definition phi_check_instr ::
  "func \<Rightarrow> reg_info \<Rightarrow> blockid \<Rightarrow> block \<Rightarrow> addr \<Rightarrow> bool \<times> verdict \<Rightarrow> bool \<times> verdict" where
  "phi_check_instr fn info bi bb a = (\<lambda>(seen_non_phi, v).
     let it = heap fn a in
     if op it \<noteq> OP_PHI then (True, v)
     else
       let v1 = fails_if seen_non_phi ''E_PHI_005'' bi (instr_id it) (dst it)
                  ''phi must appear before non-phi'' v;
           v2 = fails_if (length (phi it) \<noteq> length (preds bb)) ''E_PHI_001'' bi (instr_id it)
                  (dst it) ''phi incoming count mismatch'' v1
       in (seen_non_phi, fold (phi_check_entry info bi bb it) [0..<length (phi it)] v2))"

definition verify_phi_wellformed :: "func \<Rightarrow> reg_info \<Rightarrow> verify_report \<Rightarrow> verdict" where
  "verify_phi_wellformed fn info out =
     for_blk (\<lambda>bi bb v. if \<not> reachable bb then v
        else snd (fold (phi_check_instr fn info bi bb) (instrs bb) (False, v)))
       (\<lambda>_. fn) (n_blocks fn) (True, out)"

section \<open>The whole function, the whole module\<close>

text \<open>\<^verbatim>\<open>ok &= ...\<close>: every check runs, whatever the earlier ones found.\<close>

definition verify_function_ir ::
  "func \<Rightarrow> reg_info \<Rightarrow> def_counts \<Rightarrow> verify_report \<Rightarrow> def_counts \<times> verdict" where
  "verify_function_ir fn info stale out =
     (let (ok1, out1) = verify_terminators fn out;
          (ok2, out2) = verify_cfg fn out1;
          (cnt, ok3, out3) = verify_ssa fn info stale out2;
          (ok4, out4) = verify_phi_wellformed fn info out3
      in (cnt, (((True \<and> ok1) \<and> ok2) \<and> ok3) \<and> ok4, out4))"

definition verify_module_ir ::
  "(func \<times> reg_info) list \<Rightarrow> def_counts \<Rightarrow> verify_report \<Rightarrow> def_counts \<times> verdict" where
  "verify_module_ir fs stale out =
     fold (\<lambda>(fn, info) (cnt, ok, out).
        let (cnt', ok', out') = verify_function_ir fn info cnt out in (cnt', ok \<and> ok', out'))
       fs (stale, True, out)"

section \<open>Verdict transformers\<close>

text \<open>
  \<open>checks P f\<close>: the check \<open>f\<close> decides \<open>P\<close>. It lowers the verdict and the report's flag exactly
  when \<open>P\<close> fails, leaves the report alone when \<open>P\<close> holds, and never writes past the capacity of
  the error array. Checks compose.
\<close>

definition report_bounded :: "verify_report \<Rightarrow> bool" where
  "report_bounded out \<longleftrightarrow> length (rep_errors out) \<le> cap_errors out"

definition checks :: "bool \<Rightarrow> (verdict \<Rightarrow> verdict) \<Rightarrow> bool" where
  "checks P f \<longleftrightarrow> (\<forall>v. fst (f v) = (fst v \<and> P) \<and> rep_ok (snd (f v)) = (rep_ok (snd v) \<and> P) \<and>
     (P \<longrightarrow> f v = v) \<and> (report_bounded (snd v) \<longrightarrow> report_bounded (snd (f v))) \<and>
     cap_errors (snd (f v)) = cap_errors (snd v))"

lemma checks_id: "checks True (\<lambda>v. v)"
  by (simp add: checks_def)

lemma checks_fails: "checks False (fails k b i r m)"
  by (auto simp: checks_def fails_def report_error_def report_bounded_def)

lemma checks_fails_if: "checks (\<not> c) (fails_if c k b i r m)"
  by (cases c) (auto simp: checks_def fails_if_def fails_def report_error_def report_bounded_def)

lemma checksD:
  assumes "checks P f"
  shows "fst (f v) = (fst v \<and> P)" "rep_ok (snd (f v)) = (rep_ok (snd v) \<and> P)"
    "P \<Longrightarrow> f v = v" "report_bounded (snd v) \<Longrightarrow> report_bounded (snd (f v))"
    "cap_errors (snd (f v)) = cap_errors (snd v)"
  using assms unfolding checks_def by blast+

lemma checksI:
  assumes "\<And>v. fst (f v) = (fst v \<and> P)" "\<And>v. rep_ok (snd (f v)) = (rep_ok (snd v) \<and> P)"
    "\<And>v. P \<Longrightarrow> f v = v" "\<And>v. report_bounded (snd v) \<Longrightarrow> report_bounded (snd (f v))"
    "\<And>v. cap_errors (snd (f v)) = cap_errors (snd v)"
  shows "checks P f"
  using assms unfolding checks_def by blast

lemma checks_comp:
  assumes f: "checks P f" and g: "checks Q g"
  shows "checks (P \<and> Q) (\<lambda>v. g (f v))"
proof (rule checksI)
  fix v :: verdict
  show "fst (g (f v)) = (fst v \<and> P \<and> Q)"
    by (simp only: checksD(1) [OF f] checksD(1) [OF g] conj_assoc)
  show "rep_ok (snd (g (f v))) = (rep_ok (snd v) \<and> P \<and> Q)"
    by (simp only: checksD(2) [OF f] checksD(2) [OF g] conj_assoc)
  show "g (f v) = v" if "P \<and> Q"
    using that by (simp only: checksD(3) [OF f] checksD(3) [OF g])
  show "report_bounded (snd (g (f v)))" if "report_bounded (snd v)"
    using that by (intro checksD(4) [OF g] checksD(4) [OF f])
  show "cap_errors (snd (g (f v))) = cap_errors (snd v)"
    by (simp only: checksD(5) [OF f] checksD(5) [OF g])
qed

lemma checks_cong: "checks P f \<Longrightarrow> P = Q \<Longrightarrow> checks Q f"
  by simp

lemma checks_fold:
  "(\<And>x. x \<in> set xs \<Longrightarrow> checks (P x) (f x)) \<Longrightarrow> checks (\<forall>x \<in> set xs. P x) (fold f xs)"
proof (induction xs)
  case Nil
  then show ?case by (simp add: checks_id id_def)
next
  case (Cons x xs)
  have "checks (P x \<and> (\<forall>x \<in> set xs. P x)) (\<lambda>v. fold f xs (f x v))"
    by (rule checks_comp) (use Cons in auto)
  then show ?case by (simp add: comp_def)
qed

lemma checks_for_blk:
  assumes "\<And>b blk. blk_at fn b = Some blk \<Longrightarrow> checks (P b blk) (body b blk)"
  shows "checks (\<forall>b blk. blk_at fn b = Some blk \<longrightarrow> P b blk) (for_blk body (\<lambda>_. fn) (n_blocks fn))"
proof -
  have "checks (\<forall>b \<in> set [0..<n_blocks fn]. case blk_at fn b of None \<Rightarrow> True | Some blk \<Rightarrow> P b blk)
     (fold (\<lambda>bi s. case blk_at fn bi of None \<Rightarrow> s | Some b \<Rightarrow> body bi b s) [0..<n_blocks fn])"
    by (rule checks_fold) (auto split: option.split intro: assms checks_id)
  moreover have "(\<forall>b \<in> set [0..<n_blocks fn]. case blk_at fn b of None \<Rightarrow> True | Some blk \<Rightarrow> P b blk)
     \<longleftrightarrow> (\<forall>b blk. blk_at fn b = Some blk \<longrightarrow> P b blk)"
    by (fastforce split: option.splits dest: blk_at_Some_lt)
  ultimately show ?thesis by (simp add: for_blk_def [abs_def])
qed

lemma checks_if_skip:
  "checks P f \<Longrightarrow> checks (c \<or> P) (\<lambda>v. if c then v else f v)"
  by (cases c) (simp_all add: checks_id)

lemmas checks_intros = checks_fails checks_fails_if checks_fold checks_for_blk checks_if_skip

section \<open>What the verifier decides\<close>

definition terminators_ok :: "func \<Rightarrow> bool" where
  "terminators_ok fn \<longleftrightarrow> (\<forall>b blk. blk_at fn b = Some blk \<longrightarrow> reachable blk \<longrightarrow>
     instrs blk \<noteq> [] \<and> is_terminator (op (heap fn (last (instrs blk)))) \<and>
     (\<forall>a \<in> set (butlast (instrs blk)). \<not> is_terminator (op (heap fn a))))"

definition edges_ok :: "func \<Rightarrow> bool" where
  "edges_ok fn \<longleftrightarrow> (\<forall>b blk. blk_at fn b = Some blk \<longrightarrow>
     (\<forall>s \<in> set (succs blk). \<exists>sb. blk_at fn s = Some sb \<and> b \<in> set (preds sb)) \<and>
     (\<forall>p \<in> set (preds blk). \<exists>pb. blk_at fn p = Some pb \<and> b \<in> set (succs pb)))"

definition cfg_ok :: "func \<Rightarrow> bool" where
  "cfg_ok fn \<longleftrightarrow> (\<forall>e. blk_at fn 0 = Some e \<longrightarrow> preds e = []) \<and> edges_ok fn"

definition ssa_defs :: "func \<Rightarrow> regid list" where
  "ssa_defs fn = filter (\<lambda>r. r \<noteq> 0) (map (\<lambda>(b, a). dst (heap fn a)) (reach_list fn))"

definition ssa_defined :: "func \<Rightarrow> reg_info \<Rightarrow> regid \<Rightarrow> bool" where
  "ssa_defined fn info r \<longleftrightarrow> r < MAX_INSTRS \<and>
     (r \<in> set (ssa_defs fn) \<or> (1 \<le> r \<and> r \<le> ssa_max_reg fn \<and> g_reg_is_param info r))"

definition instr_typed :: "func \<Rightarrow> reg_info \<Rightarrow> instr \<Rightarrow> bool" where
  "instr_typed fn info it \<longleftrightarrow>
     (op it = OP_CONDBR \<and> src it 0 < MAX_INSTRS \<longrightarrow>
        g_reg_types info (src it 0) \<in> {[], ''i1''}) \<and>
     (op it = OP_RET \<and> n_src it > 0 \<and> ssa_defined fn info (src it 0) \<and>
        g_reg_types info (src it 0) \<noteq> [] \<and> g_fn_ret_type info \<noteq> [] \<longrightarrow>
        g_reg_types info (src it 0) = g_fn_ret_type info)"

definition ssa_ok :: "func \<Rightarrow> reg_info \<Rightarrow> bool" where
  "ssa_ok fn info \<longleftrightarrow> distinct (ssa_defs fn) \<and>
     (\<forall>r \<in> set (ssa_defs fn). r < MAX_INSTRS \<and> \<not> g_reg_is_param info r) \<and>
     (\<forall>b a. (b, a) \<in> set (reach_list fn) \<longrightarrow>
        (\<forall>k < n_src (heap fn a). is_reg_operand (op (heap fn a)) k \<longrightarrow> src (heap fn a) k \<noteq> 0 \<longrightarrow>
            ssa_defined fn info (src (heap fn a) k)) \<and>
        (op (heap fn a) = OP_PHI \<longrightarrow> (\<forall>p \<in> set (phi (heap fn a)). ssa_defined fn info (fst p))) \<and>
        instr_typed fn info (heap fn a))"

definition phi_entry_ok :: "reg_info \<Rightarrow> block \<Rightarrow> instr \<Rightarrow> bool" where
  "phi_entry_ok info bb it \<longleftrightarrow> length (phi it) = length (preds bb) \<and>
     distinct (map snd (phi it)) \<and>
     (\<forall>(r, p) \<in> set (phi it). p \<in> set (preds bb) \<and>
        (r < MAX_INSTRS \<longrightarrow> dst it < MAX_INSTRS \<longrightarrow> g_reg_types info r \<noteq> [] \<longrightarrow>
         g_reg_types info (dst it) \<noteq> [] \<longrightarrow> g_reg_types info r = g_reg_types info (dst it)))"

definition phis_first :: "func \<Rightarrow> addr list \<Rightarrow> bool" where
  "phis_first fn as \<longleftrightarrow>
     (\<exists>ps ns. as = ps @ ns \<and> (\<forall>a \<in> set ps. op (heap fn a) = OP_PHI) \<and>
        (\<forall>a \<in> set ns. op (heap fn a) \<noteq> OP_PHI))"

definition phi_ok :: "func \<Rightarrow> reg_info \<Rightarrow> bool" where
  "phi_ok fn info \<longleftrightarrow> (\<forall>b blk. blk_at fn b = Some blk \<longrightarrow> reachable blk \<longrightarrow>
     phis_first fn (instrs blk) \<and>
     (\<forall>a \<in> set (instrs blk). op (heap fn a) = OP_PHI \<longrightarrow> phi_entry_ok info blk (heap fn a)))"

subsection \<open>Terminators and edges\<close>

definition term_block_ok :: "func \<Rightarrow> block \<Rightarrow> bool" where
  "term_block_ok fn blk \<longleftrightarrow> (reachable blk \<longrightarrow>
     instrs blk \<noteq> [] \<and> is_terminator (op (heap fn (last (instrs blk)))) \<and>
     (\<forall>a \<in> set (butlast (instrs blk)). \<not> is_terminator (op (heap fn a))))"

lemma verify_term_block_checks:
  assumes n: "n_instrs blk = length (instrs blk)" and d: "distinct (instrs blk)"
  shows "checks (term_block_ok fn blk) (verify_term_block fn b blk)"
proof (cases "reachable blk \<and> instrs blk \<noteq> []")
  case False
  then show ?thesis
    using n checks_fails checks_id
    by (cases "reachable blk") (simp_all add: verify_term_block_def [abs_def] term_block_ok_def)
next
  case True
  have bl: "a \<in> set (butlast (instrs blk)) \<longleftrightarrow> a \<in> set (instrs blk) \<and> a \<noteq> last (instrs blk)" for a
    using d True by (cases "instrs blk" rule: rev_cases) auto
  let ?t = "heap fn (last (instrs blk))"
  have "checks ((\<not> \<not> is_terminator (op ?t)) \<and>
      (\<forall>a \<in> set (instrs blk). \<not> (a \<noteq> last (instrs blk) \<and> is_terminator (op (heap fn a)))))
     (\<lambda>v. fold (\<lambda>a v. fails_if (a \<noteq> last (instrs blk) \<and> is_terminator (op (heap fn a)))
                ''E_TERM_002'' b (instr_id (heap fn a)) 0 ''multiple terminators'' v)
          (instrs blk)
          (fails_if (\<not> is_terminator (op ?t)) ''E_TERM_001'' b (instr_id ?t) 0 ''missing terminator'' v))"
    by (intro checks_comp checks_fails_if checks_fold)
  moreover have "verify_term_block fn b blk = (\<lambda>v. fold (\<lambda>a v. fails_if (a \<noteq> last (instrs blk) \<and> is_terminator (op (heap fn a)))
                ''E_TERM_002'' b (instr_id (heap fn a)) 0 ''multiple terminators'' v)
          (instrs blk)
          (fails_if (\<not> is_terminator (op ?t)) ''E_TERM_001'' b (instr_id ?t) 0 ''missing terminator'' v))"
    using True n by (simp add: verify_term_block_def [abs_def] tail_of_def)
  ultimately show ?thesis
    by (elim ssubst) (erule checks_cong, use True bl in \<open>auto simp: term_block_ok_def\<close>)
qed

lemma verify_terminators_checks:
  assumes "heap_ok fn" and "counters_ok fn"
  shows "checks (terminators_ok fn) (for_blk (verify_term_block fn) (\<lambda>_. fn) (n_blocks fn))"
proof -
  have "checks (\<forall>b blk. blk_at fn b = Some blk \<longrightarrow> term_block_ok fn blk)
      (for_blk (verify_term_block fn) (\<lambda>_. fn) (n_blocks fn))"
    by (rule checks_for_blk, rule verify_term_block_checks)
      (use assms in \<open>auto simp: heap_ok_def intro: distinct_blk counters_ok_blk\<close>)
  then show ?thesis by (simp add: terminators_ok_def term_block_ok_def)
qed

lemma checks_verify_succ:
  "checks (\<exists>sb. blk_at fn s = Some sb \<and> bi \<in> set (preds sb)) (verify_succ fn bi bb s)"
proof (cases "blk_at fn s")
  case None
  then show ?thesis using checks_fails by (simp add: verify_succ_def [abs_def])
next
  case (Some sb)
  have "checks (\<not> bi \<notin> set (preds sb)) (verify_succ fn bi bb s)"
    unfolding verify_succ_def Some by (simp only: option.case checks_fails_if)
  then show ?thesis using Some by (auto intro: checks_cong)
qed

lemma checks_verify_pred:
  "checks (\<exists>pb. blk_at fn p = Some pb \<and> bi \<in> set (succs pb)) (verify_pred fn bi p)"
proof (cases "blk_at fn p")
  case None
  then show ?thesis using checks_fails by (simp add: verify_pred_def [abs_def])
next
  case (Some sb)
  have "checks (\<not> bi \<notin> set (succs sb)) (verify_pred fn bi p)"
    unfolding verify_pred_def Some by (simp only: option.case checks_fails_if)
  then show ?thesis using Some by (auto intro: checks_cong)
qed

lemma verify_edges_checks:
  "checks (edges_ok fn) (for_blk (\<lambda>bi bb v.
      fold (verify_pred fn bi) (preds bb) (fold (verify_succ fn bi bb) (succs bb) v))
         (\<lambda>_. fn) (n_blocks fn))"
  unfolding edges_ok_def
  by (intro checks_for_blk checks_comp checks_fold checks_verify_succ checks_verify_pred)

subsection \<open>Counting definitions\<close>

fun counts_after :: "def_counts \<Rightarrow> regid list \<Rightarrow> def_counts" where
  "counts_after cnt [] = cnt"
| "counts_after cnt (d # ds) =
     counts_after (if d = 0 \<or> d \<ge> MAX_INSTRS then cnt else cnt(d := cnt d + 1)) ds"

fun counts_ok :: "def_counts \<Rightarrow> regid list \<Rightarrow> bool" where
  "counts_ok cnt [] = True"
| "counts_ok cnt (d # ds) =
     ((d \<noteq> 0 \<longrightarrow> d < MAX_INSTRS \<and> cnt d = 0) \<and>
      counts_ok (if d = 0 \<or> d \<ge> MAX_INSTRS then cnt else cnt(d := cnt d + 1)) ds)"

lemma counts_ok_iff:
  "counts_ok cnt ds \<longleftrightarrow> distinct (filter (\<lambda>r. r \<noteq> 0) ds) \<and>
     (\<forall>r \<in> set ds. r \<noteq> 0 \<longrightarrow> r < MAX_INSTRS \<and> cnt r = 0)"
  by (induction ds arbitrary: cnt) (auto split: if_splits)

lemma counts_after_pos:
  "counts_after cnt ds r > 0 \<longleftrightarrow> cnt r > 0 \<or> (r \<noteq> 0 \<and> r < MAX_INSTRS \<and> r \<in> set ds)"
  by (induction ds arbitrary: cnt) (auto split: if_splits)

lemma ssa_count_fold:
  "\<exists>g. checks (counts_ok cnt (map (\<lambda>(b, a). dst (heap fn a)) ps)) g \<and>
     (\<forall>v. fold (\<lambda>(b, a). ssa_count_def fn b a) ps (cnt, v)
          = (counts_after cnt (map (\<lambda>(b, a). dst (heap fn a)) ps), g v))"
proof (induction ps arbitrary: cnt)
  case Nil
  show ?case by (intro exI [of _ "\<lambda>v. v"]) (simp add: checks_id)
next
  case (Cons p ps)
  obtain b a where p: "p = (b, a)" by force
  let ?d = "dst (heap fn a)" and ?id = "instr_id (heap fn a)"
  let ?cnt = "if ?d = 0 \<or> ?d \<ge> MAX_INSTRS then cnt else cnt(?d := cnt ?d + 1)"
  let ?h = "fails_if (\<not> (?d \<noteq> 0 \<longrightarrow> ?d < MAX_INSTRS \<and> cnt ?d = 0)) ''E_SSA_002'' b ?id ?d
     ''multiple definitions''"
  from Cons.IH [of ?cnt] obtain g where
    g: "checks (counts_ok ?cnt (map (\<lambda>(b, a). dst (heap fn a)) ps)) g" and
    eq: "\<And>v. fold (\<lambda>(b, a). ssa_count_def fn b a) ps (?cnt, v)
          = (counts_after ?cnt (map (\<lambda>(b, a). dst (heap fn a)) ps), g v)"
    by blast
  have step: "ssa_count_def fn b a (cnt, v) = (?cnt, ?h v)" for v
    by (auto simp: ssa_count_def_def fails_if_def Let_def)
  have ch: "checks (\<not> \<not> (?d \<noteq> 0 \<longrightarrow> ?d < MAX_INSTRS \<and> cnt ?d = 0) \<and>
      counts_ok ?cnt (map (\<lambda>(b, a). dst (heap fn a)) ps)) (\<lambda>v. g (?h v))"
    by (intro checks_comp g checks_fails_if)
  show ?case
  proof (intro exI conjI allI)
    show "checks (counts_ok cnt (map (\<lambda>(b, a). dst (heap fn a)) (p # ps))) (\<lambda>v. g (?h v))"
      by (rule checks_cong [OF ch]) (simp add: p)
    fix v
    show "fold (\<lambda>(b, a). ssa_count_def fn b a) (p # ps) (cnt, v)
        = (counts_after cnt (map (\<lambda>(b, a). dst (heap fn a)) (p # ps)), g (?h v))"
      using eq [of "?h v"] by (simp only: p fold.simps comp_def prod.case step list.map counts_after.simps)
  qed
qed

lemma max_reg_step_ge: "m \<le> max_reg_step i m"
  by (simp add: max_reg_step_def Let_def)

lemma max_reg_step_dst: "dst i < MAX_INSTRS \<Longrightarrow> dst i \<le> max_reg_step i m"
  by (simp add: max_reg_step_def Let_def)

lemma fold_max_reg_ge: "m \<le> fold (\<lambda>a m. max_reg_step (heap fn a) m) as m"
  by (induction as arbitrary: m) (auto intro: order_trans [OF max_reg_step_ge])

lemma fold_max_reg_dst:
  "a \<in> set as \<Longrightarrow> dst (heap fn a) < MAX_INSTRS \<Longrightarrow>
     dst (heap fn a) \<le> fold (\<lambda>a m. max_reg_step (heap fn a) m) as m"
proof (induction as arbitrary: m)
  case (Cons x as)
  show ?case
  proof (cases "a = x")
    case True
    then have "dst (heap fn a) \<le> max_reg_step (heap fn x) m"
      using Cons.prems(2) max_reg_step_dst by simp
    then show ?thesis using fold_max_reg_ge order_trans by fastforce
  qed (use Cons in auto)
qed simp

lemma fn_max_register_dst:
  "a \<in> set (all_addrs fn) \<Longrightarrow> dst (heap fn a) < MAX_INSTRS \<Longrightarrow> dst (heap fn a) \<le> ssa_max_reg fn"
  using fold_max_reg_dst [of a "all_addrs fn" fn 0] by (auto simp: ssa_max_reg_def fn_max_register_def)

lemma ssa_defs_le_max: "r \<in> set (ssa_defs fn) \<Longrightarrow> r < MAX_INSTRS \<Longrightarrow> 1 \<le> r \<and> r \<le> ssa_max_reg fn"
  by (auto simp: ssa_defs_def dest!: reach_list_all_addrs intro: fn_max_register_dst)

text \<open>With the array cleared (the first function verified), the counts say what is defined.\<close>

definition ssa_counts :: "func \<Rightarrow> reg_info \<Rightarrow> def_counts \<Rightarrow> def_counts" where
  "ssa_counts fn info stale = counts_after (ssa_init_counts fn info stale)
     (map (\<lambda>(b, a). dst (heap fn a)) (reach_list fn))"

lemma undef_use_iff:
  "(\<And>r. ssa_max_reg fn < r \<Longrightarrow> stale r = 0) \<Longrightarrow>
     undef_use (ssa_counts fn info stale) r \<longleftrightarrow> \<not> ssa_defined fn info r"
  using counts_after_pos [of "ssa_init_counts fn info stale"
      "map (\<lambda>(b, a). dst (heap fn a)) (reach_list fn)" r]
  by (auto simp: undef_use_def ssa_counts_def ssa_defined_def ssa_init_counts_def ssa_defs_def
      split: if_splits)

lemma ssa_counts_ok_iff:
  "counts_ok (ssa_init_counts fn info stale) (map (\<lambda>(b, a). dst (heap fn a)) (reach_list fn)) \<longleftrightarrow>
     distinct (ssa_defs fn) \<and>
     (\<forall>r \<in> set (ssa_defs fn). r < MAX_INSTRS \<and> \<not> g_reg_is_param info r)"
proof -
  have "r < MAX_INSTRS \<and> ssa_init_counts fn info stale r = 0 \<longleftrightarrow>
      r < MAX_INSTRS \<and> \<not> g_reg_is_param info r" if "r \<in> set (ssa_defs fn)" for r
    using ssa_defs_le_max [OF that] by (auto simp: ssa_init_counts_def)
  then show ?thesis
    unfolding counts_ok_iff by (auto simp: ssa_defs_def)
qed

subsection \<open>SSA form and phi nodes\<close>

lemma checks_operands:
  "checks (\<forall>k < n_src it. is_reg_operand (op it) k \<longrightarrow> src it k \<noteq> 0 \<longrightarrow> \<not> undef_use cnt (src it k))
     (ssa_check_operands cnt bi it)"
proof -
  have "checks (\<forall>k \<in> set [0..<n_src it]. \<not> (is_reg_operand (op it) k \<and> src it k \<noteq> 0 \<and>
      undef_use cnt (src it k))) (ssa_check_operands cnt bi it)"
    unfolding ssa_check_operands_def by (intro checks_fold checks_fails_if)
  then show ?thesis by (rule checks_cong) auto
qed

lemma checks_phi_uses:
  "checks (op it = OP_PHI \<longrightarrow> (\<forall>p \<in> set (phi it). \<not> undef_use cnt (fst p))) (ssa_check_phi cnt bi it)"
proof (cases "op it = OP_PHI")
  case True
  have "checks (\<forall>p \<in> set (phi it). \<not> undef_use cnt (fst p))
     (fold (\<lambda>(r, _) v. fails_if (undef_use cnt r) ''E_SSA_001'' bi (instr_id it) r
              ''use of undefined value'' v) (phi it))"
    by (rule checks_fold) (auto simp: split_beta intro: checks_fails_if)
  with True show ?thesis by (simp add: ssa_check_phi_def [abs_def])
qed (simp add: ssa_check_phi_def [abs_def] checks_id)

lemma checks_types:
  assumes "\<And>r. undef_use cnt r \<longleftrightarrow> \<not> ssa_defined fn info r"
  shows "checks (instr_typed fn info it) (ssa_check_types cnt info bi it)"
proof -
  have def: "src it 0 < MAX_INSTRS \<and> cnt (src it 0) > 0 \<longleftrightarrow> ssa_defined fn info (src it 0)"
    using assms [of "src it 0"] by (auto simp: undef_use_def)
  have "checks (\<not> (op it = OP_CONDBR \<and> src it 0 < MAX_INSTRS \<and>
                  g_reg_types info (src it 0) \<noteq> [] \<and> g_reg_types info (src it 0) \<noteq> ''i1'') \<and>
      \<not> (op it = OP_RET \<and> n_src it > 0 \<and> src it 0 < MAX_INSTRS \<and> cnt (src it 0) > 0 \<and>
              g_reg_types info (src it 0) \<noteq> [] \<and> g_fn_ret_type info \<noteq> [] \<and>
              g_reg_types info (src it 0) \<noteq> g_fn_ret_type info)) (ssa_check_types cnt info bi it)"
    unfolding ssa_check_types_def Let_def by (intro checks_comp checks_fails_if)
  then show ?thesis by (rule checks_cong) (use def in \<open>auto simp: instr_typed_def\<close>)
qed

lemma verify_ssa_checks:
  assumes stale: "\<And>r. ssa_max_reg fn < r \<Longrightarrow> stale r = 0"
  shows "\<exists>g. checks (ssa_ok fn info) g \<and>
     (\<forall>out. verify_ssa fn info stale out = (ssa_counts fn info stale, g (True, out)))"
proof -
  let ?cnt = "ssa_counts fn info stale"
  let ?use = "\<lambda>bi a v. let it = heap fn a in ssa_check_types ?cnt info bi it
                     (ssa_check_phi ?cnt bi it (ssa_check_operands ?cnt bi it v))"
  let ?U = "\<lambda>a. ((\<forall>k < n_src (heap fn a). is_reg_operand (op (heap fn a)) k \<longrightarrow> src (heap fn a) k \<noteq> 0 \<longrightarrow>
            \<not> undef_use ?cnt (src (heap fn a) k)) \<and>
        (op (heap fn a) = OP_PHI \<longrightarrow> (\<forall>p \<in> set (phi (heap fn a)). \<not> undef_use ?cnt (fst p)))) \<and>
        instr_typed fn info (heap fn a)"
  have undef: "undef_use ?cnt r \<longleftrightarrow> \<not> ssa_defined fn info r" for r
    by (rule undef_use_iff) (rule stale)
  obtain g1 where
    g1: "checks (counts_ok (ssa_init_counts fn info stale)
            (map (\<lambda>(b, a). dst (heap fn a)) (reach_list fn))) g1" and
    eq1: "\<And>v. fold (\<lambda>(b, a). ssa_count_def fn b a) (reach_list fn) (ssa_init_counts fn info stale, v)
          = (?cnt, g1 v)"
    unfolding ssa_counts_def using ssa_count_fold by blast
  have use: "checks (?U a) (?use bi a)" for bi a
    unfolding Let_def by (intro checks_comp checks_operands checks_phi_uses checks_types undef)
  have g2: "checks (\<forall>p \<in> set (reach_list fn). ?U (snd p)) (fold (\<lambda>(b, a). ?use b a) (reach_list fn))"
    by (rule checks_fold) (use use in \<open>simp add: split_beta\<close>)
  have "checks (ssa_ok fn info) (\<lambda>v. fold (\<lambda>(b, a). ?use b a) (reach_list fn) (g1 v))"
    by (rule checks_cong [OF checks_comp [OF g1 g2]])
      (fastforce simp: ssa_counts_ok_iff ssa_ok_def undef)
  moreover have "verify_ssa fn info stale out
      = (?cnt, fold (\<lambda>(b, a). ?use b a) (reach_list fn) (g1 (True, out)))" for out
    by (simp add: verify_ssa_def ssa_count_defs_def for_blk_reach_list eq1)
  ultimately show ?thesis by blast
qed

lemma phis_first_Cons:
  "phis_first fn (a # as) \<longleftrightarrow>
     (if op (heap fn a) = OP_PHI then phis_first fn as else \<forall>b \<in> set as. op (heap fn b) \<noteq> OP_PHI)"
proof (cases "op (heap fn a) = OP_PHI")
  case True
  have "phis_first fn (a # as)" if "phis_first fn as"
  proof -
    from that obtain ps ns where "as = ps @ ns" "\<forall>a \<in> set ps. op (heap fn a) = OP_PHI"
      "\<forall>a \<in> set ns. op (heap fn a) \<noteq> OP_PHI" by (auto simp: phis_first_def)
    with True show ?thesis unfolding phis_first_def by (intro exI [of _ "a # ps"] exI [of _ ns]) auto
  qed
  moreover have "phis_first fn as" if "phis_first fn (a # as)"
  proof -
    from that obtain ps ns where *: "a # as = ps @ ns" "\<forall>a \<in> set ps. op (heap fn a) = OP_PHI"
      "\<forall>a \<in> set ns. op (heap fn a) \<noteq> OP_PHI" by (auto simp: phis_first_def)
    with True have "ps \<noteq> []" by (cases ps) auto
    with * show ?thesis unfolding phis_first_def by (intro exI [of _ "tl ps"] exI [of _ ns]) (cases ps, auto)
  qed
  ultimately show ?thesis using True by auto
next
  case False
  have "phis_first fn (a # as) \<longleftrightarrow> (\<forall>b \<in> set as. op (heap fn b) \<noteq> OP_PHI)"
  proof
    assume "phis_first fn (a # as)"
    then obtain ps ns where *: "a # as = ps @ ns" "\<forall>a \<in> set ps. op (heap fn a) = OP_PHI"
      "\<forall>a \<in> set ns. op (heap fn a) \<noteq> OP_PHI" by (auto simp: phis_first_def)
    with False have "ps = []" by (cases ps) auto
    with * show "\<forall>b \<in> set as. op (heap fn b) \<noteq> OP_PHI" by auto
  next
    assume "\<forall>b \<in> set as. op (heap fn b) \<noteq> OP_PHI"
    with False show "phis_first fn (a # as)"
      unfolding phis_first_def by (intro exI [of _ "[]"] exI [of _ "a # as"]) auto
  qed
  with False show ?thesis by simp
qed

lemma phis_first_Nil: "phis_first fn []"
  by (simp add: phis_first_def)

lemma distinct_map_take:
  "(\<forall>i < length ps. snd (ps ! i) \<notin> snd ` set (take i ps)) \<longleftrightarrow> distinct (map snd ps)"
proof (induction ps rule: rev_induct)
  case (snoc p ps)
  have "(\<forall>i < length (ps @ [p]). snd ((ps @ [p]) ! i) \<notin> snd ` set (take i (ps @ [p]))) \<longleftrightarrow>
      (\<forall>i < length ps. snd (ps ! i) \<notin> snd ` set (take i ps)) \<and> snd p \<notin> snd ` set ps"
    by (auto simp: nth_append All_less_Suc)
  with snoc show ?case by auto
qed simp

lemma checks_phi_entries:
  "checks (phi_entry_ok info bb it)
     (\<lambda>v. fold (phi_check_entry info bi bb it) [0..<length (phi it)]
        (fails_if (length (phi it) \<noteq> length (preds bb)) ''E_PHI_001'' bi (instr_id it) (dst it)
           ''phi incoming count mismatch'' v))"
proof -
  let ?T = "\<lambda>r. r < MAX_INSTRS \<and> dst it < MAX_INSTRS \<and> g_reg_types info r \<noteq> [] \<and>
     g_reg_types info (dst it) \<noteq> [] \<and> g_reg_types info r \<noteq> g_reg_types info (dst it)"
  have ent: "checks ((\<not> snd (phi it ! i) \<notin> set (preds bb) \<and>
        \<not> snd (phi it ! i) \<in> snd ` set (take i (phi it))) \<and> \<not> ?T (fst (phi it ! i)))
      (phi_check_entry info bi bb it i)" for i
    unfolding phi_check_entry_def Let_def split_beta by (intro checks_comp checks_fails_if)
  have "checks (\<not> length (phi it) \<noteq> length (preds bb) \<and> (\<forall>i \<in> set [0..<length (phi it)].
       (\<not> snd (phi it ! i) \<notin> set (preds bb) \<and> \<not> snd (phi it ! i) \<in> snd ` set (take i (phi it))) \<and>
       \<not> ?T (fst (phi it ! i))))
     (\<lambda>v. fold (phi_check_entry info bi bb it) [0..<length (phi it)]
        (fails_if (length (phi it) \<noteq> length (preds bb)) ''E_PHI_001'' bi (instr_id it) (dst it)
           ''phi incoming count mismatch'' v))"
    by (intro checks_comp checks_fails_if checks_fold ent)
  then show ?thesis
  proof (rule checks_cong)
    let ?Q = "\<lambda>p. snd p \<in> set (preds bb) \<and>
        (fst p < MAX_INSTRS \<longrightarrow> dst it < MAX_INSTRS \<longrightarrow> g_reg_types info (fst p) \<noteq> [] \<longrightarrow>
         g_reg_types info (dst it) \<noteq> [] \<longrightarrow> g_reg_types info (fst p) = g_reg_types info (dst it))"
    have "(\<forall>p \<in> set (phi it). ?Q p) \<longleftrightarrow> (\<forall>i < length (phi it). ?Q (phi it ! i))"
      by (rule all_set_conv_all_nth)
    then have "phi_entry_ok info bb it \<longleftrightarrow> length (phi it) = length (preds bb) \<and>
        (\<forall>i < length (phi it). snd (phi it ! i) \<notin> snd ` set (take i (phi it))) \<and>
        (\<forall>i < length (phi it). ?Q (phi it ! i))"
      by (simp only: phi_entry_ok_def distinct_map_take case_prod_unfold)
    then show "(\<not> length (phi it) \<noteq> length (preds bb) \<and> (\<forall>i \<in> set [0..<length (phi it)].
       (\<not> snd (phi it ! i) \<notin> set (preds bb) \<and> \<not> snd (phi it ! i) \<in> snd ` set (take i (phi it))) \<and>
       \<not> ?T (fst (phi it ! i)))) = phi_entry_ok info bb it"
      by (simp only: set_upt atLeastLessThan_iff Ball_def) auto
  qed
qed

lemma phi_fold:
  "\<exists>g. checks ((if seen then \<forall>a \<in> set as. op (heap fn a) \<noteq> OP_PHI else phis_first fn as) \<and>
        (\<forall>a \<in> set as. op (heap fn a) = OP_PHI \<longrightarrow> phi_entry_ok info bb (heap fn a))) g \<and>
     (\<forall>v. snd (fold (phi_check_instr fn info bi bb) as (seen, v)) = g v)"
  (is "\<exists>g. checks (?P seen as \<and> ?E as) g \<and> _")
proof (induction as arbitrary: seen)
  case Nil
  show ?case by (intro exI [of _ "\<lambda>v. v"]) (simp add: checks_id phis_first_Nil)
next
  case (Cons a as)
  let ?it = "heap fn a"
  show ?case
  proof (cases "op ?it = OP_PHI")
    case False
    obtain g where g: "checks (?P True as \<and> ?E as) g"
      "\<And>v. snd (fold (phi_check_instr fn info bi bb) as (True, v)) = g v"
      using Cons.IH [of True] by blast
    have "checks (?P seen (a # as) \<and> ?E (a # as)) g"
      by (rule checks_cong [OF g(1)]) (use False in \<open>auto simp: phis_first_Cons\<close>)
    moreover have "snd (fold (phi_check_instr fn info bi bb) (a # as) (seen, v)) = g v" for v
      using False g(2) by (simp add: phi_check_instr_def)
    ultimately show ?thesis by blast
  next
    case True
    obtain g where g: "checks (?P seen as \<and> ?E as) g"
      "\<And>v. snd (fold (phi_check_instr fn info bi bb) as (seen, v)) = g v"
      using Cons.IH [of seen] by blast
    let ?h = "\<lambda>v. fold (phi_check_entry info bi bb ?it) [0..<length (phi ?it)]
        (fails_if (length (phi ?it) \<noteq> length (preds bb)) ''E_PHI_001'' bi (instr_id ?it) (dst ?it)
           ''phi incoming count mismatch''
        (fails_if seen ''E_PHI_005'' bi (instr_id ?it) (dst ?it)
                  ''phi must appear before non-phi'' v))"
    have "checks ((\<not> seen \<and> phi_entry_ok info bb ?it) \<and> (?P seen as \<and> ?E as)) (\<lambda>v. g (?h v))"
      by (rule checks_comp [OF checks_comp [OF checks_fails_if checks_phi_entries] g(1)])
    then have "checks (?P seen (a # as) \<and> ?E (a # as)) (\<lambda>v. g (?h v))"
      by (rule checks_cong) (use True in \<open>auto simp: phis_first_Cons\<close>)
    moreover have "snd (fold (phi_check_instr fn info bi bb) (a # as) (seen, v)) = g (?h v)" for v
      using True g(2) by (simp add: phi_check_instr_def Let_def)
    ultimately show ?thesis by blast
  qed
qed

lemma verify_phi_checks:
  "checks (phi_ok fn info) (for_blk (\<lambda>bi bb v. if \<not> reachable bb then v
        else snd (fold (phi_check_instr fn info bi bb) (instrs bb) (False, v)))
       (\<lambda>_. fn) (n_blocks fn))"
proof -
  let ?Q = "\<lambda>blk. phis_first fn (instrs blk) \<and>
     (\<forall>a \<in> set (instrs blk). op (heap fn a) = OP_PHI \<longrightarrow> phi_entry_ok info blk (heap fn a))"
  have "checks (\<not> reachable blk \<or> ?Q blk) (\<lambda>v. if \<not> reachable blk then v
        else snd (fold (phi_check_instr fn info b blk) (instrs blk) (False, v)))" for b blk
  proof (rule checks_if_skip)
    obtain g where g: "checks (?Q blk) g"
      "\<And>v. snd (fold (phi_check_instr fn info b blk) (instrs blk) (False, v)) = g v"
      using phi_fold [where seen = False and fn = fn and as = "instrs blk" and info = info and bb = blk
          and bi = b] by auto
    then show "checks (?Q blk) (\<lambda>v. snd (fold (phi_check_instr fn info b blk) (instrs blk) (False, v)))"
      by (simp add: g(2))
  qed
  then have "checks (\<forall>b blk. blk_at fn b = Some blk \<longrightarrow> (\<not> reachable blk \<or> ?Q blk))
     (for_blk (\<lambda>bi bb v. if \<not> reachable bb then v
        else snd (fold (phi_check_instr fn info bi bb) (instrs bb) (False, v)))
       (\<lambda>_. fn) (n_blocks fn))"
    by (intro checks_for_blk)
  then show ?thesis by (rule checks_cong) (auto simp: phi_ok_def)
qed

subsection \<open>The verdict\<close>

definition function_ok :: "func \<Rightarrow> reg_info \<Rightarrow> bool" where
  "function_ok fn info \<longleftrightarrow> terminators_ok fn \<and> cfg_ok fn \<and> ssa_ok fn info \<and> phi_ok fn info"

lemma verify_cfg_result:
  "\<exists>g. checks (cfg_ok fn) g \<and> (\<forall>out. verify_cfg fn out = g (True, out))"
proof -
  let ?F = "for_blk (\<lambda>bi bb v. fold (verify_pred fn bi) (preds bb) (fold (verify_succ fn bi bb) (succs bb) v))
         (\<lambda>_. fn) (n_blocks fn)"
  let ?e = "\<lambda>v. case blk_at fn 0 of None \<Rightarrow> v
     | Some e \<Rightarrow> fails_if (preds e \<noteq> []) ''E_CFG_003'' 0 0 0 ''entry block has predecessors'' v"
  have "checks (\<forall>e. blk_at fn 0 = Some e \<longrightarrow> preds e = []) ?e"
  proof (cases "blk_at fn 0")
    case (Some e)
    have "checks (\<not> preds e \<noteq> []) ?e" using Some by (simp only: option.case checks_fails_if)
    with Some show ?thesis by simp
  qed (simp add: checks_id)
  from checks_comp [OF this verify_edges_checks [of fn]]
  have "checks (cfg_ok fn) (\<lambda>v. ?F (?e v))" by (simp only: cfg_ok_def)
  moreover have "verify_cfg fn out = ?F (?e (True, out))" for out
    by (simp add: verify_cfg_def Let_def cong: option.case_cong)
  ultimately show ?thesis by blast
qed

lemma verify_function_result:
  assumes heap: "heap_ok fn" and cnt: "counters_ok fn"
    and stale: "\<And>r. ssa_max_reg fn < r \<Longrightarrow> stale r = 0"
    and run: "verify_function_ir fn info stale out = (cnt', ok, out')"
  shows "ok = function_ok fn info" "rep_ok out' = (rep_ok out \<and> function_ok fn info)"
    "function_ok fn info \<Longrightarrow> out' = out" "report_bounded out \<Longrightarrow> report_bounded out'"
    "cnt' = ssa_counts fn info stale"
proof -
  let ?t = "for_blk (verify_term_block fn) (\<lambda>_. fn) (n_blocks fn)"
  let ?p = "for_blk (\<lambda>bi bb v. if \<not> reachable bb then v
        else snd (fold (phi_check_instr fn info bi bb) (instrs bb) (False, v))) (\<lambda>_. fn) (n_blocks fn)"
  obtain c where c: "checks (cfg_ok fn) c" and c_eq: "\<And>out. verify_cfg fn out = c (True, out)"
    using verify_cfg_result by blast
  obtain s where s: "checks (ssa_ok fn info) s" and
    s_eq: "\<And>out. verify_ssa fn info stale out = (ssa_counts fn info stale, s (True, out))"
    using verify_ssa_checks [of fn stale info, OF stale] by blast
  have t: "checks (terminators_ok fn) ?t" by (rule verify_terminators_checks [OF heap cnt])
  have p: "checks (phi_ok fn info) ?p" by (rule verify_phi_checks)
  define v1 where "v1 = ?t (True, out)"
  define v2 where "v2 = c (True, snd v1)"
  define v3 where "v3 = s (True, snd v2)"
  define v4 where "v4 = ?p (True, snd v3)"
  have "verify_function_ir fn info stale out =
      (ssa_counts fn info stale, (((True \<and> fst v1) \<and> fst v2) \<and> fst v3) \<and> fst v4, snd v4)"
    by (simp add: verify_function_ir_def verify_terminators_def verify_phi_wellformed_def
        c_eq s_eq v1_def v2_def v3_def v4_def split_beta Let_def)
  with run have ok: "ok = (fst v1 \<and> fst v2 \<and> fst v3 \<and> fst v4)" and out': "out' = snd v4"
    and "cnt' = ssa_counts fn info stale" by auto
  then show "cnt' = ssa_counts fn info stale" by simp
  note D = checksD [OF t, of "(True, out)", folded v1_def] checksD [OF c, of "(True, snd v1)", folded v2_def]
    checksD [OF s, of "(True, snd v2)", folded v3_def] checksD [OF p, of "(True, snd v3)", folded v4_def]
  show "ok = function_ok fn info" "rep_ok out' = (rep_ok out \<and> function_ok fn info)"
    "report_bounded out \<Longrightarrow> report_bounded out'"
    using D by (auto simp: ok out' function_ok_def)
  show "out' = out" if "function_ok fn info"
    using that D by (simp add: out' function_ok_def)
qed

section \<open>Properties\<close>

text \<open>
  C21: The verifier decides well-formedness. On a function whose linked lists are sane, called
  with the static count array still zero above the highest register, \<^verbatim>\<open>verify_function_ir\<close>
  returns true exactly when every reachable block ends in its only terminator, the successor and
  predecessor lists agree and the entry has no predecessor, every register is defined once and
  defined where it is used, and the phi nodes come first, one entry per predecessor and type
  correct. The report's flag says the same, nothing is reported for a good function, and the
  error array is never written past its capacity.
\<close>

theorem verify_function_ir_decides:
  assumes "heap_ok fn" "counters_ok fn" "\<And>r. ssa_max_reg fn < r \<Longrightarrow> stale r = 0"
    and "verify_function_ir fn info stale out = (cnt', ok, out')"
  shows "(ok \<longleftrightarrow> function_ok fn info) \<and> (rep_ok out' \<longleftrightarrow> rep_ok out \<and> function_ok fn info) \<and>
    (function_ok fn info \<longrightarrow> out' = out) \<and> (report_bounded out \<longrightarrow> report_bounded out')"
  using verify_function_result [OF assms] by blast

definition demo_verify :: func where
  "demo_verify = mk_func [mk_block [0, 1] [1] [], mk_block [2, 3] [] [0]]
     [mk_const 1 7, mk_instr OP_BR 0 [1], mk_phi 2 [(1, 0)], mk_instr OP_RET 0 [2]] 2"

definition empty_report :: "nat \<Rightarrow> verify_report" where
  "empty_report n = \<lparr>rep_ok = True, rep_errors = [], cap_errors = n\<rparr>"

lemma demo_verify_ok: "heap_ok demo_verify" "counters_ok demo_verify"
  by (simp_all add: demo_verify_def mk_defs heap_ok_def counters_ok_def all_addrs_def blk_instrs_def
      less_Suc_eq numeral_2_eq_2)

theorem verify_function_ir_decides_witness:
  "function_ok demo_verify no_info \<longleftrightarrow>
     fst (snd (verify_function_ir demo_verify no_info (\<lambda>_. 0) (empty_report 4)))"
  using verify_function_ir_decides [OF demo_verify_ok, of "\<lambda>_. 0" no_info "empty_report 4"]
  by (metis prod.collapse)

text \<open>
  The counts of a function verified earlier survive above the highest register of the next one.
  In \<open>demo_stale_use\<close> the phi reads register 2, which nothing defines; \<^verbatim>\<open>fn_max_register\<close> does not
  look at phi operands, so it is 1 and the entry for register 2 is not cleared.
\<close>

definition demo_two_defs :: func where
  "demo_two_defs = mk_func [mk_block [0, 1, 2] [] []]
     [mk_const 1 7, mk_const 2 8, mk_instr OP_RET 0 [2]] 2"

definition demo_stale_use :: func where
  "demo_stale_use = mk_func [mk_block [0] [1] [], mk_block [1, 2] [] [0]]
     [mk_instr OP_BR 0 [1], mk_phi 1 [(2, 0)], mk_instr OP_RET 0 [1]] 2"

lemma upt_short: "[0..<Suc (Suc 0)] = [0, 1]" "[0..<Suc 0] = [0]" by (simp_all add: upt_rec)

lemma demo_max_register: "fn_max_register demo_stale_use = 1" "fn_max_register demo_two_defs = 2"
  by (simp_all add: fn_max_register_def demo_stale_use_def demo_two_defs_def mk_defs all_addrs_def blk_instrs_def max_reg_step_def MAX_INSTRS_def Let_def)
lemma demo_ssa_max_reg: "ssa_max_reg demo_stale_use = 1" "ssa_max_reg demo_two_defs = 2"
  by (simp_all add: ssa_max_reg_def demo_max_register MAX_INSTRS_def)
lemmas demo_run = verify_module_ir_def verify_function_ir_def verify_terminators_def
  verify_term_block_def tail_of_def is_terminator_def verify_cfg_def verify_succ_def verify_pred_def
  verify_ssa_def ssa_count_defs_def ssa_count_def_def ssa_init_counts_def demo_ssa_max_reg 
  ssa_check_operands_def ssa_check_phi_def ssa_check_types_def undef_use_def MAX_INSTRS_def
  verify_phi_wellformed_def phi_check_instr_def phi_check_entry_def is_reg_operand_def
  for_blk_def blk_at_def fails_if_def fails_def report_error_def upt_short
  empty_report_def


lemma demo_two_defs_run: "fst (verify_function_ir demo_two_defs no_info (\<lambda>_. 0) (empty_report 4)) 2 = 1 \<and>
  snd (verify_function_ir demo_two_defs no_info (\<lambda>_. 0) (empty_report 4)) = (True, empty_report 4)"
  by (simp add: demo_run) (simp add: demo_two_defs_def mk_defs demo_run Let_def)

lemma demo_stale_use_accepted: "cnt 2 = 1 \<Longrightarrow> fst (snd (verify_function_ir demo_stale_use no_info cnt (empty_report 4)))"
  by (simp add: demo_run) (simp add: demo_stale_use_def mk_defs demo_run Let_def)
lemma demo_stale_use_rejected: "cnt 2 = 0 \<Longrightarrow> \<not> fst (snd (verify_function_ir demo_stale_use no_info cnt (empty_report 4)))"
  by (simp add: demo_run) (simp add: demo_stale_use_def mk_defs demo_run Let_def)

text \<open>
  C22: The static array makes the verdict on a function depend on the functions verified before
  it: a function whose phi reads an undefined register is rejected on its own, but accepted when
  it follows a function that defines a register of that number.
\<close>

theorem verify_module_ir_stale_counts:
  "\<not> fst (snd (verify_module_ir [(demo_stale_use, no_info)] (\<lambda>_. 0) (empty_report 4))) \<and>
   fst (snd (verify_module_ir [(demo_two_defs, no_info), (demo_stale_use, no_info)] (\<lambda>_. 0)
     (empty_report 4)))"
  using demo_two_defs_run demo_stale_use_accepted demo_stale_use_rejected
  by (simp add: verify_module_ir_def split_beta)

end
