(* ===== verification/IR_Sem.thy ===== *)
theory IR_Sem
  imports IR_Helpers
begin

text \<open>
  The reference semantics of the IR, against which the transformations are judged. The code has
  no interpreter; the value of an operation is what the code that \<^verbatim>\<open>ir_asm_lower_insn\<close>
  (\<^verbatim>\<open>src/compiler_passes.c\<close>) emits for it leaves in the destination. 64-bit types: wrap-around
  arithmetic; division signed for \<^verbatim>\<open>IR_TY_I64\<close>, with a trap for a zero divisor and for a quotient that
  does not fit, unsigned for \<^verbatim>\<open>IR_TY_U64\<close>; shift counts modulo 64; the right shift logical for both
  types (the emitter prints \<^verbatim>\<open>shrq\<close> for \<^verbatim>\<open>IR_TY_I64\<close> too); comparisons signed for both. 32-bit types: the
  operation on the low halves of the operands, the result extended with zeros, as a write to \<^verbatim>\<open>eax\<close>
  does; a copy extends its source by the type; the right shift of \<^verbatim>\<open>IR_TY_I32\<close> is arithmetic.
  Floating-point instructions, and copies from a floating-point register, which convert, have no
  value. An instruction is \<^verbatim>\<open>wide\<close> if it is a 64-bit integer one. Registers are partial: reading
  one that was never written is stuck. Everything outside the registers (memory, calls, globals,
  inline assembly) is an event whose result the environment chooses.
\<close>

section \<open>Values\<close>

fun bin_val64 :: "opcode \<Rightarrow> bool \<Rightarrow> int64 \<Rightarrow> int64 \<Rightarrow> int64 option" where
  "bin_val64 OP_ADD uns a b = Some (a + b)"
| "bin_val64 OP_SUB uns a b = Some (a - b)"
| "bin_val64 OP_MUL uns a b = Some (a * b)"
| "bin_val64 OP_DIV uns a b = (if uns then (if b = 0 then None else Some (a div b)) else c_sdiv a b)"
| "bin_val64 OP_MOD uns a b = (if uns then (if b = 0 then None else Some (a mod b)) else c_smod a b)"
| "bin_val64 OP_BAND uns a b = Some (a AND b)"
| "bin_val64 OP_BOR uns a b = Some (a OR b)"
| "bin_val64 OP_BXOR uns a b = Some (a XOR b)"
| "bin_val64 OP_SHL uns a b = Some (c_shl a b)"
| "bin_val64 OP_SHR uns a b = Some (c_shr a b)"
| "bin_val64 OP_EQ uns a b = Some (c_bool (a = b))"
| "bin_val64 OP_NE uns a b = Some (c_bool (a \<noteq> b))"
| "bin_val64 OP_LT uns a b = Some (c_bool (a <s b))"
| "bin_val64 OP_LE uns a b = Some (c_bool (a \<le>s b))"
| "bin_val64 OP_GT uns a b = Some (c_bool (b <s a))"
| "bin_val64 OP_GE uns a b = Some (c_bool (b \<le>s a))"
| "bin_val64 _ uns a b = None"

text \<open>The same operations on the low halves.\<close>

fun bin_val32 :: "opcode \<Rightarrow> bool \<Rightarrow> 32 word \<Rightarrow> 32 word \<Rightarrow> 32 word option" where
  "bin_val32 OP_ADD uns a b = Some (a + b)"
| "bin_val32 OP_SUB uns a b = Some (a - b)"
| "bin_val32 OP_MUL uns a b = Some (a * b)"
| "bin_val32 OP_DIV uns a b = (if b = 0 then None else if uns then Some (a div b)
     else if sint a = - 2147483648 \<and> b = - 1 then None else Some (word_of_int (sint a sdiv sint b)))"
| "bin_val32 OP_MOD uns a b = (if b = 0 then None else if uns then Some (a mod b)
     else if sint a = - 2147483648 \<and> b = - 1 then None else Some (word_of_int (sint a smod sint b)))"
| "bin_val32 OP_BAND uns a b = Some (a AND b)"
| "bin_val32 OP_BOR uns a b = Some (a OR b)"
| "bin_val32 OP_BXOR uns a b = Some (a XOR b)"
| "bin_val32 OP_SHL uns a b = Some (push_bit (unat (b AND 31)) a)"
| "bin_val32 OP_SHR uns a b = Some ((if uns then drop_bit else signed_drop_bit) (unat (b AND 31)) a)"
| "bin_val32 OP_EQ uns a b = Some (if a = b then 1 else 0)"
| "bin_val32 OP_NE uns a b = Some (if a \<noteq> b then 1 else 0)"
| "bin_val32 OP_LT uns a b = Some (if a <s b then 1 else 0)"
| "bin_val32 OP_LE uns a b = Some (if a \<le>s b then 1 else 0)"
| "bin_val32 OP_GT uns a b = Some (if b <s a then 1 else 0)"
| "bin_val32 OP_GE uns a b = Some (if b \<le>s a then 1 else 0)"
| "bin_val32 _ uns a b = None"

definition is32 :: "irtype \<Rightarrow> bool" where
  "is32 t \<longleftrightarrow> t = IR_TY_I32 \<or> t = IR_TY_U32"

definition bin_val :: "opcode \<Rightarrow> irtype \<Rightarrow> int64 \<Rightarrow> int64 \<Rightarrow> int64 option" where
  "bin_val opc ty a b = (if is32 ty then map_option ucast (bin_val32 opc (ty = IR_TY_U32) (ucast a) (ucast b))
     else bin_val64 opc (ty = IR_TY_U64) a b)"

text \<open>A register read at a type.\<close>

definition load_as :: "irtype \<Rightarrow> int64 \<Rightarrow> int64" where
  "load_as t v = (if t = IR_TY_I32 then scast (ucast v :: 32 word) else if t = IR_TY_U32 then ucast (ucast v :: 32 word) else v)"

definition is_binop :: "opcode \<Rightarrow> bool" where
  "is_binop opc \<longleftrightarrow> opc \<in> {OP_ADD, OP_SUB, OP_MUL, OP_DIV, OP_MOD, OP_BAND, OP_BOR, OP_BXOR, OP_SHL,
     OP_SHR, OP_EQ, OP_NE, OP_LT, OP_LE, OP_GT, OP_GE}"

definition is_pure :: "opcode \<Rightarrow> bool" where
  "is_pure opc \<longleftrightarrow> opc = OP_CONST \<or> opc = OP_COPY \<or> opc = OP_BNOT \<or> is_binop opc"

text \<open>The value a register-only instruction computes; \<open>None\<close> for the others and for a trap.\<close>

definition value_of :: "instr \<Rightarrow> (regid \<Rightarrow> int64) \<Rightarrow> int64 option" where
  "value_of i \<rho> = (if is_float i \<noteq> 0 then None
     else if op i = OP_CONST then Some (imm i)
     else if op i = OP_COPY then (if src_is_float i \<noteq> 0 then None else Some (load_as (ir_type i) (\<rho> (src1 i))))
     else if op i = OP_BNOT then Some (if is32 (ir_type i) then ucast (NOT (ucast (\<rho> (src1 i)) :: 32 word)) else NOT (\<rho> (src1 i)))
     else bin_val (op i) (ir_type i) (\<rho> (src1 i)) (\<rho> (src2 i)))"

text \<open>The registers that value depends on.\<close>

definition opnds :: "instr \<Rightarrow> regid list" where
  "opnds i = (if op i = OP_CONST then [] else if op i = OP_COPY \<or> op i = OP_BNOT then [src1 i]
     else [src1 i, src2 i])"

lemma bin_val_wide: "ty = IR_TY_I64 \<or> ty = IR_TY_U64 \<Longrightarrow> bin_val opc ty a b = bin_val64 opc (ty = IR_TY_U64) a b"
  by (auto simp: bin_val_def is32_def)

lemma bin_val_binop: "bin_val opc ty a b = Some v \<Longrightarrow> is_binop opc"
  by (cases opc) (auto simp: is_binop_def bin_val_def split: if_splits)

lemma load_as_wide [simp]: "\<not> is32 t \<Longrightarrow> load_as t v = v"
  by (simp add: load_as_def is32_def)

lemma not_is32 [simp]: "\<not> is32 IR_TY_I64" "\<not> is32 IR_TY_U64"
  by (simp_all add: is32_def)

lemma value_of_pure: "value_of i \<rho> = Some v \<Longrightarrow> is_pure (op i)"
  by (auto simp: value_of_def is_pure_def dest: bin_val_binop split: if_splits)

lemma value_of_cong: "(\<And>r. r \<in> set (opnds i) \<Longrightarrow> \<rho> r = \<rho>' r) \<Longrightarrow> value_of i \<rho> = value_of i \<rho>'"
  by (auto simp: value_of_def opnds_def)

section \<open>Consistent assignments\<close>

text \<open>
  An assignment of the registers is consistent with a set of instructions when it satisfies the
  equation \<open>dst = value\<close> of each of them.
\<close>

definition satisfies :: "(regid \<Rightarrow> int64) \<Rightarrow> instr \<Rightarrow> bool" where
  "satisfies \<rho> i \<longleftrightarrow> (dst i \<noteq> 0 \<longrightarrow> (\<forall>v. value_of i \<rho> = Some v \<longrightarrow> \<rho> (dst i) = v))"

definition models :: "func \<Rightarrow> (regid \<Rightarrow> int64) \<Rightarrow> bool" where
  "models fn \<rho> \<longleftrightarrow> (\<forall>a \<in> set (all_addrs fn). satisfies \<rho> (heap fn a))"

text \<open>64-bit integer instructions.\<close>

definition wide :: "instr \<Rightarrow> bool" where
  "wide i \<longleftrightarrow> (ir_type i = IR_TY_I64 \<or> ir_type i = IR_TY_U64) \<and> is_float i = 0 \<and> src_is_float i = 0"

lemma wide_not32 [simp]: "wide i \<Longrightarrow> \<not> is32 (ir_type i)"
  by (auto simp: wide_def is32_def)

end
