(* ===== verification/Arith64.thy ===== *)
theory Arith64
  imports Zcc_Prelude
begin

text \<open>
  Facts about 64-bit words that the strength reductions and the folding rules rest on: powers of
  two as shift amounts, shifts against multiplication, division and masking, and the loops that
  compute a logarithm.
\<close>

section \<open>Shifts by small amounts\<close>

lemma and_63: "n < 64 \<Longrightarrow> unat ((of_nat n :: int64) AND 63) = n"
proof -
  assume n: "n < 64"
  have "(63 :: int64) = mask 6" by (simp add: mask_eq_exp_minus_1)
  then have "(of_nat n :: int64) AND 63 = take_bit 6 (of_nat n)" by (simp add: take_bit_eq_mask)
  then show ?thesis using n
    by (simp add: unsigned_take_bit_eq unat_of_nat take_bit_nat_eq_self)
qed

lemma c_shl_pow2: "m < 64 \<Longrightarrow> c_shl x (of_nat m) = x * 2 ^ m"
  by (simp add: c_shl_def and_63 push_bit_eq_mult)

lemma c_shr_pow2: "m < 64 \<Longrightarrow> c_shr x (of_nat m) = x div 2 ^ m"
  by (simp add: c_shr_def and_63 drop_bit_eq_div)

lemma nat_and_pred_pow2: "0 < n \<Longrightarrow> n AND (n - 1) = 0 \<Longrightarrow> \<exists>m. n = 2 ^ m" for n :: nat
proof -
  assume n: "0 < n" "n AND (n - 1) = 0"
  from n(1) obtain m where m: "2 ^ m \<le> n" "n < 2 ^ Suc m"
    using ex_power_ivl1 [of 2 n] by auto
  have "n \<le> 2 ^ m"
  proof (rule ccontr)
    assume "\<not> n \<le> 2 ^ m"
    then have "2 ^ m \<le> n - 1" "n - 1 < 2 ^ Suc m" using m by auto
    then have "n div 2 ^ m = 1" "(n - 1) div 2 ^ m = 1"
      using m by (auto intro!: div_nat_eqI)
    then have "bit n m" "bit (n - 1) m" by (auto simp: bit_iff_odd)
    then have "bit (n AND (n - 1)) m" by (simp add: bit_and_iff)
    then show False using n(2) by simp
  qed
  with m show ?thesis by (intro exI [of _ m]) simp
qed

lemma pow2_cases:
  assumes "0 <s k" "k AND (k - 1) = (0 :: int64)"
  obtains m where "m < 63" "k = 2 ^ m"
proof -
  from assms(1) have pos: "0 < sint k" by (simp add: word_sless_alt)
  then have u: "uint k = sint k"
    using sint64_bounds(2) [of k] by (simp add: uint_sint take_bit_int_eq_self)
  with pos have u1: "0 < unat k" by (simp add: unat_eq_nat_uint)
  have ub: "unat k < 2 ^ 63" using u sint64_bounds(2) [of k] by (simp add: unat_eq_nat_uint)
  have "unat k AND (unat k - 1) = unat (k AND (k - 1))"
  proof -
    have "k \<noteq> 0" using u1 by auto
    then show ?thesis by (simp add: unsigned_and_eq unat_minus_one)
  qed
  then have "unat k AND (unat k - 1) = 0" using assms(2) by simp
  then obtain m where m: "unat k = 2 ^ m" using nat_and_pred_pow2 [of "unat k"] u1 by auto
  have "k = of_nat (unat k)" by simp
  also have "\<dots> = 2 ^ m" by (simp add: m)
  finally have "k = 2 ^ m" .
  moreover have "m < 63"
  proof -
    have "(2::nat) ^ m < 2 ^ 63" using ub unfolding m .
    then show ?thesis using power_less_imp_less_exp [of "2::nat" m 63] by simp
  qed
  ultimately show thesis using that by blast
qed

lemma sint_pow2: "m < 63 \<Longrightarrow> sint (2 ^ m :: int64) = 2 ^ m"
proof -
  assume "m < 63"
  then have "(2 :: int) ^ m \<le> 2 ^ 62" by (intro power_increasing) auto
  then have "(2 :: int) ^ m \<le> 9223372036854775807" by simp
  moreover have "- 9223372036854775808 \<le> (2 :: int) ^ m"
    using zero_le_power [of "2 :: int" m] by linarith
  ultimately show ?thesis using sint64_of_int [of "2 ^ m"] by simp
qed

lemma double_shl: "x + x = c_shl x 1"
  using c_shl_pow2 [of 1 x] by simp

lemma small_const:
  assumes "\<not> c <s (0::int64)" "\<not> 64 \<le>s c"
  obtains n where "n < 64" "c = of_nat n"
proof -
  have b: "0 \<le> sint c" "sint c < 64"
    using assms sint64_of_int [of 64] by (auto simp: word_sless_alt word_sle_eq)
  have "c = of_nat (nat (sint c))" using b(1) by (simp add: of_nat_nat)
  moreover have "nat (sint c) < 64" using b by simp
  ultimately show thesis using that by blast
qed

lemma shl_shl:
  assumes "\<not> c1 <s (0::int64)" "\<not> 64 \<le>s c1" "\<not> c2 <s 0" "\<not> 64 \<le>s c2"
  shows "64 \<le>s c1 + c2 \<Longrightarrow> c_shl (c_shl x c1) c2 = 0"
    "\<not> 64 \<le>s c1 + c2 \<Longrightarrow> c_shl (c_shl x c1) c2 = c_shl x (c1 + c2)"
proof -
  obtain n where n: "n < 64" "c1 = of_nat n" using small_const [OF assms(1,2)] .
  obtain m where m: "m < 64" "c2 = of_nat m" using small_const [OF assms(3,4)] .
  have e: "c_shl (c_shl x c1) c2 = push_bit (n + m) x"
    using n m by (simp add: c_shl_def and_63 add.commute)
  have s: "64 \<le>s c1 + c2 \<longleftrightarrow> 64 \<le> n + m"
    using n m sint64_of_int [of "int (n + m)"] sint64_of_int [of 64] by (simp add: word_sle_eq) linarith
  show "c_shl (c_shl x c1) c2 = 0" if "64 \<le>s c1 + c2"
    using that e s by (auto intro: bit_word_eqI simp: bit_push_bit_iff)
  show "c_shl (c_shl x c1) c2 = c_shl x (c1 + c2)" if "\<not> 64 \<le>s c1 + c2"
    using that e s and_63 [of "n + m"] n m by (simp add: c_shl_def)
qed

lemma bitwise_facts:
  "(x AND c1) OR (x AND c2) = x AND (c1 OR c2)" "(x AND c1) AND c2 = x AND (c1 AND c2)"
  "(x OR c1) OR c2 = x OR (c1 OR c2)" "(x XOR c1) XOR c2 = x XOR (c1 XOR c2)"
  "(x XOR y) XOR y = x" "(y XOR x) XOR y = x"
  "(x AND y) OR x = x" "(y AND x) OR x = x" "x OR (x AND y) = x" "x OR (y AND x) = x"
  for x y c1 c2 :: int64
  by (auto simp: bit_eq_iff bit_simps)

lemma c_sdiv_1: "c_sdiv x 1 = Some x"
  by (simp add: c_sdiv_def)

lemma sint_c_sar_1: "sint (c_sar v 1) = sint v div 2"
proof -
  have "unat ((1 :: int64) AND 63) = 1" using and_63 [of 1] by simp
  then show ?thesis by (simp add: c_sar_def sint_signed_drop_bit_eq drop_bit_Suc)
qed

lemma c_shl_0_amount: "c_shl x (of_nat 0) = x"
  by simp

lemma mod_pow2_mask: "m < 63 \<Longrightarrow> x mod 2 ^ m = x AND (2 ^ m - 1)" for x :: int64
  by (simp add: take_bit_eq_mask mask_eq_exp_minus_1 flip: take_bit_eq_mod)

end
