(* ===== verification/InstCombine.thy ===== *)
theory InstCombine
  imports IR_Sem Arith64
begin

text \<open>
  \<open>src/src/opt/instcombine_rules.c\<close>, \<open>instcombine_dispatch.c\<close> and \<open>instcombine_pass.c\<close>: the 29
  peephole rules in the order of the table, the dispatcher and the pass. A rule answers \<open>None\<close>
  where the C function returns false (it has changed nothing then) and the rewritten function
  where it returns true. The rules look definitions up in the snapshot of the instructions taken
  at the start of the pass, and resolve copies in the current function.
\<close>

section \<open>The context of a rule\<close>

type_synonym snapshot = "regid \<Rightarrow> instr"
type_synonym ic_rule = "snapshot \<Rightarrow> func \<Rightarrow> addr \<Rightarrow> func option"

definition ic_snapshot_def_of :: "snapshot \<Rightarrow> regid \<Rightarrow> instr option" where
  "ic_snapshot_def_of snap r =
     (if r = 0 \<or> r \<ge> MAX_INSTRS \<or> op (snap r) = OP_NOP then None else Some (snap r))"

definition ic_snapshot_reg_is_const :: "snapshot \<Rightarrow> regid \<Rightarrow> int64 option" where
  "ic_snapshot_reg_is_const snap r = (case ic_snapshot_def_of snap r of
      None \<Rightarrow> None | Some d \<Rightarrow> if op d = OP_CONST then Some (imm d) else None)"

abbreviation sconst :: "snapshot \<Rightarrow> regid \<Rightarrow> int64 option" where
  "sconst \<equiv> ic_snapshot_reg_is_const"

abbreviation sdef :: "snapshot \<Rightarrow> regid \<Rightarrow> instr option" where
  "sdef \<equiv> ic_snapshot_def_of"

text \<open>\<^verbatim>\<open>return rewrite_to_copy(...)\<close>, \<^verbatim>\<open>return rewrite_to_const(...)\<close>.\<close>

definition to_copy :: "func \<Rightarrow> addr \<Rightarrow> regid \<Rightarrow> func option" where
  "to_copy fn a r = Some (upd_instr a (rewrite_to_copy r) fn)"

definition to_const :: "func \<Rightarrow> addr \<Rightarrow> int64 \<Rightarrow> func option" where
  "to_const fn a k = Some (upd_instr a (rewrite_to_const k) fn)"

text \<open>
  The tail that the combining rules share: get a constant, then make the instruction
  \<open>opc resolve_copy(r), constant\<close>. The copy is resolved after the constant was made.
\<close>

definition with_const :: "func \<Rightarrow> addr \<Rightarrow> opcode \<Rightarrow> regid \<Rightarrow> int64 \<Rightarrow> func option" where
  "with_const fn a opc r k =
     (let (fn1, c) = make_const fn (ir_type (heap fn a)) k (Some a)
      in Some (upd_instr a (\<lambda>i. set_src 1 c (set_src 0 (resolve_copy fn1 r) (i\<lparr>op := opc\<rparr>))) fn1))"

section \<open>Rules 1 to 12: identities\<close>

definition ic_rule_add_zero :: ic_rule where
  "ic_rule_add_zero snap fn a = (let it = heap fn a in
     if op it \<noteq> OP_ADD then None
     else if sconst snap (src2 it) = Some 0 then to_copy fn a (src1 it)
     else if sconst snap (src1 it) = Some 0 then to_copy fn a (src2 it)
     else None)"

definition ic_rule_sub_zero :: ic_rule where
  "ic_rule_sub_zero snap fn a = (let it = heap fn a in
     if op it \<noteq> OP_SUB then None
     else if sconst snap (src2 it) = Some 0 then to_copy fn a (src1 it)
     else None)"

definition ic_rule_mul_one :: ic_rule where
  "ic_rule_mul_one snap fn a = (let it = heap fn a in
     if op it \<noteq> OP_MUL then None
     else if sconst snap (src2 it) = Some 1 then to_copy fn a (src1 it)
     else if sconst snap (src1 it) = Some 1 then to_copy fn a (src2 it)
     else None)"

definition ic_rule_mul_zero :: ic_rule where
  "ic_rule_mul_zero snap fn a = (let it = heap fn a in
     if op it \<noteq> OP_MUL then None
     else if sconst snap (src1 it) = Some 0 \<or> sconst snap (src2 it) = Some 0 then to_const fn a 0
     else None)"

text \<open>\<^verbatim>\<open>OP_SDIV\<close> and \<^verbatim>\<open>OP_UDIV\<close> are both macros for \<^verbatim>\<open>OP_DIV\<close>.\<close>

definition ic_rule_div_one :: ic_rule where
  "ic_rule_div_one snap fn a = (let it = heap fn a in
     if op it \<noteq> OP_DIV then None
     else if sconst snap (src2 it) = Some 1 then to_copy fn a (src1 it)
     else None)"

definition ic_rule_and_zero :: ic_rule where
  "ic_rule_and_zero snap fn a = (let it = heap fn a in
     if op it \<noteq> OP_BAND then None
     else if sconst snap (src1 it) = Some 0 \<or> sconst snap (src2 it) = Some 0 then to_const fn a 0
     else None)"

definition ones_const :: "snapshot \<Rightarrow> irtype \<Rightarrow> regid \<Rightarrow> bool" where
  "ones_const snap ty r = (case sconst snap r of None \<Rightarrow> False | Some k \<Rightarrow> is_all_ones_for_type ty k)"

definition ic_rule_and_allones :: ic_rule where
  "ic_rule_and_allones snap fn a = (let it = heap fn a in
     if op it \<noteq> OP_BAND then None
     else if ones_const snap (ir_type it) (src2 it) then to_copy fn a (src1 it)
     else if ones_const snap (ir_type it) (src1 it) then to_copy fn a (src2 it)
     else None)"

definition ic_rule_or_zero :: ic_rule where
  "ic_rule_or_zero snap fn a = (let it = heap fn a in
     if op it \<noteq> OP_BOR then None
     else if sconst snap (src2 it) = Some 0 then to_copy fn a (src1 it)
     else if sconst snap (src1 it) = Some 0 then to_copy fn a (src2 it)
     else None)"

definition ic_rule_xor_zero :: ic_rule where
  "ic_rule_xor_zero snap fn a = (let it = heap fn a in
     if op it \<noteq> OP_BXOR then None
     else if sconst snap (src2 it) = Some 0 then to_copy fn a (src1 it)
     else if sconst snap (src1 it) = Some 0 then to_copy fn a (src2 it)
     else None)"

definition ic_rule_xor_self :: ic_rule where
  "ic_rule_xor_self snap fn a = (let it = heap fn a in
     if op it \<noteq> OP_BXOR then None
     else if src1 it = src2 it then to_const fn a 0
     else None)"

definition ic_rule_sub_self :: ic_rule where
  "ic_rule_sub_self snap fn a = (let it = heap fn a in
     if op it \<noteq> OP_SUB then None
     else if src1 it = src2 it then to_const fn a 0
     else None)"

definition ic_rule_shift_by_zero :: ic_rule where
  "ic_rule_shift_by_zero snap fn a = (let it = heap fn a in
     if op it \<noteq> OP_SHL \<and> op it \<noteq> OP_SHR then None
     else if sconst snap (src2 it) = Some 0 then to_copy fn a (src1 it)
     else None)"

section \<open>Rules 13 to 19: reassociation, comparisons, powers of two\<close>

definition ic_rule_reassoc_add_consts :: ic_rule where
  "ic_rule_reassoc_add_consts snap fn a = (let it = heap fn a in
     if op it \<noteq> OP_ADD then None
     else case sconst snap (src2 it) of None \<Rightarrow> None | Some c2 \<Rightarrow>
     if c2 = 0 then None
     else case sdef snap (src1 it) of None \<Rightarrow> None | Some d \<Rightarrow>
     if op d \<noteq> OP_ADD then None
     else case sconst snap (src2 d) of None \<Rightarrow> None | Some c1 \<Rightarrow>
     if c1 = 0 then None
     else if will_overflow_add (ir_type it) c1 c2 then None
     else with_const fn a OP_ADD (src1 d) (c1 + c2))"

definition ic_rule_reassoc_mul_consts :: ic_rule where
  "ic_rule_reassoc_mul_consts snap fn a = (let it = heap fn a in
     if op it \<noteq> OP_MUL then None
     else case sconst snap (src2 it) of None \<Rightarrow> None | Some c2 \<Rightarrow>
     if c2 = 0 \<or> c2 = 1 then None
     else case sdef snap (src1 it) of None \<Rightarrow> None | Some d \<Rightarrow>
     if op d \<noteq> OP_MUL then None
     else case sconst snap (src2 d) of None \<Rightarrow> None | Some c1 \<Rightarrow>
     if c1 = 0 \<or> c1 = 1 then None
     else if will_overflow_mul (ir_type it) c1 c2 then None
     else with_const fn a OP_MUL (src1 d) (c1 * c2))"

definition ic_rule_icmp_self :: ic_rule where
  "ic_rule_icmp_self snap fn a = (let it = heap fn a in
     if op it \<noteq> OP_EQ \<and> op it \<noteq> OP_NE then None
     else if src1 it \<noteq> src2 it then None
     else to_const fn a (if op it = OP_EQ then 1 else 0))"

text \<open>
  The loop \<^verbatim>\<open>while ((k >> (shift_amt + 1)) != 0) shift_amt++\<close>. It is entered with a positive
  power of two only, for which it ends within 64 rounds.
\<close>

fun shift_amt_from :: "nat \<Rightarrow> int64 \<Rightarrow> nat \<Rightarrow> nat" where
  "shift_amt_from 0 k s = s"
| "shift_amt_from (Suc n) k s =
     (if signed_drop_bit (s + 1) k \<noteq> 0 then shift_amt_from n k (s + 1) else s)"

definition shift_amt :: "int64 \<Rightarrow> nat" where
  "shift_amt k = shift_amt_from 64 k 0"

definition is_pow2 :: "int64 \<Rightarrow> bool" where
  "is_pow2 k \<longleftrightarrow> 1 <s k \<and> k AND (k - 1) = 0"

definition pow2_const :: "snapshot \<Rightarrow> regid \<Rightarrow> int64 option" where
  "pow2_const snap r = (case sconst snap r of None \<Rightarrow> None | Some k \<Rightarrow> if is_pow2 k then Some k else None)"

definition ic_rule_mul_pow2_to_shl :: ic_rule where
  "ic_rule_mul_pow2_to_shl snap fn a = (let it = heap fn a in
     if op it \<noteq> OP_MUL then None
     else case pow2_const snap (src2 it) of
       Some k \<Rightarrow> with_const fn a OP_SHL (src1 it) (of_nat (shift_amt k))
     | None \<Rightarrow> (case pow2_const snap (src1 it) of
         Some k \<Rightarrow> with_const fn a OP_SHL (src2 it) (of_nat (shift_amt k))
       | None \<Rightarrow> None))"

definition ic_rule_icmp_zero_canonical :: ic_rule where
  "ic_rule_icmp_zero_canonical snap fn a = (let it = heap fn a in
     if op it \<noteq> OP_EQ \<and> op it \<noteq> OP_NE then None
     else if sconst snap (src1 it) = Some 0 \<and> sconst snap (src2 it) = None
     then Some (upd_instr a (\<lambda>i. set_src 1 (src1 it) (set_src 0 (src2 it) i)) fn)
     else None)"

definition ic_rule_udiv_pow2_to_shr :: ic_rule where
  "ic_rule_udiv_pow2_to_shr snap fn a = (let it = heap fn a in
     if op it \<noteq> OP_DIV then None
     else case pow2_const snap (src2 it) of None \<Rightarrow> None
       | Some k \<Rightarrow> with_const fn a OP_SHR (src1 it) (of_nat (shift_amt k)))"

definition ic_rule_add_self_to_shl :: ic_rule where
  "ic_rule_add_self_to_shl snap fn a = (let it = heap fn a in
     if op it \<noteq> OP_ADD then None
     else if src1 it \<noteq> 0 \<and> src1 it = src2 it then with_const fn a OP_SHL (src1 it) 1
     else None)"

section \<open>Rules 20 to 30: nested operations, cancellation, absorption\<close>

definition ic_rule_bitwise_distributivity :: ic_rule where
  "ic_rule_bitwise_distributivity snap fn a = (let it = heap fn a in
     if op it \<noteq> OP_BOR then None
     else case sdef snap (src1 it) of None \<Rightarrow> None | Some d1 \<Rightarrow>
     (case sdef snap (src2 it) of None \<Rightarrow> None | Some d2 \<Rightarrow>
     if op d1 \<noteq> OP_BAND \<or> op d2 \<noteq> OP_BAND then None
     else case sconst snap (src2 d1) of None \<Rightarrow> None | Some c1 \<Rightarrow>
     (case sconst snap (src2 d2) of None \<Rightarrow> None | Some c2 \<Rightarrow>
     if src1 d1 \<noteq> src1 d2 then None
     else with_const fn a OP_BAND (src1 d1) (c1 OR c2))))"

text \<open>The shape \<open>(x op c1) op c2\<close>: the inner operand and the two constants.\<close>

definition nested_consts :: "snapshot \<Rightarrow> opcode \<Rightarrow> instr \<Rightarrow> (regid \<times> int64 \<times> int64) option" where
  "nested_consts snap opc it =
     (if op it \<noteq> opc then None
      else case sconst snap (src2 it) of None \<Rightarrow> None | Some c2 \<Rightarrow>
      (case sdef snap (src1 it) of None \<Rightarrow> None | Some d \<Rightarrow>
      if op d \<noteq> opc then None
      else case sconst snap (src2 d) of None \<Rightarrow> None | Some c1 \<Rightarrow> Some (src1 d, c1, c2)))"

definition ic_rule_nested_and_consts :: ic_rule where
  "ic_rule_nested_and_consts snap fn a = (case nested_consts snap OP_BAND (heap fn a) of
      None \<Rightarrow> None | Some (x, c1, c2) \<Rightarrow> with_const fn a OP_BAND x (c1 AND c2))"

definition ic_rule_add_sub_cancel :: ic_rule where
  "ic_rule_add_sub_cancel snap fn a = (let it = heap fn a in
     if op it \<noteq> OP_SUB then None
     else case sdef snap (src1 it) of None \<Rightarrow> None | Some d \<Rightarrow>
     if op d \<noteq> OP_ADD then None
     else if src2 d = src2 it then to_copy fn a (src1 d)
     else if src1 d = src2 it then to_copy fn a (src2 d)
     else None)"

definition ic_rule_sub_add_cancel :: ic_rule where
  "ic_rule_sub_add_cancel snap fn a = (let it = heap fn a in
     if op it \<noteq> OP_ADD then None
     else let second = (case sdef snap (src2 it) of None \<Rightarrow> None | Some d2 \<Rightarrow>
            if op d2 = OP_SUB \<and> src2 d2 = src1 it then to_copy fn a (src1 d2) else None)
     in case sdef snap (src1 it) of None \<Rightarrow> second | Some d1 \<Rightarrow>
        if op d1 = OP_SUB \<and> src2 d1 = src2 it then to_copy fn a (src1 d1) else second)"

definition ic_rule_xor_cancel :: ic_rule where
  "ic_rule_xor_cancel snap fn a = (let it = heap fn a in
     if op it \<noteq> OP_BXOR then None
     else case sdef snap (src1 it) of None \<Rightarrow> None | Some d \<Rightarrow>
     if op d \<noteq> OP_BXOR then None
     else if src2 d = src2 it then to_copy fn a (src1 d)
     else if src1 d = src2 it then to_copy fn a (src2 d)
     else None)"

definition ic_rule_nested_or_consts :: ic_rule where
  "ic_rule_nested_or_consts snap fn a = (case nested_consts snap OP_BOR (heap fn a) of
      None \<Rightarrow> None | Some (x, c1, c2) \<Rightarrow> with_const fn a OP_BOR x (c1 OR c2))"

definition ic_rule_nested_add_consts :: ic_rule where
  "ic_rule_nested_add_consts snap fn a = (case nested_consts snap OP_ADD (heap fn a) of
      None \<Rightarrow> None | Some (x, c1, c2) \<Rightarrow> with_const fn a OP_ADD x (c1 + c2))"

definition ic_rule_nested_xor_consts :: ic_rule where
  "ic_rule_nested_xor_consts snap fn a = (case nested_consts snap OP_BXOR (heap fn a) of
      None \<Rightarrow> None | Some (x, c1, c2) \<Rightarrow> with_const fn a OP_BXOR x (c1 XOR c2))"

definition ic_rule_nested_shl_consts :: ic_rule where
  "ic_rule_nested_shl_consts snap fn a = (case nested_consts snap OP_SHL (heap fn a) of
      None \<Rightarrow> None
    | Some (x, c1, c2) \<Rightarrow>
        if c2 <s 0 \<or> 64 \<le>s c2 \<or> c1 <s 0 \<or> 64 \<le>s c1 then None
        else if 64 \<le>s c1 + c2 then to_const fn a 0
        else with_const fn a OP_SHL x (c1 + c2))"

definition absorb_find :: "snapshot \<Rightarrow> func \<Rightarrow> instr \<Rightarrow> (instr \<times> regid) option" where
  "absorb_find snap fn it =
     (let second = (case sdef snap (src2 it) of None \<Rightarrow> None | Some d2 \<Rightarrow>
            if op d2 = OP_BAND then Some (d2, resolve_copy fn (src1 it)) else None)
      in case sdef snap (src1 it) of None \<Rightarrow> second | Some d1 \<Rightarrow>
         if op d1 = OP_BAND then Some (d1, resolve_copy fn (src2 it)) else second)"

definition ic_rule_absorption_and_or :: ic_rule where
  "ic_rule_absorption_and_or snap fn a = (let it = heap fn a in
     if op it \<noteq> OP_BOR then None
     else case absorb_find snap fn it of None \<Rightarrow> None | Some (and_inst, x_reg) \<Rightarrow>
     if x_reg = 0 then None
     else if resolve_copy fn (src1 and_inst) = x_reg \<or> resolve_copy fn (src2 and_inst) = x_reg
     then to_copy fn a x_reg
     else None)"

section \<open>Dispatch and pass\<close>

definition kRules :: "ic_rule list" where
  "kRules = [ic_rule_add_zero, ic_rule_sub_zero, ic_rule_mul_one, ic_rule_mul_zero,
     ic_rule_div_one, ic_rule_and_zero, ic_rule_and_allones, ic_rule_or_zero, ic_rule_xor_zero,
     ic_rule_xor_self, ic_rule_sub_self, ic_rule_shift_by_zero, ic_rule_reassoc_add_consts,
     ic_rule_reassoc_mul_consts, ic_rule_icmp_self, ic_rule_mul_pow2_to_shl,
     ic_rule_icmp_zero_canonical, ic_rule_udiv_pow2_to_shr, ic_rule_add_self_to_shl,
     ic_rule_bitwise_distributivity, ic_rule_nested_and_consts, ic_rule_add_sub_cancel,
     ic_rule_sub_add_cancel, ic_rule_xor_cancel, ic_rule_nested_or_consts,
     ic_rule_nested_add_consts, ic_rule_nested_xor_consts, ic_rule_nested_shl_consts,
     ic_rule_absorption_and_or]"

fun first_rule :: "ic_rule list \<Rightarrow> ic_rule" where
  "first_rule [] snap fn a = None"
| "first_rule (r # rs) snap fn a = (case r snap fn a of Some fn' \<Rightarrow> Some fn' | None \<Rightarrow> first_rule rs snap fn a)"

definition ic_try_rules :: ic_rule where
  "ic_try_rules = first_rule kRules"

text \<open>
  The snapshot: entries up to \<^verbatim>\<open>max_reg\<close> are the defining instructions by value or \<^verbatim>\<open>OP_NOP\<close>; the
  entries above it are what an earlier call left (\<open>stale\<close>).
\<close>

definition ic_snapshot :: "snapshot \<Rightarrow> func \<Rightarrow> snapshot" where
  "ic_snapshot stale fn =
     (let m = (if fn_max_register fn \<ge> MAX_INSTRS then MAX_INSTRS - 1 else fn_max_register fn)
      in (\<lambda>r. if r \<le> m then (case def_tab fn r of Some a \<Rightarrow> heap fn a | None \<Rightarrow> calloc_instr)
              else stale r))"

definition REWRITE_CAP :: nat where "REWRITE_CAP = 10000"

text \<open>
  The two loops as one over the instructions in list order. The blocks' lists change under the
  loop by insertions before the current instruction only, and \<^verbatim>\<open>next\<close> is read before the rules
  run, so the instructions visited are those linked at the start. After \<^verbatim>\<open>REWRITE_CAP\<close> rewrites
  the loops are left. \<open>R\<close> is \<^verbatim>\<open>ic_try_rules\<close> in the pass.
\<close>

definition combine_step :: "ic_rule \<Rightarrow> snapshot \<Rightarrow> addr \<Rightarrow> func \<times> nat \<Rightarrow> func \<times> nat" where
  "combine_step R snap a = (\<lambda>(fn, rewrites).
     if rewrites \<ge> REWRITE_CAP then (fn, rewrites)
     else case R snap fn a of
       None \<Rightarrow> (fn, rewrites)
     | Some fn' \<Rightarrow> (fn', rewrites + 1))"

definition opt_instcombine_pass :: "snapshot \<Rightarrow> func \<Rightarrow> func \<times> bool" where
  "opt_instcombine_pass stale fn =
     (let fn0 = rebuild_def_use fn;
          snap = ic_snapshot stale fn0;
          (fn1, rewrites) = fold (combine_step ic_try_rules snap) (all_addrs fn0) (fn0, 0)
      in (if rewrites > 0 then rebuild_def_use fn1 else fn1, rewrites > 0))"

section \<open>What a rewrite keeps\<close>

text \<open>
  Register discipline: an instruction that computes a value has a destination; destinations and
  operands are registers the function has handed out; all instructions are 64-bit; division is
  unsigned (rule 18 is wrong for signed division, see below).
\<close>

definition instr_ok :: "nat \<Rightarrow> instr \<Rightarrow> bool" where
  "instr_ok n i \<longleftrightarrow> wide i \<and> dst i \<le> n \<and>
     (is_pure (op i) \<longrightarrow> dst i \<noteq> 0 \<and> (\<forall>r \<in> set (opnds i). r \<le> n)) \<and>
     (op i = OP_DIV \<longrightarrow> ir_type i = IR_TY_U64)"

definition regs_ok :: "func \<Rightarrow> bool" where
  "regs_ok fn \<longleftrightarrow> (\<forall>a \<in> set (all_addrs fn). instr_ok (n_regs fn) (heap fn a))"

text \<open>
  The invariant of the pass for an assignment \<open>\<rho>\<close> that is consistent with the program: it stays
  consistent with the rewritten program and with the snapshot.
\<close>

definition snap_ok :: "snapshot \<Rightarrow> nat \<Rightarrow> (regid \<Rightarrow> int64) \<Rightarrow> bool" where
  "snap_ok snap n \<rho> \<longleftrightarrow> (\<forall>r d. sdef snap r = Some d \<longrightarrow> is_pure (op d) \<longrightarrow>
     wide d \<and> r \<le> n \<and> (\<forall>x \<in> set (opnds d). x \<le> n) \<and> (\<forall>v. value_of d \<rho> = Some v \<longrightarrow> \<rho> r = v))"

definition ic_inv :: "snapshot \<Rightarrow> func \<Rightarrow> (regid \<Rightarrow> int64) \<Rightarrow> bool" where
  "ic_inv snap fn \<rho> \<longleftrightarrow> heap_ok fn \<and> counters_ok fn \<and> blk_at fn 0 \<noteq> None \<and> regs_ok fn \<and>
     def_use_ok fn \<and> models fn \<rho> \<and> snap_ok snap (n_regs fn) \<rho>"

text \<open>What one rewrite of the instruction at \<open>a\<close> does.\<close>

definition ic_post :: "snapshot \<Rightarrow> func \<Rightarrow> addr \<Rightarrow> (regid \<Rightarrow> int64) \<Rightarrow> func \<Rightarrow> bool" where
  "ic_post snap fn a \<rho> fn' \<longleftrightarrow> (\<exists>\<rho>'. ic_inv snap fn' \<rho>' \<and> n_regs fn \<le> n_regs fn' \<and>
     (\<forall>r \<le> n_regs fn. \<rho>' r = \<rho> r) \<and> set (all_addrs fn) \<subseteq> set (all_addrs fn') \<and>
     (\<forall>b \<in> set (all_addrs fn). dst (heap fn' b) = dst (heap fn b) \<and>
        value_of (heap fn' b) \<rho>' = value_of (heap fn b) \<rho> \<and> (b \<noteq> a \<or> \<not> is_binop (op (heap fn b)) \<longrightarrow> heap fn' b = heap fn b)))"

lemma instr_ok_mono: "instr_ok n i \<Longrightarrow> n \<le> m \<Longrightarrow> instr_ok m i"
  by (fastforce simp: instr_ok_def)

lemma wide_bin_val: "wide i \<Longrightarrow> bin_val opc (ir_type i) a b = bin_val64 opc (ir_type i = IR_TY_U64) a b"
  by (auto simp: wide_def intro: bin_val_wide)

lemma sconst_value:
  assumes "ic_inv snap fn \<rho>" "sconst snap r = Some k"
  shows "\<rho> r = k"
proof -
  from assms(2) obtain d where d: "sdef snap r = Some d" "op d = OP_CONST" "imm d = k"
    by (auto simp: ic_snapshot_reg_is_const_def split: option.splits if_splits)
  with assms(1) have "wide d" "\<forall>v. value_of d \<rho> = Some v \<longrightarrow> \<rho> r = v"
    by (auto simp: ic_inv_def snap_ok_def is_pure_def)
  with d show ?thesis by (simp add: value_of_def wide_def)
qed

lemma sdef_value:
  assumes "ic_inv snap fn \<rho>" "sdef snap r = Some d" "is_binop (op d)"
    "bin_val64 (op d) (ir_type d = IR_TY_U64) (\<rho> (src1 d)) (\<rho> (src2 d)) = Some v"
  shows "\<rho> r = v" "src1 d \<le> n_regs fn" "src2 d \<le> n_regs fn"
proof -
  have p: "is_pure (op d)" using assms(3) by (simp add: is_pure_def)
  with assms(1,2) have w: "wide d" and o: "\<forall>x \<in> set (opnds d). x \<le> n_regs fn"
    and v: "\<forall>v. value_of d \<rho> = Some v \<longrightarrow> \<rho> r = v" by (auto simp: ic_inv_def snap_ok_def)
  have nb: "op d \<noteq> OP_CONST" "op d \<noteq> OP_COPY" "op d \<noteq> OP_BNOT" using assms(3) by (auto simp: is_binop_def)
  with o show "src1 d \<le> n_regs fn" "src2 d \<le> n_regs fn" by (auto simp: opnds_def)
  have "value_of d \<rho> = Some v" using nb w assms(4) by (simp add: value_of_def wide_bin_val) (simp add: wide_def)
  with v show "\<rho> r = v" by blast
qed

lemma it_value:
  assumes "ic_inv snap fn \<rho>" "a \<in> set (all_addrs fn)" "is_binop (op (heap fn a))"
  shows "value_of (heap fn a) \<rho> = bin_val64 (op (heap fn a)) (ir_type (heap fn a) = IR_TY_U64)
      (\<rho> (src1 (heap fn a))) (\<rho> (src2 (heap fn a)))"
    "src1 (heap fn a) \<le> n_regs fn" "src2 (heap fn a) \<le> n_regs fn" "wide (heap fn a)" "dst (heap fn a) \<noteq> 0"
    "dst (heap fn a) \<le> n_regs fn"
proof -
  have p: "is_pure (op (heap fn a))" using assms(3) by (simp add: is_pure_def)
  have nb: "op (heap fn a) \<noteq> OP_CONST" "op (heap fn a) \<noteq> OP_COPY" "op (heap fn a) \<noteq> OP_BNOT"
    using assms(3) by (auto simp: is_binop_def)
  have ok: "instr_ok (n_regs fn) (heap fn a)" using assms(1,2) by (auto simp: ic_inv_def regs_ok_def)
  then show w: "wide (heap fn a)" and "dst (heap fn a) \<noteq> 0" "dst (heap fn a) \<le> n_regs fn"
    using p by (auto simp: instr_ok_def)
  from w show "value_of (heap fn a) \<rho> = bin_val64 (op (heap fn a)) (ir_type (heap fn a) = IR_TY_U64)
      (\<rho> (src1 (heap fn a))) (\<rho> (src2 (heap fn a)))"
    using nb by (simp add: value_of_def wide_bin_val) (simp add: wide_def)
  show "src1 (heap fn a) \<le> n_regs fn" "src2 (heap fn a) \<le> n_regs fn"
    using ok p nb by (auto simp: instr_ok_def opnds_def)
qed

text \<open>Copies are resolved to a register of the same value.\<close>

lemma resolve_copy_n_value:
  assumes "regs_ok fn" "def_use_ok fn" "models fn \<rho>" "r \<le> n_regs fn"
  shows "\<rho> (resolve_copy_n n fn r) = \<rho> r \<and> resolve_copy_n n fn r \<le> n_regs fn"
  using assms(4)
proof (induction n arbitrary: r)
  case (Suc n)
  show ?case
  proof (cases "def_of fn r")
    case (Some a)
    show ?thesis
    proof (cases "op (heap fn a) = OP_COPY")
      case True
      have a: "a \<in> set (all_addrs fn)" "dst (heap fn a) = r" using assms(2) Some by (auto simp: def_use_ok_def)
      have ok: "instr_ok (n_regs fn) (heap fn a)" using a assms(1) by (simp add: regs_ok_def)
      have r0: "r \<noteq> 0" using Some by (auto simp: def_of_def split: if_splits)
      have "satisfies \<rho> (heap fn a)" using a assms(3) by (simp add: models_def)
      moreover have "is_float (heap fn a) = 0" "src_is_float (heap fn a) = 0" "\<not> is32 (ir_type (heap fn a))"
        using ok by (auto simp: instr_ok_def wide_def)
      ultimately have "\<rho> r = \<rho> (src1 (heap fn a))"
        using True a r0 by (simp add: satisfies_def value_of_def)
      moreover have "src1 (heap fn a) \<le> n_regs fn"
        using ok True by (simp add: instr_ok_def is_pure_def opnds_def)
      ultimately show ?thesis using Suc.IH [of "src1 (heap fn a)"] True Some by simp
    qed (use Some Suc.prems in simp)
  qed (use Suc.prems in simp)
qed (use assms in simp)

lemma resolve_copy_value:
  assumes "ic_inv snap fn \<rho>" "r \<le> n_regs fn"
  shows "\<rho> (resolve_copy fn r) = \<rho> r" "resolve_copy fn r \<le> n_regs fn"
  using resolve_copy_n_value [of fn \<rho> r 100] assms by (auto simp: ic_inv_def resolve_copy_def)

section \<open>The three ways a rule rewrites\<close>

lemma ic_post_rewrite:
  assumes inv: "ic_inv snap fn \<rho>" and a: "a \<in> set (all_addrs fn)" "is_binop (op (heap fn a))"
    and i': "instr_ok (n_regs fn) i'" "dst i' = dst (heap fn a)"
    and v: "value_of i' \<rho> = value_of (heap fn a) \<rho>"
  shows "ic_post snap fn a \<rho> (upd_instr a (\<lambda>_. i') fn)"
proof -
  let ?fn = "upd_instr a (\<lambda>_. i') fn"
  have "satisfies \<rho> (heap fn a)" using inv a by (simp add: ic_inv_def models_def)
  then have "satisfies \<rho> i'" using i'(2) v by (simp add: satisfies_def)
  then have m: "models ?fn \<rho>" using inv by (auto simp: ic_inv_def models_def)
  have r: "regs_ok ?fn" using inv i' by (auto simp: ic_inv_def regs_ok_def)
  have "def_of ?fn = def_of fn" by (auto simp: def_of_def fun_eq_iff)
  then have d: "def_use_ok ?fn" using inv i'(2) by (auto simp: ic_inv_def def_use_ok_def)
  have "ic_inv snap ?fn \<rho>" using inv m r d by (simp add: ic_inv_def)
  then show ?thesis unfolding ic_post_def by (intro exI [of _ \<rho>]) (auto simp: i' v a)
qed

lemma ic_post_copy:
  assumes inv: "ic_inv snap fn \<rho>" and a: "a \<in> set (all_addrs fn)" "is_binop (op (heap fn a))"
    and r: "r \<le> n_regs fn" "value_of (heap fn a) \<rho> = Some (\<rho> r)" and run: "to_copy fn a r = Some fn'"
  shows "ic_post snap fn a \<rho> fn'"
proof -
  note it = it_value [OF inv a]
  have "ic_post snap fn a \<rho> (upd_instr a (\<lambda>_. rewrite_to_copy r (heap fn a)) fn)"
    by (rule ic_post_rewrite [OF inv a])
      (use it r in \<open>auto simp: rewrite_to_copy_def instr_ok_def wide_def is_pure_def opnds_def value_of_def\<close>)
  then show ?thesis using run by (simp add: to_copy_def upd_instr_def)
qed

lemma ic_post_const:
  assumes inv: "ic_inv snap fn \<rho>" and a: "a \<in> set (all_addrs fn)" "is_binop (op (heap fn a))"
    and r: "value_of (heap fn a) \<rho> = Some k" and run: "to_const fn a k = Some fn'"
  shows "ic_post snap fn a \<rho> fn'"
proof -
  note it = it_value [OF inv a]
  have "ic_post snap fn a \<rho> (upd_instr a (\<lambda>_. rewrite_to_const k (heap fn a)) fn)"
    by (rule ic_post_rewrite [OF inv a])
      (use it r in \<open>auto simp: rewrite_to_const_def instr_ok_def wide_def is_pure_def opnds_def value_of_def\<close>)
  then show ?thesis using run by (simp add: to_const_def upd_instr_def)
qed


lemma make_const_def_use:
  assumes ok: "heap_ok fn" "counters_ok fn" and b0: "blk_at fn 0 \<noteq> None" and a: "a \<in> set (all_addrs fn)"
    and run: "make_const fn ty k (Some a) = (fn', c)" and dof: "def_use_ok fn"
  shows "def_use_ok fn'"
proof -
  from b0 obtain e where e: "blk_at fn 0 = Some e" by blast
  note S = make_const_spec [OF ok e _ run]
  show ?thesis
  proof (cases "find_const fn ty k")
    case (Some b)
    with run dof show ?thesis by (auto simp: make_const_def)
  next
    case None
    have keep: "\<And>b. b \<in> set (all_addrs fn) \<Longrightarrow> b \<in> set (all_addrs fn') \<and> heap fn' b = heap fn b"
      using S(5) a by blast
    have t: "def_tab fn' = (def_tab fn)(c \<mapsto> next_addr fn)" "heap fn' (next_addr fn) = const_instr fn ty k"
      "c = n_regs fn + 1"
      using run None by (auto simp: make_const_def Let_def link_instr_keeps)
    have "\<exists>b \<in> set (all_addrs fn'). b \<notin> set (all_addrs fn)"
    proof (rule ccontr)
      assume "\<not> ?thesis"
      then have "\<forall>b \<in> set (all_addrs fn'). b \<in> set (all_addrs fn)" by blast
      with S(4) a obtain b where b: "b \<in> set (all_addrs fn)" "op (heap fn' b) = OP_CONST"
        "imm (heap fn' b) = k" "ir_type (heap fn' b) = ty" by blast
      with keep have "op (heap fn b) = OP_CONST" "imm (heap fn b) = k" "ir_type (heap fn b) = ty" by auto
      with None b(1) show False by (auto simp: find_const_def find_None_iff)
    qed
    then obtain b where b: "b \<in> set (all_addrs fn')" "b \<notin> set (all_addrs fn)" by blast
    have bn: "b = next_addr fn"
    proof -
      define fn0 where "fn0 = fn\<lparr>heap := (heap fn)(next_addr fn := const_instr fn ty k),
         next_addr := next_addr fn + 1, n_regs := n_regs fn + 1\<rparr>"
      have "all_addrs fn' = all_addrs (link_instr (Some a) (next_addr fn) fn0)"
        using run None by (auto simp: make_const_def Let_def fn0_def)
      moreover have "set (all_addrs (link_instr (Some a) (next_addr fn) fn0)) \<subseteq> insert (next_addr fn) (set (all_addrs fn0))"
        using all_addrs_link_map [of a "next_addr fn" "blocks fn0"]
        by (auto simp: all_addrs_def link_instr_def split: if_splits)
      moreover have "all_addrs fn0 = all_addrs fn" by (simp add: fn0_def all_addrs_def)
      ultimately show ?thesis using b by auto
    qed
    show ?thesis unfolding def_use_ok_def
    proof (intro allI impI)
      fix r x
      assume "def_of fn' r = Some x"
      then have "0 < r" "r < MAX_INSTRS" "def_tab fn' r = Some x" by (auto simp: def_of_def split: if_splits)
      then show "x \<in> set (all_addrs fn') \<and> dst (heap fn' x) = r"
      proof (cases "r = c")
        case True
        with \<open>def_tab fn' r = Some x\<close> t b(1) bn show ?thesis by (simp add: const_instr_def)
      next
        case False
        with \<open>def_tab fn' r = Some x\<close> t(1) \<open>0 < r\<close> \<open>r < MAX_INSTRS\<close> have "def_of fn r = Some x"
          by (simp add: def_of_def)
        with dof keep show ?thesis unfolding def_use_ok_def by metis
      qed
    qed
  qed
qed


lemma ic_post_with_const:
  assumes inv: "ic_inv snap fn \<rho>" and a: "a \<in> set (all_addrs fn)" "is_binop (op (heap fn a))"
    and opc: "is_binop opc" "opc \<noteq> OP_DIV" and x: "x \<le> n_regs fn"
    and v: "value_of (heap fn a) \<rho> = bin_val64 opc (ir_type (heap fn a) = IR_TY_U64) (\<rho> x) k"
    and run: "with_const fn a opc x k = Some fn'"
  shows "ic_post snap fn a \<rho> fn'"
proof -
  let ?it = "heap fn a"
  from inv obtain e where ok: "heap_ok fn" "counters_ok fn" and e: "blk_at fn 0 = Some e"
    and regs: "regs_ok fn" and dof: "def_use_ok fn" and mod: "models fn \<rho>"
    and sn: "snap_ok snap (n_regs fn) \<rho>" by (auto simp: ic_inv_def)
  obtain fn1 c where mk: "make_const fn (ir_type ?it) k (Some a) = (fn1, c)" by fastforce
  let ?i' = "set_src 1 c (set_src 0 (resolve_copy fn1 x) (?it\<lparr>op := opc\<rparr>))"
  have S: "heap_ok fn1" "counters_ok fn1" "n_regs fn \<le> n_regs fn1"
    "\<exists>b \<in> set (all_addrs fn1). op (heap fn1 b) = OP_CONST \<and> imm (heap fn1 b) = k \<and>
       ir_type (heap fn1 b) = ir_type ?it \<and> dst (heap fn1 b) = c"
    "\<And>b. b \<in> set (all_addrs fn) \<Longrightarrow> b \<in> set (all_addrs fn1) \<and> heap fn1 b = heap fn b"
    "\<And>b. b \<in> set (all_addrs fn1) \<Longrightarrow> b \<notin> set (all_addrs fn) \<Longrightarrow> heap fn1 b = const_instr fn (ir_type ?it) k"
    using make_const_spec [OF ok e _ mk] a(1) by blast+
  note it = it_value [OF inv a]
  define \<rho>' where "\<rho>' = (\<lambda>r. if r \<le> n_regs fn then \<rho> r else k)"
  have agree: "\<rho>' r = \<rho> r" if "r \<le> n_regs fn" for r using that by (simp add: \<rho>'_def)
  have vold: "value_of i \<rho>' = value_of i \<rho>" if "instr_ok (n_regs fn) i" for i
  proof (cases "is_pure (op i)")
    case True
    then show ?thesis using that agree by (intro value_of_cong) (auto simp: instr_ok_def)
  next
    case False
    then have "value_of i \<rho> = None" "value_of i \<rho>' = None" by (meson not_None_eq value_of_pure)+
    then show ?thesis by simp
  qed
  have new_ok: "n_regs fn1 = n_regs fn \<or> n_regs fn1 = n_regs fn + 1"
    using mk by (auto simp: make_const_def Let_def link_instr_keeps split: option.splits)
  have fresh: "n_regs fn1 = n_regs fn + 1" if "b \<in> set (all_addrs fn1)" "b \<notin> set (all_addrs fn)" for b
    using mk that by (auto simp: make_const_def Let_def link_instr_keeps split: option.splits)
  have cw: "wide (const_instr fn (ir_type ?it) k)"
    using it(4) by (simp add: wide_def const_instr_def calloc_instr_def)
  have regs1: "regs_ok fn1" unfolding regs_ok_def
  proof
    fix b assume b: "b \<in> set (all_addrs fn1)"
    show "instr_ok (n_regs fn1) (heap fn1 b)"
    proof (cases "b \<in> set (all_addrs fn)")
      case True
      with S(5) regs have "instr_ok (n_regs fn) (heap fn1 b)" by (simp add: regs_ok_def)
      then show ?thesis using S(3) by (rule instr_ok_mono)
    next
      case False
      with S(6) b fresh cw show ?thesis
        by (simp add: instr_ok_def is_pure_def opnds_def) (simp add: const_instr_def)
    qed
  qed
  have mod1: "models fn1 \<rho>'" unfolding models_def
  proof
    fix b assume b: "b \<in> set (all_addrs fn1)"
    show "satisfies \<rho>' (heap fn1 b)"
    proof (cases "b \<in> set (all_addrs fn)")
      case True
      with regs have ib: "instr_ok (n_regs fn) (heap fn b)" by (simp add: regs_ok_def)
      have "satisfies \<rho> (heap fn b)" using mod True by (simp add: models_def)
      then have "satisfies \<rho>' (heap fn b)"
        using ib by (simp add: satisfies_def vold agree instr_ok_def)
      then show ?thesis using S(5) True by simp
    next
      case False
      have "value_of (const_instr fn (ir_type ?it) k) \<rho>' = Some k"
        by (simp add: value_of_def const_instr_def calloc_instr_def)
      then show ?thesis using S(6) [OF b False]
        by (simp add: satisfies_def) (simp add: const_instr_def \<rho>'_def)
    qed
  qed
  have snap1: "snap_ok snap (n_regs fn1) \<rho>'" unfolding snap_ok_def
  proof (intro allI impI)
    fix r d assume d: "sdef snap r = Some d" "is_pure (op d)"
    with sn have w: "wide d \<and> r \<le> n_regs fn" "\<forall>x \<in> set (opnds d). x \<le> n_regs fn"
      "\<forall>v. value_of d \<rho> = Some v \<longrightarrow> \<rho> r = v" by (auto simp: snap_ok_def)
    have "value_of d \<rho>' = value_of d \<rho>" using w(2) agree by (intro value_of_cong) auto
    moreover have "\<forall>v. value_of d \<rho> = Some v \<longrightarrow> \<rho>' r = v"
      using w agree by simp
    ultimately show "wide d \<and> r \<le> n_regs fn1 \<and> (\<forall>x \<in> set (opnds d). x \<le> n_regs fn1) \<and> (\<forall>v. value_of d \<rho>' = Some v \<longrightarrow> \<rho>' r = v)"
      using w S(3) by auto
  qed
  have "blk_at fn1 0 \<noteq> None"
  proof -
    have "length (blocks fn1) = length (blocks fn)"
      using mk by (auto simp: make_const_def Let_def link_instr_keeps split: option.splits)
    moreover have "0 < n_blocks fn" using e by (rule blk_at_Some_lt)
    moreover have "blocks fn1 ! 0 \<noteq> None"
      using mk e by (auto simp: make_const_def Let_def link_instr_def blk_at_Some_iff split: option.splits)
    ultimately show ?thesis by (simp add: blk_at_def)
  qed
  moreover have "def_use_ok fn1"
    by (rule make_const_def_use [OF ok _ a(1) mk dof]) (simp add: e)
  ultimately have inv1: "ic_inv snap fn1 \<rho>'"
    using S(1,2) regs1 mod1 snap1 by (simp add: ic_inv_def)
  have a1: "a \<in> set (all_addrs fn1)" "heap fn1 a = ?it" using S(5) a(1) by auto
  have c: "c \<noteq> 0" "c \<le> n_regs fn1" "\<rho>' c = k"
  proof -
    from S(4) obtain b where b: "b \<in> set (all_addrs fn1)" "op (heap fn1 b) = OP_CONST"
      "imm (heap fn1 b) = k" "dst (heap fn1 b) = c" by blast
    have "instr_ok (n_regs fn1) (heap fn1 b)" using regs1 b(1) by (simp add: regs_ok_def)
    then show "c \<noteq> 0" "c \<le> n_regs fn1" and "\<rho>' c = k"
      using b mod1 by (auto simp: instr_ok_def is_pure_def models_def satisfies_def value_of_def wide_def)
  qed
  have x1: "x \<le> n_regs fn1" using x S(3) by simp
  note rc = resolve_copy_value [OF inv1 x1]
  have opc_p: "is_pure opc" "opc \<noteq> OP_CONST" "opc \<noteq> OP_COPY" "opc \<noteq> OP_BNOT"
    using opc by (auto simp: is_pure_def is_binop_def)
  have wi: "wide ?i'" using it(4) by (simp add: wide_def)
  have "value_of ?i' \<rho>' = bin_val64 opc (ir_type ?it = IR_TY_U64) (\<rho> x) k"
    using wi it(4) opc_p rc(1) c agree x by (simp add: value_of_def wide_bin_val) (simp add: wide_def)
  then have v1: "value_of ?i' \<rho>' = value_of (heap fn1 a) \<rho>'"
    using v vold regs a by (simp add: a1 regs_ok_def)
  have ok1: "instr_ok (n_regs fn1) ?i'"
    using wi it S(3) opc opc_p rc(2) c by (simp add: instr_ok_def opnds_def)
  have "ic_post snap fn1 a \<rho>' (upd_instr a (\<lambda>_. ?i') fn1)"
    by (rule ic_post_rewrite [OF inv1 a1(1) _ ok1 _ v1]) (simp_all add: a1 a)
  then have "ic_post snap fn a \<rho> (upd_instr a (\<lambda>_. ?i') fn1)"
  proof -
    assume "ic_post snap fn1 a \<rho>' (upd_instr a (\<lambda>_. ?i') fn1)"
    then obtain \<rho>'' where p: "ic_inv snap (upd_instr a (\<lambda>_. ?i') fn1) \<rho>''"
      "\<forall>r \<le> n_regs fn1. \<rho>'' r = \<rho>' r"
      "\<forall>b \<in> set (all_addrs fn1). value_of (heap (upd_instr a (\<lambda>_. ?i') fn1) b) \<rho>'' = value_of (heap fn1 b) \<rho>'"
      by (auto simp: ic_post_def)
    show ?thesis unfolding ic_post_def
    proof (intro exI conjI ballI impI allI)
      show "ic_inv snap (upd_instr a (\<lambda>_. ?i') fn1) \<rho>''" by (rule p)
      show "n_regs fn \<le> n_regs (upd_instr a (\<lambda>_. ?i') fn1)" using S(3) by simp
      show "\<rho>'' r = \<rho> r" if "r \<le> n_regs fn" for r using p(2) agree that S(3) by simp
      show "set (all_addrs fn) \<subseteq> set (all_addrs (upd_instr a (\<lambda>_. ?i') fn1))" using S(5) by auto
      show "value_of (heap (upd_instr a (\<lambda>_. ?i') fn1) b) \<rho>'' = value_of (heap fn b) \<rho>"
        if "b \<in> set (all_addrs fn)" for b
        using p(3) S(5) [OF that] vold regs that by (simp add: regs_ok_def)
      show "heap (upd_instr a (\<lambda>_. ?i') fn1) b = heap fn b"
        if "b \<in> set (all_addrs fn)" "b \<noteq> a \<or> \<not> is_binop (op (heap fn b))" for b
        using S(5) that a(2) by auto
      show "dst (heap (upd_instr a (\<lambda>_. ?i') fn1) b) = dst (heap fn b)" if "b \<in> set (all_addrs fn)" for b
        using S(5) that by simp
    qed
  qed
  moreover have "fn' = upd_instr a (\<lambda>_. ?i') fn1"
    using run a1(2) by (simp add: with_const_def mk upd_instr_def)
  ultimately show ?thesis by simp
qed

section \<open>Powers of two\<close>

lemma is_pow2_cases:
  assumes "is_pow2 k"
  obtains m where "0 < m" "m < 63" "k = 2 ^ m"
proof -
  have k: "0 <s k" "k AND (k - 1) = 0" "1 <s k" using assms by (auto simp: is_pow2_def word_sless_alt)
  obtain m where m: "m < 63" "k = 2 ^ m" using pow2_cases [OF k(1,2)] .
  moreover have "0 < m" using k(3) m by (cases m) auto
  ultimately show thesis using that by blast
qed

lemma shift_amt_from_pow2:
  assumes "m < 63" "s \<le> m" "m - s \<le> n"
  shows "shift_amt_from n (2 ^ m) s = m"
  using assms(2,3)
proof (induction n arbitrary: s)
  case (Suc n)
  have "signed_drop_bit (s + 1) (2 ^ m :: int64) = 0 \<longleftrightarrow> (2 :: int) ^ m div 2 ^ (s + 1) = 0"
    using sint_signed_drop_bit_eq [of "s + 1" "2 ^ m :: int64"] sint_pow2 [OF assms(1)]
    by (metis drop_bit_eq_div sint_0 signed_eq_0_iff)
  also have "\<dots> \<longleftrightarrow> m < s + 1"
  proof (cases "m < s + 1")
    case True
    then have "(2 :: int) ^ m < 2 ^ (s + 1)" by (intro power_strict_increasing) auto
    with True show ?thesis by (simp add: div_pos_pos_trivial)
  next
    case False
    then have "(2 :: int) ^ (s + 1) \<le> 2 ^ m" by (intro power_increasing) auto
    then have "0 < (2 :: int) ^ m div 2 ^ (s + 1)" by (simp add: pos_imp_zdiv_pos_iff)
    with False show ?thesis by linarith
  qed
  finally show ?case using Suc by auto
qed simp

lemma shift_amt_pow2: "m < 63 \<Longrightarrow> shift_amt (2 ^ m) = m"
  unfolding shift_amt_def by (rule shift_amt_from_pow2) auto

lemma pow2_mult: "is_pow2 k \<Longrightarrow> x * k = c_shl x (of_nat (shift_amt k))"
  by (erule is_pow2_cases) (simp add: shift_amt_pow2 c_shl_pow2)

lemma pow2_udiv: "is_pow2 k \<Longrightarrow> x div k = c_shr x (of_nat (shift_amt k))"
  by (erule is_pow2_cases) (simp add: shift_amt_pow2 c_shr_pow2)

lemma pow2_nonzero: "is_pow2 k \<Longrightarrow> k \<noteq> 0"
  by (auto simp: is_pow2_def word_sless_alt)

lemma all_ones_wide:
  "ty = IR_TY_I64 \<or> ty = IR_TY_U64 \<Longrightarrow> is_all_ones_for_type ty k \<longleftrightarrow> k = -1"
  by (auto simp: is_all_ones_for_type_def)

section \<open>Every rule is sound\<close>

text \<open>
  A rule is sound when each rewrite it makes at a linked instruction meets the postcondition.
\<close>

definition rule_sound :: "ic_rule \<Rightarrow> bool" where
  "rule_sound R \<longleftrightarrow> (\<forall>snap fn a \<rho> fn'. ic_inv snap fn \<rho> \<longrightarrow> a \<in> set (all_addrs fn) \<longrightarrow>
     R snap fn a = Some fn' \<longrightarrow> ic_post snap fn a \<rho> fn')"

lemma rule_soundI:
  "(\<And>snap fn a \<rho> fn'. ic_inv snap fn \<rho> \<Longrightarrow> a \<in> set (all_addrs fn) \<Longrightarrow>
     R snap fn a = Some fn' \<Longrightarrow> ic_post snap fn a \<rho> fn') \<Longrightarrow> rule_sound R"
  by (simp add: rule_sound_def)

lemma is_binop_simps [simp]:
  "is_binop OP_ADD" "is_binop OP_SUB" "is_binop OP_MUL" "is_binop OP_DIV" "is_binop OP_BAND" "is_binop OP_BOR"
  "is_binop OP_BXOR" "is_binop OP_SHL" "is_binop OP_SHR" "is_binop OP_EQ" "is_binop OP_NE"
  by (simp_all add: is_binop_def)

text \<open>The rules that only rewrite the instruction.\<close>

lemma ic_copy1:
  assumes "to_copy fn a (src1 (heap fn a)) = Some fn'" "ic_inv snap fn \<rho>" "a \<in> set (all_addrs fn)" "is_binop (op (heap fn a))"
    "bin_val64 (op (heap fn a)) (ir_type (heap fn a) = IR_TY_U64) (\<rho> (src1 (heap fn a))) (\<rho> (src2 (heap fn a)))
       = Some (\<rho> (src1 (heap fn a)))"
  shows "ic_post snap fn a \<rho> fn'"
  using ic_post_copy [OF assms(2-4) _ _ assms(1)] it_value [OF assms(2-4)] assms(5) by simp

lemma ic_copy2:
  assumes "to_copy fn a (src2 (heap fn a)) = Some fn'" "ic_inv snap fn \<rho>" "a \<in> set (all_addrs fn)" "is_binop (op (heap fn a))"
    "bin_val64 (op (heap fn a)) (ir_type (heap fn a) = IR_TY_U64) (\<rho> (src1 (heap fn a))) (\<rho> (src2 (heap fn a)))
       = Some (\<rho> (src2 (heap fn a)))"
  shows "ic_post snap fn a \<rho> fn'"
  using ic_post_copy [OF assms(2-4) _ _ assms(1)] it_value [OF assms(2-4)] assms(5) by simp

lemma ic_const:
  assumes "to_const fn a k = Some fn'" "ic_inv snap fn \<rho>" "a \<in> set (all_addrs fn)" "is_binop (op (heap fn a))"
    "bin_val64 (op (heap fn a)) (ir_type (heap fn a) = IR_TY_U64) (\<rho> (src1 (heap fn a))) (\<rho> (src2 (heap fn a))) = Some k"
  shows "ic_post snap fn a \<rho> fn'"
  using ic_post_const [OF assms(2-4) _ assms(1)] it_value [OF assms(2-4)] assms(5) by simp

lemma ic_with_const:
  assumes "with_const fn a opc x k = Some fn'" "ic_inv snap fn \<rho>" "a \<in> set (all_addrs fn)" "is_binop (op (heap fn a))"
    "is_binop opc" "opc \<noteq> OP_DIV" "x \<le> n_regs fn"
    "bin_val64 (op (heap fn a)) (ir_type (heap fn a) = IR_TY_U64) (\<rho> (src1 (heap fn a))) (\<rho> (src2 (heap fn a)))
       = bin_val64 opc (ir_type (heap fn a) = IR_TY_U64) (\<rho> x) k"
  shows "ic_post snap fn a \<rho> fn'"
  using ic_post_with_const [OF assms(2-7) _ assms(1)] it_value [OF assms(2-4)] assms(8) by simp

lemmas ic_identity_defs = ic_rule_add_zero_def ic_rule_sub_zero_def ic_rule_mul_one_def ic_rule_mul_zero_def
  ic_rule_div_one_def ic_rule_and_zero_def ic_rule_or_zero_def ic_rule_xor_zero_def ic_rule_xor_self_def
  ic_rule_sub_self_def ic_rule_shift_by_zero_def ic_rule_icmp_self_def

lemma ic_rule_add_zero_sound: "rule_sound ic_rule_add_zero"
  by (rule rule_soundI) (auto simp: ic_rule_add_zero_def Let_def sconst_value split: if_splits dest!: ic_copy1 ic_copy2 [unfolded One_nat_def])

lemma identity_rules_sound:
  "R \<in> {ic_rule_sub_zero, ic_rule_mul_one, ic_rule_mul_zero,
     ic_rule_and_zero, ic_rule_or_zero, ic_rule_xor_zero, ic_rule_xor_self, ic_rule_sub_self,
     ic_rule_shift_by_zero, ic_rule_icmp_self} \<Longrightarrow> rule_sound R"
  by (rule rule_soundI)
    (elim insertE emptyE; auto simp: ic_identity_defs Let_def sconst_value c_bool_def
      split: if_splits dest!: ic_copy1 ic_copy2 [unfolded One_nat_def] ic_const)


lemma ic_rule_div_one_sound: "rule_sound ic_rule_div_one"
  by (rule rule_soundI)
    (auto simp: ic_rule_div_one_def Let_def sconst_value c_sdiv_1 split: if_splits dest!: ic_copy1)

lemma ic_rule_and_allones_sound: "rule_sound ic_rule_and_allones"
proof (rule rule_soundI)
  fix snap fn a \<rho> fn'
  assume inv: "ic_inv snap fn \<rho>" and a: "a \<in> set (all_addrs fn)"
    and run: "ic_rule_and_allones snap fn a = Some fn'"
  have b: "op (heap fn a) = OP_BAND" using run by (auto simp: ic_rule_and_allones_def Let_def split: if_splits)
  have w: "wide (heap fn a)" using it_value(4) [OF inv a] b by simp
  have "ones_const snap (ir_type (heap fn a)) r \<Longrightarrow> \<rho> r = -1" for r
    using w all_ones_wide sconst_value [OF inv] by (auto simp: ones_const_def wide_def split: option.splits)
  with run b inv a show "ic_post snap fn a \<rho> fn'"
    by (auto simp: ic_rule_and_allones_def Let_def split: if_splits
        dest!: ic_copy1 ic_copy2 [unfolded One_nat_def])
qed

text \<open>The rules that look through the definition of an operand.\<close>

lemma nested_constsD:
  assumes "ic_inv snap fn \<rho>" "nested_consts snap opc (heap fn a) = Some (x, c1, c2)" "is_binop opc"
    "\<And>u v w. \<exists>z. bin_val64 opc u v w = Some z"
  shows "op (heap fn a) = opc" "\<rho> (src2 (heap fn a)) = c2" "x \<le> n_regs fn"
    "\<exists>u. Some (\<rho> (src1 (heap fn a))) = bin_val64 opc u (\<rho> x) c1"
proof -
  obtain d where d: "op (heap fn a) = opc" "sconst snap (src2 (heap fn a)) = Some c2"
    "sdef snap (src1 (heap fn a)) = Some d" "op d = opc" "sconst snap (src2 d) = Some c1" "x = src1 d"
    using assms(2) by (auto simp: nested_consts_def split: if_splits option.splits)
  show "op (heap fn a) = opc" by fact
  show "\<rho> (src2 (heap fn a)) = c2" using assms(1) d(2) by (rule sconst_value)
  have c1: "\<rho> (src2 d) = c1" using assms(1) d(5) by (rule sconst_value)
  obtain z where z: "bin_val64 (op d) (ir_type d = IR_TY_U64) (\<rho> (src1 d)) (\<rho> (src2 d)) = Some z"
    using assms(4) d(4) by blast
  have bd: "is_binop (op d)" using d(4) assms(3) by simp
  note sdef_value [OF assms(1) d(3) bd z]
  then show "x \<le> n_regs fn" "\<exists>u. Some (\<rho> (src1 (heap fn a))) = bin_val64 opc u (\<rho> x) c1"
    using z c1 d(4,6) by (auto intro!: exI [of _ "ir_type d = IR_TY_U64"])
qed

lemmas ic_nested_defs = ic_rule_nested_and_consts_def ic_rule_nested_or_consts_def
  ic_rule_nested_add_consts_def ic_rule_nested_xor_consts_def

lemma nested_rules_sound:
  "R \<in> {ic_rule_nested_and_consts, ic_rule_nested_or_consts, ic_rule_nested_add_consts,
     ic_rule_nested_xor_consts} \<Longrightarrow> rule_sound R"
proof (rule rule_soundI)
  fix snap fn a \<rho> fn'
  assume R: "R \<in> {ic_rule_nested_and_consts, ic_rule_nested_or_consts, ic_rule_nested_add_consts,
     ic_rule_nested_xor_consts}" and inv: "ic_inv snap fn \<rho>" and a: "a \<in> set (all_addrs fn)"
    and run: "R snap fn a = Some fn'"
  from R run obtain opc x c1 c2 f where
    n: "nested_consts snap opc (heap fn a) = Some (x, c1, c2)"
    and f: "(opc, f) \<in> {(OP_BAND, (AND)), (OP_BOR, (OR)), (OP_ADD, (+)), (OP_BXOR, (XOR))}"
    and w: "with_const fn a opc x (f c1 c2) = Some fn'"
    by (elim insertE emptyE) (auto simp: ic_nested_defs split: option.splits)
  from f have "is_binop opc" "opc \<noteq> OP_DIV" "\<And>u v w. \<exists>z. bin_val64 opc u v w = Some z" by auto
  note N = nested_constsD [OF inv n this(1) this(3)]
  from w show "ic_post snap fn a \<rho> fn'"
    by (rule ic_with_const [OF _ inv a])
      (use N f in \<open>auto simp: bitwise_facts(2,3,4) add.assoc\<close>)
qed


text \<open>Rules 13 and 14 are guarded forms of the nested rule.\<close>

lemma reassoc_add_nested:
  "ic_rule_reassoc_add_consts snap fn a = Some fn' \<Longrightarrow> ic_rule_nested_add_consts snap fn a = Some fn'"
  by (auto simp: ic_rule_reassoc_add_consts_def ic_rule_nested_add_consts_def nested_consts_def Let_def
      split: option.splits if_splits)

lemma reassoc_mul_nested:
  "ic_rule_reassoc_mul_consts snap fn a = Some fn' \<Longrightarrow>
   (case nested_consts snap OP_MUL (heap fn a) of
      None \<Rightarrow> None | Some (x, c1, c2) \<Rightarrow> with_const fn a OP_MUL x (c1 * c2)) = Some fn'"
  by (auto simp: ic_rule_reassoc_mul_consts_def nested_consts_def Let_def split: option.splits if_splits)

lemma ic_rule_reassoc_add_consts_sound: "rule_sound ic_rule_reassoc_add_consts"
  using nested_rules_sound [of ic_rule_nested_add_consts] reassoc_add_nested
  unfolding rule_sound_def by blast

lemma ic_rule_reassoc_mul_consts_sound: "rule_sound ic_rule_reassoc_mul_consts"
proof (rule rule_soundI)
  fix snap fn a \<rho> fn'
  assume inv: "ic_inv snap fn \<rho>" and a: "a \<in> set (all_addrs fn)"
    and run: "ic_rule_reassoc_mul_consts snap fn a = Some fn'"
  obtain x c1 c2 where n: "nested_consts snap OP_MUL (heap fn a) = Some (x, c1, c2)"
    and w: "with_const fn a OP_MUL x (c1 * c2) = Some fn'"
    using reassoc_mul_nested [OF run] by (auto split: option.splits)
  show "ic_post snap fn a \<rho> fn'"
    using nested_constsD [OF inv n] by (intro ic_with_const [OF w inv a]) (auto simp: mult.assoc)
qed

lemma ic_rule_nested_shl_consts_sound: "rule_sound ic_rule_nested_shl_consts"
proof (rule rule_soundI)
  fix snap fn a \<rho> fn'
  assume inv: "ic_inv snap fn \<rho>" and a: "a \<in> set (all_addrs fn)"
    and run: "ic_rule_nested_shl_consts snap fn a = Some fn'"
  then obtain x c1 c2 where n: "nested_consts snap OP_SHL (heap fn a) = Some (x, c1, c2)"
    by (auto simp: ic_rule_nested_shl_consts_def split: option.splits)
  have N: "op (heap fn a) = OP_SHL" "\<rho> (src2 (heap fn a)) = c2" "x \<le> n_regs fn"
    "\<rho> (src1 (heap fn a)) = c_shl (\<rho> x) c1"
    using nested_constsD [OF inv n] by auto
  from run n consider (zero) "to_const fn a 0 = Some fn'" "c_shl (c_shl (\<rho> x) c1) c2 = 0"
    | (comb) "with_const fn a OP_SHL x (c1 + c2) = Some fn'" "c_shl (c_shl (\<rho> x) c1) c2 = c_shl (\<rho> x) (c1 + c2)"
    by (auto simp: ic_rule_nested_shl_consts_def shl_shl split: if_splits)
  then show "ic_post snap fn a \<rho> fn'"
  proof cases
    case zero
    from zero(1) show ?thesis by (rule ic_const [OF _ inv a]) (use N zero in simp_all)
  next
    case comb
    from comb(1) show ?thesis by (rule ic_with_const [OF _ inv a]) (use N comb in simp_all)
  qed
qed

lemma pow2_constD: "ic_inv snap fn \<rho> \<Longrightarrow> pow2_const snap r = Some k \<Longrightarrow> \<rho> r = k \<and> is_pow2 k"
  using sconst_value by (auto simp: pow2_const_def split: option.splits if_splits)

lemma ic_rule_mul_pow2_to_shl_sound: "rule_sound ic_rule_mul_pow2_to_shl"
proof (rule rule_soundI)
  fix snap fn a \<rho> fn'
  assume inv: "ic_inv snap fn \<rho>" and a: "a \<in> set (all_addrs fn)"
    and run: "ic_rule_mul_pow2_to_shl snap fn a = Some fn'"
  have m: "op (heap fn a) = OP_MUL" using run by (auto simp: ic_rule_mul_pow2_to_shl_def Let_def split: if_splits)
  have b: "is_binop (op (heap fn a))" using m by simp
  note it = it_value [OF inv a b]
  from run m consider
      (second) k where "pow2_const snap (src2 (heap fn a)) = Some k"
        "with_const fn a OP_SHL (src1 (heap fn a)) (of_nat (shift_amt k)) = Some fn'"
    | (first) k where "pow2_const snap (src1 (heap fn a)) = Some k"
        "with_const fn a OP_SHL (src2 (heap fn a)) (of_nat (shift_amt k)) = Some fn'"
    by (auto simp: ic_rule_mul_pow2_to_shl_def Let_def split: option.splits)
  then show "ic_post snap fn a \<rho> fn'"
  proof cases
    case second
    from pow2_constD [OF inv second(1)] have "\<rho> (src2 (heap fn a)) = k" "is_pow2 k" by auto
    with second(2) it m pow2_mult [of k "\<rho> (src1 (heap fn a))"] show ?thesis
      by (intro ic_with_const [OF second(2) inv a]) simp_all
  next
    case first
    from pow2_constD [OF inv first(1)] have "\<rho> (src1 (heap fn a)) = k" "is_pow2 k" by auto
    with first(2) it m pow2_mult [of k "\<rho> (src2 (heap fn a))"] show ?thesis
      by (intro ic_with_const [OF first(2) inv a]) (simp_all add: mult.commute)
  qed
qed

lemma ic_rule_udiv_pow2_to_shr_sound: "rule_sound ic_rule_udiv_pow2_to_shr"
proof (rule rule_soundI)
  fix snap fn a \<rho> fn'
  assume inv: "ic_inv snap fn \<rho>" and a: "a \<in> set (all_addrs fn)"
    and run: "ic_rule_udiv_pow2_to_shr snap fn a = Some fn'"
  then obtain k where d: "op (heap fn a) = OP_DIV" and k: "pow2_const snap (src2 (heap fn a)) = Some k"
    and w: "with_const fn a OP_SHR (src1 (heap fn a)) (of_nat (shift_amt k)) = Some fn'"
    by (auto simp: ic_rule_udiv_pow2_to_shr_def Let_def split: option.splits if_splits)
  have b: "is_binop (op (heap fn a))" using d by simp
  have u: "ir_type (heap fn a) = IR_TY_U64"
    using inv a d by (auto simp: ic_inv_def regs_ok_def instr_ok_def)
  from pow2_constD [OF inv k] have kk: "\<rho> (src2 (heap fn a)) = k" "is_pow2 k" by auto
  show "ic_post snap fn a \<rho> fn'"
    using it_value [OF inv a b] d u kk pow2_udiv pow2_nonzero
    by (intro ic_with_const [OF w inv a]) simp_all
qed

lemma ic_rule_add_self_to_shl_sound: "rule_sound ic_rule_add_self_to_shl"
proof (rule rule_soundI)
  fix snap fn a \<rho> fn'
  assume inv: "ic_inv snap fn \<rho>" and a: "a \<in> set (all_addrs fn)"
    and run: "ic_rule_add_self_to_shl snap fn a = Some fn'"
  then have d: "op (heap fn a) = OP_ADD" and e: "src2 (heap fn a) = src1 (heap fn a)"
    and w: "with_const fn a OP_SHL (src1 (heap fn a)) 1 = Some fn'"
    by (auto simp: ic_rule_add_self_to_shl_def Let_def split: if_splits)
  have b: "is_binop (op (heap fn a))" using d by simp
  show "ic_post snap fn a \<rho> fn'"
    using it_value [OF inv a b] d e double_shl by (intro ic_with_const [OF w inv a]) simp_all
qed


lemma ic_rule_icmp_zero_canonical_sound: "rule_sound ic_rule_icmp_zero_canonical"
proof (rule rule_soundI)
  fix snap fn a \<rho> fn'
  assume inv: "ic_inv snap fn \<rho>" and a: "a \<in> set (all_addrs fn)"
    and run: "ic_rule_icmp_zero_canonical snap fn a = Some fn'"
  let ?it = "heap fn a"
  let ?i' = "set_src 1 (src1 ?it) (set_src 0 (src2 ?it) ?it)"
  from run have o: "op ?it = OP_EQ \<or> op ?it = OP_NE" and fn': "fn' = upd_instr a (\<lambda>_. ?i') fn"
    by (auto simp: ic_rule_icmp_zero_canonical_def Let_def upd_instr_def split: if_splits)
  have b: "is_binop (op ?it)" using o by auto
  have ok: "instr_ok (n_regs fn) ?it" using inv a by (simp add: ic_inv_def regs_ok_def)
  have w: "wide ?it" using it_value(4) [OF inv a b] .
  have "instr_ok (n_regs fn) ?i'"
    using ok o by (auto simp: instr_ok_def wide_def opnds_def)
  moreover have "value_of ?i' \<rho> = value_of ?it \<rho>"
    using o w eq_commute [of "\<rho> (src1 ?it)" "\<rho> (src2 ?it)"]
    by (elim disjE) (simp_all add: value_of_def bin_val_def wide_def)
  ultimately show "ic_post snap fn a \<rho> fn'"
    unfolding fn' by (intro ic_post_rewrite [OF inv a b]) simp_all
qed

text \<open>What the definition of an operand says about its value, for the operations of the rules.\<close>

lemma sdef_op:
  assumes "ic_inv snap fn \<rho>" "sdef snap r = Some d"
  shows "op d = OP_ADD \<Longrightarrow> \<rho> r = \<rho> (src1 d) + \<rho> (src2 d)"
    "op d = OP_SUB \<Longrightarrow> \<rho> r = \<rho> (src1 d) - \<rho> (src2 d)"
    "op d = OP_BXOR \<Longrightarrow> \<rho> r = \<rho> (src1 d) XOR \<rho> (src2 d)"
    "op d = OP_BAND \<Longrightarrow> \<rho> r = \<rho> (src1 d) AND \<rho> (src2 d)"
    "op d \<in> {OP_ADD, OP_SUB, OP_BXOR, OP_BAND} \<Longrightarrow> src1 d \<le> n_regs fn \<and> src2 d \<le> n_regs fn"
  using sdef_value [OF assms] by auto

lemma ic_copy:
  assumes "to_copy fn a r = Some fn'" "ic_inv snap fn \<rho>" "a \<in> set (all_addrs fn)" "is_binop (op (heap fn a))"
    "r \<le> n_regs fn"
    "bin_val64 (op (heap fn a)) (ir_type (heap fn a) = IR_TY_U64) (\<rho> (src1 (heap fn a))) (\<rho> (src2 (heap fn a)))
       = Some (\<rho> r)"
  shows "ic_post snap fn a \<rho> fn'"
  using ic_post_copy [OF assms(2-5) _ assms(1)] it_value [OF assms(2-4)] assms(6) by simp

lemma ic_rule_add_sub_cancel_sound: "rule_sound ic_rule_add_sub_cancel"
proof (rule rule_soundI)
  fix snap fn a \<rho> fn'
  assume inv: "ic_inv snap fn \<rho>" and a: "a \<in> set (all_addrs fn)"
    and run: "ic_rule_add_sub_cancel snap fn a = Some fn'"
  then obtain d where o: "op (heap fn a) = OP_SUB" and d: "sdef snap (src1 (heap fn a)) = Some d" "op d = OP_ADD"
    and c: "src2 d = src2 (heap fn a) \<and> to_copy fn a (src1 d) = Some fn' \<or>
            src1 d = src2 (heap fn a) \<and> to_copy fn a (src2 d) = Some fn'"
    by (auto simp: ic_rule_add_sub_cancel_def Let_def split: option.splits if_splits)
  note v = sdef_op [OF inv d(1)]
  from c show "ic_post snap fn a \<rho> fn'"
    using v d(2) o by (elim disjE conjE; intro ic_copy [OF _ inv a]) auto
qed

lemma ic_rule_xor_cancel_sound: "rule_sound ic_rule_xor_cancel"
proof (rule rule_soundI)
  fix snap fn a \<rho> fn'
  assume inv: "ic_inv snap fn \<rho>" and a: "a \<in> set (all_addrs fn)"
    and run: "ic_rule_xor_cancel snap fn a = Some fn'"
  then obtain d where o: "op (heap fn a) = OP_BXOR" and d: "sdef snap (src1 (heap fn a)) = Some d" "op d = OP_BXOR"
    and c: "src2 d = src2 (heap fn a) \<and> to_copy fn a (src1 d) = Some fn' \<or>
            src1 d = src2 (heap fn a) \<and> to_copy fn a (src2 d) = Some fn'"
    by (auto simp: ic_rule_xor_cancel_def Let_def split: option.splits if_splits)
  note v = sdef_op [OF inv d(1)]
  from c show "ic_post snap fn a \<rho> fn'"
    using v d(2) o by (elim disjE conjE; intro ic_copy [OF _ inv a]) (auto simp: bitwise_facts(5,6))
qed

lemma ic_rule_sub_add_cancel_sound: "rule_sound ic_rule_sub_add_cancel"
proof (rule rule_soundI)
  fix snap fn a \<rho> fn'
  assume inv: "ic_inv snap fn \<rho>" and a: "a \<in> set (all_addrs fn)"
    and run: "ic_rule_sub_add_cancel snap fn a = Some fn'"
  then have o: "op (heap fn a) = OP_ADD"
    by (auto simp: ic_rule_sub_add_cancel_def Let_def split: if_splits)
  from run obtain d r where c: "to_copy fn a (src1 d) = Some fn'" and d: "sdef snap r = Some d" "op d = OP_SUB"
    and s: "r = src1 (heap fn a) \<and> src2 d = src2 (heap fn a) \<or> r = src2 (heap fn a) \<and> src2 d = src1 (heap fn a)"
    by (auto simp: ic_rule_sub_add_cancel_def Let_def split: option.splits if_splits)
  note v = sdef_op [OF inv d(1)]
  have b: "src1 d \<le> n_regs fn" using v(5) d(2) by simp
  have "\<rho> r = \<rho> (src1 d) - \<rho> (src2 d)" using v(2) d(2) by simp
  with s have "\<rho> (src1 (heap fn a)) + \<rho> (src2 (heap fn a)) = \<rho> (src1 d)" by auto
  then show "ic_post snap fn a \<rho> fn'"
    using b o by (intro ic_copy [OF c inv a]) simp_all
qed

lemma ic_rule_bitwise_distributivity_sound: "rule_sound ic_rule_bitwise_distributivity"
proof (rule rule_soundI)
  fix snap fn a \<rho> fn'
  assume inv: "ic_inv snap fn \<rho>" and a: "a \<in> set (all_addrs fn)"
    and run: "ic_rule_bitwise_distributivity snap fn a = Some fn'"
  then obtain d1 d2 c1 c2 where o: "op (heap fn a) = OP_BOR"
    and d1: "sdef snap (src1 (heap fn a)) = Some d1" "op d1 = OP_BAND" "sconst snap (src2 d1) = Some c1"
    and d2: "sdef snap (src2 (heap fn a)) = Some d2" "op d2 = OP_BAND" "sconst snap (src2 d2) = Some c2"
    and s: "src1 d1 = src1 d2" and w: "with_const fn a OP_BAND (src1 d1) (c1 OR c2) = Some fn'"
    by (auto simp: ic_rule_bitwise_distributivity_def Let_def split: option.splits if_splits)
  note v1 = sdef_op [OF inv d1(1)] sconst_value [OF inv d1(3)]
  note v2 = sdef_op [OF inv d2(1)] sconst_value [OF inv d2(3)]
  show "ic_post snap fn a \<rho> fn'"
    using v1 v2 d1(2) d2(2) o s by (intro ic_with_const [OF w inv a]) (auto simp: bitwise_facts(1))
qed

lemma ic_rule_absorption_sound: "rule_sound ic_rule_absorption_and_or"
proof (rule rule_soundI)
  fix snap fn a \<rho> fn'
  assume inv: "ic_inv snap fn \<rho>" and a: "a \<in> set (all_addrs fn)"
    and run: "ic_rule_absorption_and_or snap fn a = Some fn'"
  then obtain d x where o: "op (heap fn a) = OP_BOR" and f: "absorb_find snap fn (heap fn a) = Some (d, x)"
    and s: "resolve_copy fn (src1 d) = x \<or> resolve_copy fn (src2 d) = x" and c: "to_copy fn a x = Some fn'"
    by (auto simp: ic_rule_absorption_and_or_def Let_def split: option.splits if_splits)
  from f obtain r y where d: "sdef snap r = Some d" "op d = OP_BAND" and x: "x = resolve_copy fn y"
    and ry: "r = src1 (heap fn a) \<and> y = src2 (heap fn a) \<or> r = src2 (heap fn a) \<and> y = src1 (heap fn a)"
    by (auto simp: absorb_find_def Let_def split: option.splits if_splits)
  have b: "is_binop (op (heap fn a))" using o by simp
  have yb: "y \<le> n_regs fn" using ry it_value(2,3) [OF inv a b] by auto
  note xv = resolve_copy_value [OF inv yb]
  note v = sdef_op [OF inv d(1)]
  have "\<rho> (src1 d) = \<rho> x \<or> \<rho> (src2 d) = \<rho> x"
    using s v(5) d(2) resolve_copy_value(1) [OF inv] by auto
  moreover have "\<rho> y = \<rho> x" "\<rho> r = \<rho> (src1 d) AND \<rho> (src2 d)" using xv x v(4) d(2) by auto
  ultimately show "ic_post snap fn a \<rho> fn'"
    using ry o xv(2) x by (intro ic_copy [OF c inv a]) (auto simp: bitwise_facts(7-10))
qed

section \<open>Dispatch and pass\<close>

lemma kRules_sound: "R \<in> set kRules \<Longrightarrow> rule_sound R"
  using ic_rule_add_zero_sound identity_rules_sound ic_rule_div_one_sound ic_rule_and_allones_sound
    nested_rules_sound ic_rule_reassoc_add_consts_sound ic_rule_reassoc_mul_consts_sound
    ic_rule_nested_shl_consts_sound ic_rule_mul_pow2_to_shl_sound ic_rule_udiv_pow2_to_shr_sound
    ic_rule_add_self_to_shl_sound ic_rule_icmp_zero_canonical_sound ic_rule_add_sub_cancel_sound
    ic_rule_xor_cancel_sound ic_rule_sub_add_cancel_sound ic_rule_bitwise_distributivity_sound
    ic_rule_absorption_sound
  by (auto simp: kRules_def)

lemma first_rule_sound: "(\<And>R. R \<in> set rs \<Longrightarrow> rule_sound R) \<Longrightarrow> rule_sound (first_rule rs)"
proof (induction rs)
  case Nil
  then show ?case by (simp add: rule_sound_def)
next
  case (Cons r rs)
  then have "rule_sound r" "rule_sound (first_rule rs)" by auto
  then show ?case by (auto simp: rule_sound_def split: option.splits)
qed

lemma ic_try_rules_sound: "rule_sound ic_try_rules"
  unfolding ic_try_rules_def by (rule first_rule_sound) (rule kRules_sound)

text \<open>
  The contract between the pass and what it dispatches to: a combiner rewrites one instruction at
  a time and each rewrite is sound. The loop is correct for every such combiner.
\<close>

definition refines_values :: "func \<Rightarrow> (regid \<Rightarrow> int64) \<Rightarrow> func \<Rightarrow> (regid \<Rightarrow> int64) \<Rightarrow> bool" where
  "refines_values fn \<rho> fn' \<rho>' \<longleftrightarrow> n_regs fn \<le> n_regs fn' \<and> (\<forall>r \<le> n_regs fn. \<rho>' r = \<rho> r) \<and>
     set (all_addrs fn) \<subseteq> set (all_addrs fn') \<and>
     (\<forall>b \<in> set (all_addrs fn). dst (heap fn' b) = dst (heap fn b) \<and>
        value_of (heap fn' b) \<rho>' = value_of (heap fn b) \<rho> \<and>
        (\<not> is_binop (op (heap fn b)) \<longrightarrow> heap fn' b = heap fn b))"

lemma refines_values_refl: "refines_values fn \<rho> fn \<rho>"
  by (simp add: refines_values_def)

lemma refines_values_trans:
  "refines_values fn \<rho> fn1 \<rho>1 \<Longrightarrow> refines_values fn1 \<rho>1 fn2 \<rho>2 \<Longrightarrow> refines_values fn \<rho> fn2 \<rho>2"
  by (auto simp: refines_values_def subset_iff)

lemma ic_post_refines:
  "ic_post snap fn a \<rho> fn' \<Longrightarrow> \<exists>\<rho>'. ic_inv snap fn' \<rho>' \<and> refines_values fn \<rho> fn' \<rho>'"
  unfolding ic_post_def refines_values_def by blast

locale combiner =
  fixes R :: ic_rule
  assumes sound: "rule_sound R"
begin

lemma step_sound:
  assumes "ic_inv snap fn \<rho>" "a \<in> set (all_addrs fn)" "combine_step R snap a (fn, n) = (fn', n')"
  shows "\<exists>\<rho>'. ic_inv snap fn' \<rho>' \<and> refines_values fn \<rho> fn' \<rho>'"
proof (cases "R snap fn a")
  case (Some fn1)
  have "ic_post snap fn a \<rho> fn1" using sound assms(1,2) Some unfolding rule_sound_def by blast
  with assms Some refines_values_refl show ?thesis
    by (auto simp: combine_step_def split: if_splits dest: ic_post_refines)
qed (use assms refines_values_refl in \<open>auto simp: combine_step_def split: if_splits\<close>)

lemma loop_sound:
  assumes "ic_inv snap fn \<rho>" "set as \<subseteq> set (all_addrs fn)" "fold (combine_step R snap) as (fn, n) = (fn', n')"
  shows "\<exists>\<rho>'. ic_inv snap fn' \<rho>' \<and> refines_values fn \<rho> fn' \<rho>'"
  using assms
proof (induction as arbitrary: fn \<rho> n)
  case Nil
  then show ?case using refines_values_refl by auto
next
  case (Cons a as)
  obtain fn1 n1 where st: "combine_step R snap a (fn, n) = (fn1, n1)" by fastforce
  from Cons.prems step_sound [OF _ _ st] obtain \<rho>1 where
    1: "ic_inv snap fn1 \<rho>1" "refines_values fn \<rho> fn1 \<rho>1" by auto
  then have "set as \<subseteq> set (all_addrs fn1)" using Cons.prems(2) by (auto simp: refines_values_def)
  with Cons.IH [OF 1(1)] Cons.prems(3) st obtain \<rho>' where
    "ic_inv snap fn' \<rho>'" "refines_values fn1 \<rho>1 fn' \<rho>'" by auto
  with 1(2) show ?case using refines_values_trans by blast
qed

end

interpretation ic: combiner ic_try_rules
  by unfold_locales (rule ic_try_rules_sound)

text \<open>The snapshot describes the function it was taken of.\<close>

lemma max_reg_step_mono: "m \<le> max_reg_step i m"
  by (auto simp: max_reg_step_def Let_def)

lemma ic_snapshot_ok:
  assumes regs: "regs_ok fn" and mod: "models fn \<rho>" and dof: "def_use_ok fn"
    and stale: "\<And>r. fn_max_register fn < r \<Longrightarrow> op (stale r) = OP_NOP"
  shows "snap_ok (ic_snapshot stale fn) (n_regs fn) \<rho>"
  unfolding snap_ok_def
proof (intro allI impI)
  fix r d
  assume d: "sdef (ic_snapshot stale fn) r = Some d" and p: "is_pure (op d)"
  from d have r: "0 < r" "r < MAX_INSTRS" and dd: "d = ic_snapshot stale fn r" and nn: "op d \<noteq> OP_NOP"
    by (auto simp: ic_snapshot_def_of_def split: if_splits)
  obtain a where a: "def_tab fn r = Some a" "d = heap fn a"
    using dd nn stale r by (auto simp: ic_snapshot_def Let_def calloc_instr_def split: if_splits option.splits)
  then have "def_of fn r = Some a" using r by (simp add: def_of_def)
  with dof have "a \<in> set (all_addrs fn)" "dst (heap fn a) = r" by (auto simp: def_use_ok_def)
  then show "wide d \<and> r \<le> n_regs fn \<and> (\<forall>x \<in> set (opnds d). x \<le> n_regs fn) \<and>
      (\<forall>v. value_of d \<rho> = Some v \<longrightarrow> \<rho> r = v)"
    using regs mod p a(2) r by (auto simp: regs_ok_def models_def instr_ok_def satisfies_def)
qed

lemma rebuild_regs_models:
  "regs_ok (rebuild_def_use fn) = regs_ok fn" "models (rebuild_def_use fn) \<rho> = models fn \<rho>"
  "heap_ok (rebuild_def_use fn) = heap_ok fn" "counters_ok (rebuild_def_use fn) = counters_ok fn"
  "blk_at (rebuild_def_use fn) = blk_at fn" "fn_max_register (rebuild_def_use fn) = fn_max_register fn"
  by (auto simp: regs_ok_def models_def heap_ok_def counters_ok_def blk_at_def fn_max_register_def
      rebuild_keeps fun_eq_iff)

lemma refines_values_rebuild:
  "refines_values (rebuild_def_use fn) \<rho> fn' \<rho>' = refines_values fn \<rho> fn' \<rho>'"
  "refines_values fn \<rho> (rebuild_def_use fn') \<rho>' = refines_values fn \<rho> fn' \<rho>'"
  by (auto simp: refines_values_def rebuild_keeps)

section \<open>Properties\<close>

text \<open>
  C18: InstCombine preserves values. Take a function with sane lists whose instructions are all 64-bit
  integer ones and whose divisions are all unsigned (rule 18 is wrong for signed ones, see below), no stale
  entries in the static snapshot above the registers of the function, and any assignment of its registers that
  satisfies the equation of each of its instructions. Then the assignment extends to the new constants of
  the optimised function so that it satisfies all its equations: every instruction of the
  original is still there, writes the same register and computes the same value, instructions
  that are not binary operations are untouched, and lists and counters stay well formed.
\<close>

theorem opt_instcombine_sound:
  assumes "heap_ok fn" "counters_ok fn" "blk_at fn 0 \<noteq> None" "regs_ok fn" "models fn \<rho>"
    and "\<And>r. fn_max_register fn < r \<Longrightarrow> op (stale r) = OP_NOP"
    and "opt_instcombine_pass stale fn = (fn', changed)"
  shows "\<exists>\<rho>'. models fn' \<rho>' \<and> refines_values fn \<rho> fn' \<rho>' \<and> heap_ok fn' \<and> counters_ok fn' \<and> regs_ok fn'"
proof -
  let ?fn0 = "rebuild_def_use fn"
  obtain fn1 n where loop: "fold (combine_step ic_try_rules (ic_snapshot stale ?fn0)) (all_addrs ?fn0) (?fn0, 0) = (fn1, n)"
    by fastforce
  have fn': "fn' = fn1 \<or> fn' = rebuild_def_use fn1"
    using assms(7) loop by (auto simp: opt_instcombine_pass_def Let_def split: if_splits)
  have "snap_ok (ic_snapshot stale ?fn0) (n_regs ?fn0) \<rho>"
    by (rule ic_snapshot_ok) (use assms rebuild_def_use_ok in \<open>auto simp: rebuild_regs_models\<close>)
  then have "ic_inv (ic_snapshot stale ?fn0) ?fn0 \<rho>"
    using assms rebuild_def_use_ok by (simp add: ic_inv_def rebuild_regs_models)
  from ic.loop_sound [OF this _ loop] obtain \<rho>' where
    "ic_inv (ic_snapshot stale ?fn0) fn1 \<rho>'" "refines_values fn \<rho> fn1 \<rho>'"
    by (auto simp: refines_values_rebuild)
  then show ?thesis
    using fn' by (intro exI [of _ \<rho>']) (auto simp: ic_inv_def rebuild_regs_models refines_values_rebuild)
qed

definition demo_combine :: func where
  "demo_combine = mk_func [mk_block [0, 1, 2, 3] [] []]
     [mk_const 1 8, mk_instr OP_LOAD 2 [], mk_instr OP_MUL 3 [2, 1], mk_instr OP_RET 0 [3]] 3"

definition demo_sdiv :: func where
  "demo_sdiv = rebuild_def_use (mk_func [mk_block [0, 1, 2, 3] [] []]
     [mk_const 1 (-1), mk_const 2 2, mk_instr OP_DIV 3 [1, 2], mk_instr OP_RET 0 [3]] 3)"

lemmas ic_rule_defs = ic_identity_defs ic_rule_and_allones_def ic_nested_defs ic_rule_nested_shl_consts_def
  ic_rule_reassoc_add_consts_def ic_rule_reassoc_mul_consts_def ic_rule_mul_pow2_to_shl_def
  ic_rule_icmp_zero_canonical_def ic_rule_udiv_pow2_to_shr_def ic_rule_add_self_to_shl_def
  ic_rule_bitwise_distributivity_def ic_rule_add_sub_cancel_def ic_rule_sub_add_cancel_def
  ic_rule_xor_cancel_def ic_rule_absorption_and_or_def nested_consts_def absorb_find_def
  pow2_const_def ones_const_def ic_snapshot_reg_is_const_def ic_snapshot_def_of_def

lemma demo_sdiv_facts:
  "heap demo_sdiv 2 = mk_instr OP_DIV 3 [1, 2]" "all_addrs demo_sdiv = [0, 1, 2, 3]"
  "fn_max_register demo_sdiv = 3" "n_regs demo_sdiv = 3" "next_addr demo_sdiv = 4"
  "def_tab demo_sdiv (Suc 0) = Some 0" "def_tab demo_sdiv 2 = Some (Suc 0)"
  "heap demo_sdiv 0 = mk_const 1 (-1)" "heap demo_sdiv (Suc 0) = mk_const 2 2" "heap demo_sdiv 3 = mk_instr OP_RET 0 [3]"
  by (simp_all add: demo_sdiv_def rebuild_def_use_def mk_defs all_addrs_def blk_instrs_def fn_max_register_def
    max_reg_step_def MAX_INSTRS_def Let_def)


lemma pow2_two: "is_pow2 2" "shift_amt 2 = 1"
  using shift_amt_pow2 [of 1] by (simp_all add: is_pow2_def word_sless_alt)

lemma resolve_copy_stop:
  "(\<And>a. def_of fn r = Some a \<Longrightarrow> op (heap fn a) \<noteq> OP_COPY) \<Longrightarrow> resolve_copy fn r = r"
  by (auto simp: resolve_copy_def numeral_eq_Suc split: option.split)

lemma demo_sdiv_rule:
  "ic_try_rules (ic_snapshot (\<lambda>_. calloc_instr) demo_sdiv) demo_sdiv 2 = with_const demo_sdiv 2 OP_SHR 1 1"
  by (simp add: ic_try_rules_def kRules_def)
    (simp add: ic_rule_defs demo_sdiv_facts Let_def ic_snapshot_def MAX_INSTRS_def pow2_two mk_defs
      split: option.split)

lemma demo_sdiv_result:
  obtains fn' where "with_const demo_sdiv 2 OP_SHR 1 1 = Some fn'" "heap fn' 4 = const_instr demo_sdiv IR_TY_I64 1"
    "heap fn' 2 = (mk_instr OP_DIV 3 [1, 4])\<lparr>op := OP_SHR\<rparr>"
proof -
  let ?fn = "link_instr (Some 2) 4 (demo_sdiv\<lparr>heap := (heap demo_sdiv)(4 := const_instr demo_sdiv IR_TY_I64 1),
       next_addr := 5, n_regs := 4\<rparr>)\<lparr>def_tab := (def_tab demo_sdiv)(4 \<mapsto> 4)\<rparr>"
  have mk: "make_const demo_sdiv IR_TY_I64 1 (Some 2) = (?fn, 4)"
    by (simp add: make_const_def find_const_def demo_sdiv_facts mk_defs Let_def link_instr_keeps)
  have rc: "resolve_copy ?fn (Suc 0) = Suc 0"
    by (rule resolve_copy_stop) (auto simp: def_of_def demo_sdiv_facts link_instr_keeps mk_defs split: if_splits)
  show thesis
  proof (rule that)
    show "with_const demo_sdiv 2 OP_SHR 1 1 =
        Some (upd_instr 2 (\<lambda>i. set_src 1 4 (set_src 0 1 (i\<lparr>op := OP_SHR\<rparr>))) ?fn)"
      using mk rc by (simp add: with_const_def demo_sdiv_facts mk_instr_def calloc_instr_def)
    show "heap (upd_instr 2 (\<lambda>i. set_src 1 4 (set_src 0 1 (i\<lparr>op := OP_SHR\<rparr>))) ?fn) 4 = const_instr demo_sdiv IR_TY_I64 1"
      by (simp add: link_instr_keeps)
    show "heap (upd_instr 2 (\<lambda>i. set_src 1 4 (set_src 0 1 (i\<lparr>op := OP_SHR\<rparr>))) ?fn) 2 =
        (mk_instr OP_DIV 3 [1, 4])\<lparr>op := OP_SHR\<rparr>"
      by (auto simp: link_instr_keeps mk_defs demo_sdiv_facts set_src_def fun_eq_iff less_Suc_eq)
  qed
qed

text \<open>
  C19: Rule 18 is meant for unsigned division, but \<^verbatim>\<open>OP_UDIV\<close> is a macro for \<^verbatim>\<open>OP_DIV\<close>, so it also
  rewrites signed divisions: \<open>-1 / 2\<close> of type \<^verbatim>\<open>i64\<close>, which is 0, becomes a right shift of \<open>-1\<close> by
  one. The right shift is emitted as \<^verbatim>\<open>shrq\<close> whatever the type, so its value is \<open>2^63 - 1\<close>.
\<close>

theorem ic_udiv_rule_hits_sdiv:
  "\<exists>fn'. ic_try_rules (ic_snapshot (\<lambda>_. calloc_instr) demo_sdiv) demo_sdiv 2 = Some fn' \<and>
     ir_type (heap demo_sdiv 2) = IR_TY_I64 \<and> op (heap fn' 4) = OP_CONST \<and> dst (heap fn' 4) = 4 \<and> imm (heap fn' 4) = 1 \<and>
     value_of (heap demo_sdiv 2) (\<lambda>r. if r = 1 then -1 else if r = 2 then 2 else 1) = Some 0 \<and>
     value_of (heap fn' 2) (\<lambda>r. if r = 1 then -1 else if r = 2 then 2 else 1) = Some 0x7FFFFFFFFFFFFFFF"
proof -
  obtain fn' where "with_const demo_sdiv 2 OP_SHR 1 1 = Some fn'" "heap fn' 4 = const_instr demo_sdiv IR_TY_I64 1"
    "heap fn' 2 = (mk_instr OP_DIV 3 [1, 4])\<lparr>op := OP_SHR\<rparr>" by (rule demo_sdiv_result)
  then show ?thesis
    unfolding demo_sdiv_rule
    by (auto simp: demo_sdiv_facts const_instr_def mk_instr_def calloc_instr_def value_of_def bin_val_def
        c_sdiv_def c_shr_def signed_divide_int_def drop_bit_eq_div)
qed


lemma ic_try_rules_None:
  assumes "\<not> is_binop (op (heap fn a))"
  shows "ic_try_rules snap fn a = None"
proof -
  let ?o = "op (heap fn a)"
  have "?o \<noteq> OP_ADD" "?o \<noteq> OP_SUB" "?o \<noteq> OP_MUL" "?o \<noteq> OP_DIV" "?o \<noteq> OP_BAND" "?o \<noteq> OP_BOR" "?o \<noteq> OP_BXOR"
    "?o \<noteq> OP_SHL" "?o \<noteq> OP_SHR" "?o \<noteq> OP_EQ" "?o \<noteq> OP_NE"
    using assms by (auto simp: is_binop_def)
  then show ?thesis
    by (simp add: ic_try_rules_def kRules_def) (simp add: ic_rule_defs Let_def)
qed

definition demo_diamond :: func where
  "demo_diamond = rebuild_def_use (mk_func
     [mk_block [0, 1, 2, 3, 4] [1, 2] [], mk_block [5, 6] [] [0], mk_block [7, 8] [] [0]]
     [mk_instr OP_LOAD 1 [], mk_const 2 3, mk_const 3 4, mk_instr OP_ADD 4 [1, 2],
      mk_instr OP_CONDBR 0 [1, 1, 2], mk_instr OP_ADD 5 [4, 3], mk_instr OP_RET 0 [5],
      mk_instr OP_ADD 6 [4, 3], mk_instr OP_RET 0 [6]] 6)"

lemma demo_diamond_facts:
  "all_addrs demo_diamond = [0, 1, 2, 3, 4, 5, 6, 7, 8]"
  "fn_max_register demo_diamond = 6" "n_regs demo_diamond = 6" "next_addr demo_diamond = 9"
  "def_tab demo_diamond (Suc 0) = Some 0" "def_tab demo_diamond 2 = Some (Suc 0)" "def_tab demo_diamond 3 = Some 2"
  "def_tab demo_diamond 4 = Some 3"
  "heap demo_diamond 0 = mk_instr OP_LOAD 1 []" "heap demo_diamond (Suc 0) = mk_const 2 3"
  "heap demo_diamond 2 = mk_const 3 4" "heap demo_diamond 3 = mk_instr OP_ADD 4 [1, 2]"
  "heap demo_diamond 4 = mk_instr OP_CONDBR 0 [1, 1, 2]" "heap demo_diamond 5 = mk_instr OP_ADD 5 [4, 3]"
  "heap demo_diamond 6 = mk_instr OP_RET 0 [5]" "heap demo_diamond 7 = mk_instr OP_ADD 6 [4, 3]"
  "heap demo_diamond 8 = mk_instr OP_RET 0 [6]"
  by (simp_all add: demo_diamond_def rebuild_def_use_def mk_defs all_addrs_def blk_instrs_def fn_max_register_def
    max_reg_step_def MAX_INSTRS_def Let_def)


text \<open>The pass on the diamond, rewrite by rewrite.\<close>

abbreviation "diamond_snap \<equiv> ic_snapshot (\<lambda>_. calloc_instr) demo_diamond"

definition diamond1 :: func where
  "diamond1 = (let fn = link_instr (Some 5) 9 (demo_diamond\<lparr>heap := (heap demo_diamond)(9 := const_instr demo_diamond IR_TY_I64 7),
       next_addr := 10, n_regs := 7\<rparr>)\<lparr>def_tab := (def_tab demo_diamond)(7 \<mapsto> 9)\<rparr>
     in upd_instr 5 (\<lambda>i. set_src 1 7 (set_src 0 1 (i\<lparr>op := OP_ADD\<rparr>))) fn)"

lemma overflow_3_4: "will_overflow_add IR_TY_I64 3 4 = False"
  using will_overflow_add_exact [of IR_TY_I64 3 4] by simp

lemma diamond_step1: "ic_try_rules diamond_snap demo_diamond 5 = Some diamond1"
proof -
  have t: "ic_try_rules diamond_snap demo_diamond 5 = with_const demo_diamond 5 OP_ADD 1 7"
    by (simp add: ic_try_rules_def kRules_def)
      (simp add: ic_rule_defs demo_diamond_facts Let_def ic_snapshot_def MAX_INSTRS_def mk_defs overflow_3_4
        split: option.split)
  let ?fn = "link_instr (Some 5) 9 (demo_diamond\<lparr>heap := (heap demo_diamond)(9 := const_instr demo_diamond IR_TY_I64 7),
       next_addr := 10, n_regs := 7\<rparr>)\<lparr>def_tab := (def_tab demo_diamond)(7 \<mapsto> 9)\<rparr>"
  have mk: "make_const demo_diamond IR_TY_I64 7 (Some 5) = (?fn, 7)"
    by (simp add: make_const_def find_const_def demo_diamond_facts mk_defs Let_def link_instr_keeps)
  have rc: "resolve_copy ?fn (Suc 0) = Suc 0"
    by (rule resolve_copy_stop) (auto simp: def_of_def demo_diamond_facts link_instr_keeps mk_defs split: if_splits)
  show ?thesis unfolding t
    using mk rc by (simp add: with_const_def demo_diamond_facts mk_instr_def calloc_instr_def diamond1_def Let_def)
qed

lemma diamond1_blocks:
  "blocks diamond1 = [Some (mk_block [0, 1, 2, 3, 4] [1, 2] []),
     Some ((mk_block [9, 5, 6] [] [0])\<lparr>n_instrs := 3\<rparr>), Some (mk_block [7, 8] [] [0])]"
  by (simp add: diamond1_def Let_def link_instr_def demo_diamond_def rebuild_def_use_def mk_func_def
      link_in_block_def mk_block_def calloc_block_def)

lemma diamond1_facts:
  "all_addrs diamond1 = [0, 1, 2, 3, 4, 9, 5, 6, 7, 8]" "n_regs diamond1 = 7"
  "heap diamond1 9 = const_instr demo_diamond IR_TY_I64 7"
  "b \<noteq> 5 \<Longrightarrow> b \<noteq> 9 \<Longrightarrow> heap diamond1 b = heap demo_diamond b"
  "def_tab diamond1 (Suc 0) = Some 0"
  by (simp_all add: all_addrs_def diamond1_blocks blk_instrs_def mk_block_def)
    (simp_all add: diamond1_def Let_def link_instr_keeps demo_diamond_facts)

definition diamond2 :: func where
  "diamond2 = upd_instr 7 (\<lambda>i. set_src 1 7 (set_src 0 1 (i\<lparr>op := OP_ADD\<rparr>))) diamond1"

lemma diamond_step2: "ic_try_rules diamond_snap diamond1 7 = Some diamond2"
proof -
  have t: "ic_try_rules diamond_snap diamond1 7 = with_const diamond1 7 OP_ADD 1 7"
    by (simp add: ic_try_rules_def kRules_def)
      (simp add: ic_rule_defs demo_diamond_facts diamond1_facts Let_def ic_snapshot_def MAX_INSTRS_def mk_defs overflow_3_4
        split: option.split)
  have mk: "make_const diamond1 IR_TY_I64 7 (Some 7) = (diamond1, 7)"
    by (simp add: make_const_def find_const_def diamond1_facts demo_diamond_facts mk_defs const_instr_def)
  have rc: "resolve_copy diamond1 (Suc 0) = Suc 0"
    by (rule resolve_copy_stop) (auto simp: def_of_def diamond1_facts demo_diamond_facts mk_defs split: if_splits)
  show ?thesis unfolding t
    using mk rc by (simp add: with_const_def diamond1_facts demo_diamond_facts mk_instr_def calloc_instr_def diamond2_def)
qed

lemma diamond_none:
  "ic_try_rules diamond_snap demo_diamond 3 = None"
  by (simp add: ic_try_rules_def kRules_def)
      (simp add: ic_rule_defs demo_diamond_facts Let_def ic_snapshot_def MAX_INSTRS_def mk_defs
        split: option.split)

lemma rebuild_idem: "rebuild_def_use (rebuild_def_use fn) = rebuild_def_use fn"
  by (simp add: rebuild_def_use_def)

lemma diamond_pass:
  "opt_instcombine_pass (\<lambda>_. calloc_instr) demo_diamond = (rebuild_def_use diamond2, True)"
proof -
  have r: "rebuild_def_use demo_diamond = demo_diamond" by (simp add: demo_diamond_def rebuild_idem)
  have n: "ic_try_rules diamond_snap demo_diamond 0 = None" "ic_try_rules diamond_snap demo_diamond (Suc 0) = None"
    "ic_try_rules diamond_snap demo_diamond 2 = None" "ic_try_rules diamond_snap demo_diamond 4 = None"
    "ic_try_rules diamond_snap diamond1 6 = None" "ic_try_rules diamond_snap diamond2 8 = None"
    by (rule ic_try_rules_None; simp add: demo_diamond_facts diamond1_facts diamond2_def is_binop_def mk_defs)+
  show ?thesis
    unfolding opt_instcombine_pass_def r Let_def demo_diamond_facts(1)
    by (simp add: combine_step_def n diamond_none diamond_step1 diamond_step2 REWRITE_CAP_def)
qed

text \<open>
  C20: \<^verbatim>\<open>make_const\<close> reuses a constant wherever it was linked, so InstCombine breaks the dominance of
  definitions over uses. On a diamond whose two branches both compute \<open>(x + 3) + 4\<close>, the new
  constant 7 is linked in the first branch and read in the second one, where no path has defined
  it.
\<close>

theorem opt_instcombine_breaks_dominance:
  "\<exists>fn'. opt_instcombine_pass (\<lambda>_. calloc_instr) demo_diamond = (fn', True) \<and>
     src2 (heap fn' 7) = 7 \<and> filter (\<lambda>a. dst (heap fn' a) = 7) (all_addrs fn') = [9] \<and>
     map blk_instrs (blocks fn') = [[0, 1, 2, 3, 4], [9, 5, 6], [7, 8]] \<and>
     heap fn' 4 = mk_instr OP_CONDBR 0 [1, 1, 2]"
proof -
  have aa: "all_addrs diamond2 = [0, 1, 2, 3, 4, 9, 5, 6, 7, 8]" by (simp add: diamond2_def diamond1_facts)
  have "dst (heap diamond2 9) = 7"
    by (simp add: diamond2_def diamond1_facts const_instr_def demo_diamond_facts)
  moreover have "dst (heap diamond2 5) = 5"
    by (simp add: diamond2_def diamond1_def Let_def link_instr_keeps demo_diamond_facts mk_defs)
  moreover have "src2 (heap diamond2 7) = 7" "dst (heap diamond2 7) = 6"
    by (simp_all add: diamond2_def diamond1_facts demo_diamond_facts mk_defs)
  ultimately show ?thesis
    unfolding diamond_pass
    by (simp add: rebuild_keeps aa)
      (simp add: diamond2_def diamond1_facts demo_diamond_facts diamond1_blocks mk_defs blk_instrs_def)
qed

lemma demo_combine_ok:
  "heap_ok demo_combine" "counters_ok demo_combine" "blk_at demo_combine 0 \<noteq> None" "regs_ok demo_combine"
  "models demo_combine (\<lambda>r. if r = 1 then 8 else if r = 2 then 5 else 40)"
  by (simp_all add: demo_combine_def mk_defs heap_ok_def counters_ok_def all_addrs_def blk_instrs_def
      blk_at_def regs_ok_def instr_ok_def wide_def is_pure_def is_binop_def opnds_def models_def
      satisfies_def value_of_def bin_val_def)

theorem opt_instcombine_sound_witness:
  "\<exists>\<rho>'. models (fst (opt_instcombine_pass (\<lambda>_. calloc_instr) demo_combine)) \<rho>' \<and> \<rho>' 3 = 40"
proof -
  obtain fn' c where r: "opt_instcombine_pass (\<lambda>_. calloc_instr) demo_combine = (fn', c)" by fastforce
  have "op calloc_instr = OP_NOP" by (simp add: calloc_instr_def)
  from opt_instcombine_sound [OF demo_combine_ok this r] obtain \<rho>' where
    "models fn' \<rho>'" and v: "refines_values demo_combine (\<lambda>r. if r = 1 then 8 else if r = 2 then 5 else 40) fn' \<rho>'"
    by blast
  moreover have "\<rho>' 3 = 40"
    using v by (simp add: refines_values_def demo_combine_def mk_func_def)
  ultimately show ?thesis by (auto simp: r)
qed

end
