(* ===== verification/Graph_Search.thy ===== *)
theory Graph_Search
  imports Zcc_Prelude
begin

text \<open>
  The breadth-first search that \<^verbatim>\<open>opt_cfg_simplify_pass\<close>, \<^verbatim>\<open>update_block_reachability\<close> and
  \<^verbatim>\<open>can_reach_without\<close> each write out: an array \<^verbatim>\<open>visited\<close> and an array queue over the block
  numbers below \<open>n\<close>. They differ in the blocks they admit (\<open>ok\<close>) and in the block they stop at
  (\<open>stop\<close>). Its correctness is proved once here.
\<close>

definition visit :: "nat \<Rightarrow> (nat \<Rightarrow> bool) \<Rightarrow> nat \<Rightarrow> (nat \<Rightarrow> bool) \<times> nat list \<Rightarrow> (nat \<Rightarrow> bool) \<times> nat list" where
  "visit n ok s = (\<lambda>(vis, q). if s < n \<and> ok s \<and> \<not> vis s then (vis(s := True), q @ [s]) else (vis, q))"

definition unvisited :: "nat \<Rightarrow> (nat \<Rightarrow> bool) \<Rightarrow> nat" where
  "unvisited n vis = card {b. b < n \<and> \<not> vis b}"

text \<open>Marking a block pays for the place it takes in the queue.\<close>

lemma unvisited_mark: "s < n \<Longrightarrow> \<not> vis s \<Longrightarrow> Suc (unvisited n (vis(s := True))) = unvisited n vis"
proof -
  assume s: "s < n" "\<not> vis s"
  have "{b. b < n \<and> \<not> vis b} = insert s {b. b < n \<and> \<not> (vis(s := True)) b}" using s by auto
  moreover have "finite {b. b < n \<and> \<not> (vis(s := True)) b}" by simp
  ultimately show ?thesis by (simp add: unvisited_def)
qed

lemma visit_fold_size:
  "fold (visit n ok) ss (vis, q) = (vis', q') \<Longrightarrow> unvisited n vis' + length q' = unvisited n vis + length q"
proof (induction ss arbitrary: vis q)
  case (Cons s ss)
  obtain v1 q1 where v: "visit n ok s (vis, q) = (v1, q1)" by fastforce
  then have "unvisited n v1 + length q1 = unvisited n vis + length q"
    using unvisited_mark [of s n vis] by (auto simp: visit_def split: if_splits)
  with Cons v show ?case by simp
qed simp

function search :: "(nat \<Rightarrow> nat list) \<Rightarrow> nat \<Rightarrow> (nat \<Rightarrow> bool) \<Rightarrow> (nat \<Rightarrow> bool) \<Rightarrow> (nat \<Rightarrow> bool) \<Rightarrow> nat list
    \<Rightarrow> (nat \<Rightarrow> bool) \<times> bool" where
  "search adj n ok stop vis [] = (vis, False)"
| "search adj n ok stop vis (b # q) = (if stop b then (vis, True)
     else (case fold (visit n ok) (adj b) (vis, q) of (vis', q') \<Rightarrow> search adj n ok stop vis' q'))"
  by pat_completeness auto

termination
proof (relation "measure (\<lambda>(adj, n, ok, stop, vis, q). unvisited n vis + length q)")
  fix adj n ok vis' q' and stop :: "nat \<Rightarrow> bool" and vis and b :: nat and q
  assume "\<not> stop b" "(vis', q') = fold (visit n ok) (adj b) (vis, q)"
  then have "unvisited n vis' + length q' = unvisited n vis + length q" by (intro visit_fold_size) simp
  then show "((adj, n, ok, stop, vis', q'), adj, n, ok, stop, vis, b # q)
      \<in> measure (\<lambda>(adj, n, ok, stop, vis, q). unvisited n vis + length q)" by simp
qed simp

definition edge_rel :: "(nat \<Rightarrow> nat list) \<Rightarrow> nat \<Rightarrow> (nat \<Rightarrow> bool) \<Rightarrow> (nat \<times> nat) set" where
  "edge_rel adj n ok = {(u, v). v \<in> set (adj u) \<and> v < n \<and> ok v}"

text \<open>The search from the blocks \<open>ss\<close>, which are marked and queued first.\<close>

definition search_all :: "(nat \<Rightarrow> nat list) \<Rightarrow> nat \<Rightarrow> (nat \<Rightarrow> bool) \<Rightarrow> nat list \<Rightarrow> nat \<Rightarrow> bool" where
  "search_all adj n ok ss = (case fold (visit n ok) ss (\<lambda>_. False, []) of (vis, q) \<Rightarrow>
     fst (search adj n ok (\<lambda>_. False) vis q))"

definition search_from :: "(nat \<Rightarrow> nat list) \<Rightarrow> nat \<Rightarrow> (nat \<Rightarrow> bool) \<Rightarrow> (nat \<Rightarrow> bool) \<Rightarrow> nat
    \<Rightarrow> (nat \<Rightarrow> bool) \<times> bool" where
  "search_from adj n ok stop s = search adj n ok stop ((\<lambda>_. False)(s := True)) [s]"

text \<open>
  The invariant: marked blocks are reachable, queued blocks are marked, and a marked block that
  has left the queue is no stop and has all its admitted successors marked.
\<close>

definition search_inv :: "(nat \<Rightarrow> nat list) \<Rightarrow> nat \<Rightarrow> (nat \<Rightarrow> bool) \<Rightarrow> (nat \<Rightarrow> bool) \<Rightarrow> nat set \<Rightarrow>
    (nat \<Rightarrow> bool) \<Rightarrow> nat list \<Rightarrow> bool" where
  "search_inv adj n ok stop S vis q \<longleftrightarrow> (\<forall>s \<in> S. vis s) \<and> (\<forall>b. vis b \<longrightarrow> b \<in> (edge_rel adj n ok)\<^sup>* `` S) \<and>
     (\<forall>b \<in> set q. vis b) \<and>
     (\<forall>b. vis b \<longrightarrow> b \<notin> set q \<longrightarrow> \<not> stop b \<and> (\<forall>v. (b, v) \<in> edge_rel adj n ok \<longrightarrow> vis v))"

lemma visit_fold:
  assumes "fold (visit n ok) ss (vis, q) = (vis', q')"
  shows "vis' b \<longleftrightarrow> vis b \<or> (b \<in> set ss \<and> b < n \<and> ok b)"
    "b \<in> set q' \<longleftrightarrow> b \<in> set q \<or> (vis' b \<and> \<not> vis b)"
proof -
  have "(vis' b \<longleftrightarrow> vis b \<or> (b \<in> set ss \<and> b < n \<and> ok b)) \<and> (b \<in> set q' \<longleftrightarrow> b \<in> set q \<or> (vis' b \<and> \<not> vis b))"
    using assms
  proof (induction ss arbitrary: vis q)
    case (Cons s ss)
    obtain v1 q1 where v: "visit n ok s (vis, q) = (v1, q1)" by fastforce
    with Cons.prems have "fold (visit n ok) ss (v1, q1) = (vis', q')" by simp
    note IH = Cons.IH [OF this]
    from v IH show ?case by (auto simp: visit_def split: if_splits)
  qed auto
  then show "vis' b \<longleftrightarrow> vis b \<or> (b \<in> set ss \<and> b < n \<and> ok b)"
    "b \<in> set q' \<longleftrightarrow> b \<in> set q \<or> (vis' b \<and> \<not> vis b)" by blast+
qed

lemma search_inv_step:
  assumes inv: "search_inv adj n ok stop S vis (b # q)" and b: "\<not> stop b"
    and run: "fold (visit n ok) (adj b) (vis, q) = (vis', q')"
  shows "search_inv adj n ok stop S vis' q'"
proof -
  let ?R = "edge_rel adj n ok"
  note V = visit_fold(1) [OF run] and Q = visit_fold(2) [OF run]
  have vb: "vis b" and sb: "b \<in> ?R\<^sup>* `` S" using inv by (auto simp: search_inv_def)
  have new: "(b, c) \<in> ?R" if "c \<in> set (adj b)" "c < n" "ok c" for c
    using that by (simp add: edge_rel_def)
  have reach: "c \<in> ?R\<^sup>* `` S" if "vis' c" for c
  proof (cases "vis c")
    case True
    with inv show ?thesis by (simp add: search_inv_def)
  next
    case False
    with that V [of c] have "(b, c) \<in> ?R" by (intro new) auto
    with sb show ?thesis by (blast intro: rtrancl_into_rtrancl)
  qed
  have closed: "\<not> stop c \<and> (\<forall>v. (c, v) \<in> ?R \<longrightarrow> vis' v)" if "vis' c" "c \<notin> set q'" for c
  proof -
    have "vis c" "c \<notin> set q" using that Q [of c] by auto
    then show ?thesis
      using inv b V unfolding search_inv_def by (cases "c = b") (auto simp: edge_rel_def)
  qed
  have "\<forall>s \<in> S. vis' s" using inv V by (simp add: search_inv_def)
  moreover have "\<forall>c \<in> set q'. vis' c" using inv Q V by (auto simp: search_inv_def)
  ultimately show ?thesis using reach closed by (auto simp: search_inv_def)
qed

lemma search_spec:
  assumes "search_inv adj n ok stop S vis q" "search adj n ok stop vis q = (vis', found)"
  shows "(found \<longleftrightarrow> (\<exists>b. b \<in> (edge_rel adj n ok)\<^sup>* `` S \<and> stop b)) \<and>
    (\<not> found \<longrightarrow> (\<forall>b. vis' b \<longleftrightarrow> b \<in> (edge_rel adj n ok)\<^sup>* `` S))"
  using assms
proof (induction adj n ok stop vis q rule: search.induct)
  case (1 adj n ok stop vis)
  have closed: "\<not> stop c \<and> (\<forall>v. (c, v) \<in> edge_rel adj n ok \<longrightarrow> vis v)" if "vis c" for c
    using 1(1) that by (simp add: search_inv_def)
  have all: "vis c" if c: "c \<in> (edge_rel adj n ok)\<^sup>* `` S" for c
  proof -
    obtain s where "s \<in> S" "(s, c) \<in> (edge_rel adj n ok)\<^sup>*" using c by blast
    from this(2) show ?thesis
    proof induction
      case base
      show ?case using 1(1) \<open>s \<in> S\<close> by (simp add: search_inv_def)
    next
      case (step y z)
      with closed show ?case by blast
    qed
  qed
  have "vis' = vis" "\<not> found" using 1(2) by auto
  moreover have "c \<in> (edge_rel adj n ok)\<^sup>* `` S" if "vis c" for c
    using 1(1) that by (simp add: search_inv_def)
  ultimately show ?case using closed all by blast
next
  case (2 adj n ok stop vis b q)
  show ?case
  proof (cases "stop b")
    case True
    with 2 show ?thesis by (auto simp: search_inv_def)
  next
    case False
    obtain v1 q1 where v: "fold (visit n ok) (adj b) (vis, q) = (v1, q1)" by fastforce
    show ?thesis
      using 2(1) [OF False v [symmetric] search_inv_step [OF 2(2) False v]] 2(3) False v by simp
  qed
qed

theorem search_from_correct:
  assumes "search_from adj n ok stop s = (vis, found)"
  shows "(found \<longleftrightarrow> (\<exists>b. (s, b) \<in> (edge_rel adj n ok)\<^sup>* \<and> stop b))"
    "\<not> found \<Longrightarrow> vis b \<longleftrightarrow> (s, b) \<in> (edge_rel adj n ok)\<^sup>*"
proof -
  have "search_inv adj n ok stop {s} ((\<lambda>_. False)(s := True)) [s]" by (auto simp: search_inv_def)
  from search_spec [OF this assms [unfolded search_from_def]]
  show "(found \<longleftrightarrow> (\<exists>b. (s, b) \<in> (edge_rel adj n ok)\<^sup>* \<and> stop b))"
    "\<not> found \<Longrightarrow> vis b \<longleftrightarrow> (s, b) \<in> (edge_rel adj n ok)\<^sup>*" by blast+
qed

theorem search_all_correct:
  "search_all adj n ok ss b \<longleftrightarrow> b \<in> (edge_rel adj n ok)\<^sup>* `` {s \<in> set ss. s < n \<and> ok s}"
proof -
  let ?S = "{s \<in> set ss. s < n \<and> ok s}"
  obtain vis q where v: "fold (visit n ok) ss (\<lambda>_. False, []) = (vis, q)" by fastforce
  obtain vis' found where r: "search adj n ok (\<lambda>_. False) vis q = (vis', found)" by fastforce
  have "vis b \<longleftrightarrow> b \<in> ?S" "b \<in> set q \<longleftrightarrow> vis b" for b
    using visit_fold [OF v, of b] by auto
  then have "search_inv adj n ok (\<lambda>_. False) ?S vis q" by (auto simp: search_inv_def)
  from search_spec [OF this r] v r show ?thesis by (simp add: search_all_def)
qed

lemma search_never_found: "\<not> snd (search_from adj n ok (\<lambda>_. False) s)"
  using search_from_correct(1) [of adj n ok "\<lambda>_. False" s] by (metis prod.collapse)

end
