(* ===== verification/CloneRemap.thy ===== *)
theory CloneRemap
  imports IR_Verify IR_Sem Graph_Search
begin

text \<open>
  \<open>src/src/opt/clone_remap.c\<close>: the remapping context of the cloning passes, the cloning of blocks
  and instructions, the reconstruction of the control-flow edges from the terminators, the
  reachability flags and the edits of phi nodes. \<open>None\<close> stands for \<^verbatim>\<open>exit(1)\<close>.
\<close>

section \<open>The remapping context\<close>

definition MAX_CLONE_MAP_ENTRIES :: nat where "MAX_CLONE_MAP_ENTRIES = 4096"

record clone_ctx =
  local_map :: "(regid \<times> regid) list"
  block_map :: "(blockid \<times> blockid) list"
  value_map :: "(int \<times> int) list"

definition clone_ctx_init :: clone_ctx where
  "clone_ctx_init = \<lparr>local_map = [], block_map = [], value_map = []\<rparr>"

text \<open>The loop of the three \<^verbatim>\<open>map\<close> operations: overwrite the first entry of the key, if any.\<close>

fun ctx_update :: "'a \<Rightarrow> 'a \<Rightarrow> ('a \<times> 'a) list \<Rightarrow> ('a \<times> 'a) list option" where
  "ctx_update k v [] = None"
| "ctx_update k v (p # ps) = (if fst p = k then Some ((k, v) # ps)
     else map_option ((#) p) (ctx_update k v ps))"

definition ctx_put :: "'a \<Rightarrow> 'a \<Rightarrow> ('a \<times> 'a) list \<Rightarrow> ('a \<times> 'a) list option" where
  "ctx_put k v m = (case ctx_update k v m of
      Some m' \<Rightarrow> Some m'
    | None \<Rightarrow> if length m < MAX_CLONE_MAP_ENTRIES then Some (m @ [(k, v)]) else None)"

definition clone_ctx_map_local :: "regid \<Rightarrow> regid \<Rightarrow> clone_ctx \<Rightarrow> clone_ctx option" where
  "clone_ctx_map_local k v ctx = map_option (\<lambda>m. ctx\<lparr>local_map := m\<rparr>) (ctx_put k v (local_map ctx))"

definition clone_ctx_get_local :: "clone_ctx \<Rightarrow> regid \<Rightarrow> regid" where
  "clone_ctx_get_local ctx k = (if k = 0 then 0
     else case map_of (local_map ctx) k of Some v \<Rightarrow> v | None \<Rightarrow> k)"

definition clone_ctx_map_block :: "blockid \<Rightarrow> blockid \<Rightarrow> clone_ctx \<Rightarrow> clone_ctx option" where
  "clone_ctx_map_block k v ctx = map_option (\<lambda>m. ctx\<lparr>block_map := m\<rparr>) (ctx_put k v (block_map ctx))"

definition clone_ctx_get_block :: "clone_ctx \<Rightarrow> blockid \<Rightarrow> blockid" where
  "clone_ctx_get_block ctx k = (if k = 0 then 0
     else case map_of (block_map ctx) k of Some v \<Rightarrow> v | None \<Rightarrow> k)"

definition clone_ctx_map_value :: "int \<Rightarrow> int \<Rightarrow> clone_ctx \<Rightarrow> clone_ctx option" where
  "clone_ctx_map_value k v ctx = map_option (\<lambda>m. ctx\<lparr>value_map := m\<rparr>) (ctx_put k v (value_map ctx))"

definition clone_ctx_get_value :: "clone_ctx \<Rightarrow> int \<Rightarrow> int" where
  "clone_ctx_get_value ctx k = (case map_of (value_map ctx) k of Some v \<Rightarrow> v | None \<Rightarrow> k)"

section \<open>Cloning blocks and instructions\<close>

definition clone_name :: "blockid \<Rightarrow> string" where
  "clone_name b = ''bb'' @ nat_str b @ ''_clone''"

definition clone_block_skeleton :: "func \<Rightarrow> block \<Rightarrow> clone_ctx \<Rightarrow> (func \<times> clone_ctx \<times> blockid) option" where
  "clone_block_skeleton fn old ctx =
     (if n_blocks fn \<ge> MAX_BLOCKS then None
      else let new = n_blocks fn;
               bb = calloc_block\<lparr>block_id := new, block_name := clone_name new, reachable := True,
                      loop_depth := loop_depth old, is_loop_header := False, is_pre_header := False\<rparr>
           in map_option (\<lambda>ctx'. (fn\<lparr>blocks := blocks fn @ [Some bb]\<rparr>, ctx', new))
                (clone_ctx_map_block (block_id old) new ctx))"

text \<open>The fields that are copied as they are.\<close>

definition clone_copied :: "instr \<Rightarrow> instr" where
  "clone_copied old = calloc_instr\<lparr>op := op old, imm := imm old, is_float := is_float old,
     src_is_float := src_is_float old, src_size := src_size old, dst_size := dst_size old,
     src_unsigned := src_unsigned old, dst_unsigned := dst_unsigned old, escape := escape old,
     is_param := is_param old, line_no := line_no old, ir_type := ir_type old,
     alias_cls := alias_cls old, sbt_base := sbt_base old, sbt_offset := sbt_offset old,
     sbt_has_cast := sbt_has_cast old, amf := amf old, asm_string := asm_string old\<rparr>"

definition clone_call :: "clone_ctx \<Rightarrow> instr \<Rightarrow> instr \<Rightarrow> instr" where
  "clone_call ctx old i = (if op old = OP_CALL
     then i\<lparr>call_name := call_name old, call_args := map (clone_ctx_get_local ctx) (call_args old),
            call_args_is_float := take (length (call_args old)) (call_args_is_float old)\<rparr>
     else i)"

definition clone_src :: "clone_ctx \<Rightarrow> instr \<Rightarrow> nat \<Rightarrow> regid" where
  "clone_src ctx old = (if op old = OP_BR then (\<lambda>_. 0)(0 := clone_ctx_get_block ctx (src old 0))
     else if op old = OP_CONDBR
     then (\<lambda>_. 0)(0 := clone_ctx_get_local ctx (src old 0), 1 := clone_ctx_get_block ctx (src old 1),
                  2 := clone_ctx_get_block ctx (src old 2))
     else (\<lambda>k. if k < n_src old then clone_ctx_get_local ctx (src old k) else 0))"

definition clone_bases :: "clone_ctx \<Rightarrow> instr \<Rightarrow> instr" where
  "clone_bases ctx i =
     (let i1 = (if folded (amf i) \<and> base (amf i) > 0
                then i\<lparr>amf := (amf i)\<lparr>base := clone_ctx_get_local ctx (base (amf i))\<rparr>\<rparr> else i)
      in if sbt_base i1 > 0 then i1\<lparr>sbt_base := clone_ctx_get_local ctx (sbt_base i1)\<rparr> else i1)"

text \<open>The instruction before it gets its destination.\<close>

definition clone_body :: "clone_ctx \<Rightarrow> instr \<Rightarrow> instr" where
  "clone_body ctx old = clone_bases ctx
     ((clone_call ctx old (clone_copied old))\<lparr>n_src := n_src old, src := clone_src ctx old\<rparr>)"

definition clone_reg_info :: "regid \<Rightarrow> regid \<Rightarrow> reg_info \<Rightarrow> reg_info" where
  "clone_reg_info old new info = (if old < MAX_INSTRS
     then info\<lparr>g_reg_types := (g_reg_types info)(new := g_reg_types info old),
               g_reg_is_param := (g_reg_is_param info)(new := g_reg_is_param info old)\<rparr>
     else info)"

definition clone_phi :: "clone_ctx \<Rightarrow> instr \<Rightarrow> (regid \<times> blockid) list" where
  "clone_phi ctx old = (if op old = OP_PHI
     then map (\<lambda>(r, b). (clone_ctx_get_local ctx r, clone_ctx_get_block ctx b)) (phi old) else [])"

definition clone_instruction ::
  "func \<Rightarrow> reg_info \<Rightarrow> instr \<Rightarrow> clone_ctx \<Rightarrow> (func \<times> reg_info \<times> clone_ctx \<times> addr) option" where
  "clone_instruction fn info old ctx =
     (let new = next_addr fn; body = clone_body ctx old in
      if dst old = 0
      then Some (fn\<lparr>heap := (heap fn)(new := body\<lparr>dst := 0, instr_id := 0, phi := clone_phi ctx old\<rparr>),
                    next_addr := new + 1\<rparr>, info, ctx, new)
      else let r = n_regs fn + 1 in
        if r \<ge> MAX_INSTRS then None
        else map_option (\<lambda>ctx'.
            (fn\<lparr>heap := (heap fn)(new := body\<lparr>dst := r, instr_id := r, phi := clone_phi ctx' old\<rparr>),
                next_addr := new + 1, n_regs := r\<rparr>, clone_reg_info (dst old) r info, ctx', new))
          (clone_ctx_map_local (dst old) r ctx))"

section \<open>Edges and reachability\<close>

definition term_targets :: "func \<Rightarrow> block \<Rightarrow> blockid list" where
  "term_targets fn bb = (case tail_of fn bb of None \<Rightarrow> []
     | Some t \<Rightarrow> if op t = OP_BR then [src t 0]
                else if op t = OP_CONDBR then [src t 1, src t 2] else [])"

text \<open>The edge lists have no bound; the arrays of the code have 2048 entries and no test.\<close>

definition clear_edges :: "block \<Rightarrow> block" where
  "clear_edges bb = bb\<lparr>succs := [], preds := []\<rparr>"

definition add_edge :: "blockid \<Rightarrow> blockid \<Rightarrow> func \<Rightarrow> func" where
  "add_edge bi d fn = (case blk_at fn d of None \<Rightarrow> fn
     | Some _ \<Rightarrow> upd_blk d (\<lambda>b. b\<lparr>preds := preds b @ [bi]\<rparr>)
                  (upd_blk bi (\<lambda>b. b\<lparr>succs := succs b @ [d]\<rparr>) fn))"

definition rebuild_preds_succs :: "func \<Rightarrow> func" where
  "rebuild_preds_succs fn =
     for_blk (\<lambda>bi bb fn. fold (add_edge bi) (term_targets fn bb) fn) (\<lambda>fn. fn) (n_blocks fn)
       (fn\<lparr>blocks := map (map_option clear_edges) (blocks fn)\<rparr>)"

definition succs_at :: "func \<Rightarrow> blockid \<Rightarrow> blockid list" where
  "succs_at fn b = (case blk_at fn b of None \<Rightarrow> [] | Some bb \<Rightarrow> succs bb)"

definition is_block :: "func \<Rightarrow> blockid \<Rightarrow> bool" where
  "is_block fn b \<longleftrightarrow> blk_at fn b \<noteq> None"

definition set_reachable :: "(blockid \<Rightarrow> bool) \<Rightarrow> func \<Rightarrow> func" where
  "set_reachable vis fn = fn\<lparr>blocks :=
     map (\<lambda>(b, bo). map_option (\<lambda>bb. bb\<lparr>reachable := vis b\<rparr>) bo) (enumerate 0 (blocks fn))\<rparr>"

definition update_block_reachability :: "func \<Rightarrow> func" where
  "update_block_reachability fn =
     (if is_block fn 0
      then set_reachable (fst (search_from (succs_at fn) (n_blocks fn) (is_block fn) (\<lambda>_. False) 0)) fn
      else set_reachable (\<lambda>_. False) fn)"

section \<open>Editing phi nodes\<close>

definition on_phis :: "(instr \<Rightarrow> instr) \<Rightarrow> block \<Rightarrow> func \<Rightarrow> func" where
  "on_phis g bb fn = fold (\<lambda>a fn. if op (heap fn a) = OP_PHI then upd_instr a g fn else fn) (instrs bb) fn"

definition phi_replace_incoming_pred :: "block \<Rightarrow> blockid \<Rightarrow> blockid \<Rightarrow> func \<Rightarrow> func" where
  "phi_replace_incoming_pred bb old new = on_phis (\<lambda>i. i\<lparr>phi :=
     map (\<lambda>(r, b). (r, if b = old then new else b)) (phi i)\<rparr>) bb"

definition phi_remove_incoming_from_pred :: "block \<Rightarrow> blockid \<Rightarrow> func \<Rightarrow> func" where
  "phi_remove_incoming_from_pred bb p = on_phis (\<lambda>i. i\<lparr>phi := filter (\<lambda>(r, b). b \<noteq> p) (phi i)\<rparr>) bb"

definition phi_add_incoming :: "regid \<Rightarrow> blockid \<Rightarrow> instr \<Rightarrow> instr option" where
  "phi_add_incoming r b i = (if op i \<noteq> OP_PHI then Some i
     else if length (phi i) \<ge> MAX_PHI_SOURCES then None
     else Some (i\<lparr>phi := phi i @ [(r, b)]\<rparr>))"

definition run_ssa_verifier_assert :: "func \<Rightarrow> reg_info \<Rightarrow> def_counts \<Rightarrow> def_counts option" where
  "run_ssa_verifier_assert fn info stale =
     (let (cnt, ok, _) = verify_function_ir fn info stale \<lparr>rep_ok = True, rep_errors = [], cap_errors = 256\<rparr>
      in if ok then Some cnt else None)"

section \<open>The context as a finite map\<close>

text \<open>
  What the cloning passes rely on: a mapped key is found again, whatever else is mapped, and a key that
  is not mapped stands for itself. \<open>key\<close> says which keys a map is for; register 0 and block 0 are
  never renamed.
\<close>

locale remap =
  fixes put :: "'a \<Rightarrow> 'a \<Rightarrow> 'm \<Rightarrow> 'm option" and get :: "'m \<Rightarrow> 'a \<Rightarrow> 'a" and key :: "'a \<Rightarrow> bool"
    and mapped :: "'m \<Rightarrow> 'a set"
  assumes get_put: "put k v m = Some m' \<Longrightarrow> key k \<Longrightarrow> get m' k = v"
    and get_other: "put k v m = Some m' \<Longrightarrow> l \<noteq> k \<Longrightarrow> get m' l = get m l"
    and mapped_put: "put k v m = Some m' \<Longrightarrow> mapped m' = insert k (mapped m)"
    and get_default: "l \<notin> mapped m \<Longrightarrow> get m l = l" and get_fixed: "\<not> key l \<Longrightarrow> get m l = l"
begin

lemma get_after: "put k v m = Some m' \<Longrightarrow> get m' l = (if l = k \<and> key k then v else get m l)"
  using get_put get_other get_fixed by (cases "l = k") auto

fun put_all :: "('a \<times> 'a) list \<Rightarrow> 'm \<Rightarrow> 'm option" where
  "put_all [] m = Some m"
| "put_all ((k, v) # kvs) m = (case put k v m of None \<Rightarrow> None | Some m' \<Rightarrow> put_all kvs m')"

lemma get_put_all_other: "put_all kvs m = Some m' \<Longrightarrow> l \<notin> fst ` set kvs \<Longrightarrow> get m' l = get m l"
proof (induction kvs arbitrary: m)
  case (Cons p kvs)
  then obtain k v m1 where p: "p = (k, v)" and m1: "put k v m = Some m1" "put_all kvs m1 = Some m'"
    by (cases p) (auto split: option.splits)
  with Cons have "get m' l = get m1 l" by auto
  with m1(1) get_other Cons.prems(2) p show ?case by auto
qed simp

lemma get_put_all:
  "put_all kvs m = Some m' \<Longrightarrow> distinct (map fst kvs) \<Longrightarrow> (k, v) \<in> set kvs \<Longrightarrow> key k \<Longrightarrow> get m' k = v"
proof (induction kvs arbitrary: m)
  case (Cons p kvs)
  then obtain k1 v1 m1 where p: "p = (k1, v1)" and m1: "put k1 v1 m = Some m1" "put_all kvs m1 = Some m'"
    by (cases p) (auto split: option.splits)
  show ?case
  proof (cases "(k, v) = p")
    case True
    then have "k \<notin> fst ` set kvs" using Cons.prems(2) p by auto
    then have "get m' k = get m1 k" by (rule get_put_all_other [OF m1(2)])
    with m1(1) True p Cons.prems(4) get_put show ?thesis by auto
  next
    case False
    with Cons m1 p show ?thesis by auto
  qed
qed simp

lemma put_all_default: "put_all kvs m = Some m' \<Longrightarrow> l \<notin> mapped m \<Longrightarrow> l \<notin> fst ` set kvs \<Longrightarrow> get m' l = l"
  using get_put_all_other get_default by simp

end

lemma ctx_update_map_of:
  "ctx_update k v m = Some m' \<Longrightarrow> map_of m' l = (if l = k then Some v else map_of m l)"
proof (induction m arbitrary: m')
  case (Cons p m)
  then show ?case by (cases p) (auto split: if_splits)
qed simp

lemma ctx_update_None: "ctx_update k v m = None \<longleftrightarrow> map_of m k = None"
  by (induction m) auto

lemma ctx_put_map_of:
  "ctx_put k v m = Some m' \<Longrightarrow> map_of m' l = (if l = k then Some v else map_of m l)"
  by (auto simp: ctx_put_def ctx_update_map_of ctx_update_None map_add_def split: option.splits if_splits)

lemma ctx_put_length: "ctx_put k v m = Some m' \<Longrightarrow> length m \<le> MAX_CLONE_MAP_ENTRIES \<Longrightarrow>
    length m' \<le> MAX_CLONE_MAP_ENTRIES"
proof -
  have "ctx_update k v m = Some m' \<Longrightarrow> length m' = length m" for m'
    by (induction m arbitrary: m') (auto split: if_splits)
  then show "ctx_put k v m = Some m' \<Longrightarrow> length m \<le> MAX_CLONE_MAP_ENTRIES \<Longrightarrow> ?thesis"
    by (auto simp: ctx_put_def split: option.splits if_splits)
qed

lemma ctx_put_keys: "ctx_put k v m = Some m' \<Longrightarrow> fst ` set m' = insert k (fst ` set m)"
  using ctx_put_map_of [of k v m m'] by (auto simp flip: dom_map_of_conv_image_fst simp: dom_def)

lemma map_of_notin: "k \<notin> fst ` set m \<Longrightarrow> map_of m k = None"
  by (simp add: map_of_eq_None_iff)

lemma ctx_put_None: "ctx_put k v m = None \<longleftrightarrow> k \<notin> fst ` set m \<and> MAX_CLONE_MAP_ENTRIES \<le> length m"
proof (cases "ctx_update k v m")
  case None
  moreover from None have "map_of m k = None" by (simp only: ctx_update_None)
  ultimately show ?thesis by (simp add: ctx_put_def map_of_eq_None_iff)
next
  case (Some m')
  then have "map_of m k \<noteq> None" using ctx_update_None [of k v m] by simp
  then show ?thesis using Some by (simp add: ctx_put_def map_of_eq_None_iff)
qed

interpretation locals: remap clone_ctx_map_local clone_ctx_get_local "\<lambda>k. k \<noteq> 0" "\<lambda>ctx. fst ` set (local_map ctx)"
  by unfold_locales (fastforce simp: clone_ctx_map_local_def clone_ctx_get_local_def ctx_put_map_of map_of_notin split: option.splits
      | clarsimp simp: clone_ctx_map_local_def clone_ctx_get_local_def ctx_put_keys)+

interpretation blks: remap clone_ctx_map_block clone_ctx_get_block "\<lambda>k. k \<noteq> 0" "\<lambda>ctx. fst ` set (block_map ctx)"
  by unfold_locales (fastforce simp: clone_ctx_map_block_def clone_ctx_get_block_def ctx_put_map_of map_of_notin split: option.splits
      | clarsimp simp: clone_ctx_map_block_def clone_ctx_get_block_def ctx_put_keys)+

interpretation vals: remap clone_ctx_map_value clone_ctx_get_value "\<lambda>_. True" "\<lambda>ctx. fst ` set (value_map ctx)"
  by unfold_locales (fastforce simp: clone_ctx_map_value_def clone_ctx_get_value_def ctx_put_map_of map_of_notin split: option.splits
      | clarsimp simp: clone_ctx_map_value_def clone_ctx_get_value_def ctx_put_keys)+

section \<open>The edges are the terminators' targets\<close>

definition edge_targets :: "func \<Rightarrow> blockid \<Rightarrow> blockid list" where
  "edge_targets fn b = (case blk_at fn b of None \<Rightarrow> []
     | Some bb \<Rightarrow> filter (is_block fn) (term_targets fn bb))"

definition with_edges :: "blockid list \<Rightarrow> blockid list \<Rightarrow> block \<Rightarrow> block" where
  "with_edges ss ps bb = bb\<lparr>succs := ss, preds := ps\<rparr>"

definition edges_upto :: "func \<Rightarrow> nat \<Rightarrow> blockid \<Rightarrow> blockid list" where
  "edges_upto fn k b = concat (map (\<lambda>p. replicate (count_list (edge_targets fn p) b) p) [0..<k])"

lemma is_block_add_edge [simp]: "is_block (add_edge bi d fn) = is_block fn"
  by (auto simp: add_edge_def is_block_def blk_at_upd_blk fun_eq_iff split: option.split)

lemma add_edge_keeps [simp]:
  "heap (add_edge bi d fn) = heap fn" "n_blocks (add_edge bi d fn) = n_blocks fn"
  by (simp_all add: add_edge_def split: option.split)

lemma blk_at_add_edge:
  "blk_at (add_edge bi d fn) b = map_option (\<lambda>bb. with_edges
      (succs bb @ (if b = bi \<and> is_block fn d then [d] else []))
      (preds bb @ (if b = d then [bi] else [])) bb) (blk_at fn b)"
  by (cases "blk_at fn d"; cases "blk_at fn b")
    (auto simp: add_edge_def blk_at_upd_blk with_edges_def is_block_def)

lemma blk_at_fold_add_edge:
  "blk_at (fold (add_edge bi) ds fn) b = map_option (\<lambda>bb. with_edges
      (succs bb @ (if b = bi then filter (is_block fn) ds else []))
      (preds bb @ replicate (count_list (filter (is_block fn) ds) b) bi) bb) (blk_at fn b)"
proof (induction ds arbitrary: fn)
  case Nil
  show ?case by (cases "blk_at fn b") (simp_all add: with_edges_def)
next
  case (Cons d ds)
  have "is_block fn d" if "blk_at fn b = Some bb" "b = d" for bb using that by (simp add: is_block_def)
  then show ?case
    by (cases "blk_at fn b") (auto simp: Cons blk_at_add_edge with_edges_def replicate_app_Cons_same)
qed

lemma fold_add_edge_keeps [simp]:
  "heap (fold (add_edge bi) ds fn) = heap fn" "n_blocks (fold (add_edge bi) ds fn) = n_blocks fn"
  "is_block (fold (add_edge bi) ds fn) = is_block fn"
  by (induction ds arbitrary: fn) auto

lemma term_targets_edges [simp]:
  "term_targets fn (with_edges ss ps bb) = term_targets fn bb"
  by (simp add: term_targets_def tail_of_def with_edges_def)

lemma term_targets_heap: "heap fn = heap fn' \<Longrightarrow> term_targets fn = term_targets fn'"
  by (auto simp: term_targets_def tail_of_def fun_eq_iff)

lemma rebuild_upto:
  assumes "fn0 = fn\<lparr>blocks := map (map_option clear_edges) (blocks fn)\<rparr>"
    and "fnk = for_blk (\<lambda>bi bb fn. fold (add_edge bi) (term_targets fn bb) fn) (\<lambda>fn. fn) k fn0"
  shows "(\<forall>b. blk_at fnk b = map_option (with_edges (if b < k then edge_targets fn b else [])
      (edges_upto fn k b)) (blk_at fn b)) \<and> heap fnk = heap fn \<and> n_blocks fnk = n_blocks fn \<and>
      is_block fnk = is_block fn"
  using assms(2)
proof (induction k arbitrary: fnk)
  case 0
  have "blk_at fn0 b = map_option clear_edges (blk_at fn b)" for b
    by (auto simp: assms(1) blk_at_def)
  with 0 assms(1) show ?case
    by (auto simp: for_blk_def edges_upto_def with_edges_def clear_edges_def is_block_def fun_eq_iff
        intro!: map_option_cong)
next
  case (Suc k)
  define fn1 where "fn1 = for_blk (\<lambda>bi bb fn. fold (add_edge bi) (term_targets fn bb) fn) (\<lambda>fn. fn) k fn0"
  note IH = Suc.IH [OF fn1_def]
  have step: "fnk = (case blk_at fn1 k of None \<Rightarrow> fn1 | Some bb \<Rightarrow> fold (add_edge k) (term_targets fn1 bb) fn1)"
    unfolding Suc.prems for_blk_Suc fn1_def by (simp split: option.split)
  have eu: "edges_upto fn (Suc k) b = edges_upto fn k b @ replicate (count_list (edge_targets fn k) b) k" for b
    by (simp add: edges_upto_def)
  show ?case
  proof (cases "blk_at fn k")
    case None
    then have "fnk = fn1" using step IH by simp
    with IH None show ?thesis by (auto simp: eu edge_targets_def less_Suc_eq)
  next
    case (Some bb)
    let ?bb = "with_edges [] (edges_upto fn k k) bb"
    have bb: "blk_at fn1 k = Some ?bb" using IH Some by simp
    have "term_targets fn1 = term_targets fn" using IH by (intro term_targets_heap) blast
    then have tt: "term_targets fn1 ?bb = term_targets fn bb" by simp
    then have fnk: "fnk = fold (add_edge k) (term_targets fn bb) fn1" using step bb by simp
    have et: "edge_targets fn k = filter (is_block fn) (term_targets fn bb)" using Some by (simp add: edge_targets_def)
    have "blk_at fnk b = map_option (with_edges (if b < Suc k then edge_targets fn b else [])
      (edges_upto fn (Suc k) b)) (blk_at fn b)" for b
    proof (cases "blk_at fn b")
      case None
      with IH show ?thesis by (simp add: fnk blk_at_fold_add_edge)
    next
      case Some
      moreover have "blk_at fn1 b = map_option (with_edges (if b < k then edge_targets fn b else [])
          (edges_upto fn k b)) (blk_at fn b)" and "is_block fn1 = is_block fn" using IH by blast+
      ultimately show ?thesis
        by (cases "b = k") (simp_all add: fnk blk_at_fold_add_edge eu et with_edges_def)
    qed
    with IH fnk show ?thesis by simp
  qed
qed

text \<open>\<^verbatim>\<open>rebuild_preds_succs\<close>: each block's lists are exactly the valid targets and their sources.\<close>

lemma rebuild_blk_at:
  "blk_at (rebuild_preds_succs fn) b =
     map_option (with_edges (edge_targets fn b) (edges_upto fn (n_blocks fn) b)) (blk_at fn b)"
  "heap (rebuild_preds_succs fn) = heap fn" "n_blocks (rebuild_preds_succs fn) = n_blocks fn"
  "is_block (rebuild_preds_succs fn) = is_block fn"
proof -
  note R = rebuild_upto [OF refl refl, where fn = fn and k = "n_blocks fn"]
  have "n_blocks (fn\<lparr>blocks := map (map_option clear_edges) (blocks fn)\<rparr>) = n_blocks fn" by simp
  then show "heap (rebuild_preds_succs fn) = heap fn" "n_blocks (rebuild_preds_succs fn) = n_blocks fn"
    "is_block (rebuild_preds_succs fn) = is_block fn"
    using R by (simp_all add: rebuild_preds_succs_def)
  have "blk_at (rebuild_preds_succs fn) b =
     map_option (with_edges (if b < n_blocks fn then edge_targets fn b else []) (edges_upto fn (n_blocks fn) b)) (blk_at fn b)"
    using R by (simp add: rebuild_preds_succs_def)
  then show "blk_at (rebuild_preds_succs fn) b =
     map_option (with_edges (edge_targets fn b) (edges_upto fn (n_blocks fn) b)) (blk_at fn b)"
    by (cases "blk_at fn b") (auto dest: blk_at_Some_lt)
qed

lemma edge_targets_block: "d \<in> set (edge_targets fn b) \<Longrightarrow> is_block fn d \<and> is_block fn b"
  by (cases "blk_at fn b") (auto simp: edge_targets_def is_block_def)

lemma set_edges_upto: "p \<in> set (edges_upto fn k b) \<longleftrightarrow> p < k \<and> b \<in> set (edge_targets fn p)"
  by (auto simp: edges_upto_def count_list_0_iff)

lemma rebuild_edges_ok: "edges_ok (rebuild_preds_succs fn)"
  unfolding edges_ok_def
proof (intro allI impI conjI ballI)
  fix b blk
  assume b: "blk_at (rebuild_preds_succs fn) b = Some blk"
  then obtain bb where bb: "blk_at fn b = Some bb" and
    blk: "succs blk = edge_targets fn b" "preds blk = edges_upto fn (n_blocks fn) b"
    by (auto simp: rebuild_blk_at with_edges_def)
  show "\<exists>sb. blk_at (rebuild_preds_succs fn) s = Some sb \<and> b \<in> set (preds sb)" if "s \<in> set (succs blk)" for s
    using that blk edge_targets_block [of s fn b] blk_at_Some_lt [OF bb]
    by (auto simp: rebuild_blk_at is_block_def with_edges_def set_edges_upto)
  show "\<exists>pb. blk_at (rebuild_preds_succs fn) p = Some pb \<and> b \<in> set (succs pb)" if "p \<in> set (preds blk)" for p
    using that blk edge_targets_block [of b fn p]
    by (auto simp: rebuild_blk_at is_block_def with_edges_def set_edges_upto)
qed

text \<open>Everything else of the function stays.\<close>

lemma map_blk_instrs_eq:
  assumes "n_blocks fn' = n_blocks fn" "\<And>b. map_option instrs (blk_at fn' b) = map_option instrs (blk_at fn b)"
  shows "map blk_instrs (blocks fn') = map blk_instrs (blocks fn)"
proof (rule nth_equalityI)
  fix i assume "i < length (map blk_instrs (blocks fn'))"
  then show "map blk_instrs (blocks fn') ! i = map blk_instrs (blocks fn) ! i"
    using assms(1) assms(2) [of i] by (auto simp: blk_at_def blk_instrs_def split: option.splits)
qed (simp add: assms)

lemma rebuild_addrs: "all_addrs (rebuild_preds_succs fn) = all_addrs fn"
  unfolding all_addrs_def
  by (rule arg_cong [where f = concat], rule map_blk_instrs_eq)
    (simp_all add: rebuild_blk_at option.map_comp comp_def with_edges_def)

section \<open>Reachability\<close>

text \<open>The control-flow graph the lists describe.\<close>

definition cfg_edges :: "func \<Rightarrow> (blockid \<times> blockid) set" where
  "cfg_edges fn = {(u, v). v \<in> set (succs_at fn u) \<and> is_block fn v}"

lemma edge_rel_succs: "edge_rel (succs_at fn) (n_blocks fn) (is_block fn) = cfg_edges fn"
  by (auto simp: edge_rel_def cfg_edges_def is_block_def dest: blk_at_Some_lt)

lemma blk_at_set_reachable:
  "blk_at (set_reachable vis fn) b = map_option (\<lambda>bb. bb\<lparr>reachable := vis b\<rparr>) (blk_at fn b)"
  by (auto simp: blk_at_def set_reachable_def nth_enumerate_eq split: option.split)

lemma search_block_reach:
  "fst (search_from (succs_at fn) (n_blocks fn) (is_block fn) (\<lambda>_. False) s) b \<longleftrightarrow> (s, b) \<in> (cfg_edges fn)\<^sup>*"
proof -
  obtain vis found where r: "search_from (succs_at fn) (n_blocks fn) (is_block fn) (\<lambda>_. False) s = (vis, found)"
    by fastforce
  have "\<not> found" using search_never_found [of "succs_at fn" "n_blocks fn" "is_block fn" s] r by simp
  with search_from_correct(2) [OF r] r show ?thesis by (simp add: edge_rel_succs)
qed

section \<open>Cloned instructions\<close>

lemma clone_bases_keeps [simp]:
  "op (clone_bases ctx i) = op i" "imm (clone_bases ctx i) = imm i" "src (clone_bases ctx i) = src i"
  "n_src (clone_bases ctx i) = n_src i" "ir_type (clone_bases ctx i) = ir_type i"
  "is_float (clone_bases ctx i) = is_float i" "src_is_float (clone_bases ctx i) = src_is_float i" "call_args (clone_bases ctx i) = call_args i"
  "call_name (clone_bases ctx i) = call_name i"
  by (simp_all add: clone_bases_def Let_def)

lemma clone_body_fields [simp]:
  "op (clone_body ctx old) = op old" "imm (clone_body ctx old) = imm old"
  "src (clone_body ctx old) = clone_src ctx old" "n_src (clone_body ctx old) = n_src old"
  "ir_type (clone_body ctx old) = ir_type old" "is_float (clone_body ctx old) = is_float old"
  "src_is_float (clone_body ctx old) = src_is_float old"
  by (simp_all add: clone_body_def clone_call_def clone_copied_def)

lemma clone_body_call:
  "op old = OP_CALL \<Longrightarrow> call_args (clone_body ctx old) = map (clone_ctx_get_local ctx) (call_args old) \<and>
     call_name (clone_body ctx old) = call_name old"
  by (simp add: clone_body_def clone_call_def clone_copied_def)

text \<open>An instruction whose operand count covers the operands its value depends on.\<close>

definition arity_ok :: "instr \<Rightarrow> bool" where
  "arity_ok i \<longleftrightarrow> length (opnds i) \<le> n_src i"

lemma clone_value:
  assumes "is_pure (op old)" "arity_ok old" "op i = op old" "imm i = imm old" "ir_type i = ir_type old"
    "is_float i = is_float old" "src_is_float i = src_is_float old" "src i = clone_src ctx old"
    and "\<And>r. r \<in> set (opnds old) \<Longrightarrow> \<rho>' (clone_ctx_get_local ctx r) = \<rho> r"
  shows "value_of i \<rho>' = value_of old \<rho>"
proof -
  have nb: "op old \<noteq> OP_BR" "op old \<noteq> OP_CONDBR" using assms(1) by (auto simp: is_pure_def is_binop_def)
  show ?thesis
    using assms(2-9) nb
    by (auto simp: value_of_def opnds_def arity_ok_def clone_src_def split: if_splits)
qed

lemma clone_instruction_result:
  assumes "clone_instruction fn info old ctx = Some (fn', info', ctx', a)"
  shows "a = next_addr fn" "op (heap fn' a) = op old" "imm (heap fn' a) = imm old" "ir_type (heap fn' a) = ir_type old"
    "is_float (heap fn' a) = is_float old" "n_src (heap fn' a) = n_src old"
    "src_is_float (heap fn' a) = src_is_float old" "src (heap fn' a) = clone_src ctx old"
    "op old = OP_CALL \<Longrightarrow> call_args (heap fn' a) = map (clone_ctx_get_local ctx) (call_args old) \<and> call_name (heap fn' a) = call_name old"
    "phi (heap fn' a) = clone_phi ctx' old" "blocks fn' = blocks fn" "\<And>b. b \<noteq> a \<Longrightarrow> heap fn' b = heap fn b"
    "dst old = 0 \<Longrightarrow> dst (heap fn' a) = 0 \<and> ctx' = ctx \<and> n_regs fn' = n_regs fn"
    "dst old \<noteq> 0 \<Longrightarrow> dst (heap fn' a) = n_regs fn + 1 \<and> n_regs fn' = n_regs fn + 1 \<and> n_regs fn + 1 < MAX_INSTRS \<and>
       clone_ctx_get_local ctx' (dst old) = n_regs fn + 1 \<and>
       (\<forall>r. r \<noteq> dst old \<longrightarrow> clone_ctx_get_local ctx' r = clone_ctx_get_local ctx r)"
proof -
  have M: "clone_ctx_get_local ctx' (dst old) = n_regs fn + 1"
    "r \<noteq> dst old \<Longrightarrow> clone_ctx_get_local ctx' r = clone_ctx_get_local ctx r" if "dst old \<noteq> 0" for r
  proof -
    from assms that have "clone_ctx_map_local (dst old) (n_regs fn + 1) ctx = Some ctx'"
      by (auto simp: clone_instruction_def Let_def split: if_splits)
    from locals.get_after [OF this] that show "clone_ctx_get_local ctx' (dst old) = n_regs fn + 1"
      "r \<noteq> dst old \<Longrightarrow> clone_ctx_get_local ctx' r = clone_ctx_get_local ctx r" by simp_all
  qed
  show "a = next_addr fn" "op (heap fn' a) = op old" "imm (heap fn' a) = imm old" "ir_type (heap fn' a) = ir_type old"
    "is_float (heap fn' a) = is_float old" "n_src (heap fn' a) = n_src old"
    "src_is_float (heap fn' a) = src_is_float old" "src (heap fn' a) = clone_src ctx old"
    "op old = OP_CALL \<Longrightarrow> call_args (heap fn' a) = map (clone_ctx_get_local ctx) (call_args old) \<and> call_name (heap fn' a) = call_name old"
    "phi (heap fn' a) = clone_phi ctx' old" "blocks fn' = blocks fn" "\<And>b. b \<noteq> a \<Longrightarrow> heap fn' b = heap fn b"
    "dst old = 0 \<Longrightarrow> dst (heap fn' a) = 0 \<and> ctx' = ctx \<and> n_regs fn' = n_regs fn"
    using assms clone_body_call by (auto simp: clone_instruction_def Let_def split: if_splits)
  show "dst old \<noteq> 0 \<Longrightarrow> dst (heap fn' a) = n_regs fn + 1 \<and> n_regs fn' = n_regs fn + 1 \<and> n_regs fn + 1 < MAX_INSTRS \<and>
       clone_ctx_get_local ctx' (dst old) = n_regs fn + 1 \<and>
       (\<forall>r. r \<noteq> dst old \<longrightarrow> clone_ctx_get_local ctx' r = clone_ctx_get_local ctx r)"
    using assms M by (auto simp: clone_instruction_def Let_def split: if_splits)
qed

section \<open>Properties\<close>

text \<open>
  C29: \<^verbatim>\<open>rebuild_preds_succs\<close> makes the edge lists agree with the terminators: the successors of a
  block are exactly the targets of its last instruction that are blocks, in order; its
  predecessors are the blocks that branch to it, in block order and once per edge. The edge check
  of the verifier then passes, and instructions and lists are untouched.
\<close>

theorem rebuild_preds_succs_correct:
  "edges_ok (rebuild_preds_succs fn) \<and> heap (rebuild_preds_succs fn) = heap fn \<and>
   all_addrs (rebuild_preds_succs fn) = all_addrs fn \<and>
   (\<forall>b. blk_at (rebuild_preds_succs fn) b =
      map_option (with_edges (edge_targets fn b) (edges_upto fn (n_blocks fn) b)) (blk_at fn b))"
  by (simp add: rebuild_edges_ok rebuild_blk_at rebuild_addrs)

text \<open>
  C30: \<^verbatim>\<open>update_block_reachability\<close> marks exactly the blocks that a path of edges reaches from the
  entry; without an entry block, none. Its breadth-first search ends on every graph.
\<close>

theorem update_block_reachability_exact:
  "map_option reachable (blk_at (update_block_reachability fn) b) =
     map_option (\<lambda>_. is_block fn 0 \<and> (0, b) \<in> (cfg_edges fn)\<^sup>*) (blk_at fn b)"
  by (cases "blk_at fn b")
    (simp_all add: update_block_reachability_def blk_at_set_reachable search_block_reach)

text \<open>
  C31: The remapping context behaves as a finite map with the identity as its default. A register, a
  block or a value that was never mapped stands for itself, in the fresh context all of them;
  after mapping one, looking it up gives the new name, and no other name changes; register 0
  and block 0 always stand for themselves. Mapping fails (the code exits) only for a new name when
  4,096 names are mapped.
\<close>

theorem clone_ctx_maps:
  "(\<forall>l. clone_ctx_get_local clone_ctx_init l = l \<and> clone_ctx_get_block clone_ctx_init l = l) \<and>
   (\<forall>z. clone_ctx_get_value clone_ctx_init z = z) \<and>
   (\<forall>l. l = 0 \<or> l \<notin> fst ` set (local_map ctx) \<longrightarrow> clone_ctx_get_local ctx l = l) \<and>
   (\<forall>l. l = 0 \<or> l \<notin> fst ` set (block_map ctx) \<longrightarrow> clone_ctx_get_block ctx l = l) \<and>
   (\<forall>z. z \<notin> fst ` set (value_map ctx) \<longrightarrow> clone_ctx_get_value ctx z = z) \<and>
   (clone_ctx_map_local k v ctx = Some ctx' \<longrightarrow> (\<forall>l. clone_ctx_get_local ctx' l =
      (if l = k \<and> k \<noteq> 0 then v else clone_ctx_get_local ctx l))) \<and>
   (clone_ctx_map_block k v ctx = Some ctx' \<longrightarrow> (\<forall>l. clone_ctx_get_block ctx' l =
      (if l = k \<and> k \<noteq> 0 then v else clone_ctx_get_block ctx l))) \<and>
   (clone_ctx_map_value x y ctx = Some ctx' \<longrightarrow> (\<forall>l. clone_ctx_get_value ctx' l =
      (if l = x then y else clone_ctx_get_value ctx l))) \<and>
   (clone_ctx_map_local k v ctx = None \<longleftrightarrow> k \<notin> fst ` set (local_map ctx) \<and> 4096 \<le> length (local_map ctx)) \<and>
   (clone_ctx_map_block k v ctx = None \<longleftrightarrow> k \<notin> fst ` set (block_map ctx) \<and> 4096 \<le> length (block_map ctx)) \<and>
   (clone_ctx_map_value x y ctx = None \<longleftrightarrow> x \<notin> fst ` set (value_map ctx) \<and> 4096 \<le> length (value_map ctx))"
proof -
  have [simp]: "local_map clone_ctx_init = []" "block_map clone_ctx_init = []" "value_map clone_ctx_init = []"
    by (simp_all add: clone_ctx_init_def)
  show ?thesis
    using locals.get_after blks.get_after vals.get_after
    by (auto simp: locals.get_default blks.get_default vals.get_default locals.get_fixed blks.get_fixed
        clone_ctx_map_local_def clone_ctx_map_block_def clone_ctx_map_value_def ctx_put_None MAX_CLONE_MAP_ENTRIES_def)
qed

theorem clone_ctx_maps_witness:
  "\<exists>ctx'. clone_ctx_map_local 3 9 clone_ctx_init = Some ctx' \<and> clone_ctx_get_local ctx' 3 = 9 \<and>
     clone_ctx_get_local ctx' 4 = 4"
proof -
  obtain ctx' where m: "clone_ctx_map_local 3 9 clone_ctx_init = Some ctx'"
    by (simp add: clone_ctx_map_local_def clone_ctx_init_def ctx_put_def MAX_CLONE_MAP_ENTRIES_def)
  have "\<forall>l. clone_ctx_get_local ctx' l = (if l = 3 \<and> (3::nat) \<noteq> 0 then 9 else clone_ctx_get_local clone_ctx_init l)"
    "\<forall>l. clone_ctx_get_local clone_ctx_init l = l"
    using clone_ctx_maps [of clone_ctx_init 3 9 ctx'] m by simp_all
  with m show ?thesis by simp
qed

text \<open>
  C38: A clone is the renamed original, for every instruction. The new instruction has the opcode,
  immediate, type and operand count of the original; a branch has its targets renamed as blocks and
  its condition as a register, every other instruction its operands as registers; the arguments of a
  call and the entries of a phi node are renamed, a phi node through the context that already maps its
  own destination; the destination is a fresh register (none for none) to which the context now maps the
  old one. Nothing else of the function changes. An instruction that computes a value computes the
  value of the original in every assignment that gives the renamed operands the values of the old ones.
\<close>

theorem clone_instruction_renames:
  assumes "clone_instruction fn info old ctx = Some (fn', info', ctx', a)"
  shows "a = next_addr fn \<and> op (heap fn' a) = op old \<and> imm (heap fn' a) = imm old \<and>
    ir_type (heap fn' a) = ir_type old \<and> n_src (heap fn' a) = n_src old \<and>
    is_float (heap fn' a) = is_float old \<and> src_is_float (heap fn' a) = src_is_float old \<and>
    (op old = OP_BR \<longrightarrow> src (heap fn' a) 0 = clone_ctx_get_block ctx (src old 0)) \<and>
    (op old = OP_CONDBR \<longrightarrow> src (heap fn' a) 0 = clone_ctx_get_local ctx (src old 0) \<and>
       src (heap fn' a) 1 = clone_ctx_get_block ctx (src old 1) \<and> src (heap fn' a) 2 = clone_ctx_get_block ctx (src old 2)) \<and>
    (op old \<noteq> OP_BR \<and> op old \<noteq> OP_CONDBR \<longrightarrow> (\<forall>k < n_src old. src (heap fn' a) k = clone_ctx_get_local ctx (src old k))) \<and>
    (op old = OP_CALL \<longrightarrow> call_name (heap fn' a) = call_name old \<and>
       call_args (heap fn' a) = map (clone_ctx_get_local ctx) (call_args old)) \<and>
    (op old = OP_PHI \<longrightarrow> phi (heap fn' a) =
       map (\<lambda>(r, b). (clone_ctx_get_local ctx' r, clone_ctx_get_block ctx' b)) (phi old)) \<and>
    (dst old = 0 \<longrightarrow> dst (heap fn' a) = 0 \<and> ctx' = ctx \<and> n_regs fn' = n_regs fn) \<and>
    (dst old \<noteq> 0 \<longrightarrow> dst (heap fn' a) = n_regs fn + 1 \<and> n_regs fn' = n_regs fn + 1 \<and>
       dst (heap fn' a) < MAX_INSTRS \<and> clone_ctx_get_local ctx' (dst old) = dst (heap fn' a) \<and>
       (\<forall>r. r \<noteq> dst old \<longrightarrow> clone_ctx_get_local ctx' r = clone_ctx_get_local ctx r)) \<and>
    blocks fn' = blocks fn \<and> (\<forall>b. b \<noteq> a \<longrightarrow> heap fn' b = heap fn b) \<and>
    (\<forall>\<rho> \<rho>'. is_pure (op old) \<and> arity_ok old \<and> (\<forall>r \<in> set (opnds old). \<rho>' (clone_ctx_get_local ctx r) = \<rho> r) \<longrightarrow>
       value_of (heap fn' a) \<rho>' = value_of old \<rho>)"
proof -
  note R = clone_instruction_result [OF assms]
  have v: "value_of (heap fn' a) \<rho>' = value_of old \<rho>"
    if "is_pure (op old)" "arity_ok old" "\<forall>r \<in> set (opnds old). \<rho>' (clone_ctx_get_local ctx r) = \<rho> r" for \<rho> \<rho>'
    by (rule clone_value [OF that(1,2) R(2-5,7,8)]) (use that(3) in blast)
  have s: "op old = OP_BR \<Longrightarrow> src (heap fn' a) 0 = clone_ctx_get_block ctx (src old 0)"
    "op old = OP_CONDBR \<Longrightarrow> src (heap fn' a) 0 = clone_ctx_get_local ctx (src old 0) \<and>
       src (heap fn' a) 1 = clone_ctx_get_block ctx (src old 1) \<and> src (heap fn' a) 2 = clone_ctx_get_block ctx (src old 2)"
    "op old \<noteq> OP_BR \<Longrightarrow> op old \<noteq> OP_CONDBR \<Longrightarrow> k < n_src old \<Longrightarrow> src (heap fn' a) k = clone_ctx_get_local ctx (src old k)" for k
    by (simp_all add: R(8) clone_src_def)
  show ?thesis
    by (intro conjI impI allI) (use R v s in \<open>auto simp: clone_phi_def\<close>)
qed

definition demo_clone :: "(func \<times> reg_info \<times> clone_ctx \<times> addr) option" where
  "demo_clone = clone_instruction demo_helpers no_info (mk_instr OP_ADD 2 [1, 1]) clone_ctx_init"

theorem clone_instruction_renames_witness:
  "\<exists>fn' info' ctx' a. demo_clone = Some (fn', info', ctx', a) \<and> dst (heap fn' a) = 3 \<and>
     value_of (heap fn' a) (\<lambda>_. 7) = Some 14"
proof -
  have n: "n_regs demo_helpers = 2" by (simp add: demo_helpers_def mk_func_def)
  obtain fn' info' ctx' a where r:
    "clone_instruction demo_helpers no_info (mk_instr OP_ADD 2 [1, 1]) clone_ctx_init = Some (fn', info', ctx', a)"
    by (simp add: clone_instruction_def Let_def n mk_defs MAX_INSTRS_def clone_ctx_map_local_def clone_ctx_init_def
        ctx_put_def MAX_CLONE_MAP_ENTRIES_def)
  have p: "is_pure (op (mk_instr OP_ADD 2 [1, 1]))" "arity_ok (mk_instr OP_ADD 2 [1, 1])"
    by (simp_all add: is_pure_def is_binop_def arity_ok_def opnds_def mk_defs)
  have "value_of (mk_instr OP_ADD 2 [1, 1]) (\<lambda>_. 7) = Some 14" "dst (mk_instr OP_ADD 2 [1, 1]) = 2"
    by (simp_all add: value_of_def bin_val_def mk_defs)
  with clone_instruction_renames [OF r] p n r show ?thesis
    by (auto simp: demo_clone_def elim!: allE [of _ "\<lambda>_. 7"])
qed

end
