(* ===== verification/CfgSimplify.thy ===== *)
theory CfgSimplify
  imports CloneRemap
begin

text \<open>
  \<open>src/src/opt/cfg_simplify_pass.c\<close>: unreachable blocks are emptied, the edges rebuilt, phi
  entries of removed blocks dropped, and phi nodes with at most one entry left removed.
\<close>

section \<open>The pass\<close>

definition cfg_reach :: "func \<Rightarrow> blockid \<Rightarrow> bool" where
  "cfg_reach fn = fst (search_from (succs_at fn) (n_blocks fn) (is_block fn) (\<lambda>_. False) 0)"

definition empty_block :: "block \<Rightarrow> block" where
  "empty_block b = b\<lparr>instrs := [], n_instrs := 0, reachable := False\<rparr>"

definition remove_unreachable :: "(blockid \<Rightarrow> bool) \<Rightarrow> func \<Rightarrow> func \<times> bool" where
  "remove_unreachable vis fn =
     for_blk (\<lambda>bi b (fn, changed). if \<not> vis bi then (upd_blk bi empty_block fn, True) else (fn, changed))
       fst (n_blocks fn) (fn, False)"

definition live_entry :: "func \<Rightarrow> (blockid \<Rightarrow> bool) \<Rightarrow> regid \<times> blockid \<Rightarrow> bool" where
  "live_entry fn vis e \<longleftrightarrow> is_block fn (snd e) \<and> vis (snd e)"

definition simplify_phi :: "(blockid \<Rightarrow> bool) \<Rightarrow> addr \<Rightarrow> func \<times> bool \<Rightarrow> func \<times> bool" where
  "simplify_phi vis a = (\<lambda>(fn, changed).
     let it = heap fn a in
     if op it \<noteq> OP_PHI then (fn, changed)
     else
       let ps = filter (live_entry fn vis) (phi it);
           fn1 = upd_instr a (\<lambda>i. i\<lparr>phi := ps\<rparr>) fn
       in if length ps = 1
          then (fst (erase_instr (fst (replace_all_uses fn1 (dst it) (fst (hd ps)))) a), True)
          else if length ps = 0 then (fst (erase_instr fn1 a), True)
          else (fn1, changed))"

definition simplify_phis :: "(blockid \<Rightarrow> bool) \<Rightarrow> func \<times> bool \<Rightarrow> func \<times> bool" where
  "simplify_phis vis s0 =
     for_blk (\<lambda>bi b s. fold (simplify_phi vis) (instrs b) s) fst (n_blocks (fst s0)) s0"

definition opt_cfg_simplify_pass :: "func \<Rightarrow> func \<times> bool" where
  "opt_cfg_simplify_pass fn =
     (let fn1 = rebuild_preds_succs fn;
          vis = cfg_reach fn1;
          (fn2, ch2) = remove_unreachable vis fn1;
          fn3 = rebuild_preds_succs fn2;
          (fn4, ch4) = simplify_phis vis (fn3, ch2)
      in (if ch4 then rebuild_def_use fn4 else fn4, ch4))"

section \<open>Unreachable blocks\<close>

lemma remove_unreachable_upto:
  "(\<forall>b. blk_at (fst (for_blk (\<lambda>bi b (fn, changed). if \<not> vis bi then (upd_blk bi empty_block fn, True)
        else (fn, changed)) fst k (fn, ch))) b =
      map_option (if b < k \<and> \<not> vis b then empty_block else id) (blk_at fn b)) \<and>
   heap (fst (for_blk (\<lambda>bi b (fn, changed). if \<not> vis bi then (upd_blk bi empty_block fn, True)
        else (fn, changed)) fst k (fn, ch))) = heap fn \<and>
   next_addr (fst (for_blk (\<lambda>bi b (fn, changed). if \<not> vis bi then (upd_blk bi empty_block fn, True)
        else (fn, changed)) fst k (fn, ch))) = next_addr fn \<and>
   n_blocks (fst (for_blk (\<lambda>bi b (fn, changed). if \<not> vis bi then (upd_blk bi empty_block fn, True)
        else (fn, changed)) fst k (fn, ch))) = n_blocks fn"
  (is "?P k")
proof (induction k)
  case 0
  then show ?case by (simp add: for_blk_def option.map_id option.map_ident)
next
  case (Suc k)
  let ?s = "for_blk (\<lambda>bi b (fn, changed). if \<not> vis bi then (upd_blk bi empty_block fn, True)
        else (fn, changed)) fst k (fn, ch)"
  obtain f c where s: "?s = (f, c)" by fastforce
  have IH: "\<And>b. blk_at f b = map_option (if b < k \<and> \<not> vis b then empty_block else id) (blk_at fn b)"
    "heap f = heap fn" "next_addr f = next_addr fn" "n_blocks f = n_blocks fn"
    using Suc.IH by (simp_all add: s)
  have kk: "blk_at f k = blk_at fn k" by (simp add: IH option.map_id option.map_ident)
  show ?case
    unfolding for_blk_Suc s fst_conv kk
    by (cases "blk_at fn k") (auto simp: IH blk_at_upd_blk less_Suc_eq option.map_id option.map_ident)
qed

lemma remove_unreachable_spec:
  assumes "remove_unreachable vis fn = (fn', ch)"
  shows "blk_at fn' b = map_option (if \<not> vis b then empty_block else id) (blk_at fn b)"
    "heap fn' = heap fn" "next_addr fn' = next_addr fn" "n_blocks fn' = n_blocks fn" "is_block fn' = is_block fn"
proof -
  note R = remove_unreachable_upto [of vis "n_blocks fn" fn False, folded remove_unreachable_def,
      unfolded assms fst_conv]
  show 1: "blk_at fn' b = map_option (if \<not> vis b then empty_block else id) (blk_at fn b)" for b
    using R by (cases "blk_at fn b") (auto dest: blk_at_Some_lt)
  show "heap fn' = heap fn" "next_addr fn' = next_addr fn" "n_blocks fn' = n_blocks fn" using R by blast+
  show "is_block fn' = is_block fn" by (simp add: is_block_def 1 fun_eq_iff)
qed

section \<open>Phi nodes\<close>

text \<open>A phi node the pass leaves: at least two entries, all from blocks that are kept.\<close>

definition phi_kept :: "(blockid \<Rightarrow> bool) \<Rightarrow> instr \<Rightarrow> bool" where
  "phi_kept ok i \<longleftrightarrow> (op i = OP_PHI \<longrightarrow> 2 \<le> length (phi i) \<and> (\<forall>b \<in> set (map snd (phi i)). ok b))"

lemma phi_kept_cong: "op i = op j \<Longrightarrow> map snd (phi i) = map snd (phi j) \<Longrightarrow> phi_kept ok i = phi_kept ok j"
proof -
  assume "op i = op j" and m: "map snd (phi i) = map snd (phi j)"
  moreover have "length (phi i) = length (phi j)" using m by (rule map_eq_imp_length_eq)
  ultimately show ?thesis by (simp only: phi_kept_def)
qed

text \<open>What one step of the phi loop does to the blocks: instructions are only taken out.\<close>

definition same_edges :: "block \<Rightarrow> block \<Rightarrow> bool" where
  "same_edges blk blk' \<longleftrightarrow> set (instrs blk') \<subseteq> set (instrs blk) \<and> succs blk' = succs blk \<and>
     preds blk' = preds blk \<and> reachable blk' = reachable blk"

definition body_at :: "(addr \<Rightarrow> instr) \<Rightarrow> func \<Rightarrow> blockid \<Rightarrow> addr list option" where
  "body_at h fn b = map_option (\<lambda>blk. filter (\<lambda>a. op (h a) \<noteq> OP_PHI) (instrs blk)) (blk_at fn b)"

text \<open>Everything but phi nodes is left in its block, in order, with its operation, destination and constant.\<close>

definition keeps_body :: "func \<Rightarrow> func \<Rightarrow> bool" where
  "keeps_body fn fn' \<longleftrightarrow> (\<forall>b. body_at (heap fn) fn' b = body_at (heap fn) fn b) \<and>
     (\<forall>a. op (heap fn' a) = op (heap fn a) \<and> dst (heap fn' a) = dst (heap fn a) \<and> imm (heap fn' a) = imm (heap fn a))"

lemma body_at_cong: "(\<And>a. op (h a) = op (h' a)) \<Longrightarrow> body_at h = body_at h'"
  by (simp add: body_at_def fun_eq_iff)

lemma body_at_blk: "blk_at fn = blk_at fn' \<Longrightarrow> body_at h fn = body_at h fn'"
  by (simp add: body_at_def fun_eq_iff)

lemma keeps_body_refl: "keeps_body fn fn"
  by (simp add: keeps_body_def)

lemma keeps_body_trans: "keeps_body f g \<Longrightarrow> keeps_body g h \<Longrightarrow> keeps_body f h"
  using body_at_cong [of "heap g" "heap f"] unfolding keeps_body_def by simp

lemma keeps_body_heap:
  assumes "blk_at fn' = blk_at fn"
    and "\<And>a. op (heap fn' a) = op (heap fn a) \<and> dst (heap fn' a) = dst (heap fn a) \<and> imm (heap fn' a) = imm (heap fn a)"
  shows "keeps_body fn fn'"
  unfolding keeps_body_def using assms(2) by (simp add: body_at_blk [OF assms(1)])

definition shrinks :: "(blockid \<Rightarrow> bool) \<Rightarrow> func \<Rightarrow> func \<Rightarrow> bool" where
  "shrinks ok fn fn' \<longleftrightarrow> (heap_ok fn \<and> counters_ok fn \<longrightarrow> heap_ok fn' \<and> counters_ok fn') \<and>
     n_blocks fn' = n_blocks fn \<and> (\<forall>b. rel_option same_edges (blk_at fn b) (blk_at fn' b)) \<and>
     keeps_body fn fn' \<and> (\<forall>a. phi_kept ok (heap fn a) \<longrightarrow> phi_kept ok (heap fn' a))"

lemma shrinks_refl: "shrinks ok fn fn"
  by (auto simp: shrinks_def same_edges_def keeps_body_refl intro!: option.rel_refl)

lemma same_edges_trans: "same_edges a b \<Longrightarrow> same_edges b c \<Longrightarrow> same_edges a c"
  by (auto simp: same_edges_def)

lemma shrinks_trans: "shrinks ok f g \<Longrightarrow> shrinks ok g h \<Longrightarrow> shrinks ok f h"
proof -
  assume a: "shrinks ok f g" "shrinks ok g h"
  have t: "transp (rel_option same_edges)"
    by (rule option.rel_transp) (auto simp: transp_def intro: same_edges_trans)
  have "rel_option same_edges (blk_at f b) (blk_at h b)" for b
    by (rule transpD [OF t, of _ "blk_at g b"]) (use a in \<open>simp_all add: shrinks_def\<close>)
  moreover have "keeps_body f h" using a keeps_body_trans [of f g h] by (simp add: shrinks_def)
  ultimately show ?thesis using a by (auto simp: shrinks_def)
qed

lemma erase_blk_at:
  assumes "erase_instr fn a = (fn', d)"
  shows "rel_option same_edges (blk_at fn b) (blk_at fn' b) \<and> n_blocks fn' = n_blocks fn"
proof (cases "block_of_addr fn a")
  case None
  with assms have "fn' = fn" by (simp add: erase_instr_def)
  then show ?thesis by (auto intro: option.rel_refl simp: same_edges_def)
next
  case (Some c)
  let ?fn1 = "upd_blk c (\<lambda>blk. blk\<lparr>instrs := remove1 a (instrs blk), n_instrs := n_instrs blk - 1\<rparr>) fn"
  have bl: "blocks fn' = blocks ?fn1" using assms Some by (auto simp: erase_instr_def Let_def split: if_splits)
  then have "n_blocks fn' = n_blocks fn" by simp
  moreover have "blk_at fn' b = blk_at ?fn1 b" by (simp only: blk_at_def bl)
  then have "rel_option same_edges (blk_at fn b) (blk_at fn' b)"
    by (cases "blk_at fn b") (auto simp: blk_at_upd_blk same_edges_def dest: notin_set_remove1 set_mp [OF set_remove1_subset])
  ultimately show ?thesis by blast
qed

lemma replace_all_uses_shrinks:
  assumes "heap_ok fn"
  shows "shrinks ok fn (fst (replace_all_uses fn old new))"
proof -
  let ?h = "\<lambda>a. if a \<in> set (all_addrs fn) then fst (replace_uses_instr old new (heap fn a)) else heap fn a"
  have "phi_kept ok (?h a) = phi_kept ok (heap fn a)" for a
    by (rule phi_kept_cong) (simp_all add: replace_uses_keeps)
  moreover have "blk_at (fn\<lparr>heap := ?h\<rparr>) = blk_at fn" "counters_ok (fn\<lparr>heap := ?h\<rparr>) = counters_ok fn"
    "heap_ok (fn\<lparr>heap := ?h\<rparr>) = heap_ok fn"
    by (auto simp: blk_at_def counters_ok_def heap_ok_def fun_eq_iff)
  moreover from this(1) have "keeps_body fn (fn\<lparr>heap := ?h\<rparr>)"
    by (rule keeps_body_heap) (simp add: replace_uses_keeps)
  ultimately show ?thesis
    unfolding replace_all_uses_eq [OF assms]
    by (auto simp: shrinks_def same_edges_def intro!: option.rel_refl)
qed

lemma erase_keeps_body:
  assumes "erase_instr fn a = (fn', d)" "op (heap fn a) = OP_PHI"
  shows "keeps_body fn fn'"
proof -
  have h: "heap fn' = heap fn" using assms(1) by (auto simp: erase_instr_def Let_def split: option.splits if_splits)
  have "body_at (heap fn) fn' b = body_at (heap fn) fn b" for b
  proof (cases "block_of_addr fn a")
    case None
    with assms have "fn' = fn" by (simp add: erase_instr_def)
    then show ?thesis by simp
  next
    case (Some c)
    let ?fn1 = "upd_blk c (\<lambda>blk. blk\<lparr>instrs := remove1 a (instrs blk), n_instrs := n_instrs blk - 1\<rparr>) fn"
    have bl: "blocks fn' = blocks ?fn1" using assms(1) Some by (auto simp: erase_instr_def Let_def split: if_splits)
    have "blk_at fn' b = blk_at ?fn1 b" by (simp only: blk_at_def bl)
    then show ?thesis
      using assms(2) by (cases "blk_at fn b") (auto simp: body_at_def blk_at_upd_blk filter_remove1 remove1_filter_not)
  qed
  with h show ?thesis by (simp add: keeps_body_def)
qed

lemma erase_shrinks:
  assumes "erase_instr fn a = (fn', d)" "op (heap fn a) = OP_PHI"
  shows "shrinks ok fn fn'"
proof -
  have "heap fn' = heap fn" using assms(1) by (auto simp: erase_instr_def Let_def split: option.splits if_splits)
  then show ?thesis
    using erase_blk_at [OF assms(1)] erase_instr_spec [OF _ _ assms(1)] erase_keeps_body [OF assms]
    by (auto simp: shrinks_def)
qed

lemma shrinks_is_block: "shrinks ok fn fn' \<Longrightarrow> is_block fn' = is_block fn"
proof
  fix b
  assume "shrinks ok fn fn'"
  then have "rel_option same_edges (blk_at fn b) (blk_at fn' b)" by (simp add: shrinks_def)
  then show "is_block fn' b = is_block fn b" by (cases "blk_at fn b"; cases "blk_at fn' b") (auto simp: is_block_def)
qed

lemma shrinks_blk:
  assumes "shrinks ok fn fn'" "blk_at fn' b = Some blk'"
  shows "\<exists>blk. blk_at fn b = Some blk \<and> same_edges blk blk'"
proof -
  have "rel_option same_edges (blk_at fn b) (blk_at fn' b)" using assms(1) by (simp add: shrinks_def)
  with assms(2) show ?thesis by (cases "blk_at fn b") auto
qed

lemma shrinks_addrs:
  assumes "shrinks ok fn fn'"
  shows "set (all_addrs fn') \<subseteq> set (all_addrs fn)"
proof
  fix a assume "a \<in> set (all_addrs fn')"
  then obtain b blk' where b: "blk_at fn' b = Some blk'" "a \<in> set (instrs blk')" by (auto simp: set_all_addrs)
  from shrinks_blk [OF assms b(1)] b(2) show "a \<in> set (all_addrs fn)"
    by (auto simp: set_all_addrs same_edges_def)
qed

lemma simplify_phi_shrinks:
  assumes ok: "heap_ok fn" "counters_ok fn" and K: "K = (\<lambda>b. is_block fn b \<and> vis b)"
    and run: "simplify_phi vis a (fn, ch) = (fn', ch')"
  shows "shrinks K fn fn'" "a \<in> set (all_addrs fn') \<Longrightarrow> phi_kept K (heap fn' a)"
proof -
  let ?ps = "filter (live_entry fn vis) (phi (heap fn a))"
  let ?fn1 = "upd_instr a (\<lambda>i. i\<lparr>phi := ?ps\<rparr>) fn"
  have live: "\<forall>e \<in> set ?ps. K (snd e)" by (auto simp: live_entry_def K)
  have s1: "shrinks K fn ?fn1" if two: "2 \<le> length ?ps \<or> \<not> phi_kept K (heap fn a)"
  proof -
    have "phi_kept K (heap ?fn1 b)" if "phi_kept K (heap fn b)" for b
      using that two live by (auto simp: phi_kept_def)
    moreover have "keeps_body fn ?fn1" by (rule keeps_body_heap) simp_all
    ultimately show ?thesis by (auto simp: shrinks_def same_edges_def intro!: option.rel_refl)
  qed
  have short: "\<not> phi_kept K (heap fn a)" if "op (heap fn a) = OP_PHI" "length ?ps < 2"
  proof
    assume "phi_kept K (heap fn a)"
    then have "?ps = phi (heap fn a)" "2 \<le> length (phi (heap fn a))"
      using that(1) by (auto simp: phi_kept_def live_entry_def K filter_id_conv)
    with that(2) show False by simp
  qed
  have ok1: "heap_ok ?fn1" "counters_ok ?fn1" using ok by simp_all
  consider (nophi) "op (heap fn a) \<noteq> OP_PHI" "fn' = fn"
    | (one) "op (heap fn a) = OP_PHI" "length ?ps = 1"
        "fn' = fst (erase_instr (fst (replace_all_uses ?fn1 (dst (heap fn a)) (fst (hd ?ps)))) a)"
    | (none) "op (heap fn a) = OP_PHI" "length ?ps = 0" "fn' = fst (erase_instr ?fn1 a)"
    | (more) "op (heap fn a) = OP_PHI" "length ?ps \<noteq> 1" "length ?ps \<noteq> 0" "fn' = ?fn1"
    using run by (auto simp: simplify_phi_def Let_def split: if_splits)
  then have "shrinks K fn fn' \<and> (a \<in> set (all_addrs fn') \<longrightarrow> phi_kept K (heap fn' a))"
  proof cases
    case nophi
    then show ?thesis by (simp add: shrinks_refl phi_kept_def)
  next
    case one
    let ?r = "replace_all_uses ?fn1 (dst (heap fn a)) (fst (hd ?ps))"
    obtain d where e: "erase_instr (fst ?r) a = (fn', d)" using one(3) by (metis prod.collapse)
    have r: "shrinks K ?fn1 (fst ?r)" by (rule replace_all_uses_shrinks [OF ok1(1)])
    then have okr: "heap_ok (fst ?r)" "counters_ok (fst ?r)" using ok1 by (auto simp: shrinks_def)
    have "op (heap (fst ?r) a) = OP_PHI" using r one(1) by (simp add: shrinks_def keeps_body_def)
    note E = erase_shrinks [OF e this]
    have "shrinks K fn ?fn1" using s1 short one(1,2) by simp
    then have "shrinks K fn fn'" using shrinks_trans [OF shrinks_trans [OF _ r] E] by blast
    then show ?thesis using erase_instr_spec(3) [OF okr e] by blast
  next
    case none
    obtain d where e: "erase_instr ?fn1 a = (fn', d)" using none(3) by (metis prod.collapse)
    have "op (heap ?fn1 a) = OP_PHI" using none(1) by simp
    note E = erase_shrinks [OF e this]
    have "shrinks K fn ?fn1" using s1 short none(1,2) by simp
    then have "shrinks K fn fn'" using shrinks_trans [OF _ E] by blast
    then show ?thesis using erase_instr_spec(3) [OF ok1 e] by blast
  next
    case more
    then have "2 \<le> length ?ps" by linarith
    with more(4) show ?thesis using s1 live by (auto simp: phi_kept_def)
  qed
  then show "shrinks K fn fn'" "a \<in> set (all_addrs fn') \<Longrightarrow> phi_kept K (heap fn' a)" by blast+
qed

text \<open>The inner loop over the instructions of a block, then the outer loop.\<close>

lemma simplify_fold:
  assumes "heap_ok fn" "counters_ok fn" "K = (\<lambda>b. is_block fn b \<and> vis b)"
    and "fold (simplify_phi vis) as (fn, ch) = (fn', ch')"
  shows "shrinks K fn fn' \<and> (\<forall>a \<in> set as. a \<in> set (all_addrs fn') \<longrightarrow> phi_kept K (heap fn' a))"
  using assms
proof (induction as arbitrary: fn ch)
  case Nil
  then show ?case by (simp add: shrinks_refl)
next
  case (Cons a as)
  obtain f1 c1 where st: "simplify_phi vis a (fn, ch) = (f1, c1)" by fastforce
  note S = simplify_phi_shrinks [OF Cons.prems(1-3) st]
  have ok1: "heap_ok f1" "counters_ok f1" using S(1) Cons.prems by (auto simp: shrinks_def)
  have K1: "K = (\<lambda>b. is_block f1 b \<and> vis b)" using Cons.prems(3) shrinks_is_block [OF S(1)] by simp
  have IH: "shrinks K f1 fn'" "\<forall>a \<in> set as. a \<in> set (all_addrs fn') \<longrightarrow> phi_kept K (heap fn' a)"
    using Cons.IH [OF ok1 K1] Cons.prems(4) st by auto
  have mem: "set (all_addrs fn') \<subseteq> set (all_addrs f1)"
    using IH(1) by (rule shrinks_addrs)
  have "phi_kept K (heap fn' a)" if "a \<in> set (all_addrs fn')"
    using S(2) IH(1) mem that by (auto simp: shrinks_def)
  with IH shrinks_trans [OF S(1)] show ?case by auto
qed


lemma simplify_phis_upto:
  assumes ok: "heap_ok fn" "counters_ok fn" and K: "K = (\<lambda>b. is_block fn b \<and> vis b)"
    and run: "for_blk (\<lambda>bi b s. fold (simplify_phi vis) (instrs b) s) fst k (fn, ch) = (fn', ch')"
  shows "shrinks K fn fn' \<and> (\<forall>b < k. \<forall>blk. blk_at fn' b = Some blk \<longrightarrow>
     (\<forall>a \<in> set (instrs blk). phi_kept K (heap fn' a)))"
  using run
proof (induction k arbitrary: fn' ch')
  case 0
  then show ?case by (simp add: for_blk_def shrinks_refl)
next
  case (Suc k)
  let ?F = "\<lambda>k. for_blk (\<lambda>bi b s. fold (simplify_phi vis) (instrs b) s) fst k (fn, ch)"
  obtain f1 c1 where f1: "?F k = (f1, c1)" by fastforce
  note IH = Suc.IH [OF f1]
  have IH1: "shrinks K fn f1" and IH2: "\<And>b blk a. b < k \<Longrightarrow> blk_at f1 b = Some blk \<Longrightarrow> a \<in> set (instrs blk) \<Longrightarrow>
      phi_kept K (heap f1 a)" using IH by blast+
  have ok1: "heap_ok f1" "counters_ok f1" using IH1 ok by (auto simp: shrinks_def)
  have K1: "K = (\<lambda>b. is_block f1 b \<and> vis b)" using K shrinks_is_block [OF IH1] by simp
  show ?case
  proof (cases "blk_at f1 k")
    case None
    then have "fn' = f1" using Suc.prems by (simp add: for_blk_Suc f1)
    with IH None show ?thesis by (auto simp: less_Suc_eq)
  next
    case (Some blk0)
    then have st: "fold (simplify_phi vis) (instrs blk0) (f1, c1) = (fn', ch')"
      using Suc.prems by (simp add: for_blk_Suc f1)
    note S = simplify_fold [OF ok1 K1 st]
    have S1: "shrinks K f1 fn'" and S2: "\<And>a. a \<in> set (instrs blk0) \<Longrightarrow> a \<in> set (all_addrs fn') \<Longrightarrow>
        phi_kept K (heap fn' a)" using S by blast+
    have "phi_kept K (heap fn' a)" if b: "b < Suc k" "blk_at fn' b = Some blk" "a \<in> set (instrs blk)" for b blk a
    proof -
      obtain blk1 where b1: "blk_at f1 b = Some blk1" "a \<in> set (instrs blk1)"
        using shrinks_blk [OF S1 b(2)] b(3) by (auto simp: same_edges_def)
      show ?thesis
      proof (cases "b = k")
        case True
        with b1 Some S2 b(2,3) show ?thesis by (auto simp: set_all_addrs)
      next
        case False
        with IH2 [of b blk1 a] b1 b(1) S1 show ?thesis by (auto simp: shrinks_def)
      qed
    qed
    with shrinks_trans [OF IH1 S1] show ?thesis by blast
  qed
qed

section \<open>Properties\<close>

definition reach0 :: "func \<Rightarrow> blockid \<Rightarrow> bool" where
  "reach0 fn b \<longleftrightarrow> (0, b) \<in> (cfg_edges (rebuild_preds_succs fn))\<^sup>*"

lemma cfg_reach_exact: "cfg_reach fn b \<longleftrightarrow> (0, b) \<in> (cfg_edges fn)\<^sup>*"
  by (simp add: cfg_reach_def search_block_reach)

lemma remove_unreachable_ok:
  assumes ok: "heap_ok fn" "counters_ok fn" and run: "remove_unreachable vis fn = (fn', ch)"
  shows "heap_ok fn'" "counters_ok fn'"
proof -
  note R = remove_unreachable_spec [OF run]
  show "counters_ok fn'"
    by (rule counters_okI) (use ok R in \<open>auto simp: empty_block_def counters_ok_blk\<close>)
  have "map blk_instrs (blocks fn') = map (\<lambda>(b, as). if vis b then as else []) (enumerate 0 (map blk_instrs (blocks fn)))"
  proof (rule nth_equalityI)
    fix i assume "i < length (map blk_instrs (blocks fn'))"
    then have i: "i < n_blocks fn" "i < n_blocks fn'" using R(4) by simp_all
    then have "blocks fn' ! i = blk_at fn' i" "blocks fn ! i = blk_at fn i" by (simp_all add: blk_at_def)
    then show "map blk_instrs (blocks fn') ! i = map (\<lambda>(b, as). if vis b then as else []) (enumerate 0 (map blk_instrs (blocks fn))) ! i"
      using i R(1) [of i] by (cases "blk_at fn i") (auto simp: nth_enumerate_eq blk_instrs_def empty_block_def)
  qed (simp add: R(4))
  moreover have "distinct (concat (map (\<lambda>(b, as). if vis b then as else []) (enumerate k xss)))
      \<and> set (concat (map (\<lambda>(b, as). if vis b then as else []) (enumerate k xss))) \<subseteq> set (concat xss)"
    if "distinct (concat xss)" for k and xss :: "addr list list"
    using that
  proof (induction xss arbitrary: k)
    case (Cons xs xss)
    define c where "c = concat (map (\<lambda>(b, as). if vis b then as else []) (enumerate (Suc k) xss))"
    have "distinct c" "set c \<subseteq> set (concat xss)" using Cons.IH [of "Suc k"] Cons.prems by (auto simp: c_def)
    moreover have "concat (map (\<lambda>(b, as). if vis b then as else []) (enumerate k (xs # xss))) = (if vis k then xs else []) @ c"
      by (simp add: c_def)
    ultimately show ?case using Cons.prems by (auto simp del: set_concat)
  qed simp
  ultimately show "heap_ok fn'" using ok(1) R(3) unfolding heap_ok_def all_addrs_def by (metis (no_types, lifting) subsetD)
qed

lemma heap_ok_cong: "all_addrs fn' = all_addrs fn \<Longrightarrow> next_addr fn' = next_addr fn \<Longrightarrow> heap_ok fn' = heap_ok fn"
  by (simp add: heap_ok_def)


lemma rebuild_ok: "heap_ok (rebuild_preds_succs fn) = heap_ok fn" "counters_ok fn \<Longrightarrow> counters_ok (rebuild_preds_succs fn)"
proof -
  have "next_addr (fold (add_edge bi) ds f) = next_addr f" for bi ds f
    by (induction ds arbitrary: f) (auto simp: add_edge_def split: option.split)
  then have "next_addr (rebuild_preds_succs fn) = next_addr fn"
    unfolding rebuild_preds_succs_def
    by - (rule for_blk_invariant [where I = "\<lambda>f. next_addr f = next_addr fn"], simp_all)
  then show "heap_ok (rebuild_preds_succs fn) = heap_ok fn" by (intro heap_ok_cong rebuild_addrs)
  show "counters_ok (rebuild_preds_succs fn)" if "counters_ok fn"
    by (rule counters_okI) (use that in \<open>auto simp: rebuild_blk_at with_edges_def counters_ok_blk\<close>)
qed

lemma shrinks_edges_ok:
  assumes s: "shrinks ok fn fn'" and e: "edges_ok fn"
  shows "edges_ok fn'"
  unfolding edges_ok_def
proof (intro allI impI)
  have fwd: "\<exists>blk'. blk_at fn' b = Some blk' \<and> same_edges blk blk'" if "blk_at fn b = Some blk" for b blk
  proof -
    have "rel_option same_edges (blk_at fn b) (blk_at fn' b)" using s by (simp add: shrinks_def)
    with that show ?thesis by (cases "blk_at fn' b") auto
  qed
  fix b blk' assume "blk_at fn' b = Some blk'"
  then obtain blk where blk: "blk_at fn b = Some blk" "same_edges blk blk'" using shrinks_blk [OF s] by blast
  show "(\<forall>t \<in> set (succs blk'). \<exists>sb. blk_at fn' t = Some sb \<and> b \<in> set (preds sb)) \<and>
     (\<forall>p \<in> set (preds blk'). \<exists>pb. blk_at fn' p = Some pb \<and> b \<in> set (succs pb))"
  proof (intro conjI ballI)
    fix t assume "t \<in> set (succs blk')"
    then obtain sb where "blk_at fn t = Some sb" "b \<in> set (preds sb)"
      using e blk unfolding edges_ok_def same_edges_def by metis
    with fwd [of t sb] show "\<exists>sb. blk_at fn' t = Some sb \<and> b \<in> set (preds sb)"
      by (auto simp: same_edges_def)
  next
    fix p assume "p \<in> set (preds blk')"
    then obtain pb where "blk_at fn p = Some pb" "b \<in> set (succs pb)"
      using e blk unfolding edges_ok_def same_edges_def by metis
    with fwd [of p pb] show "\<exists>pb. blk_at fn' p = Some pb \<and> b \<in> set (succs pb)"
      by (auto simp: same_edges_def)
  qed
qed

lemma rebuild_def_use_same:
  "heap_ok (rebuild_def_use fn) = heap_ok fn" "counters_ok (rebuild_def_use fn) = counters_ok fn"
  "edges_ok (rebuild_def_use fn) = edges_ok fn" "blk_at (rebuild_def_use fn) = blk_at fn"
  "heap (rebuild_def_use fn) = heap fn" "all_addrs (rebuild_def_use fn) = all_addrs fn"
proof -
  show b: "blk_at (rebuild_def_use fn) = blk_at fn" by (simp add: blk_at_def rebuild_keeps fun_eq_iff)
  show "heap_ok (rebuild_def_use fn) = heap_ok fn" "counters_ok (rebuild_def_use fn) = counters_ok fn"
    by (simp_all add: heap_ok_def counters_ok_def rebuild_keeps)
  show "edges_ok (rebuild_def_use fn) = edges_ok fn" by (simp add: edges_ok_def b)
qed (simp_all add: rebuild_keeps)

text \<open>
  C28: What \<^verbatim>\<open>opt_cfg_simplify_pass\<close> establishes. On a function with sane lists it keeps them sane;
  the edge lists agree with each other afterwards. It empties exactly the unreachable blocks: a block that
  no path from the entry reaches has lost its instructions and its flag, a reachable block
  has its flag and all its instructions but phi nodes, in order and with the same operation, destination
  and constant. Every phi node that is left has at least two entries, each from a block that is
  reachable.
\<close>

theorem opt_cfg_simplify_clean:
  assumes "heap_ok fn" "counters_ok fn" "opt_cfg_simplify_pass fn = (fn', changed)"
  shows "heap_ok fn' \<and> counters_ok fn' \<and> edges_ok fn' \<and>
    (\<forall>b blk. blk_at fn' b = Some blk \<longrightarrow> \<not> reach0 fn b \<longrightarrow> instrs blk = [] \<and> \<not> reachable blk) \<and>
    (\<forall>b blk. blk_at fn b = Some blk \<longrightarrow> reach0 fn b \<longrightarrow> (\<exists>blk'. blk_at fn' b = Some blk' \<and>
       filter (\<lambda>a. op (heap fn a) \<noteq> OP_PHI) (instrs blk') = filter (\<lambda>a. op (heap fn a) \<noteq> OP_PHI) (instrs blk) \<and>
       set (instrs blk') \<subseteq> set (instrs blk) \<and> reachable blk' = reachable blk)) \<and>
    (\<forall>a. op (heap fn' a) = op (heap fn a) \<and> dst (heap fn' a) = dst (heap fn a) \<and> imm (heap fn' a) = imm (heap fn a)) \<and>
    (\<forall>a \<in> set (all_addrs fn'). phi_kept (\<lambda>b. is_block fn b \<and> reach0 fn b) (heap fn' a))"
proof -
  let ?fn1 = "rebuild_preds_succs fn"
  let ?vis = "cfg_reach ?fn1"
  obtain fn2 ch2 where fn2: "remove_unreachable ?vis ?fn1 = (fn2, ch2)" by fastforce
  let ?fn3 = "rebuild_preds_succs fn2"
  obtain fn4 ch4 where fn4: "simplify_phis ?vis (?fn3, ch2) = (fn4, ch4)" by fastforce
  have fn': "fn' = fn4 \<or> fn' = rebuild_def_use fn4"
    using assms(3) fn2 fn4 by (auto simp: opt_cfg_simplify_pass_def Let_def split: if_splits)
  have vis: "?vis = reach0 fn" by (simp add: fun_eq_iff cfg_reach_exact reach0_def)
  have ok1: "heap_ok ?fn1" "counters_ok ?fn1" using assms(1,2) by (simp_all add: rebuild_ok)
  note ok2 = remove_unreachable_ok [OF ok1 fn2] and R2 = remove_unreachable_spec [OF fn2]
  have ok3: "heap_ok ?fn3" "counters_ok ?fn3" using ok2 by (simp_all add: rebuild_ok)
  define K where "K = (\<lambda>b. is_block ?fn3 b \<and> ?vis b)"
  have K: "K = (\<lambda>b. is_block fn b \<and> reach0 fn b)"
    by (simp add: K_def vis R2(5) rebuild_blk_at(4))
  have run: "for_blk (\<lambda>bi b s. fold (simplify_phi ?vis) (instrs b) s) fst (n_blocks ?fn3) (?fn3, ch2) = (fn4, ch4)"
    using fn4 by (simp add: simplify_phis_def)
  note S = simplify_phis_upto [OF ok3 K_def run]
  have s34: "shrinks K ?fn3 fn4" using S by blast
  have n4: "n_blocks fn4 = n_blocks ?fn3" using s34 by (simp add: shrinks_def)
  have phis: "phi_kept K (heap fn4 a)" if "a \<in> set (all_addrs fn4)" for a
  proof -
    from that obtain b blk where b: "blk_at fn4 b = Some blk" "a \<in> set (instrs blk)" by (auto simp: set_all_addrs)
    then have "b < n_blocks ?fn3" using n4 blk_at_Some_lt [OF b(1)] by simp
    then show ?thesis using S b by blast
  qed
  have gone: "instrs blk = [] \<and> \<not> reachable blk" if g: "blk_at fn4 b = Some blk" "\<not> reach0 fn b" for b blk
  proof -
    obtain blk3 where b3: "blk_at ?fn3 b = Some blk3" "same_edges blk3 blk" using shrinks_blk [OF s34 g(1)] by blast
    then obtain blk2 where "blk_at fn2 b = Some blk2" "instrs blk3 = instrs blk2" "reachable blk3 = reachable blk2"
      by (auto simp: rebuild_blk_at with_edges_def)
    then have "instrs blk2 = []" "\<not> reachable blk2"
      using R2(1) [of b] g(2) by (auto simp: vis empty_block_def)
    then show ?thesis using b3(2) \<open>instrs blk3 = instrs blk2\<close> \<open>reachable blk3 = reachable blk2\<close>
      by (simp add: same_edges_def)
  qed
  have h3: "heap ?fn3 = heap fn" by (simp add: rebuild_blk_at R2(2))
  have kb: "keeps_body ?fn3 fn4" using s34 by (simp add: shrinks_def)
  have same: "op (heap fn4 a) = op (heap fn a) \<and> dst (heap fn4 a) = dst (heap fn a) \<and> imm (heap fn4 a) = imm (heap fn a)" for a
    using kb by (simp add: keeps_body_def h3)
  have stay: "\<exists>blk'. blk_at fn4 b = Some blk' \<and>
       filter (\<lambda>a. op (heap fn a) \<noteq> OP_PHI) (instrs blk') = filter (\<lambda>a. op (heap fn a) \<noteq> OP_PHI) (instrs blk) \<and>
       set (instrs blk') \<subseteq> set (instrs blk) \<and> reachable blk' = reachable blk"
    if g: "blk_at fn b = Some blk" "reach0 fn b" for b blk
  proof -
    obtain blk3 where b3: "blk_at ?fn3 b = Some blk3" "instrs blk3 = instrs blk" "reachable blk3 = reachable blk"
      using g R2(1) [of b] by (auto simp: rebuild_blk_at with_edges_def vis)
    have "rel_option same_edges (blk_at ?fn3 b) (blk_at fn4 b)" using s34 by (simp add: shrinks_def)
    with b3(1) obtain blk' where b4: "blk_at fn4 b = Some blk'" "same_edges blk3 blk'" by (cases "blk_at fn4 b") auto
    have "body_at (heap fn) fn4 b = body_at (heap fn) ?fn3 b" using kb by (simp add: keeps_body_def h3)
    with b3 b4 show ?thesis by (auto simp: body_at_def same_edges_def)
  qed
  have "edges_ok fn4" by (rule shrinks_edges_ok [OF s34]) (rule rebuild_edges_ok)
  moreover have "heap_ok fn4" "counters_ok fn4" using s34 ok3 by (auto simp: shrinks_def)
  ultimately show ?thesis
    using fn' phis gone stay same
    by (auto simp: rebuild_def_use_same K)
qed


definition demo_cfg :: func where
  "demo_cfg = mk_func [mk_block [0, 1] [2] [], mk_block [2, 3] [2] [], mk_block [4, 5] [] [0, 1]]
     [mk_const 1 7, mk_instr OP_BR 0 [2], mk_const 2 8, mk_instr OP_BR 0 [2],
      mk_phi 3 [(1, 0), (2, 1)], mk_instr OP_RET 0 [3]] 3"

lemma demo_cfg_ok: "heap_ok demo_cfg" "counters_ok demo_cfg"
  by (simp_all add: demo_cfg_def mk_defs heap_ok_def counters_ok_def all_addrs_def blk_instrs_def
      less_Suc_eq numeral_2_eq_2 numeral_3_eq_3)

theorem opt_cfg_simplify_clean_witness:
  "heap_ok (fst (opt_cfg_simplify_pass demo_cfg)) \<and> edges_ok (fst (opt_cfg_simplify_pass demo_cfg)) \<and>
   op (heap (fst (opt_cfg_simplify_pass demo_cfg)) 5) = OP_RET"
proof -
  obtain fn' c where r: "opt_cfg_simplify_pass demo_cfg = (fn', c)" by fastforce
  have "op (heap demo_cfg 5) = OP_RET" by (simp add: demo_cfg_def mk_defs)
  with opt_cfg_simplify_clean [OF demo_cfg_ok r] show ?thesis unfolding r by simp
qed

end
