(* ===== verification/IR_Machine.thy ===== *)
theory IR_Machine
  imports IR_Sem
begin

text \<open>
  Executions of IR functions as a labelled small-step relation, and the interface between a
  data-flow analysis that finds constants and the rewriting of the instructions it found
  constant. The phi nodes of a block are executed together, on the edge that enters it.
\<close>

section \<open>Configurations\<close>

type_synonym env = "regid \<Rightarrow> int64 option"

datatype event = Eff opcode string int64 "int64 list" int64 | Ret "int64 option"

datatype config = At blockid "addr list" env | Halted

definition set_reg :: "regid \<Rightarrow> int64 \<Rightarrow> env \<Rightarrow> env" where
  "set_reg r v \<rho> = (if r = 0 then \<rho> else \<rho>(r \<mapsto> v))"

definition eval :: "instr \<Rightarrow> env \<Rightarrow> int64 option" where
  "eval i \<rho> = (if \<forall>r \<in> set (opnds i). \<rho> r \<noteq> None then value_of i (\<lambda>r. the (\<rho> r)) else None)"

text \<open>Operand 0 of an effect means no operand.\<close>

fun read_all :: "env \<Rightarrow> regid list \<Rightarrow> int64 list option" where
  "read_all \<rho> [] = Some []"
| "read_all \<rho> (r # rs) = (case (if r = 0 then Some 0 else \<rho> r) of None \<Rightarrow> None
     | Some v \<Rightarrow> map_option ((#) v) (read_all \<rho> rs))"

definition eff_regs :: "instr \<Rightarrow> regid list" where
  "eff_regs i = map (src i) [0..<n_src i] @ call_args i"

definition is_effect :: "opcode \<Rightarrow> bool" where
  "is_effect opc \<longleftrightarrow> opc \<in> {OP_LOAD, OP_STORE, OP_ALLOCA, OP_GEP, OP_CALL, OP_UNDEF,
     OP_PGO_COUNTER_ADDR, OP_GLOBAL, OP_ASM, OP_VLA_ALLOC, OP_GET_RDX}"

definition phi_val :: "env \<Rightarrow> blockid \<Rightarrow> instr \<Rightarrow> int64 option" where
  "phi_val \<rho> p i = (case map_of (map (\<lambda>(r, b). (b, r)) (phi i)) p of None \<Rightarrow> None | Some r \<Rightarrow> \<rho> r)"

fun run_phis :: "(addr \<Rightarrow> instr) \<Rightarrow> env \<Rightarrow> blockid \<Rightarrow> addr list \<Rightarrow> env \<Rightarrow> env option" where
  "run_phis h \<rho> p [] \<rho>' = Some \<rho>'"
| "run_phis h \<rho> p (a # as) \<rho>' = (if op (h a) \<noteq> OP_PHI then run_phis h \<rho> p as \<rho>'
     else case phi_val \<rho> p (h a) of None \<Rightarrow> None | Some v \<Rightarrow> run_phis h \<rho> p as (set_reg (dst (h a)) v \<rho>'))"

definition body_addrs :: "func \<Rightarrow> block \<Rightarrow> addr list" where
  "body_addrs fn blk = filter (\<lambda>a. op (heap fn a) \<noteq> OP_PHI) (instrs blk)"

definition enter :: "func \<Rightarrow> blockid \<Rightarrow> blockid \<Rightarrow> env \<Rightarrow> config option" where
  "enter fn p b \<rho> = (case blk_at fn b of None \<Rightarrow> None
     | Some blk \<Rightarrow> map_option (At b (body_addrs fn blk)) (run_phis (heap fn) \<rho> p (instrs blk) \<rho>))"

definition start :: "func \<Rightarrow> env \<Rightarrow> config option" where
  "start fn \<rho> = map_option (\<lambda>blk. At 0 (body_addrs fn blk) \<rho>) (blk_at fn 0)"

section \<open>Steps\<close>

inductive step :: "func \<Rightarrow> config \<Rightarrow> event option \<Rightarrow> config \<Rightarrow> bool" for fn where
  Pure: "is_pure (op (heap fn a)) \<Longrightarrow> eval (heap fn a) \<rho> = Some v \<Longrightarrow>
    step fn (At b (a # as) \<rho>) None (At b as (set_reg (dst (heap fn a)) v \<rho>))"
| Nop: "op (heap fn a) = OP_NOP \<Longrightarrow> step fn (At b (a # as) \<rho>) None (At b as \<rho>)"
| Effect: "is_effect (op (heap fn a)) \<Longrightarrow> read_all \<rho> (eff_regs (heap fn a)) = Some vs \<Longrightarrow>
    step fn (At b (a # as) \<rho>) (Some (Eff (op (heap fn a)) (call_name (heap fn a)) (imm (heap fn a)) vs w))
      (At b as (set_reg (dst (heap fn a)) w \<rho>))"
| Br: "op (heap fn a) = OP_BR \<Longrightarrow> enter fn b (src1 (heap fn a)) \<rho> = Some c \<Longrightarrow>
    step fn (At b (a # as) \<rho>) None c"
| CondBr: "op (heap fn a) = OP_CONDBR \<Longrightarrow> \<rho> (src1 (heap fn a)) = Some v \<Longrightarrow>
    enter fn b (if v \<noteq> 0 then src (heap fn a) 1 else src (heap fn a) 2) \<rho> = Some c \<Longrightarrow>
    step fn (At b (a # as) \<rho>) None c"
| Return: "op (heap fn a) = OP_RET \<Longrightarrow> read_all \<rho> (if n_src (heap fn a) > 0 then [src1 (heap fn a)] else []) = Some vs \<Longrightarrow>
    step fn (At b (a # as) \<rho>) (Some (Ret (if vs = [] then None else Some (hd vs)))) Halted"

inductive_cases stepE: "step fn (At b (a # as) \<rho>) e c"
inductive_cases step_HaltedE [elim!]: "step fn Halted e c"
inductive_cases step_NilE [elim!]: "step fn (At b [] \<rho>) e c"

text \<open>Runs collect the events.\<close>

inductive run :: "func \<Rightarrow> config \<Rightarrow> event list \<Rightarrow> config \<Rightarrow> bool" for fn where
  run_Nil: "run fn c [] c"
| run_tau: "step fn c None c1 \<Longrightarrow> run fn c1 es c' \<Longrightarrow> run fn c es c'"
| run_event: "step fn c (Some e) c1 \<Longrightarrow> run fn c1 es c' \<Longrightarrow> run fn c (e # es) c'"

lemma run_append: "run fn c es c1 \<Longrightarrow> run fn c1 fs c2 \<Longrightarrow> run fn c (es @ fs) c2"
  by (induction rule: run.induct) (auto intro: run.intros)

definition ev :: "event option \<Rightarrow> event list" where
  "ev e = (case e of None \<Rightarrow> [] | Some x \<Rightarrow> [x])"

lemma run_step: "step fn c e c' \<Longrightarrow> run fn c (ev e) c'"
  by (cases e) (auto simp: ev_def intro: run.intros)

text \<open>A run is matched by another function if each of its steps is, along an invariant.\<close>

lemma run_simulation:
  assumes "run fn c es c'" "I c"
    and keep: "\<And>c e c1. step fn c e c1 \<Longrightarrow> I c \<Longrightarrow> I c1"
    and sim: "\<And>c e c1. step fn c e c1 \<Longrightarrow> I c \<Longrightarrow> run fn' c (ev e) c1"
  shows "run fn' c es c'"
  using assms(1,2)
proof (induction rule: run.induct)
  case (run_Nil c)
  then show ?case by (simp add: run.run_Nil)
next
  case (run_tau c c1 es c')
  have "run fn' c (ev None) c1" by (rule sim) fact+
  moreover have "run fn' c1 es c'" using run_tau keep by blast
  ultimately show ?case using run_append by (fastforce simp: ev_def)
next
  case (run_event c e c1 es c')
  have "run fn' c (ev (Some e)) c1" by (rule sim) fact+
  moreover have "run fn' c1 es c'" using run_event keep by blast
  ultimately show ?case using run_append by (fastforce simp: ev_def)
qed

section \<open>Folding instructions to constants\<close>

text \<open>
  The rewriting that the constant analyses justify: an instruction or phi node whose destination
  is known becomes \<^verbatim>\<open>OP_CONST\<close>, a conditional branch on a known register becomes \<^verbatim>\<open>OP_BR\<close>. \<open>C\<close> are
  the known registers, \<open>L\<close> the blocks the analysis takes for reachable; the others are free.
\<close>

definition folds_instr :: "(regid \<Rightarrow> int64 option) \<Rightarrow> instr \<Rightarrow> instr \<Rightarrow> bool" where
  "folds_instr C i i' \<longleftrightarrow> i' = i \<or>
     ((is_pure (op i) \<or> op i = OP_PHI) \<and> op i' = OP_CONST \<and> dst i' = dst i \<and> is_float i' = 0 \<and>
        C (dst i) = Some (imm i')) \<or>
     (op i = OP_CONDBR \<and> op i' = OP_BR \<and>
        (\<exists>k. C (src1 i) = Some k \<and> src1 i' = (if k \<noteq> 0 then src i 1 else src i 2)))"

definition folds_fn :: "(regid \<Rightarrow> int64 option) \<Rightarrow> (blockid \<Rightarrow> bool) \<Rightarrow> func \<Rightarrow> func \<Rightarrow> bool" where
  "folds_fn C L fn fn' \<longleftrightarrow> blocks fn' = blocks fn \<and>
     (\<forall>b blk. blk_at fn b = Some blk \<longrightarrow> L b \<longrightarrow> (\<forall>a \<in> set (instrs blk). folds_instr C (heap fn a) (heap fn' a)))"

lemma is_pure_not [simp]: "\<not> is_pure OP_CONDBR" "\<not> is_pure OP_BR" "\<not> is_pure OP_PHI" "\<not> is_pure OP_NOP"
  "\<not> is_pure OP_RET"
  by (simp_all add: is_pure_def is_binop_def)

lemma is_effect_not: "is_effect opc \<Longrightarrow> \<not> is_pure opc \<and> opc \<notin> {OP_PHI, OP_CONDBR, OP_BR, OP_RET, OP_NOP}"
  by (auto simp: is_effect_def is_pure_def is_binop_def)

lemma folds_pure: "folds_instr C i i' \<Longrightarrow> is_pure (op i) \<Longrightarrow>
    i' = i \<or> (op i' = OP_CONST \<and> is_float i' = 0 \<and> dst i' = dst i \<and> C (dst i) = Some (imm i'))"
  by (auto simp: folds_instr_def)

lemma folds_other: "folds_instr C i i' \<Longrightarrow> \<not> is_pure (op i) \<Longrightarrow> op i \<notin> {OP_PHI, OP_CONDBR} \<Longrightarrow> i' = i"
  by (auto simp: folds_instr_def)

lemma folds_not_phi: "folds_instr C i i' \<Longrightarrow> op i \<noteq> OP_PHI \<Longrightarrow> op i' \<noteq> OP_PHI"
  by (auto simp: folds_instr_def)

lemma folds_blk_at: "folds_fn C L fn fn' \<Longrightarrow> blk_at fn' = blk_at fn"
  by (auto simp: folds_fn_def blk_at_def)

lemma folds_fnD: "folds_fn C L fn fn' \<Longrightarrow> blk_at fn b = Some blk \<Longrightarrow> L b \<Longrightarrow> a \<in> set (instrs blk) \<Longrightarrow>
    folds_instr C (heap fn a) (heap fn' a)"
  by (auto simp: folds_fn_def)

text \<open>The shape of SSA blocks: phi nodes come first, define different registers, none in the entry.\<close>

definition phi_addrs :: "func \<Rightarrow> block \<Rightarrow> addr list" where
  "phi_addrs fn blk = filter (\<lambda>a. op (heap fn a) = OP_PHI) (instrs blk)"

definition phis_ok :: "func \<Rightarrow> block \<Rightarrow> bool" where
  "phis_ok fn blk \<longleftrightarrow> instrs blk = phi_addrs fn blk @ body_addrs fn blk \<and>
     distinct (map (\<lambda>a. dst (heap fn a)) (phi_addrs fn blk))"

definition blocks_ok :: "func \<Rightarrow> bool" where
  "blocks_ok fn \<longleftrightarrow> (\<forall>blk \<in> set (blocks fn). case blk of None \<Rightarrow> True | Some b \<Rightarrow> phis_ok fn b) \<and>
     (case blk_at fn 0 of None \<Rightarrow> True | Some b \<Rightarrow> phi_addrs fn b = [])"

lemma blocks_okD: "blocks_ok fn \<Longrightarrow> blk_at fn b = Some blk \<Longrightarrow> phis_ok fn blk"
  unfolding blocks_ok_def using blk_at_mem [of fn blk] by fastforce

text \<open>The assignments that folded phi nodes have become.\<close>

definition const_writes :: "func \<Rightarrow> addr list \<Rightarrow> env \<Rightarrow> env" where
  "const_writes fn as \<rho> = fold (\<lambda>a. set_reg (dst (heap fn a)) (imm (heap fn a))) as \<rho>"

definition is_const0 :: "instr \<Rightarrow> bool" where
  "is_const0 i \<longleftrightarrow> op i = OP_CONST \<and> is_float i = 0"

lemma run_const_writes:
  "\<forall>a \<in> set as. is_const0 (heap fn a) \<Longrightarrow> run fn (At b (as @ bs) \<rho>) [] (At b bs (const_writes fn as \<rho>))"
proof (induction as arbitrary: \<rho>)
  case (Cons a as)
  have "eval (heap fn a) \<rho> = Some (imm (heap fn a))" "is_pure (op (heap fn a))"
    using Cons.prems by (simp_all add: eval_def opnds_def value_of_def is_pure_def is_const0_def)
  from step.Pure [OF this(2,1)] Cons show ?case by (auto simp: const_writes_def intro: run_tau)
qed (simp add: const_writes_def run_Nil)

lemma set_reg_commute: "r \<noteq> q \<or> v = w \<Longrightarrow> set_reg r v (set_reg q w \<rho>) = set_reg q w (set_reg r v \<rho>)"
  by (auto simp: set_reg_def fun_upd_def fun_eq_iff)

lemma run_phis_append:
  "run_phis h \<rho> p (as @ bs) \<rho>' = (case run_phis h \<rho> p as \<rho>' of None \<Rightarrow> None | Some \<rho>1 \<Rightarrow> run_phis h \<rho> p bs \<rho>1)"
  by (induction as arbitrary: \<rho>') (auto split: option.split)

lemma run_phis_none: "\<forall>a \<in> set as. op (h a) \<noteq> OP_PHI \<Longrightarrow> run_phis h \<rho> p as \<rho>' = Some \<rho>'"
  by (induction as arbitrary: \<rho>') auto

lemma run_phis_set_reg:
  "\<forall>a \<in> set as. dst (h a) \<noteq> d \<Longrightarrow>
     run_phis h \<rho> p as (set_reg d k \<rho>') = map_option (set_reg d k) (run_phis h \<rho> p as \<rho>')"
proof (induction as arbitrary: \<rho>')
  case (Cons a as)
  have "dst (h a) \<noteq> d" using Cons.prems by simp
  then have "set_reg (dst (h a)) v (set_reg d k \<rho>') = set_reg d k (set_reg (dst (h a)) v \<rho>')" for v
    by (intro set_reg_commute) simp
  with Cons show ?case by (auto split: option.split)
qed simp

text \<open>
  Executing the phi nodes of a block, or executing those that are left and then the constants the
  others have become, gives the same registers.
\<close>

lemma run_phis_folded:
  assumes "\<forall>a \<in> set ps. op (heap fn a) = OP_PHI" "\<forall>a \<in> set ps. folds_instr C (heap fn a) (heap fn' a)"
    and "distinct (map (\<lambda>a. dst (heap fn a)) ps)"
    and known: "\<And>a v. a \<in> set ps \<Longrightarrow> phi_val \<rho> p (heap fn a) = Some v \<Longrightarrow> C (dst (heap fn a)) \<noteq> None \<Longrightarrow>
      C (dst (heap fn a)) = Some v"
    and "run_phis (heap fn) \<rho> p ps \<rho>a = Some \<rho>b"
  shows "\<exists>\<rho>1. run_phis (heap fn') \<rho> p ps \<rho>a = Some \<rho>1 \<and>
    \<rho>b = const_writes fn' (filter (\<lambda>a. op (heap fn' a) \<noteq> OP_PHI) ps) \<rho>1"
  using assms
proof (induction ps arbitrary: \<rho>a)
  case Nil
  then show ?case by (simp add: const_writes_def)
next
  case (Cons a ps)
  from Cons.prems obtain v where v: "phi_val \<rho> p (heap fn a) = Some v"
    "run_phis (heap fn) \<rho> p ps (set_reg (dst (heap fn a)) v \<rho>a) = Some \<rho>b" by (auto split: option.splits)
  have "\<exists>\<rho>1. run_phis (heap fn') \<rho> p ps (set_reg (dst (heap fn a)) v \<rho>a) = Some \<rho>1 \<and>
      \<rho>b = const_writes fn' (filter (\<lambda>a. op (heap fn' a) \<noteq> OP_PHI) ps) \<rho>1"
    by (rule Cons.IH) (use Cons.prems v in auto)
  then obtain \<rho>1 where r: "run_phis (heap fn') \<rho> p ps (set_reg (dst (heap fn a)) v \<rho>a) = Some \<rho>1"
    "\<rho>b = const_writes fn' (filter (\<lambda>a. op (heap fn' a) \<noteq> OP_PHI) ps) \<rho>1" by blast
  show ?case
  proof (cases "heap fn' a = heap fn a")
    case True
    with Cons.prems(1) v r show ?thesis by simp
  next
    case False
    then have f: "op (heap fn' a) = OP_CONST" "dst (heap fn' a) = dst (heap fn a)"
      "C (dst (heap fn a)) = Some (imm (heap fn' a))"
      using Cons.prems(1,2) by (auto simp: folds_instr_def)
    have k: "v = imm (heap fn' a)" using Cons.prems(4) [of a v] v(1) f(3) by simp
    have ds: "\<forall>c \<in> set ps. dst (heap fn' c) \<noteq> dst (heap fn a)"
    proof
      fix c assume c: "c \<in> set ps"
      then have "dst (heap fn' c) = dst (heap fn c)" using Cons.prems(1,2) by (auto simp: folds_instr_def)
      with c Cons.prems(3) show "dst (heap fn' c) \<noteq> dst (heap fn a)" by force
    qed
    from run_phis_set_reg [OF ds] r(1) obtain \<rho>2 where
      "run_phis (heap fn') \<rho> p ps \<rho>a = Some \<rho>2" "\<rho>1 = set_reg (dst (heap fn a)) v \<rho>2" by auto
    with f k r(2) show ?thesis by (simp add: const_writes_def)
  qed
qed

section \<open>Analyses\<close>

text \<open>
  What a constant analysis owes to its clients. \<open>holds s r v\<close>: its result \<open>s\<close> allows register \<open>r\<close>
  to have the value \<open>v\<close>; \<open>const_of s r\<close>: the only value it allows, if known; \<open>live s b\<close>: it takes block \<open>b\<close> for reachable; \<open>stable fn s\<close>: the result is
  one for this function. The laws: whatever an instruction of a live block writes is allowed if
  what it reads is, and control stays in live blocks.
\<close>

locale analysis =
  fixes holds :: "'s \<Rightarrow> regid \<Rightarrow> int64 \<Rightarrow> bool"
    and const_of :: "'s \<Rightarrow> regid \<Rightarrow> int64 option"
    and live :: "'s \<Rightarrow> blockid \<Rightarrow> bool"
    and stable :: "func \<Rightarrow> 's \<Rightarrow> bool"
  assumes const_ok: "const_of s r = Some k \<Longrightarrow> holds s r v \<Longrightarrow> v = k"
    and pure_ok: "stable fn s \<Longrightarrow> blk_at fn b = Some blk \<Longrightarrow> live s b \<Longrightarrow> a \<in> set (instrs blk) \<Longrightarrow>
      is_pure (op (heap fn a)) \<Longrightarrow> (\<And>r u. \<rho> r = Some u \<Longrightarrow> holds s r u) \<Longrightarrow>
      eval (heap fn a) \<rho> = Some v \<Longrightarrow> holds s (dst (heap fn a)) v"
    and effect_ok: "stable fn s \<Longrightarrow> blk_at fn b = Some blk \<Longrightarrow> live s b \<Longrightarrow> a \<in> set (instrs blk) \<Longrightarrow>
      is_effect (op (heap fn a)) \<Longrightarrow> dst (heap fn a) \<noteq> 0 \<Longrightarrow> holds s (dst (heap fn a)) v"
    and phi_ok: "stable fn s \<Longrightarrow> blk_at fn b = Some blk \<Longrightarrow> live s b \<Longrightarrow> a \<in> set (instrs blk) \<Longrightarrow>
      op (heap fn a) = OP_PHI \<Longrightarrow> (r, p) \<in> set (phi (heap fn a)) \<Longrightarrow> blk_at fn p \<noteq> None \<Longrightarrow> live s p \<Longrightarrow>
      holds s r v \<Longrightarrow> holds s (dst (heap fn a)) v"
    and br_ok: "stable fn s \<Longrightarrow> blk_at fn b = Some blk \<Longrightarrow> live s b \<Longrightarrow> a \<in> set (instrs blk) \<Longrightarrow>
      op (heap fn a) = OP_BR \<Longrightarrow> blk_at fn (src1 (heap fn a)) \<noteq> None \<Longrightarrow> live s (src1 (heap fn a))"
    and condbr_ok: "stable fn s \<Longrightarrow> blk_at fn b = Some blk \<Longrightarrow> live s b \<Longrightarrow> a \<in> set (instrs blk) \<Longrightarrow>
      op (heap fn a) = OP_CONDBR \<Longrightarrow> holds s (src1 (heap fn a)) v \<Longrightarrow>
      live s (if v \<noteq> 0 then src (heap fn a) 1 else src (heap fn a) 2)"
begin

definition good :: "func \<Rightarrow> 's \<Rightarrow> config \<Rightarrow> bool" where
  "good fn s c \<longleftrightarrow> (case c of Halted \<Rightarrow> True
     | At b as \<rho> \<Rightarrow> live s b \<and> (\<exists>blk. blk_at fn b = Some blk \<and> set as \<subseteq> set (body_addrs fn blk)) \<and>
         (\<forall>r v. \<rho> r = Some v \<longrightarrow> holds s r v))"

lemma run_phis_holds:
  assumes "stable fn s" "blk_at fn b = Some blk" "live s b" "set as \<subseteq> set (instrs blk)"
    "blk_at fn p \<noteq> None" "live s p" "\<And>r v. \<rho> r = Some v \<Longrightarrow> holds s r v"
    "run_phis (heap fn) \<rho> p as \<rho>' = Some \<rho>''" "\<And>r v. \<rho>' r = Some v \<Longrightarrow> holds s r v" "\<rho>'' r = Some v"
  shows "holds s r v"
  using assms(4,8-)
proof (induction as arbitrary: \<rho>')
  case (Cons a as)
  show ?case
  proof (cases "op (heap fn a) = OP_PHI")
    case True
    then obtain u where u: "phi_val \<rho> p (heap fn a) = Some u"
      "run_phis (heap fn) \<rho> p as (set_reg (dst (heap fn a)) u \<rho>') = Some \<rho>''"
      using Cons.prems by (auto split: option.splits)
    then obtain q where q: "map_of (map (\<lambda>(r, b). (b, r)) (phi (heap fn a))) p = Some q" "\<rho> q = Some u"
      by (auto simp: phi_val_def split: option.splits)
    then have "(q, p) \<in> set (phi (heap fn a))" by (auto dest!: map_of_SomeD)
    then have "holds s (dst (heap fn a)) u"
      using phi_ok [OF assms(1-3) _ True _ assms(5,6)] Cons.prems(1) assms(7) q(2) by auto
    then have "holds s r v" if "set_reg (dst (heap fn a)) u \<rho>' r = Some v" for r v
      using that Cons.prems(3) by (auto simp: set_reg_def split: if_splits)
    with Cons.IH [OF _ u(2)] Cons.prems show ?thesis by auto
  qed (use Cons in auto)
qed auto

lemma enter_good:
  assumes "stable fn s" "blk_at fn p \<noteq> None" "live s p" "live s b" "\<And>r v. \<rho> r = Some v \<Longrightarrow> holds s r v"
    "enter fn p b \<rho> = Some c"
  shows "good fn s c"
proof -
  obtain blk \<rho>' where b: "blk_at fn b = Some blk" and r: "run_phis (heap fn) \<rho> p (instrs blk) \<rho> = Some \<rho>'"
    and c: "c = At b (body_addrs fn blk) \<rho>'"
    using assms(6) by (auto simp: enter_def split: option.splits)
  show ?thesis
    using run_phis_holds [OF assms(1) b assms(4) subset_refl assms(2,3,5) r assms(5)] b assms(4)
    by (auto simp: good_def c)
qed

lemma step_good:
  assumes st: "stable fn s" and "step fn c e c'" "good fn s c"
  shows "good fn s c'"
  using assms(2,3)
proof (cases rule: step.cases)
  case (Pure a \<rho> v b as)
  with assms(3) pure_ok [OF st, of b _ a \<rho> v] show ?thesis
    by (auto simp: good_def body_addrs_def set_reg_def split: if_splits)
next
  case (Nop a b as \<rho>)
  with assms(3) show ?thesis by (auto simp: good_def)
next
  case (Effect a \<rho> vs b as w)
  with assms(3) effect_ok [OF st, of b _ a w] show ?thesis
    by (auto simp: good_def body_addrs_def set_reg_def split: if_splits)
next
  case (Br a b \<rho> as)
  then obtain blk where "blk_at fn b = Some blk" "live s b" "a \<in> set (instrs blk)"
    "\<And>r v. \<rho> r = Some v \<Longrightarrow> holds s r v"
    using assms(3) by (auto simp: good_def body_addrs_def)
  with Br enter_good [OF st] br_ok [OF st] show ?thesis
    by (metis (no_types, lifting) enter_def option.case_eq_if option.distinct(1))
next
  case (CondBr a \<rho> v b as)
  then obtain blk where "blk_at fn b = Some blk" "live s b" "a \<in> set (instrs blk)"
    "\<And>r v. \<rho> r = Some v \<Longrightarrow> holds s r v"
    using assms(3) by (auto simp: good_def body_addrs_def)
  with CondBr enter_good [OF st] condbr_ok [OF st] show ?thesis by (metis option.distinct(1))
next
  case (Return a)
  then show ?thesis by (simp add: good_def)
qed

text \<open>Each step of the function is matched by the folded one, with the same event.\<close>

lemma enter_folds:
  assumes st: "stable fn s" and f: "folds_fn (const_of s) (live s) fn fn'" and ok: "blocks_ok fn"
    and p: "blk_at fn p \<noteq> None" "live s p" and b: "live s b"
    and env: "\<And>r v. \<rho> r = Some v \<Longrightarrow> holds s r v" and run: "enter fn p b \<rho> = Some c"
  shows "\<exists>c'. enter fn' p b \<rho> = Some c' \<and> run fn' c' [] c"
proof -
  obtain blk \<rho>b where blk: "blk_at fn b = Some blk" and r: "run_phis (heap fn) \<rho> p (instrs blk) \<rho> = Some \<rho>b"
    and c: "c = At b (body_addrs fn blk) \<rho>b"
    using run by (auto simp: enter_def split: option.splits)
  let ?ps = "phi_addrs fn blk" and ?bs = "body_addrs fn blk"
  have split: "instrs blk = ?ps @ ?bs" and ds: "distinct (map (\<lambda>a. dst (heap fn a)) ?ps)"
    using blocks_okD [OF ok blk] by (auto simp: phis_ok_def)
  have fi: "folds_instr (const_of s) (heap fn a) (heap fn' a)" if "a \<in> set (instrs blk)" for a
    using f blk b that by (simp add: folds_fn_def)
  have ps: "\<forall>a \<in> set ?ps. op (heap fn a) = OP_PHI" by (simp add: phi_addrs_def)
  have bs: "\<forall>a \<in> set ?bs. op (heap fn a) \<noteq> OP_PHI" by (simp add: body_addrs_def)
  have bs': "\<forall>a \<in> set ?bs. op (heap fn' a) \<noteq> OP_PHI"
    using folds_not_phi [OF fi] by (simp add: body_addrs_def)
  have rp: "run_phis (heap fn) \<rho> p ?ps \<rho> = Some \<rho>b"
    using r run_phis_none [OF bs, of \<rho> p]
    by (subst (asm) split) (auto simp: run_phis_append split: option.splits)
  have known: "const_of s (dst (heap fn a)) = Some v"
    if a: "a \<in> set ?ps" and v: "phi_val \<rho> p (heap fn a) = Some v" and k: "const_of s (dst (heap fn a)) \<noteq> None" for a v
  proof -
    obtain q where "(q, p) \<in> set (phi (heap fn a))" "\<rho> q = Some v"
      using v by (auto simp: phi_val_def split: option.splits dest!: map_of_SomeD)
    then have "holds s (dst (heap fn a)) v"
      using phi_ok [OF st blk b _ _ _ p] env a by (auto simp: phi_addrs_def)
    with k const_ok show ?thesis by fastforce
  qed
  have fp: "\<forall>a \<in> set ?ps. folds_instr (const_of s) (heap fn a) (heap fn' a)"
    using fi by (simp add: phi_addrs_def)
  obtain \<rho>1 where r1: "run_phis (heap fn') \<rho> p ?ps \<rho> = Some \<rho>1"
    and e: "\<rho>b = const_writes fn' (filter (\<lambda>a. op (heap fn' a) \<noteq> OP_PHI) ?ps) \<rho>1"
    using run_phis_folded [OF ps fp ds known rp] by blast
  have "run_phis (heap fn') \<rho> p (instrs blk) \<rho> = Some \<rho>1"
    using r1 run_phis_none [OF bs'] by (subst split) (simp add: run_phis_append)
  moreover have "blk_at fn' b = Some blk" using f blk by (simp add: folds_blk_at)
  ultimately have en: "enter fn' p b \<rho> = Some (At b (body_addrs fn' blk) \<rho>1)" by (simp add: enter_def)
  have "body_addrs fn' blk = filter (\<lambda>a. op (heap fn' a) \<noteq> OP_PHI) ?ps @ ?bs"
    using bs' unfolding body_addrs_def [of fn'] by (subst split) simp
  moreover have "\<forall>a \<in> set (filter (\<lambda>a. op (heap fn' a) \<noteq> OP_PHI) ?ps). is_const0 (heap fn' a)"
    using fp ps by (auto simp: folds_instr_def is_const0_def)
  ultimately have "run fn' (At b (body_addrs fn' blk) \<rho>1) [] c"
    using run_const_writes by (simp add: c e)
  with en show ?thesis by blast
qed

lemma goodD:
  assumes "good fn s (At b (a # as) \<rho>)"
  shows "\<exists>blk. blk_at fn b = Some blk \<and> live s b \<and> a \<in> set (instrs blk) \<and> (\<forall>r v. \<rho> r = Some v \<longrightarrow> holds s r v)"
  using assms by (auto simp: good_def body_addrs_def)

lemma step_folds:
  assumes st: "stable fn s" and f: "folds_fn (const_of s) (live s) fn fn'" and ok: "blocks_ok fn"
    and s: "step fn c e c1" and g: "good fn s c"
  shows "run fn' c (ev e) c1"
  using s
proof (cases rule: step.cases)
  case (Pure a \<rho> v b as)
  then obtain blk where blk: "blk_at fn b = Some blk" "live s b" "a \<in> set (instrs blk)"
    and env: "\<And>r v. \<rho> r = Some v \<Longrightarrow> holds s r v" using g goodD by blast
  have h: "holds s (dst (heap fn a)) v" using pure_ok [OF st blk _ env] Pure by blast
  have "is_pure (op (heap fn a))" using Pure by simp
  from folds_pure [OF folds_fnD [OF f blk] this]
  consider "heap fn' a = heap fn a"
    | "is_const0 (heap fn' a)" "dst (heap fn' a) = dst (heap fn a)" "imm (heap fn' a) = v"
    using const_ok [OF _ h] by (auto simp: is_const0_def)
  then show ?thesis
  proof cases
    case 1
    then have "step fn' c e c1" using Pure step.Pure [of fn' a \<rho> v b as] by simp
    then show ?thesis by (rule run_step)
  next
    case 2
    then have "is_pure (op (heap fn' a))" "eval (heap fn' a) \<rho> = Some v"
      by (simp_all add: is_const0_def is_pure_def eval_def opnds_def value_of_def)
    then have "step fn' c e c1" using Pure step.Pure [of fn' a \<rho> v b as] 2 by simp
    then show ?thesis by (rule run_step)
  qed
next
  case (Nop a b as \<rho>)
  then have "heap fn' a = heap fn a" using goodD [of fn s b a as \<rho>] g folds_other folds_fnD [OF f]
    by fastforce
  then have "step fn' c e c1" using Nop step.Nop [of fn' a b as \<rho>] by simp
  then show ?thesis by (rule run_step)
next
  case (Effect a \<rho> vs b as w)
  then have "heap fn' a = heap fn a" using goodD [of fn s b a as \<rho>] g folds_other folds_fnD [OF f] is_effect_not
    by blast
  then have "step fn' c e c1" using Effect step.Effect [of fn' a \<rho> vs b as w] by simp
  then show ?thesis by (rule run_step)
next
  case (Br a b \<rho> as)
  then obtain blk where blk: "blk_at fn b = Some blk" "live s b" "a \<in> set (instrs blk)"
    and env: "\<And>r v. \<rho> r = Some v \<Longrightarrow> holds s r v" using g goodD by blast
  have same: "heap fn' a = heap fn a" using folds_other [OF folds_fnD [OF f blk]] Br by simp
  have "blk_at fn (src1 (heap fn a)) \<noteq> None" using Br by (auto simp: enter_def split: option.splits)
  with br_ok [OF st blk] Br have l: "live s (src1 (heap fn a))" by blast
  obtain c' where "enter fn' b (src1 (heap fn a)) \<rho> = Some c'" "run fn' c' [] c1"
    using enter_folds [OF st f ok _ blk(2) l env] blk Br by auto
  moreover from this have "step fn' c None c'" using same Br step.Br [of fn' a b \<rho> c' as] by simp
  ultimately show ?thesis using Br run_tau by (auto simp: ev_def)
next
  case (CondBr a \<rho> v b as)
  then obtain blk where blk: "blk_at fn b = Some blk" "live s b" "a \<in> set (instrs blk)"
    and env: "\<And>r v. \<rho> r = Some v \<Longrightarrow> holds s r v" using g goodD by blast
  let ?t = "if v \<noteq> 0 then src (heap fn a) 1 else src (heap fn a) 2"
  have l: "live s ?t" using condbr_ok [OF st blk] env CondBr by blast
  obtain c' where en: "enter fn' b ?t \<rho> = Some c'" "run fn' c' [] c1"
    using enter_folds [OF st f ok _ blk(2) l env] blk CondBr by auto
  have "folds_instr (const_of s) (heap fn a) (heap fn' a)" by (rule folds_fnD [OF f blk])
  then consider "heap fn' a = heap fn a" | "op (heap fn' a) = OP_BR" "src1 (heap fn' a) = ?t"
    using const_ok env CondBr by (fastforce simp: folds_instr_def)
  then have "step fn' c None c'"
  proof cases
    case 1
    then show ?thesis using CondBr en step.CondBr [of fn' a \<rho> v b c' as] by (simp cong: if_cong)
  next
    case 2
    then show ?thesis using CondBr en step.Br [of fn' a b \<rho> c' as] by simp
  qed
  with en show ?thesis using CondBr run_tau by (auto simp: ev_def)
next
  case (Return a \<rho> vs b as)
  then have "heap fn' a = heap fn a" using goodD [of fn s b a as \<rho>] g folds_other folds_fnD [OF f]
    by fastforce
  then have "step fn' c e c1" using Return step.Return [of fn' a \<rho> vs b as] by (simp cong: if_cong)
  then show ?thesis by (rule run_step)
qed

text \<open>So a run of the function is one of the folded function, to the same configuration.\<close>

theorem run_folds:
  assumes "stable fn s" "folds_fn (const_of s) (live s) fn fn'" "blocks_ok fn" "good fn s c" "run fn c es c'"
  shows "run fn' c es c'"
  using assms(5,4)
  by (rule run_simulation [where I = "good fn s"]) (use assms step_good step_folds in blast)+

lemma start_good:
  assumes "start fn \<rho> = Some c" "live s 0" "\<And>r v. \<rho> r = Some v \<Longrightarrow> holds s r v"
  shows "good fn s c"
  using assms by (auto simp: start_def good_def)

lemma start_folds:
  assumes "folds_fn (const_of s) (live s) fn fn'" "blocks_ok fn" "live s 0" "start fn \<rho> = Some c"
  shows "start fn' \<rho> = Some c"
proof -
  obtain blk where blk: "blk_at fn 0 = Some blk" and c: "c = At 0 (body_addrs fn blk) \<rho>"
    using assms(4) by (auto simp: start_def)
  have "phi_addrs fn blk = []" using assms(2) blk by (simp add: blocks_ok_def)
  then have n: "op (heap fn a) \<noteq> OP_PHI" if "a \<in> set (instrs blk)" for a
    using that by (auto simp: phi_addrs_def filter_empty_conv)
  moreover have "op (heap fn' a) \<noteq> OP_PHI" if "a \<in> set (instrs blk)" for a
    using assms(1,3) blk n [OF that] that unfolding folds_fn_def by (fastforce simp: folds_instr_def)
  ultimately have "body_addrs fn' blk = body_addrs fn blk" by (simp add: body_addrs_def filter_id_conv)
  moreover have "blk_at fn' 0 = Some blk" using assms(1) blk by (simp add: folds_blk_at)
  ultimately show ?thesis by (simp add: start_def c)
qed

end

end
