(* ===== verification/SCCP.thy ===== *)
theory SCCP
  imports IR_Machine CfgSimplify
begin

text \<open>
  \<open>src/src/opt/sccp_pass.c\<close>: conditional constant propagation. The lattice table \<^verbatim>\<open>lat\<close> and the table
  \<^verbatim>\<open>bb_reach\<close> are total functions; a read is guarded by the code, a write outside the arrays is
  \<open>None\<close>, as is the division that traps on the host. The pass iterates whole sweeps over the
  reachable blocks, at most 1000, and then rewrites the constants it found.
\<close>

section \<open>State\<close>

datatype lattice_state = LATTICE_TOP | LATTICE_CONSTANT | LATTICE_BOTTOM

record sccp_value =
  state :: lattice_state
  val :: int64

record sccp =
  lat :: "regid \<Rightarrow> sccp_value"
  bb_reach :: "blockid \<Rightarrow> bool"
  iter_changed :: bool

definition top_val :: sccp_value where
  "top_val = \<lparr>state = LATTICE_TOP, val = 0\<rparr>"

definition set_lat :: "regid \<Rightarrow> sccp_value \<Rightarrow> sccp \<Rightarrow> sccp option" where
  "set_lat r v s = (if r < MAX_INSTRS then Some (s\<lparr>lat := (lat s)(r := v)\<rparr>) else None)"

definition mark_block :: "func \<Rightarrow> blockid \<Rightarrow> sccp \<Rightarrow> sccp option" where
  "mark_block fn b s = (if b \<ge> n_blocks fn then None
     else if bb_reach s b then Some s
     else Some (s\<lparr>bb_reach := (bb_reach s)(b := True), iter_changed := True\<rparr>))"

section \<open>Transfer\<close>

fun sccp_fold :: "opcode \<Rightarrow> int64 \<Rightarrow> int64 \<Rightarrow> int64 option" where
  "sccp_fold OP_ADD a b = Some (a + b)"
| "sccp_fold OP_SUB a b = Some (a - b)"
| "sccp_fold OP_MUL a b = Some (a * b)"
| "sccp_fold OP_DIV a b = (if b = 0 then Some 0 else c_sdiv a b)"
| "sccp_fold OP_MOD a b = (if b = 0 then Some 0 else c_smod a b)"
| "sccp_fold OP_BAND a b = Some (a AND b)"
| "sccp_fold OP_BOR a b = Some (a OR b)"
| "sccp_fold OP_BXOR a b = Some (a XOR b)"
| "sccp_fold OP_SHL a b = Some (c_shl a b)"
| "sccp_fold OP_SHR a b = Some (c_sar a b)"
| "sccp_fold OP_EQ a b = Some (c_bool (a = b))"
| "sccp_fold OP_NE a b = Some (c_bool (a \<noteq> b))"
| "sccp_fold OP_LT a b = Some (c_bool (a <s b))"
| "sccp_fold OP_LE a b = Some (c_bool (a \<le>s b))"
| "sccp_fold OP_GT a b = Some (c_bool (b <s a))"
| "sccp_fold OP_GE a b = Some (c_bool (b \<le>s a))"
| "sccp_fold _ a b = Some 0"

text \<open>One incoming edge of a phi node, met into the value so far.\<close>

definition phi_meet :: "func \<Rightarrow> sccp \<Rightarrow> regid \<times> blockid \<Rightarrow> sccp_value \<Rightarrow> sccp_value" where
  "phi_meet fn s = (\<lambda>(r, p) m.
     if p < n_blocks fn \<and> blocks fn ! p \<noteq> None \<and> bb_reach s p \<and> r < MAX_INSTRS then
       (let incoming = lat s r in
        case state incoming of
          LATTICE_BOTTOM \<Rightarrow> m\<lparr>state := LATTICE_BOTTOM\<rparr>
        | LATTICE_CONSTANT \<Rightarrow> (case state m of
              LATTICE_TOP \<Rightarrow> incoming
            | LATTICE_CONSTANT \<Rightarrow> (if val m \<noteq> val incoming then m\<lparr>state := LATTICE_BOTTOM\<rparr> else m)
            | LATTICE_BOTTOM \<Rightarrow> m)
        | LATTICE_TOP \<Rightarrow> m)
     else m)"

definition self_const :: "opcode \<Rightarrow> bool" where
  "self_const opc \<longleftrightarrow> opc \<in> {OP_SUB, OP_BXOR, OP_EQ, OP_NE, OP_LE, OP_GE}"

definition sccp_binop :: "instr \<Rightarrow> sccp \<Rightarrow> sccp option" where
  "sccp_binop i s = (let s0 = src1 i; s1 = src2 i; d = dst i in
     if s0 < MAX_INSTRS \<and> s1 < MAX_INSTRS then
       (let v0 = lat s s0; v1 = lat s s1 in
        if s0 = s1 \<and> self_const (op i)
        then set_lat d \<lparr>state = LATTICE_CONSTANT,
          val = (if op i = OP_SUB \<or> op i = OP_BXOR \<or> op i = OP_NE then 0 else 1)\<rparr> s
        else if state v0 = LATTICE_BOTTOM \<or> state v1 = LATTICE_BOTTOM
        then set_lat d ((lat s d)\<lparr>state := LATTICE_BOTTOM\<rparr>) s
        else if state v0 = LATTICE_CONSTANT \<and> state v1 = LATTICE_CONSTANT
        then (case sccp_fold (op i) (val v0) (val v1) of None \<Rightarrow> None
              | Some res \<Rightarrow> set_lat d \<lparr>state = LATTICE_CONSTANT, val = res\<rparr> s)
        else set_lat d ((lat s d)\<lparr>state := LATTICE_TOP\<rparr>) s)
     else Some s)"

definition sccp_condbr :: "func \<Rightarrow> instr \<Rightarrow> sccp \<Rightarrow> sccp option" where
  "sccp_condbr fn i s = (let cond = src1 i in
     if cond < MAX_INSTRS then
       (let cv = lat s cond in
        case state cv of
          LATTICE_CONSTANT \<Rightarrow> mark_block fn (if val cv \<noteq> 0 then src i 1 else src i 2) s
        | LATTICE_BOTTOM \<Rightarrow> (case mark_block fn (src i 1) s of None \<Rightarrow> None
             | Some s' \<Rightarrow> mark_block fn (src i 2) s')
        | LATTICE_TOP \<Rightarrow> Some s)
     else Some s)"

definition tracked :: "instr \<Rightarrow> bool" where
  "tracked i \<longleftrightarrow> dst i \<noteq> 0 \<and> dst i < MAX_INSTRS"

definition transfer :: "func \<Rightarrow> instr \<Rightarrow> sccp \<Rightarrow> sccp option" where
  "transfer fn i s =
     (if op i = OP_CONST then set_lat (dst i) \<lparr>state = LATTICE_CONSTANT, val = imm i\<rparr> s
      else if op i = OP_COPY then
        (if src1 i < MAX_INSTRS then set_lat (dst i) (lat s (src1 i)) s else Some s)
      else if op i = OP_PHI then set_lat (dst i) (fold (phi_meet fn s) (phi i) top_val) s
      else if n_src i = 2 \<and> is_binop (op i) then sccp_binop i s
      else if op i = OP_CONDBR then sccp_condbr fn i s
      else if op i = OP_BR then (if src1 i < n_blocks fn then mark_block fn (src1 i) s else Some s)
      else if tracked i then set_lat (dst i) ((lat s (dst i))\<lparr>state := LATTICE_BOTTOM\<rparr>) s
      else Some s)"

definition sccp_visit :: "func \<Rightarrow> addr \<Rightarrow> sccp \<Rightarrow> sccp option" where
  "sccp_visit fn a s = (let i = heap fn a in
     case transfer fn i s of None \<Rightarrow> None
     | Some s' \<Rightarrow> Some (if tracked i \<and> lat s' (dst i) \<noteq> lat s (dst i)
                        then s'\<lparr>iter_changed := True\<rparr> else s'))"

section \<open>Sweeps, rewriting and the pass\<close>

definition sccp_block :: "func \<Rightarrow> blockid \<Rightarrow> sccp \<Rightarrow> sccp option" where
  "sccp_block fn bi s = (case blk_at fn bi of None \<Rightarrow> Some s
     | Some b \<Rightarrow> (if \<not> bb_reach s bi then Some s else fold_opt (sccp_visit fn) (instrs b) s))"

definition sccp_sweep :: "func \<Rightarrow> sccp \<Rightarrow> sccp option" where
  "sccp_sweep fn s = fold_opt (sccp_block fn) [0..<n_blocks fn] (s\<lparr>iter_changed := False\<rparr>)"

fun sccp_loop :: "nat \<Rightarrow> func \<Rightarrow> sccp \<Rightarrow> sccp option" where
  "sccp_loop 0 fn s = Some s"
| "sccp_loop (Suc n) fn s = (if iter_changed s
     then (case sccp_sweep fn s of None \<Rightarrow> None | Some s' \<Rightarrow> sccp_loop n fn s') else Some s)"

definition max_iters :: nat where "max_iters = 1000"

text \<open>The parameters: what the caller has marked and the instructions flagged \<^verbatim>\<open>is_param\<close>.\<close>

definition mark_params :: "func \<Rightarrow> (regid \<Rightarrow> bool) \<Rightarrow> regid \<Rightarrow> bool" where
  "mark_params fn ps = fold (\<lambda>a ps. if is_param (heap fn a) \<and> dst (heap fn a) < MAX_INSTRS
     then ps(dst (heap fn a) := True) else ps) (all_addrs fn) ps"

definition sccp_init :: "func \<Rightarrow> (regid \<Rightarrow> bool) \<Rightarrow> sccp" where
  "sccp_init fn ps = (let max_reg = min (fn_max_register fn) (MAX_INSTRS - 1) in
     \<lparr>lat = (\<lambda>r. if 1 \<le> r \<and> r \<le> max_reg \<and> ps r then top_val\<lparr>state := LATTICE_BOTTOM\<rparr> else top_val),
      bb_reach = (\<lambda>_. False)(0 := True), iter_changed = True\<rparr>)"

definition sccp_solve :: "func \<Rightarrow> (regid \<Rightarrow> bool) \<Rightarrow> sccp option" where
  "sccp_solve fn ps = (if n_blocks fn = 0 then None else sccp_loop max_iters fn (sccp_init fn ps))"

definition sccp_rewrite_const :: "sccp \<Rightarrow> instr \<Rightarrow> instr \<times> bool" where
  "sccp_rewrite_const s i =
     (if tracked i \<and> state (lat s (dst i)) = LATTICE_CONSTANT \<and> op i \<noteq> OP_CONST
      then (i\<lparr>op := OP_CONST, imm := val (lat s (dst i)), n_src := 0, phi := []\<rparr>, True) else (i, False))"

definition sccp_rewrite_branch :: "sccp \<Rightarrow> instr \<Rightarrow> instr \<times> bool" where
  "sccp_rewrite_branch s i =
     (if op i = OP_CONDBR \<and> src1 i < MAX_INSTRS \<and> state (lat s (src1 i)) = LATTICE_CONSTANT
      then ((set_src 0 (if val (lat s (src1 i)) \<noteq> 0 then src i 1 else src i 2) i)\<lparr>op := OP_BR, n_src := 1\<rparr>, True)
      else (i, False))"

definition sccp_rewrite_instr :: "sccp \<Rightarrow> instr \<Rightarrow> instr \<times> bool" where
  "sccp_rewrite_instr s i = (let (i1, c1) = sccp_rewrite_const s i; (i2, c2) = sccp_rewrite_branch s i1
     in (i2, c1 \<or> c2))"

definition sccp_rewrite :: "sccp \<Rightarrow> func \<Rightarrow> func \<times> bool" where
  "sccp_rewrite s fn = for_blk (\<lambda>bi b st. if \<not> bb_reach s bi then st
      else rewrite_loop (sccp_rewrite_instr s) (instrs b) st) fst (n_blocks fn) (fn, False)"

definition opt_sccp_pass :: "(regid \<Rightarrow> bool) \<Rightarrow> func \<Rightarrow> ((regid \<Rightarrow> bool) \<times> func \<times> bool) option" where
  "opt_sccp_pass params fn =
     (let ps = mark_params fn params in
      case sccp_solve fn ps of None \<Rightarrow> None
      | Some s \<Rightarrow>
          (let (fn1, ch1) = sccp_rewrite s fn;
               fn2 = (if ch1 then rebuild_def_use fn1 else fn1);
               (fn3, ch2) = opt_cfg_simplify_pass fn2
           in Some (ps, fn3, ch1 \<or> ch2)))"

section \<open>A sweep that changes nothing\<close>

text \<open>
  What the pass takes for granted: destinations and operands lie in the table, instructions that
  compute a value have a destination, no floating point, and the folded division and right shift
  are signed.
\<close>

definition sccp_instr_ok :: "instr \<Rightarrow> bool" where
  "sccp_instr_ok i \<longleftrightarrow> dst i < MAX_INSTRS \<and>
     (is_pure (op i) \<or> op i = OP_PHI \<longrightarrow> dst i \<noteq> 0 \<and> is_float i = 0) \<and>
     (is_pure (op i) \<longrightarrow> wide i \<and> op i \<noteq> OP_SHR \<and> (\<forall>r \<in> set (opnds i). r < MAX_INSTRS)) \<and>
     (op i = OP_PHI \<longrightarrow> (\<forall>r \<in> fst ` set (phi i). r < MAX_INSTRS)) \<and>
     (op i = OP_CONDBR \<longrightarrow> src1 i < MAX_INSTRS) \<and>
     (op i \<in> {OP_BR, OP_CONDBR} \<longrightarrow> dst i = 0) \<and>
     (op i \<in> {OP_DIV, OP_MOD} \<longrightarrow> ir_type i \<noteq> IR_TY_U64)"

definition sccp_fn_ok :: "func \<Rightarrow> bool" where
  "sccp_fn_ok fn \<longleftrightarrow> (\<forall>a \<in> set (all_addrs fn). sccp_instr_ok (heap fn a))"

lemma set_lat_Some: "set_lat r v s = Some s' \<longleftrightarrow> r < MAX_INSTRS \<and> s' = s\<lparr>lat := (lat s)(r := v)\<rparr>"
  by (auto simp: set_lat_def)

lemma mark_block_quiet: "mark_block fn b s = Some s' \<Longrightarrow> \<not> iter_changed s' \<Longrightarrow> s' = s"
  by (auto simp: mark_block_def split: if_splits)

lemma mark_block_lat: "mark_block fn b s = Some s' \<Longrightarrow> lat s' = lat s"
  by (auto simp: mark_block_def split: if_splits)

lemma sccp_condbr_quiet: "sccp_condbr fn i s = Some s' \<Longrightarrow> \<not> iter_changed s' \<Longrightarrow> s' = s"
  unfolding sccp_condbr_def Let_def
  by (auto split: if_splits lattice_state.splits option.splits; metis mark_block_quiet)

lemma sccp_condbr_lat: "sccp_condbr fn i s = Some s' \<Longrightarrow> lat s' = lat s"
  unfolding sccp_condbr_def Let_def
  by (auto split: if_splits lattice_state.splits option.splits dest!: mark_block_lat)

lemma sccp_binop_writes:
  assumes "sccp_binop i s = Some s'"
  shows "\<exists>v. s' = s\<lparr>lat := (lat s)(dst i := v)\<rparr>"
proof -
  have "s = s\<lparr>lat := (lat s)(dst i := lat s (dst i))\<rparr>" by simp
  then have "\<exists>v. s = s\<lparr>lat := (lat s)(dst i := v)\<rparr>" ..
  with assms show ?thesis
    unfolding sccp_binop_def Let_def set_lat_def
    by (auto simp del: fun_upd_triv split: if_splits option.splits)
qed

text \<open>A visit writes the destination of the instruction or marks blocks, never both.\<close>

lemma transfer_cases:
  assumes "transfer fn i s = Some s'"
  obtains (writes) v where "s' = s\<lparr>lat := (lat s)(dst i := v)\<rparr>" "is_pure (op i) \<or> op i = OP_PHI \<or> tracked i"
  | (marks) "lat s' = lat s" "\<not> iter_changed s' \<Longrightarrow> s' = s"
proof -
  have "(\<exists>v. s' = s\<lparr>lat := (lat s)(dst i := v)\<rparr> \<and> (is_pure (op i) \<or> op i = OP_PHI \<or> tracked i)) \<or>
      (lat s' = lat s \<and> (\<not> iter_changed s' \<longrightarrow> s' = s))"
    using assms mark_block_quiet mark_block_lat sccp_condbr_quiet sccp_condbr_lat
    unfolding transfer_def
    by (fastforce simp: set_lat_Some is_pure_def dest: sccp_binop_writes split: if_splits)
  then show thesis using writes marks by blast
qed

lemma sccp_visit_quiet:
  assumes "sccp_instr_ok (heap fn a)" "sccp_visit fn a s = Some s'" "\<not> iter_changed s'"
  shows "s' = s"
proof -
  let ?i = "heap fn a"
  obtain s1 where t: "transfer fn ?i s = Some s1"
    and s': "s' = (if tracked ?i \<and> lat s1 (dst ?i) \<noteq> lat s (dst ?i) then s1\<lparr>iter_changed := True\<rparr> else s1)"
    using assms(2) by (auto simp: sccp_visit_def Let_def split: option.splits)
  have same: "s' = s1" "tracked ?i \<longrightarrow> lat s1 (dst ?i) = lat s (dst ?i)" using s' assms(3) by (auto split: if_splits)
  from t show ?thesis
  proof (cases rule: transfer_cases)
    case (writes v)
    then have "tracked ?i" using assms(1) by (auto simp: tracked_def sccp_instr_ok_def)
    with same(2) writes have "lat s (dst ?i) = v" by simp
    with writes same show ?thesis by auto
  qed (use same assms(3) in auto)
qed

definition sccp_stable :: "func \<Rightarrow> sccp \<Rightarrow> bool" where
  "sccp_stable fn s \<longleftrightarrow> sccp_fn_ok fn \<and> (\<forall>b blk. blk_at fn b = Some blk \<longrightarrow> bb_reach s b \<longrightarrow>
     (\<forall>a \<in> set (instrs blk). sccp_visit fn a s = Some s))"

lemma sccp_sweep_stable:
  assumes ok: "sccp_fn_ok fn" and run: "sccp_sweep fn s = Some s'" and q: "\<not> iter_changed s'"
  shows "sccp_stable fn s'"
proof -
  have block: "t' = t \<and> (\<forall>blk. blk_at fn b = Some blk \<longrightarrow> bb_reach t b \<longrightarrow>
      (\<forall>a \<in> set (instrs blk). sccp_visit fn a t = Some t))"
    if b: "sccp_block fn b t = Some t'" "\<not> iter_changed t'" for b t t'
  proof (cases "blk_at fn b")
    case (Some blk)
    have "t'' = t" if "a \<in> set (instrs blk)" "sccp_visit fn a t = Some t''" "\<not> iter_changed t''" for a t t''
      using that ok Some by (intro sccp_visit_quiet) (auto simp: sccp_fn_ok_def set_all_addrs)
    with fold_opt_quiet [where Q = "\<lambda>s. \<not> iter_changed s" and xs = "instrs blk" and f = "sccp_visit fn" and s = t and s' = t'] b Some
    show ?thesis by (auto simp: sccp_block_def split: if_splits)
  qed (use b in \<open>simp add: sccp_block_def\<close>)
  have "s' = s\<lparr>iter_changed := False\<rparr> \<and> (\<forall>b \<in> set [0..<n_blocks fn]. sccp_block fn b (s\<lparr>iter_changed := False\<rparr>) = Some (s\<lparr>iter_changed := False\<rparr>))"
    by (rule fold_opt_quiet [where Q = "\<lambda>s. \<not> iter_changed s"])
      (use run q block in \<open>auto simp: sccp_sweep_def\<close>)
  then have "sccp_block fn b s' = Some s'" if "b < n_blocks fn" for b using that by simp
  with block q ok show ?thesis unfolding sccp_stable_def by (meson blk_at_Some_lt)
qed

lemma sccp_loop_stable:
  assumes "sccp_fn_ok fn" "sccp_loop n fn s = Some s'" "iter_changed s" "\<not> iter_changed s'"
  shows "sccp_stable fn s'"
  using assms(2-)
proof (induction n arbitrary: s)
  case (Suc n)
  then obtain t where t: "sccp_sweep fn s = Some t" "sccp_loop n fn t = Some s'"
    by (auto split: option.splits)
  show ?case
  proof (cases "iter_changed t")
    case False
    then have "s' = t" using t(2) by (cases n) auto
    with sccp_sweep_stable [OF assms(1) t(1)] False show ?thesis by simp
  qed (use Suc t in blast)
qed simp

section \<open>The result is a sound analysis\<close>

definition value_holds :: "sccp_value \<Rightarrow> int64 \<Rightarrow> bool" where
  "value_holds x v \<longleftrightarrow> state x = LATTICE_BOTTOM \<or> (state x = LATTICE_CONSTANT \<and> val x = v)"

definition sccp_holds :: "sccp \<Rightarrow> regid \<Rightarrow> int64 \<Rightarrow> bool" where
  "sccp_holds s r v \<longleftrightarrow> value_holds (lat s r) v"

definition sccp_const :: "sccp \<Rightarrow> regid \<Rightarrow> int64 option" where
  "sccp_const s r = (if state (lat s r) = LATTICE_CONSTANT then Some (val (lat s r)) else None)"

lemma sccp_fold_value:
  "bin_val opc ty a b = Some v \<Longrightarrow> opc \<in> {OP_DIV, OP_MOD} \<longrightarrow> ty \<noteq> IR_TY_U64 \<Longrightarrow> opc \<noteq> OP_SHR \<Longrightarrow> \<not> is32 ty \<Longrightarrow>
    sccp_fold opc a b = Some v"
  by (cases opc) (auto simp: bin_val_def c_sdiv_def c_smod_def split: if_splits)

lemma self_const_value:
  "bin_val opc ty a a = Some v \<Longrightarrow> self_const opc \<Longrightarrow> \<not> is32 ty \<Longrightarrow>
    v = (if opc = OP_SUB \<or> opc = OP_BXOR \<or> opc = OP_NE then 0 else 1)"
  by (cases opc) (auto simp: bin_val_def self_const_def c_bool_def split: if_splits)

lemma phi_meet_keeps: "value_holds m v \<Longrightarrow> value_holds (phi_meet fn s e m) v"
  by (cases e) (auto simp: phi_meet_def value_holds_def Let_def split: lattice_state.split)

lemma phi_meet_new:
  "sccp_holds s r v \<Longrightarrow> p < n_blocks fn \<Longrightarrow> blocks fn ! p \<noteq> None \<Longrightarrow> bb_reach s p \<Longrightarrow> r < MAX_INSTRS \<Longrightarrow>
    value_holds (phi_meet fn s (r, p) m) v"
  by (cases "state m") (auto simp: phi_meet_def value_holds_def sccp_holds_def Let_def split: lattice_state.split)

lemma phi_fold_holds:
  assumes "(r, p) \<in> set es" "sccp_holds s r v" "blk_at fn p \<noteq> None" "bb_reach s p" "r < MAX_INSTRS"
  shows "value_holds (fold (phi_meet fn s) es m) v"
  using assms(1)
proof (induction es arbitrary: m)
  case (Cons e es)
  show ?case
  proof (cases "e = (r, p)")
    case True
    have "p < n_blocks fn" "blocks fn ! p \<noteq> None" using assms(3) by (auto simp: blk_at_def split: if_splits)
    then have "value_holds (phi_meet fn s e m) v"
      unfolding True using assms(2,4,5) by (intro phi_meet_new)
    then have "value_holds (fold (phi_meet fn s) es (phi_meet fn s e m)) v"
      by (rule fold_invariant) (rule phi_meet_keeps)
    then show ?thesis by simp
  qed (use Cons in auto)
qed simp

lemma stable_transfer:
  assumes "sccp_stable fn s" "blk_at fn b = Some blk" "bb_reach s b" "a \<in> set (instrs blk)"
  shows "transfer fn (heap fn a) s = Some s" "sccp_instr_ok (heap fn a)"
proof -
  have "sccp_visit fn a s = Some s" using assms by (auto simp: sccp_stable_def)
  then obtain s1 where t: "transfer fn (heap fn a) s = Some s1"
    and s1: "s = (if tracked (heap fn a) \<and> lat s1 (dst (heap fn a)) \<noteq> lat s (dst (heap fn a))
      then s1\<lparr>iter_changed := True\<rparr> else s1)" by (auto simp: sccp_visit_def Let_def split: option.splits)
  have "lat s = lat s1" using s1 by (auto split: if_splits dest: arg_cong [of _ _ lat])
  with s1 t show "transfer fn (heap fn a) s = Some s" by simp
  show "sccp_instr_ok (heap fn a)"
    using assms by (auto simp: sccp_stable_def sccp_fn_ok_def set_all_addrs)
qed

lemma set_lat_fix: "set_lat r v s = Some s' \<Longrightarrow> lat s' r = v"
  by (auto simp: set_lat_def split: if_splits)

lemma mark_block_fix: "mark_block fn b s = Some s' \<Longrightarrow> bb_reach s' b"
  by (auto simp: mark_block_def split: if_splits)

lemma mark_block_keeps: "mark_block fn c s = Some s' \<Longrightarrow> bb_reach s b \<Longrightarrow> bb_reach s' b"
  by (auto simp: mark_block_def split: if_splits)

lemma stable_pure:
  assumes st: "sccp_stable fn s" "blk_at fn b = Some blk" "bb_reach s b" "a \<in> set (instrs blk)"
    and pure: "is_pure (op (heap fn a))" and env: "\<And>r u. \<rho> r = Some u \<Longrightarrow> sccp_holds s r u"
    and v: "eval (heap fn a) \<rho> = Some v"
  shows "sccp_holds s (dst (heap fn a)) v"
proof -
  let ?i = "heap fn a" and ?r = "\<lambda>r. the (\<rho> r)"
  note t = stable_transfer(1) [OF st] and ok = stable_transfer(2) [OF st]
  have w: "wide ?i" "op ?i \<noteq> OP_SHR" using ok pure by (auto simp: sccp_instr_ok_def)
  have w32: "\<not> is32 (ir_type ?i)" "src_is_float ?i = 0" using w(1) by (auto simp: wide_def)
  have tr: "tracked ?i" using ok pure by (auto simp: sccp_instr_ok_def tracked_def)
  have rd: "sccp_holds s r (?r r)" "r < MAX_INSTRS" if "r \<in> set (opnds ?i)" for r
    using that v env ok pure by (auto simp: eval_def sccp_instr_ok_def split: if_splits)
  have val: "value_of ?i ?r = Some v" using v by (auto simp: eval_def split: if_splits)
  have bottom: "sccp_holds s (dst ?i) v" if "set_lat (dst ?i) ((lat s (dst ?i))\<lparr>state := LATTICE_BOTTOM\<rparr>) s = Some s"
    using set_lat_fix [OF that] by (metis sccp_holds_def sccp_value.select_convs(1) sccp_value.surjective
        sccp_value.update_convs(1) value_holds_def)
  consider "op ?i = OP_CONST" | "op ?i = OP_COPY" | "op ?i = OP_BNOT" | "is_binop (op ?i)"
    using pure by (auto simp: is_pure_def)
  then show ?thesis
  proof cases
    case 1
    with t val show ?thesis
      by (auto simp: transfer_def value_of_def sccp_holds_def value_holds_def dest!: set_lat_fix split: if_splits)
  next
    case 2
    with t val rd [of "src1 ?i"] w32 show ?thesis
      by (auto simp: transfer_def opnds_def value_of_def sccp_holds_def dest!: set_lat_fix split: if_splits)
  next
    case 3
    with t tr bottom show ?thesis by (simp add: transfer_def is_binop_def)
  next
    case 4
    then have no: "op ?i \<noteq> OP_CONST" "op ?i \<noteq> OP_COPY" "op ?i \<noteq> OP_BNOT" "op ?i \<noteq> OP_PHI"
      "op ?i \<noteq> OP_CONDBR" "op ?i \<noteq> OP_BR" by (auto simp: is_binop_def)
    show ?thesis
    proof (cases "n_src ?i = 2")
      case False
      with t tr no bottom show ?thesis by (simp add: transfer_def)
    next
      case True
      let ?a = "?r (src1 ?i)" and ?b = "?r (src2 ?i)"
      have o: "set (opnds ?i) = {src1 ?i, src2 ?i}" using no by (simp add: opnds_def)
      have bv: "bin_val (op ?i) (ir_type ?i) ?a ?b = Some v"
        using val no by (auto simp: value_of_def split: if_splits)
      have h: "sccp_holds s (src1 ?i) ?a" "sccp_holds s (src2 ?i) ?b" "src1 ?i < MAX_INSTRS" "src2 ?i < MAX_INSTRS"
        using rd o by auto
      have fv: "sccp_fold (op ?i) ?a ?b = Some v"
        using sccp_fold_value [OF bv] ok w w32 by (simp add: sccp_instr_ok_def)
      have bi: "sccp_binop ?i s = Some s" using t no True 4 by (simp add: transfer_def)
      consider (self) "src1 ?i = src2 ?i" "self_const (op ?i)"
        | (bot) "\<not> (src1 ?i = src2 ?i \<and> self_const (op ?i))" "state (lat s (src1 ?i)) = LATTICE_BOTTOM \<or> state (lat s (src2 ?i)) = LATTICE_BOTTOM"
        | (con) "\<not> (src1 ?i = src2 ?i \<and> self_const (op ?i))" "state (lat s (src1 ?i)) = LATTICE_CONSTANT" "state (lat s (src2 ?i)) = LATTICE_CONSTANT"
        using h by (auto simp: sccp_holds_def value_holds_def)
      then show ?thesis
      proof cases
        case self
        with self_const_value [of "op ?i" "ir_type ?i" ?a v] bv w32
        have "v = (if op ?i = OP_SUB \<or> op ?i = OP_BXOR \<or> op ?i = OP_NE then 0 else 1)" by simp
        moreover have "lat s (dst ?i) = \<lparr>state = LATTICE_CONSTANT,
            val = (if op ?i = OP_SUB \<or> op ?i = OP_BXOR \<or> op ?i = OP_NE then 0 else 1)\<rparr>"
          using bi self h unfolding sccp_binop_def Let_def by (intro set_lat_fix) auto
        ultimately show ?thesis by (simp add: sccp_holds_def value_holds_def)
      next
        case bot
        with bi h bottom show ?thesis unfolding sccp_binop_def Let_def by auto
      next
        case con
        then have "val (lat s (src1 ?i)) = ?a" "val (lat s (src2 ?i)) = ?b"
          using h by (auto simp: sccp_holds_def value_holds_def)
        with con bi h fv have "set_lat (dst ?i) \<lparr>state = LATTICE_CONSTANT, val = v\<rparr> s = Some s"
          unfolding sccp_binop_def Let_def by auto
        from set_lat_fix [OF this] show ?thesis by (simp add: sccp_holds_def value_holds_def)
      qed
    qed
  qed
qed

interpretation cp: analysis sccp_holds sccp_const bb_reach sccp_stable
proof
  fix s r k v
  assume "sccp_const s r = Some k" "sccp_holds s r v"
  then show "v = k" by (auto simp: sccp_const_def sccp_holds_def value_holds_def split: if_splits)
next
  fix fn s b blk a and \<rho> :: env and v
  assume "sccp_stable fn s" "blk_at fn b = Some blk" "bb_reach s b" "a \<in> set (instrs blk)"
    "is_pure (op (heap fn a))" "\<And>r u. \<rho> r = Some u \<Longrightarrow> sccp_holds s r u" "eval (heap fn a) \<rho> = Some v"
  then show "sccp_holds s (dst (heap fn a)) v" by (rule stable_pure)
next
  fix fn s b blk a and v :: int64
  assume st: "sccp_stable fn s" "blk_at fn b = Some blk" "bb_reach s b" "a \<in> set (instrs blk)"
    and e: "is_effect (op (heap fn a))" "dst (heap fn a) \<noteq> 0"
  have "tracked (heap fn a)" using e stable_transfer(2) [OF st] by (simp add: tracked_def sccp_instr_ok_def)
  then have "set_lat (dst (heap fn a)) ((lat s (dst (heap fn a)))\<lparr>state := LATTICE_BOTTOM\<rparr>) s = Some s"
    using is_effect_not [OF e(1)] stable_transfer(1) [OF st] by (auto simp: transfer_def is_pure_def)
  from set_lat_fix [OF this] have "state (lat s (dst (heap fn a))) = LATTICE_BOTTOM"
    by (metis sccp_value.select_convs(1) sccp_value.surjective sccp_value.update_convs(1))
  then show "sccp_holds s (dst (heap fn a)) v" by (simp add: sccp_holds_def value_holds_def)
next
  fix fn s b blk a r p and v :: int64
  assume st: "sccp_stable fn s" "blk_at fn b = Some blk" "bb_reach s b" "a \<in> set (instrs blk)"
    and e: "op (heap fn a) = OP_PHI" "(r, p) \<in> set (phi (heap fn a))" "blk_at fn p \<noteq> None" "bb_reach s p"
      "sccp_holds s r v"
  have "r < MAX_INSTRS" using stable_transfer(2) [OF st] e(1,2) by (force simp: sccp_instr_ok_def)
  then have "value_holds (fold (phi_meet fn s) (phi (heap fn a)) top_val) v"
    using e by (intro phi_fold_holds)
  moreover have "lat s (dst (heap fn a)) = fold (phi_meet fn s) (phi (heap fn a)) top_val"
    using stable_transfer(1) [OF st] e(1) by (intro set_lat_fix) (simp add: transfer_def)
  ultimately show "sccp_holds s (dst (heap fn a)) v" by (simp add: sccp_holds_def)
next
  fix fn s b blk a
  assume st: "sccp_stable fn s" "blk_at fn b = Some blk" "bb_reach s b" "a \<in> set (instrs blk)"
    and e: "op (heap fn a) = OP_BR" "blk_at fn (src1 (heap fn a)) \<noteq> None"
  then have "mark_block fn (src1 (heap fn a)) s = Some s"
    using stable_transfer(1) [OF st] by (auto simp: transfer_def is_binop_def dest: blk_at_Some_lt)
  then show "bb_reach s (src1 (heap fn a))" by (rule mark_block_fix)
next
  fix fn s b blk a and v :: int64
  assume st: "sccp_stable fn s" "blk_at fn b = Some blk" "bb_reach s b" "a \<in> set (instrs blk)"
    and e: "op (heap fn a) = OP_CONDBR" "sccp_holds s (src1 (heap fn a)) v"
  have c: "src1 (heap fn a) < MAX_INSTRS" using stable_transfer(2) [OF st] e(1) by (simp add: sccp_instr_ok_def)
  have t: "sccp_condbr fn (heap fn a) s = Some s"
    using stable_transfer(1) [OF st] e(1) by (simp add: transfer_def is_binop_def)
  show "bb_reach s (if v \<noteq> 0 then src (heap fn a) 1 else src (heap fn a) 2)"
  proof (cases "state (lat s (src1 (heap fn a)))")
    case LATTICE_TOP
    with e(2) show ?thesis by (simp add: sccp_holds_def value_holds_def)
  next
    case LATTICE_CONSTANT
    with e(2) c t have "mark_block fn (if v \<noteq> 0 then src (heap fn a) 1 else src (heap fn a) 2) s = Some s"
      by (auto simp: sccp_condbr_def sccp_holds_def value_holds_def Let_def)
    then show ?thesis by (rule mark_block_fix)
  next
    case LATTICE_BOTTOM
    with c t obtain s' where "mark_block fn (src (heap fn a) 1) s = Some s'" "mark_block fn (src (heap fn a) 2) s' = Some s"
      by (auto simp: sccp_condbr_def Let_def split: option.splits)
    then have "bb_reach s (src (heap fn a) 1)" "bb_reach s (src (heap fn a) 2)"
      using mark_block_fix mark_block_keeps by blast+
    then show ?thesis by simp
  qed
qed

section \<open>Rewriting\<close>

lemma sccp_rewrite_eq:
  assumes "heap_ok fn"
  shows "fst (sccp_rewrite s fn) = rewrite_set (sccp_rewrite_instr s) (addrs_of (\<lambda>b _. bb_reach s b) fn (n_blocks fn)) fn"
  using for_blk_rewrite [OF assms, of "\<lambda>b _. bb_reach s b" "sccp_rewrite_instr s" "n_blocks fn" False]
  by (simp add: sccp_rewrite_def)

lemma bottom_not_const: "set_lat d ((lat s d)\<lparr>state := LATTICE_BOTTOM\<rparr>) s = Some s \<Longrightarrow> sccp_const s d = None"
  by (drule set_lat_fix) (metis lattice_state.distinct(5) sccp_const_def sccp_value.select_convs(1)
      sccp_value.surjective sccp_value.update_convs(1))

lemma sccp_const_pure:
  assumes st: "sccp_stable fn s" "blk_at fn b = Some blk" "bb_reach s b" "a \<in> set (instrs blk)"
    and k: "tracked (heap fn a)" "sccp_const s (dst (heap fn a)) = Some k"
  shows "(is_pure (op (heap fn a)) \<or> op (heap fn a) = OP_PHI) \<and> is_float (heap fn a) = 0"
proof -
  note t = stable_transfer(1) [OF st] and ok = stable_transfer(2) [OF st]
  have "is_pure (op (heap fn a)) \<or> op (heap fn a) = OP_PHI"
  proof (rule ccontr)
    assume n: "\<not> ?thesis"
    have "op (heap fn a) \<noteq> OP_BR" "op (heap fn a) \<noteq> OP_CONDBR"
      using ok k(1) by (auto simp: sccp_instr_ok_def tracked_def)
    then have "set_lat (dst (heap fn a)) ((lat s (dst (heap fn a)))\<lparr>state := LATTICE_BOTTOM\<rparr>) s = Some s"
      using t n k(1) by (auto simp: transfer_def is_pure_def)
    then show False using bottom_not_const k(2) by simp
  qed
  with ok show ?thesis by (auto simp: sccp_instr_ok_def)
qed

lemma sccp_rewrite_instr_folds:
  assumes st: "sccp_stable fn s" "blk_at fn b = Some blk" "bb_reach s b" "a \<in> set (instrs blk)"
  shows "folds_instr (sccp_const s) (heap fn a) (fst (sccp_rewrite_instr s (heap fn a)))"
proof -
  let ?i = "heap fn a"
  show ?thesis
  proof (cases "tracked ?i \<and> state (lat s (dst ?i)) = LATTICE_CONSTANT \<and> op ?i \<noteq> OP_CONST")
    case True
    then have c: "sccp_const s (dst ?i) = Some (val (lat s (dst ?i)))" by (simp add: sccp_const_def)
    have "fst (sccp_rewrite_instr s ?i) =
        ?i\<lparr>op := OP_CONST, imm := val (lat s (dst ?i)), n_src := 0, phi := []\<rparr>"
      using True by (simp add: sccp_rewrite_instr_def sccp_rewrite_const_def sccp_rewrite_branch_def)
    with sccp_const_pure [OF st _ c] True c show ?thesis by (simp add: folds_instr_def)
  next
    case False
    then have "sccp_rewrite_const s ?i = (?i, False)" unfolding sccp_rewrite_const_def by (rule if_not_P)
    then have "fst (sccp_rewrite_instr s ?i) = fst (sccp_rewrite_branch s ?i)"
      by (simp add: sccp_rewrite_instr_def split_beta)
    then show ?thesis
      by (simp add: sccp_rewrite_branch_def folds_instr_def sccp_const_def)
  qed
qed

lemma sccp_rewrite_folds:
  assumes "heap_ok fn" "sccp_stable fn s"
  shows "folds_fn (sccp_const s) (bb_reach s) fn (fst (sccp_rewrite s fn))"
proof -
  have "a \<in> addrs_of (\<lambda>b _. bb_reach s b) fn (n_blocks fn)"
    if "blk_at fn b = Some blk" "bb_reach s b" "a \<in> set (instrs blk)" for a b blk
    using that by (auto simp: addrs_of_def dest: blk_at_Some_lt)
  then show ?thesis
    using sccp_rewrite_instr_folds [OF assms(2)]
    unfolding sccp_rewrite_eq [OF assms(1)] folds_fn_def by auto
qed

text \<open>Parameters that nothing else defines stay at the bottom of the lattice.\<close>

definition only_param :: "func \<Rightarrow> regid \<Rightarrow> bool" where
  "only_param fn r \<longleftrightarrow> 1 \<le> r \<and> r \<le> min (fn_max_register fn) (MAX_INSTRS - 1) \<and>
     (\<forall>a \<in> set (all_addrs fn). dst (heap fn a) = r \<longrightarrow> \<not> is_pure (op (heap fn a)) \<and> op (heap fn a) \<noteq> OP_PHI)"

lemma transfer_bottom:
  assumes "transfer fn i s = Some s'" "state (lat s r) = LATTICE_BOTTOM"
    "dst i = r \<longrightarrow> \<not> is_pure (op i) \<and> op i \<noteq> OP_PHI"
  shows "state (lat s' r) = LATTICE_BOTTOM"
proof (cases "dst i = r")
  case True
  then show ?thesis using assms
    by (auto simp: transfer_def is_pure_def set_lat_Some mark_block_lat sccp_condbr_lat split: if_splits)
next
  case False
  from assms(1) show ?thesis by (cases rule: transfer_cases) (use False assms(2) in auto)
qed

lemma sccp_solve_invariant:
  assumes run: "sccp_solve fn ps = Some s" and "I (sccp_init fn ps)"
    and visit: "\<And>a s s'. a \<in> set (all_addrs fn) \<Longrightarrow> I s \<Longrightarrow> sccp_visit fn a s = Some s' \<Longrightarrow> I s'"
    and flag: "\<And>s. I s \<Longrightarrow> I (s\<lparr>iter_changed := False\<rparr>)"
  shows "I s"
proof -
  have block: "I s'" if b: "I s" "sccp_block fn b s = Some s'" for b s s'
  proof (cases "blk_at fn b")
    case (Some blk)
    then have sub: "set (instrs blk) \<subseteq> set (all_addrs fn)" using set_all_addrs by blast
    have "I s'" if "fold_opt (sccp_visit fn) (instrs blk) s = Some s'"
      by (rule fold_opt_invariant [where I = I, OF that]) (use sub visit b(1) in blast)+
    with b Some show ?thesis by (auto simp: sccp_block_def split: if_splits)
  qed (use b in \<open>simp add: sccp_block_def\<close>)
  have sweep: "I s'" if "I s" "sccp_sweep fn s = Some s'" for s s'
    using that block flag unfolding sccp_sweep_def by (auto dest: fold_opt_invariant [where I = I])
  have "I s'" if "I s" "sccp_loop n fn s = Some s'" for n s s'
    using that sweep by (induction n arbitrary: s) (auto split: if_splits option.splits)
  with assms(1,2) show ?thesis by (auto simp: sccp_solve_def split: if_splits)
qed

lemma sccp_param_bottom:
  assumes "sccp_solve fn ps = Some s" "only_param fn r" "ps r"
  shows "state (lat s r) = LATTICE_BOTTOM"
  using assms(1)
proof (rule sccp_solve_invariant)
  show "state (lat (sccp_init fn ps) r) = LATTICE_BOTTOM"
    using assms(2,3) by (simp add: sccp_init_def only_param_def Let_def)
  show "state (lat s' r) = LATTICE_BOTTOM"
    if "a \<in> set (all_addrs fn)" "state (lat s r) = LATTICE_BOTTOM" "sccp_visit fn a s = Some s'" for a s s'
    using that assms(2) transfer_bottom [of fn "heap fn a" s _ r]
    by (auto simp: sccp_visit_def Let_def only_param_def split: option.splits if_splits)
qed simp

lemma transfer_reach: "transfer fn i s = Some s' \<Longrightarrow> bb_reach s b \<Longrightarrow> bb_reach s' b"
proof -
  assume t: "transfer fn i s = Some s'" "bb_reach s b"
  have c: "bb_reach s' b" if "sccp_condbr fn i s = Some s'"
    using that t(2) mark_block_keeps unfolding sccp_condbr_def Let_def
    by (auto split: if_splits lattice_state.splits option.splits; meson mark_block_keeps)
  from t(1) show "bb_reach s' b"
    using t(2) c mark_block_keeps unfolding transfer_def
    by (auto simp: set_lat_Some dest: sccp_binop_writes split: if_splits)
qed

lemma sccp_entry_live: "sccp_solve fn ps = Some s \<Longrightarrow> bb_reach s 0"
proof (erule sccp_solve_invariant)
  show "bb_reach (sccp_init fn ps) 0" by (simp add: sccp_init_def Let_def)
  show "bb_reach s' 0" if "a \<in> set (all_addrs fn)" "bb_reach s 0" "sccp_visit fn a s = Some s'" for a s s'
    using that transfer_reach [of fn "heap fn a" s]
    by (auto simp: sccp_visit_def Let_def split: option.splits if_splits)
qed simp

lemma sccp_solve_stable:
  assumes "sccp_fn_ok fn" "sccp_solve fn ps = Some s" "\<not> iter_changed s"
  shows "sccp_stable fn s"
  using assms sccp_loop_stable [of fn max_iters "sccp_init fn ps" s]
  by (auto simp: sccp_solve_def sccp_init_def Let_def split: if_splits)

section \<open>Properties\<close>

text \<open>
  C10: Conditional constant propagation preserves behaviour. Take a function whose blocks have
  their phi nodes first and whose computing instructions are 64-bit integer ones, without unsigned divisions
  and right shifts (the pass folds every right shift arithmetically and every division as a signed one; the emitted code
  shifts logically, see the property on right shifts), and suppose the iteration ended before its
  cap. Start it with values in parameter registers only. Then whatever sequence of effects (loads, stores, calls, return value) a run of
  the function has, and whatever configuration it reaches, the rewritten function, with its
  constants folded and its decided branches made unconditional, has the same run.
\<close>

theorem opt_sccp_sound:
  assumes "heap_ok fn" "sccp_fn_ok fn" "blocks_ok fn"
    and "sccp_solve fn ps = Some s" "\<not> iter_changed s"
    and "\<And>r. \<rho> r \<noteq> None \<Longrightarrow> only_param fn r \<and> ps r"
    and "start fn \<rho> = Some c" "run fn c es c'"
  shows "start (fst (sccp_rewrite s fn)) \<rho> = Some c \<and> run (fst (sccp_rewrite s fn)) c es c'"
proof -
  have st: "sccp_stable fn s" by (rule sccp_solve_stable) fact+
  have f: "folds_fn (sccp_const s) (bb_reach s) fn (fst (sccp_rewrite s fn))"
    by (rule sccp_rewrite_folds) fact+
  have e: "bb_reach s 0" by (rule sccp_entry_live) fact
  have "sccp_holds s r v" if "\<rho> r = Some v" for r v
    using sccp_param_bottom [OF assms(4)] assms(6) [of r] that by (simp add: sccp_holds_def value_holds_def)
  then have "cp.good fn s c" using assms(7) e by (intro cp.start_good)
  from cp.run_folds [OF st f assms(3) this assms(8)] cp.start_folds [OF f assms(3) e assms(7)] show ?thesis by blast
qed

lemma sccp_loop_num: "sccp_loop (numeral k) fn s = (if iter_changed s
    then (case sccp_sweep fn s of None \<Rightarrow> None | Some s' \<Rightarrow> sccp_loop (pred_numeral k) fn s') else Some s)"
  by (simp add: numeral_eq_Suc)

definition demo_sccp :: func where
  "demo_sccp = mk_func [mk_block [0, 1] [1, 2] [], mk_block [2, 3] [] [0], mk_block [4] [] [0]]
     [mk_const 1 1, mk_instr OP_CONDBR 0 [1, 1, 2], mk_const 2 7, mk_instr OP_RET 0 [2],
      mk_instr OP_RET 0 [1]] 2"

lemmas sccp_eval = sccp_solve_def max_iters_def sccp_loop_num sccp_sweep_def sccp_block_def sccp_visit_def
  transfer_def set_lat_def mark_block_def sccp_condbr_def sccp_binop_def tracked_def sccp_init_def
  top_val_def Let_def MAX_INSTRS_def is_binop_def

lemma demo_sccp_blk: "blk_at demo_sccp b = (if b = 0 then Some (mk_block [0, 1] [1, 2] []) else
    if b = Suc 0 then Some (mk_block [2, 3] [] [0]) else if b = 2 then Some (mk_block [4] [] [0]) else None)"
  "n_blocks demo_sccp = 3"
  "heap demo_sccp 0 = mk_const 1 1" "heap demo_sccp (Suc 0) = mk_instr OP_CONDBR 0 [1, 1, 2]"
  "heap demo_sccp 2 = mk_const 2 7" "heap demo_sccp 3 = mk_instr OP_RET 0 [2]" "heap demo_sccp 4 = mk_instr OP_RET 0 [1]"
  by (auto simp: demo_sccp_def blk_at_def mk_func_def less_Suc_eq numeral_2_eq_2 numeral_3_eq_3)


lemma demo_sccp_visit:
  "sccp_visit demo_sccp 0 s = Some (s\<lparr>lat := (lat s)(1 := \<lparr>state = LATTICE_CONSTANT, val = 1\<rparr>),
     iter_changed := (iter_changed s \<or> lat s 1 \<noteq> \<lparr>state = LATTICE_CONSTANT, val = 1\<rparr>)\<rparr>)"
  "lat s 1 = \<lparr>state = LATTICE_CONSTANT, val = 1\<rparr> \<Longrightarrow> sccp_visit demo_sccp (Suc 0) s =
     Some (s\<lparr>bb_reach := (bb_reach s)(1 := True), iter_changed := (iter_changed s \<or> \<not> bb_reach s 1)\<rparr>)"
  "sccp_visit demo_sccp 2 s = Some (s\<lparr>lat := (lat s)(2 := \<lparr>state = LATTICE_CONSTANT, val = 7\<rparr>),
     iter_changed := (iter_changed s \<or> lat s 2 \<noteq> \<lparr>state = LATTICE_CONSTANT, val = 7\<rparr>)\<rparr>)"
  "sccp_visit demo_sccp 3 s = Some s"
  by (auto simp: sccp_eval demo_sccp_blk mk_const_def mk_instr_def calloc_instr_def fun_upd_idem)

lemma upt_3: "[0..<3] = [0, Suc 0, 2]"
  by (simp add: upt_rec)

lemma demo_sccp_sweep:
  assumes "\<not> bb_reach s 2" "bb_reach s 0"
  shows "sccp_sweep demo_sccp s = Some (s\<lparr>lat := (lat s)(1 := \<lparr>state = LATTICE_CONSTANT, val = 1\<rparr>,
     2 := \<lparr>state = LATTICE_CONSTANT, val = 7\<rparr>), bb_reach := (bb_reach s)(1 := True),
     iter_changed := (lat s 1 \<noteq> \<lparr>state = LATTICE_CONSTANT, val = 1\<rparr> \<or> lat s 2 \<noteq> \<lparr>state = LATTICE_CONSTANT, val = 7\<rparr> \<or> \<not> bb_reach s 1)\<rparr>)"
  using assms by (simp add: sccp_sweep_def sccp_block_def demo_sccp_blk mk_block_def demo_sccp_visit [unfolded One_nat_def] upt_3)
    (auto intro!: sccp.equality)

definition demo_sccp_result :: sccp where
  "demo_sccp_result = \<lparr>lat = (lat (sccp_init demo_sccp (\<lambda>_. False)))(1 := \<lparr>state = LATTICE_CONSTANT, val = 1\<rparr>,
     2 := \<lparr>state = LATTICE_CONSTANT, val = 7\<rparr>), bb_reach = (\<lambda>b. b < 2), iter_changed = False\<rparr>"

lemma demo_sccp_solve: "sccp_solve demo_sccp (\<lambda>_. False) = Some demo_sccp_result"
  by (simp add: sccp_solve_def max_iters_def sccp_loop_num demo_sccp_sweep [unfolded One_nat_def] sccp_init_def Let_def demo_sccp_blk
      demo_sccp_result_def top_val_def fun_eq_iff)

lemma demo_sccp_addrs: "all_addrs demo_sccp = [0, 1, 2, 3, 4]"
  by (simp add: demo_sccp_def mk_func_def mk_block_def calloc_block_def all_addrs_def blk_instrs_def)

lemma demo_sccp_ok: "heap_ok demo_sccp" "sccp_fn_ok demo_sccp" "blocks_ok demo_sccp"
proof -
  show "heap_ok demo_sccp" by (simp add: heap_ok_def demo_sccp_addrs) (simp add: demo_sccp_def mk_func_def)
  show "sccp_fn_ok demo_sccp"
    by (simp add: sccp_fn_ok_def demo_sccp_addrs demo_sccp_blk mk_const_def mk_instr_def calloc_instr_def
        sccp_instr_ok_def MAX_INSTRS_def opnds_def is_pure_def is_binop_def wide_def)
  have "blocks demo_sccp = map Some [mk_block [0, 1] [1, 2] [], mk_block [2, 3] [] [0], mk_block [4] [] [0]]"
    by (simp add: demo_sccp_def mk_func_def)
  then show "blocks_ok demo_sccp"
    by (simp add: blocks_ok_def phis_ok_def phi_addrs_def body_addrs_def demo_sccp_blk mk_block_def
        mk_const_def mk_instr_def calloc_instr_def calloc_block_def)
qed

lemma demo_sccp_run: "run demo_sccp (At 0 [0, 1] (\<lambda>_. None)) [Ret (Some 7)] Halted"
proof -
  let ?e = "\<lambda>_::nat. None :: int64 option"
  note d = demo_sccp_blk mk_const_def mk_instr_def calloc_instr_def mk_block_def
  have 1: "step demo_sccp (At 0 [0, 1] ?e) None (At 0 [1] (set_reg 1 1 ?e))"
    using step.Pure [of demo_sccp 0 ?e 1 0 "[1]"] by (simp add: d is_pure_def eval_def opnds_def value_of_def)
  have 2: "step demo_sccp (At 0 [1] (set_reg 1 1 ?e)) None (At 1 [2, 3] (set_reg 1 1 ?e))"
    using step.CondBr [of demo_sccp 1 "set_reg 1 1 ?e" 1 0 "At 1 [2, 3] (set_reg 1 1 ?e)" "[]"]
    by (simp add: d set_reg_def enter_def body_addrs_def calloc_block_def)
  have 3: "step demo_sccp (At 1 [2, 3] (set_reg 1 1 ?e)) None (At 1 [3] (set_reg 2 7 (set_reg 1 1 ?e)))"
    using step.Pure [of demo_sccp 2 "set_reg 1 1 ?e" 7 1 "[3]"] by (simp add: d is_pure_def eval_def opnds_def value_of_def)
  have 4: "step demo_sccp (At 1 [3] (set_reg 2 7 (set_reg 1 1 ?e))) (Some (Ret (Some 7))) Halted"
    using step.Return [of demo_sccp 3 "set_reg 2 7 (set_reg 1 1 ?e)" "[7]" 1 "[]"] by (simp add: d set_reg_def)
  show ?thesis using 1 2 3 4 by (meson run.intros)
qed

theorem opt_sccp_sound_witness:
  "run (fst (sccp_rewrite demo_sccp_result demo_sccp)) (At 0 [0, 1] (\<lambda>_. None)) [Ret (Some 7)] Halted"
proof -
  have c: "\<not> iter_changed demo_sccp_result" by (simp add: demo_sccp_result_def)
  have st: "start demo_sccp (\<lambda>_. None) = Some (At 0 [0, 1] (\<lambda>_. None))"
    by (simp add: start_def body_addrs_def demo_sccp_blk mk_block_def calloc_block_def mk_const_def mk_instr_def calloc_instr_def)
  from opt_sccp_sound [OF demo_sccp_ok demo_sccp_solve c _ st demo_sccp_run] show ?thesis by simp
qed

text \<open>Two floating-point constants, the bits of 1.0, and their sum.\<close>

definition demo_float :: func where
  "demo_float = mk_func [mk_block [0, 1, 2, 3] [] []]
     [(mk_const 1 0x3FF0000000000000)\<lparr>is_float := 1\<rparr>, (mk_const 2 0x3FF0000000000000)\<lparr>is_float := 1\<rparr>,
      (mk_instr OP_ADD 3 [1, 2])\<lparr>is_float := 1\<rparr>, mk_instr OP_RET 0 [3]] 3"

abbreviation bits_1_0 :: int64 where "bits_1_0 \<equiv> 0x3FF0000000000000"
abbreviation bits_2_0 :: int64 where "bits_2_0 \<equiv> 0x4000000000000000"

abbreviation konst :: "int64 \<Rightarrow> sccp_value" where
  "konst v \<equiv> \<lparr>state = LATTICE_CONSTANT, val = v\<rparr>"

lemma demo_float_blk: "blk_at demo_float b = (if b = 0 then Some (mk_block [0, 1, 2, 3] [] []) else None)"
  "n_blocks demo_float = 1" "all_addrs demo_float = [0, 1, 2, 3]"
  "heap demo_float 0 = (mk_const 1 bits_1_0)\<lparr>is_float := 1\<rparr>"
  "heap demo_float (Suc 0) = (mk_const 2 bits_1_0)\<lparr>is_float := 1\<rparr>"
  "heap demo_float 2 = (mk_instr OP_ADD 3 [1, 2])\<lparr>is_float := 1\<rparr>" "heap demo_float 3 = mk_instr OP_RET 0 [3]"
  by (auto simp: demo_float_def blk_at_def mk_func_def mk_block_def calloc_block_def all_addrs_def blk_instrs_def)

lemma demo_float_visit:
  "sccp_visit demo_float 0 s = Some (s\<lparr>lat := (lat s)(1 := konst bits_1_0),
     iter_changed := (iter_changed s \<or> lat s 1 \<noteq> konst bits_1_0)\<rparr>)"
  "sccp_visit demo_float (Suc 0) s = Some (s\<lparr>lat := (lat s)(2 := konst bits_1_0),
     iter_changed := (iter_changed s \<or> lat s 2 \<noteq> konst bits_1_0)\<rparr>)"
  "lat s 1 = konst bits_1_0 \<Longrightarrow> lat s 2 = konst bits_1_0 \<Longrightarrow>
   sccp_visit demo_float 2 s = Some (s\<lparr>lat := (lat s)(3 := konst 0x7FE0000000000000),
     iter_changed := (iter_changed s \<or> lat s 3 \<noteq> konst 0x7FE0000000000000)\<rparr>)"
  "sccp_visit demo_float 3 s = Some s"
  by (auto simp: sccp_eval demo_float_blk mk_const_def mk_instr_def calloc_instr_def fun_upd_idem self_const_def)

lemma demo_float_sweep:
  assumes "bb_reach s 0"
  shows "sccp_sweep demo_float s = Some (s\<lparr>lat := (lat s)(1 := konst bits_1_0,
     2 := konst bits_1_0, 3 := konst 0x7FE0000000000000),
     iter_changed := (lat s 1 \<noteq> konst bits_1_0 \<or> lat s 2 \<noteq> konst bits_1_0 \<or> lat s 3 \<noteq> konst 0x7FE0000000000000)\<rparr>)"
  using assms by (simp add: sccp_sweep_def sccp_block_def demo_float_blk mk_block_def demo_float_visit [unfolded One_nat_def])
    (auto intro!: sccp.equality)

definition demo_float_result :: sccp where
  "demo_float_result = \<lparr>lat = (lat (sccp_init demo_float (\<lambda>_. False)))(1 := konst bits_1_0,
     2 := konst bits_1_0, 3 := konst 0x7FE0000000000000), bb_reach = (\<lambda>_. False)(0 := True), iter_changed = False\<rparr>"

lemma demo_float_solve: "sccp_solve demo_float (\<lambda>_. False) = Some demo_float_result"
  by (simp add: sccp_solve_def max_iters_def sccp_loop_num demo_float_sweep [unfolded One_nat_def] sccp_init_def Let_def
      demo_float_blk demo_float_result_def top_val_def fun_eq_iff)

text \<open>
  C11: Floating-point operations are folded as integers. \<^verbatim>\<open>opt_sccp_pass\<close> never looks at \<^verbatim>\<open>is_float\<close>: of
  two double constants 1.0 it adds the bit patterns, so the sum becomes the constant with the
  bits \<open>0x7FE0000000000000\<close> (about 8.98e307) and not the bits of 2.0.
\<close>

theorem sccp_folds_float_bits:
  "\<exists>s. sccp_solve demo_float (\<lambda>_. False) = Some s \<and> \<not> iter_changed s \<and>
     (let i = heap (fst (sccp_rewrite s demo_float)) 2 in
      op i = OP_CONST \<and> is_float i = 1 \<and> imm i = bits_1_0 + bits_1_0 \<and> imm i \<noteq> bits_2_0)"
proof -
  have h: "heap_ok demo_float" by (simp add: heap_ok_def demo_float_blk) (simp add: demo_float_def mk_func_def)
  have a: "2 \<in> addrs_of (\<lambda>b _. bb_reach demo_float_result b) demo_float (n_blocks demo_float)"
    by (auto simp: addrs_of_def demo_float_blk demo_float_result_def mk_block_def)
  have "heap (fst (sccp_rewrite demo_float_result demo_float)) 2 =
      (mk_instr OP_ADD 3 [1, 2])\<lparr>is_float := 1, op := OP_CONST, imm := 0x7FE0000000000000, n_src := 0, phi := []\<rparr>"
    unfolding sccp_rewrite_eq [OF h] using a
    by (simp add: demo_float_blk sccp_rewrite_instr_def sccp_rewrite_const_def sccp_rewrite_branch_def tracked_def
        mk_instr_def MAX_INSTRS_def demo_float_result_def)
  then show ?thesis by (simp add: demo_float_solve) (simp add: demo_float_result_def mk_instr_def)
qed

end
