(* ===== verification/PassWalk.thy ===== *)
theory PassWalk
  imports IR_Machine Arith64
begin

text \<open>
  What the five passes of \<open>src/zcc_ir_opt_passes.h\<close> share. Each rebuilds the definition tables and walks
  over the instructions of the reachable blocks; what it inserts lies before the instruction at
  hand and is not visited, so the walk is the one over \<^const>\<open>reach_list\<close> of the function it starts
  from. \<^verbatim>\<open>fn->n_regs\<close> is here the first register that is not in use, \<^verbatim>\<open>fn->def_of\<close> is read without
  a bounds check. The SMT proof scripts these passes print on request are not modelled. The locale
  \<open>value_pass\<close> is the contract of a pass that preserves values; its clients are the theories
  \<open>StrengthReduction\<close> and \<open>Peephole\<close>.
\<close>

section \<open>The walk\<close>

definition walk :: "(blockid \<Rightarrow> addr \<Rightarrow> func \<times> nat \<Rightarrow> func \<times> nat) \<Rightarrow> func \<Rightarrow> func \<times> nat" where
  "walk act fn0 = (let fn = licm_build_def_block fn0 in
     fold (\<lambda>(bi, a) (fn, n). if dead (heap fn a) then (fn, n) else act bi a (fn, n)) (reach_list fn) (fn, 0))"

definition const_def :: "func \<Rightarrow> regid \<Rightarrow> int64 option" where
  "const_def fn r = (case def_tab fn r of None \<Rightarrow> None
     | Some a \<Rightarrow> (if op (heap fn a) = OP_CONST then Some (imm (heap fn a)) else None))"

definition become_const :: "int64 \<Rightarrow> instr \<Rightarrow> instr" where
  "become_const k i = i\<lparr>op := OP_CONST, imm := k, n_src := 0\<rparr>"

section \<open>What a walk keeps\<close>

definition table_ok :: "func \<Rightarrow> bool" where
  "table_ok fn \<longleftrightarrow> (\<forall>r b. def_tab fn r = Some b \<longrightarrow> b \<in> set (all_addrs fn) \<and> dst (heap fn b) = r \<and> r \<noteq> 0)"

lemma licm_facts:
  "blocks (licm_build_def_block fn) = blocks fn \<and> heap (licm_build_def_block fn) = heap fn \<and>
   n_regs (licm_build_def_block fn) = n_regs fn \<and> next_addr (licm_build_def_block fn) = next_addr fn \<and>
   (\<forall>r b. def_tab (licm_build_def_block fn) r = Some b \<longrightarrow> b \<in> set (all_addrs fn) \<and> dst (heap fn b) = r \<and> r \<noteq> 0)"
proof -
  define I where "I = (\<lambda>f :: func. blocks f = blocks fn \<and> heap f = heap fn \<and> n_regs f = n_regs fn \<and>
    next_addr f = next_addr fn \<and>
    (\<forall>r b. def_tab f r = Some b \<longrightarrow> b \<in> set (all_addrs fn) \<and> dst (heap fn b) = r \<and> r \<noteq> 0))"
  have "I (licm_build_def_block fn)"
    unfolding licm_build_def_block_def
  proof (rule for_blk_invariant)
    fix bi b f
    assume b: "blk_at f bi = Some b" "I f"
    then have "blk_at fn bi = Some b" using blk_at_blocks [of f fn] by (simp add: I_def)
    then have sub: "set (instrs b) \<subseteq> set (all_addrs fn)" using set_all_addrs by blast
    have "I (fold (\<lambda>a fn. let d = dst (heap fn a) in
                if d \<noteq> 0 \<and> d < MAX_INSTRS
                then fn\<lparr>def_block := (def_block fn)(d := bi), def_tab := (def_tab fn)(d \<mapsto> a)\<rparr>
                else fn) (instrs b) f)"
      by (rule fold_invariant [where I = I]) (use b(2) sub in \<open>auto simp: Let_def I_def split: if_splits\<close>)
    with b(2) show "I (if \<not> reachable b then f else fold (\<lambda>a fn. let d = dst (heap fn a) in
                if d \<noteq> 0 \<and> d < MAX_INSTRS
                then fn\<lparr>def_block := (def_block fn)(d := bi), def_tab := (def_tab fn)(d \<mapsto> a)\<rparr>
                else fn) (instrs b) f)" by simp
  qed (simp add: I_def)
  then show ?thesis by (simp add: I_def)
qed

lemma licm_simps [simp]:
  "blocks (licm_build_def_block fn) = blocks fn" "heap (licm_build_def_block fn) = heap fn"
  "n_regs (licm_build_def_block fn) = n_regs fn" "next_addr (licm_build_def_block fn) = next_addr fn"
  "blk_at (licm_build_def_block fn) = blk_at fn" "all_addrs (licm_build_def_block fn) = all_addrs fn"
  "reach_list (licm_build_def_block fn) = reach_list fn"
  using licm_facts [of fn] by (auto intro: blk_at_blocks all_addrs_blocks reach_list_blocks)

lemma licm_heap_ok [simp]:
  "heap_ok (licm_build_def_block fn) = heap_ok fn" "counters_ok (licm_build_def_block fn) = counters_ok fn"
  by (simp_all add: heap_ok_def counters_ok_def)

lemma licm_table_ok: "table_ok (licm_build_def_block fn)"
  using licm_facts [of fn] by (simp add: table_ok_def)

definition val_instr_ok :: "nat \<Rightarrow> instr \<Rightarrow> bool" where
  "val_instr_ok n i \<longleftrightarrow> wide i \<and> dst i < n \<and>
     (is_pure (op i) \<longrightarrow> dst i \<noteq> 0 \<and> (\<forall>r \<in> set (opnds i). r < n))"

definition val_fn_ok :: "func \<Rightarrow> bool" where
  "val_fn_ok fn \<longleftrightarrow> heap_ok fn \<and> counters_ok fn \<and> blk_at fn 0 \<noteq> None \<and> 0 < n_regs fn \<and>
     (\<forall>a \<in> set (all_addrs fn). val_instr_ok (n_regs fn) (heap fn a))"

definition value_inv :: "func \<Rightarrow> (regid \<Rightarrow> int64) \<Rightarrow> bool" where
  "value_inv fn \<rho> \<longleftrightarrow> val_fn_ok fn \<and> table_ok fn \<and> models fn \<rho>"

definition blocks_grow :: "func \<Rightarrow> func \<Rightarrow> bool" where
  "blocks_grow fn fn' \<longleftrightarrow> (\<forall>b blk. blk_at fn b = Some blk \<longrightarrow>
     (\<exists>blk'. blk_at fn' b = Some blk' \<and> set (instrs blk) \<subseteq> set (instrs blk')))"

text \<open>Every instruction is still there, writes the same register and computes the same value.\<close>

definition values_kept :: "func \<Rightarrow> (regid \<Rightarrow> int64) \<Rightarrow> func \<Rightarrow> (regid \<Rightarrow> int64) \<Rightarrow> bool" where
  "values_kept fn \<rho> fn' \<rho>' \<longleftrightarrow> n_regs fn \<le> n_regs fn' \<and> (\<forall>r < n_regs fn. \<rho>' r = \<rho> r) \<and> blocks_grow fn fn' \<and>
     (\<forall>a \<in> set (all_addrs fn). dst (heap fn' a) = dst (heap fn a) \<and>
        value_of (heap fn' a) \<rho>' = value_of (heap fn a) \<rho> \<and>
        (\<not> is_pure (op (heap fn a)) \<longrightarrow> heap fn' a = heap fn a))"

lemma blocks_grow_refl: "blocks_grow fn fn"
  by (auto simp: blocks_grow_def)

lemma blocks_grow_trans: "blocks_grow f g \<Longrightarrow> blocks_grow g h \<Longrightarrow> blocks_grow f h"
  unfolding blocks_grow_def by (meson subset_trans)

lemma blocks_grow_addrs: "blocks_grow fn fn' \<Longrightarrow> a \<in> set (all_addrs fn) \<Longrightarrow> a \<in> set (all_addrs fn')"
  unfolding blocks_grow_def set_all_addrs by blast

lemma values_kept_refl: "values_kept fn \<rho> fn \<rho>"
  by (simp add: values_kept_def blocks_grow_refl)

lemma values_kept_trans:
  assumes "values_kept f \<rho> g \<rho>1" "values_kept g \<rho>1 h \<rho>2"
  shows "values_kept f \<rho> h \<rho>2"
  using assms blocks_grow_addrs [of f g] blocks_grow_trans [of f g h] by (auto simp: values_kept_def)

lemma licm_value_inv: "val_fn_ok fn \<Longrightarrow> models fn \<rho> \<Longrightarrow> value_inv (licm_build_def_block fn) \<rho>"
  by (simp add: value_inv_def licm_table_ok val_fn_ok_def models_def)

lemma values_kept_licm: "values_kept (licm_build_def_block fn) \<rho> fn' \<rho>' = values_kept fn \<rho> fn' \<rho>'"
  by (simp add: values_kept_def blocks_grow_def)

text \<open>What a pass owes to the walk, and what it gets for it.\<close>

locale value_pass =
  fixes act :: "blockid \<Rightarrow> addr \<Rightarrow> func \<times> nat \<Rightarrow> func \<times> nat"
    and inv :: "func \<Rightarrow> (regid \<Rightarrow> int64) \<Rightarrow> bool"
  assumes act_ok: "inv fn \<rho> \<Longrightarrow> blk_at fn bi = Some blk \<Longrightarrow> a \<in> set (instrs blk) \<Longrightarrow>
      act bi a (fn, n) = (fn', n') \<Longrightarrow> \<exists>\<rho>'. inv fn' \<rho>' \<and> values_kept fn \<rho> fn' \<rho>'"
begin

lemma fold_ok:
  assumes "inv fn \<rho>" "\<And>bi a. (bi, a) \<in> set xs \<Longrightarrow> \<exists>blk. blk_at fn bi = Some blk \<and> a \<in> set (instrs blk)"
    "fold (\<lambda>(bi, a) (fn, n). if dead (heap fn a) then (fn, n) else act bi a (fn, n)) xs (fn, n) = (fn', n')"
  shows "\<exists>\<rho>'. inv fn' \<rho>' \<and> values_kept fn \<rho> fn' \<rho>'"
  using assms
proof (induction xs arbitrary: fn \<rho> n)
  case Nil
  then show ?case using values_kept_refl by auto
next
  case (Cons x xs)
  obtain bi a where x: "x = (bi, a)" by (cases x)
  obtain fn1 n1 where s: "(if dead (heap fn a) then (fn, n) else act bi a (fn, n)) = (fn1, n1)" by fastforce
  obtain blk where b: "blk_at fn bi = Some blk" "a \<in> set (instrs blk)" using Cons.prems(2) x by auto
  obtain \<rho>1 where 1: "inv fn1 \<rho>1" "values_kept fn \<rho> fn1 \<rho>1"
  proof (cases "dead (heap fn a)")
    case True
    then have "fn1 = fn" using s by simp
    with Cons.prems(1) values_kept_refl that show thesis by blast
  next
    case False
    then have "act bi a (fn, n) = (fn1, n1)" using s by simp
    from act_ok [OF Cons.prems(1) b this] that show thesis by blast
  qed
  have "\<exists>blk. blk_at fn1 bi = Some blk \<and> a \<in> set (instrs blk)" if m: "(bi, a) \<in> set xs" for bi a
  proof -
    obtain blk where "blk_at fn bi = Some blk" "a \<in> set (instrs blk)" using m Cons.prems(2) by (meson list.set_intros(2))
    with 1(2) show ?thesis unfolding values_kept_def blocks_grow_def by blast
  qed
  moreover have "fold (\<lambda>(bi, a) (fn, n). if dead (heap fn a) then (fn, n) else act bi a (fn, n)) xs (fn1, n1) = (fn', n')"
    using Cons.prems(3) s by (simp add: x)
  ultimately obtain \<rho>' where "inv fn' \<rho>'" "values_kept fn1 \<rho>1 fn' \<rho>'" using Cons.IH [OF 1(1)] by blast
  with 1(2) values_kept_trans show ?case by blast
qed

theorem walk_ok:
  assumes "inv (licm_build_def_block fn) \<rho>" "walk act fn = (fn', n)"
  shows "\<exists>\<rho>'. inv fn' \<rho>' \<and> values_kept fn \<rho> fn' \<rho>'"
proof -
  have "\<exists>\<rho>'. inv fn' \<rho>' \<and> values_kept (licm_build_def_block fn) \<rho> fn' \<rho>'"
    by (rule fold_ok [OF assms(1)]) (use assms(2) in \<open>auto simp: walk_def Let_def set_reach_list\<close>)
  then show ?thesis by (simp add: values_kept_licm)
qed

end

section \<open>The definition table\<close>

text \<open>The definition table lists the reachable definitions of the function.\<close>

lemma licm_def_tab:
  "def_tab (licm_build_def_block fn) = fold (\<lambda>a t. let d = dst (heap fn a) in
     if d \<noteq> 0 \<and> d < MAX_INSTRS then t(d \<mapsto> a) else t) (map snd (reach_list fn)) (\<lambda>_. None)"
proof -
  define body where "body = (\<lambda>bi a (f :: func). let d = dst (heap f a) in
    if d \<noteq> 0 \<and> d < MAX_INSTRS
    then f\<lparr>def_block := (def_block f)(d := bi), def_tab := (def_tab f)(d \<mapsto> a)\<rparr> else f)"
  define f0 where "f0 = fn\<lparr>def_block := (\<lambda>_. NO_BLOCK), def_tab := (\<lambda>_. None)\<rparr>"
  have keep: "blocks (fold (body bi) as f) = blocks f" for bi as f
    by (rule fold_invariant [where I = "\<lambda>g. blocks g = blocks f"]) (auto simp: body_def Let_def)
  have "licm_build_def_block fn = for_blk (\<lambda>bi b f. if \<not> reachable b then f else fold (body bi) (instrs b) f)
      (\<lambda>f. f) (n_blocks fn) f0"
    unfolding licm_build_def_block_def body_def f0_def by (rule refl)
  also have "\<dots> = for_blk (\<lambda>bi b f. if \<not> reachable b then f else fold (body bi) (instrs b) f) (\<lambda>_. f0) (n_blocks fn) f0"
    by (rule for_blk_fixed) (simp add: keep)
  also have "\<dots> = fold (\<lambda>(bi, a). body bi a) (reach_list f0) f0"
    using for_blk_reach_list [of body f0 f0] by (simp add: f0_def)
  also have "reach_list f0 = reach_list fn" by (rule reach_list_blocks) (simp add: f0_def)
  finally have e: "licm_build_def_block fn = fold (\<lambda>(bi, a). body bi a) (reach_list fn) f0" .
  have "heap f = heap fn \<Longrightarrow> def_tab (fold (\<lambda>(bi, a). body bi a) xs f) = fold (\<lambda>a t. let d = dst (heap fn a) in
     if d \<noteq> 0 \<and> d < MAX_INSTRS then t(d \<mapsto> a) else t) (map snd xs) (def_tab f)" for xs f
    by (induction xs arbitrary: f) (auto simp: body_def Let_def)
  then show ?thesis unfolding e by (simp add: f0_def)
qed

lemma licm_def_tab_complete:
  assumes "ssa_unique fn" "(b, a) \<in> set (reach_list fn)" "dst (heap fn a) = r" "0 < r" "r < MAX_INSTRS"
  shows "def_tab (licm_build_def_block fn) r = Some a"
proof -
  have a: "a \<in> set (map snd (reach_list fn))" using assms(2) by force
  then obtain c where c: "find (\<lambda>a. dst (heap fn a) = r) (rev (map snd (reach_list fn))) = Some c"
    using assms(3) by (cases "find (\<lambda>a. dst (heap fn a) = r) (rev (map snd (reach_list fn)))") (auto simp: find_None_iff)
  from find_Some_in [OF this] have "c \<in> set (all_addrs fn)" "dst (heap fn c) = r"
    using reach_list_all_addrs by fastforce+
  moreover have "a \<in> set (all_addrs fn)" using assms(2) reach_list_all_addrs by blast
  ultimately have "c = a" using assms(1,3,4) by (auto simp: ssa_unique_def)
  then show ?thesis using c assms(4,5) rebuild_fold [of "heap fn" "map snd (reach_list fn)" "\<lambda>_. None" r]
    by (simp add: licm_def_tab)
qed

section \<open>Facts about values\<close>

lemma wide_value: "wide i \<Longrightarrow> is_binop (op i) \<Longrightarrow>
    value_of i \<rho> = bin_val64 (op i) (ir_type i = IR_TY_U64) (\<rho> (src1 i)) (\<rho> (src2 i))"
  by (auto simp: value_of_def wide_def is_binop_def bin_val_wide)

lemma const_def_value:
  assumes "value_inv fn \<rho>" "const_def fn r = Some k"
  shows "\<rho> r = k"
proof -
  obtain b where b: "def_tab fn r = Some b" "op (heap fn b) = OP_CONST" "imm (heap fn b) = k"
    using assms(2) by (auto simp: const_def_def split: option.splits if_splits)
  then have l: "b \<in> set (all_addrs fn)" "dst (heap fn b) = r" "r \<noteq> 0"
    using assms(1) by (auto simp: value_inv_def table_ok_def)
  then have "wide (heap fn b)" "satisfies \<rho> (heap fn b)"
    using assms(1) by (auto simp: value_inv_def val_fn_ok_def val_instr_ok_def models_def)
  with b l show ?thesis by (simp add: satisfies_def value_of_def wide_def)
qed

text \<open>Replacing an instruction by one of the same register and value.\<close>

definition same_value :: "nat \<Rightarrow> (regid \<Rightarrow> int64) \<Rightarrow> instr \<Rightarrow> instr \<Rightarrow> bool" where
  "same_value n \<rho> i i' \<longleftrightarrow> is_pure (op i) \<and> is_pure (op i') \<and> dst i' = dst i \<and> wide i' \<and>
     (\<forall>r \<in> set (opnds i'). r < n) \<and> value_of i' \<rho> = value_of i \<rho>"

lemma value_inv_upd:
  assumes inv: "value_inv fn \<rho>" and a: "a \<in> set (all_addrs fn)" and v: "same_value (n_regs fn) \<rho> (heap fn a) i'"
  shows "value_inv (upd_instr a (\<lambda>_. i') fn) \<rho>" "values_kept fn \<rho> (upd_instr a (\<lambda>_. i') fn) \<rho>"
proof -
  have old: "val_instr_ok (n_regs fn) (heap fn a)" "satisfies \<rho> (heap fn a)"
    using inv a by (auto simp: value_inv_def val_fn_ok_def models_def)
  have ok': "val_instr_ok (n_regs fn) i'" using old v by (auto simp: val_instr_ok_def same_value_def)
  have "satisfies \<rho> i'" using old v by (simp add: satisfies_def same_value_def)
  then show "value_inv (upd_instr a (\<lambda>_. i') fn) \<rho>"
    using inv ok' v by (auto simp: value_inv_def val_fn_ok_def table_ok_def models_def same_value_def)
  show "values_kept fn \<rho> (upd_instr a (\<lambda>_. i') fn) \<rho>"
    using v by (auto simp: values_kept_def same_value_def blocks_grow_def)
qed

text \<open>The facts the reductions of a binary operation start from.\<close>

lemma binop_facts:
  assumes "value_inv fn \<rho>" "a \<in> set (all_addrs fn)" "is_binop (op (heap fn a))"
  shows "wide (heap fn a)" "is_pure (op (heap fn a))" "src1 (heap fn a) < n_regs fn" "src2 (heap fn a) < n_regs fn"
    "value_of (heap fn a) \<rho> = bin_val64 (op (heap fn a)) (ir_type (heap fn a) = IR_TY_U64)
       (\<rho> (src1 (heap fn a))) (\<rho> (src2 (heap fn a)))"
proof -
  have ok: "val_instr_ok (n_regs fn) (heap fn a)" using assms by (auto simp: value_inv_def val_fn_ok_def)
  then show w: "wide (heap fn a)" by (simp add: val_instr_ok_def)
  show p: "is_pure (op (heap fn a))" using assms(3) by (simp add: is_pure_def)
  show "src1 (heap fn a) < n_regs fn" "src2 (heap fn a) < n_regs fn"
    using ok p assms(3) by (auto simp: val_instr_ok_def opnds_def is_binop_def)
  show "value_of (heap fn a) \<rho> = bin_val64 (op (heap fn a)) (ir_type (heap fn a) = IR_TY_U64)
       (\<rho> (src1 (heap fn a))) (\<rho> (src2 (heap fn a)))"
    by (rule wide_value [OF w assms(3)])
qed

section \<open>An instance\<close>

definition demo_passes :: func where
  "demo_passes = mk_func [mk_block [0, 1, 2, 3] [] []]
     [mk_const 1 5, mk_const 2 8, mk_instr OP_MUL 3 [1, 2], mk_instr OP_RET 0 [3]] 4"

lemma demo_passes_facts:
  "blk_at demo_passes b = (if b = 0 then Some (mk_block [0, 1, 2, 3] [] []) else None)"
  "blocks demo_passes = [Some (mk_block [0, 1, 2, 3] [] [])]"
  "all_addrs demo_passes = [0, 1, 2, 3]" "n_regs demo_passes = 4" "next_addr demo_passes = 4"
  "heap demo_passes 0 = mk_const 1 5" "heap demo_passes (Suc 0) = mk_const 2 8"
  "heap demo_passes 2 = mk_instr OP_MUL 3 [1, 2]" "heap demo_passes 3 = mk_instr OP_RET 0 [3]"
  by (auto simp: demo_passes_def blk_at_def mk_func_def mk_block_def calloc_block_def all_addrs_def blk_instrs_def)

lemma demo_passes_reach: "reach_list demo_passes = [(0, 0), (0, 1), (0, 2), (0, 3)]"
  by (simp add: reach_list_def demo_passes_facts mk_block_def calloc_block_def)

lemmas demo_instr = mk_const_def mk_instr_def calloc_instr_def

lemma demo_passes_ok: "ssa_unique demo_passes" "blocks_ok demo_passes" "val_fn_ok demo_passes"
  by (simp_all add: ssa_unique_def blocks_ok_def phis_ok_def phi_addrs_def body_addrs_def val_fn_ok_def
      heap_ok_def counters_ok_def val_instr_ok_def wide_def demo_passes_facts demo_instr mk_block_def calloc_block_def
      MAX_INSTRS_def opnds_def is_pure_def is_binop_def)

abbreviation demo_regs :: "regid \<Rightarrow> int64" where
  "demo_regs \<equiv> \<lambda>r. if r = 1 then 5 else if r = 2 then 8 else 40"

lemma demo_passes_models: "models demo_passes demo_regs"
  by (simp add: models_def demo_passes_facts satisfies_def demo_instr value_of_def bin_val_def)

end
