(* ===== verification/ConstantFold.thy ===== *)
theory ConstantFold
  imports PassWalk
begin

text \<open>
  \<^verbatim>\<open>opt_constant_fold_pass\<close> of \<open>src/zcc_ir_opt_passes.h\<close>, as an analysis of constants (an
  interpretation of the interface of \<open>IR_Machine\<close>) whose result the pass writes into the code.
\<close>

section \<open>Constant folding\<close>

fun fold_value :: "irtype \<Rightarrow> opcode \<Rightarrow> int64 \<Rightarrow> int64 \<Rightarrow> int64 option" where
  "fold_value ty OP_ADD a b = Some (a + b)"
| "fold_value ty OP_SUB a b = Some (a - b)"
| "fold_value ty OP_MUL a b = Some (a * b)"
| "fold_value ty OP_DIV a b = (if b = 0 then Some 0 else c_sdiv a b)"
| "fold_value ty OP_MOD a b = (if b = 0 then Some 0 else c_smod a b)"
| "fold_value ty OP_BAND a b = Some (a AND b)"
| "fold_value ty OP_BOR a b = Some (a OR b)"
| "fold_value ty OP_BXOR a b = Some (a XOR b)"
| "fold_value ty OP_SHL a b = Some (c_shl a b)"
| "fold_value ty OP_SHR a b = Some (
     if ty = IR_TY_U32 then ucast (drop_bit (unat (b AND 31)) (ucast a :: 32 word))
     else if ty = IR_TY_U64 then c_shr a b
     else if ty = IR_TY_I32 then scast (signed_drop_bit (unat (b AND 31)) (ucast a :: 32 word))
     else c_sar a b)"
| "fold_value ty OP_EQ a b = Some (c_bool (a = b))"
| "fold_value ty OP_NE a b = Some (c_bool (a \<noteq> b))"
| "fold_value ty OP_LT a b = Some (c_bool (a <s b))"
| "fold_value ty _ a b = Some 0"

definition foldable :: "opcode \<Rightarrow> bool" where
  "foldable opc \<longleftrightarrow> opc \<in> {OP_ADD, OP_SUB, OP_MUL, OP_DIV, OP_MOD, OP_BAND, OP_BOR, OP_BXOR, OP_SHL,
     OP_SHR, OP_EQ, OP_NE, OP_LT}"

text \<open>
  What an instruction folds to: nothing, or a value, or, as \<open>Some None\<close>, the signal of a division
  that does not fit, raised in the compiler.
\<close>

definition fold_result :: "func \<Rightarrow> instr \<Rightarrow> int64 option option" where
  "fold_result fn i =
     (if n_src i \<ge> 2 then
        (if foldable (op i) then
           (case const_def fn (src1 i) of None \<Rightarrow> None
            | Some x \<Rightarrow> (case const_def fn (src2 i) of None \<Rightarrow> None
                | Some y \<Rightarrow> Some (fold_value (ir_type i) (op i) x y)))
         else None)
      else if n_src i = 1 \<and> op i = OP_BNOT then map_option (\<lambda>x. Some (NOT x)) (const_def fn (src1 i))
      else None)"

definition constant_fold_step :: "addr \<Rightarrow> func \<times> nat \<Rightarrow> (func \<times> nat) option" where
  "constant_fold_step a = (\<lambda>(fn, n). let i = heap fn a in
     if dead i then Some (fn, n)
     else case fold_result fn i of
         None \<Rightarrow> Some (fn, n)
       | Some None \<Rightarrow> None
       | Some (Some k) \<Rightarrow> Some (upd_instr a (become_const k) fn, n + 1))"

definition opt_constant_fold_pass :: "func \<Rightarrow> (func \<times> nat) option" where
  "opt_constant_fold_pass fn0 = (let fn = licm_build_def_block fn0 in
     fold_opt (\<lambda>(bi, a). constant_fold_step a) (reach_list fn) (fn, 0))"

section \<open>Constant folding\<close>

text \<open>
  What a folded function claims of the original: \<open>s\<close> is the function at the end of the pass, a
  register is known if the table's definition of it is a constant there. An instruction that
  changed became the constant that its known operands give.
\<close>

definition folds_to :: "func \<Rightarrow> instr \<Rightarrow> int64 \<Rightarrow> bool" where
  "folds_to s i k \<longleftrightarrow> (foldable (op i) \<and> (\<exists>x y. const_def s (src1 i) = Some x \<and> const_def s (src2 i) = Some y \<and>
       fold_value (ir_type i) (op i) x y = Some k)) \<or>
     (op i = OP_BNOT \<and> (\<exists>x. const_def s (src1 i) = Some x \<and> k = NOT x))"

definition folded_from :: "func \<Rightarrow> instr \<Rightarrow> instr \<Rightarrow> bool" where
  "folded_from s i i' \<longleftrightarrow> (\<exists>k. i' = become_const k i \<and> dst i \<noteq> 0 \<and> dst i < MAX_INSTRS \<and> folds_to s i k)"

lemma foldable_pure: "foldable opc \<Longrightarrow> opc \<noteq> OP_CONST \<and> is_pure opc"
  by (auto simp: foldable_def is_pure_def is_binop_def)

lemma folds_to_pure: "folds_to s i k \<Longrightarrow> op i \<noteq> OP_CONST \<and> is_pure (op i)"
  using foldable_pure [of "op i"] by (auto simp: folds_to_def is_pure_def)

lemma fold_result_folds_to: "fold_result f i = Some (Some k) \<Longrightarrow> folds_to f i k"
  by (auto simp: fold_result_def folds_to_def split: if_splits option.splits)

text \<open>The operations whose folding agrees with the emitted code: no unsigned division, no signed right shift.\<close>

definition fold_type_ok :: "instr \<Rightarrow> bool" where
  "fold_type_ok i \<longleftrightarrow> (is_pure (op i) \<longrightarrow> wide i) \<and> (op i \<in> {OP_DIV, OP_MOD} \<longrightarrow> ir_type i = IR_TY_I64) \<and>
     (op i = OP_SHR \<longrightarrow> ir_type i = IR_TY_U64)"

definition fold_stable :: "func \<Rightarrow> func \<Rightarrow> bool" where
  "fold_stable fn s \<longleftrightarrow> ssa_unique fn \<and> blocks s = blocks fn \<and> table_ok s \<and>
     (\<forall>a \<in> set (all_addrs fn). fold_type_ok (heap fn a) \<and>
        (heap s a = heap fn a \<or> folded_from s (heap fn a) (heap s a)))"

definition fold_holds :: "func \<Rightarrow> regid \<Rightarrow> int64 \<Rightarrow> bool" where
  "fold_holds s r v \<longleftrightarrow> (case const_def s r of None \<Rightarrow> True | Some k \<Rightarrow> v = k)"

lemma fold_value_bin_val:
  assumes "foldable opc" "bin_val opc ty a b = Some v" "opc \<in> {OP_DIV, OP_MOD} \<longrightarrow> ty = IR_TY_I64"
    and "opc = OP_SHR \<longrightarrow> ty = IR_TY_U64" "\<not> is32 ty"
  shows "fold_value ty opc a b = Some v"
  using assms by (cases opc) (auto simp: bin_val_def foldable_def c_sdiv_def c_smod_def split: if_splits)

lemma folded_from_keeps: "folded_from s i i' \<Longrightarrow> dst i' = dst i \<and> op i' = OP_CONST \<and> is_pure (op i)"
  using folds_to_pure by (auto simp: folded_from_def become_const_def)

lemma const_def_cases:
  assumes st: "fold_stable fn s" and a: "a \<in> set (all_addrs fn)" and k: "const_def s (dst (heap fn a)) = Some k"
  shows "op (heap s a) = OP_CONST \<and> imm (heap s a) = k"
proof -
  obtain b where b: "def_tab s (dst (heap fn a)) = Some b" "op (heap s b) = OP_CONST" "imm (heap s b) = k"
    using k by (auto simp: const_def_def split: option.splits if_splits)
  have bl: "blocks s = blocks fn" using st by (simp add: fold_stable_def)
  have l: "b \<in> set (all_addrs fn)" "dst (heap s b) = dst (heap fn a)" "dst (heap fn a) \<noteq> 0"
    using b(1) st all_addrs_blocks [OF bl] by (auto simp: fold_stable_def table_ok_def)
  have "heap s b = heap fn b \<or> folded_from s (heap fn b) (heap s b)" using l(1) st by (simp add: fold_stable_def)
  then have "dst (heap s b) = dst (heap fn b)" using folded_from_keeps by auto
  with l st a have "b = a" by (auto simp: fold_stable_def ssa_unique_def)
  with b show ?thesis by simp
qed

lemma fold_pure_ok:
  assumes st: "fold_stable fn s" and a: "a \<in> set (all_addrs fn)"
    and env: "\<And>r u. \<rho> r = Some u \<Longrightarrow> fold_holds s r u" and v: "eval (heap fn a) \<rho> = Some v"
  shows "fold_holds s (dst (heap fn a)) v"
proof (cases "const_def s (dst (heap fn a))")
  case (Some k)
  let ?i = "heap fn a"
  have c: "op (heap s a) = OP_CONST" "imm (heap s a) = k" using const_def_cases [OF st a Some] by auto
  have val: "value_of ?i (\<lambda>r. the (\<rho> r)) = Some v" and dom: "\<forall>r \<in> set (opnds ?i). \<rho> r \<noteq> None"
    using v by (auto simp: eval_def split: if_splits)
  have known: "the (\<rho> r) = x" if m: "r \<in> set (opnds ?i)" and c: "const_def s r = Some x" for r x
  proof -
    obtain u where "\<rho> r = Some u" using dom m by (cases "\<rho> r") auto
    with env [OF this] c show ?thesis by (simp add: fold_holds_def)
  qed
  have t: "fold_type_ok ?i" "\<not> is32 (ir_type ?i)" if "is_pure (op ?i)"
    using a st that by (auto simp: fold_stable_def fold_type_ok_def)
  have p: "is_pure (op ?i)" using val by (rule value_of_pure)
  note t = t [OF p]
  have "heap s a = ?i \<or> folded_from s ?i (heap s a)" using a st by (simp add: fold_stable_def)
  then have "v = k"
  proof
    assume "heap s a = ?i"
    with c val show ?thesis by (auto simp: value_of_def split: if_splits)
  next
    assume f: "folded_from s ?i (heap s a)"
    then have np: "op ?i \<noteq> OP_CONST" "op ?i \<noteq> OP_COPY"
      by (auto simp: folded_from_def folds_to_def foldable_def)
    have k: "heap s a = become_const k ?i" using f c by (auto simp: folded_from_def become_const_def)
    from f consider (bin) x y where "foldable (op ?i)" "const_def s (src1 ?i) = Some x" "const_def s (src2 ?i) = Some y"
        "fold_value (ir_type ?i) (op ?i) x y = Some k"
      | (bnot) x where "op ?i = OP_BNOT" "const_def s (src1 ?i) = Some x" "k = NOT x"
      using c by (auto simp: folded_from_def become_const_def folds_to_def)
    then show ?thesis
    proof cases
      case bin
      then have nb: "op ?i \<noteq> OP_BNOT" by (auto simp: foldable_def)
      have x: "the (\<rho> (src1 ?i)) = x" "the (\<rho> (src2 ?i)) = y"
        using known bin np nb by (auto simp: opnds_def)
      have "bin_val (op ?i) (ir_type ?i) x y = Some v"
        using val np nb x by (auto simp: value_of_def split: if_splits)
      from fold_value_bin_val [OF bin(1) this] bin(4) t show ?thesis by (simp add: fold_type_ok_def)
    next
      case bnot
      then have "the (\<rho> (src1 ?i)) = x" using known by (simp add: opnds_def)
      with val bnot t show ?thesis by (auto simp: value_of_def split: if_splits)
    qed
  qed
  with Some show ?thesis by (simp add: fold_holds_def)
qed (simp add: fold_holds_def)

lemma fold_other_ok:
  assumes st: "fold_stable fn s" and a: "a \<in> set (all_addrs fn)" and n: "\<not> is_pure (op (heap fn a))"
  shows "fold_holds s (dst (heap fn a)) v"
proof (cases "const_def s (dst (heap fn a))")
  case (Some k)
  have "op (heap s a) = OP_CONST" using const_def_cases [OF st a Some] by simp
  moreover have "heap s a = heap fn a \<or> folded_from s (heap fn a) (heap s a)" using a st by (simp add: fold_stable_def)
  ultimately show ?thesis using n folded_from_keeps by (auto simp: is_pure_def)
qed (simp add: fold_holds_def)

interpretation cf: analysis fold_holds const_def "\<lambda>_ _. True" fold_stable
proof
  fix s r k v
  assume "const_def s r = Some k" "fold_holds s r v"
  then show "v = k" by (simp add: fold_holds_def)
next
  fix fn s b blk a and \<rho> :: env and v
  assume "fold_stable fn s" "blk_at fn b = Some blk" "a \<in> set (instrs blk)"
    "\<And>r u. \<rho> r = Some u \<Longrightarrow> fold_holds s r u" "eval (heap fn a) \<rho> = Some v"
  then show "fold_holds s (dst (heap fn a)) v" using fold_pure_ok set_all_addrs by blast
next
  fix fn s b blk a and v :: int64
  assume "fold_stable fn s" "blk_at fn b = Some blk" "a \<in> set (instrs blk)" "is_effect (op (heap fn a))"
  then show "fold_holds s (dst (heap fn a)) v" using fold_other_ok set_all_addrs is_effect_not by blast
next
  fix fn s b blk a and v :: int64
  assume "fold_stable fn s" "blk_at fn b = Some blk" "a \<in> set (instrs blk)" "op (heap fn a) = OP_PHI"
  then show "fold_holds s (dst (heap fn a)) v" using fold_other_ok set_all_addrs by fastforce
qed simp_all

definition fold_fn_ok :: "func \<Rightarrow> bool" where
  "fold_fn_ok fn \<longleftrightarrow> (\<forall>a \<in> set (all_addrs fn).
     fold_type_ok (heap fn a) \<and>
     (is_pure (op (heap fn a)) \<longrightarrow> dst (heap fn a) \<noteq> 0 \<and> dst (heap fn a) < MAX_INSTRS \<and> is_float (heap fn a) = 0))"

text \<open>The invariant of the pass: changed instructions are folded ones, and stay justified.\<close>

definition fold_inv :: "func \<Rightarrow> func \<Rightarrow> bool" where
  "fold_inv fn f \<longleftrightarrow> blocks f = blocks fn \<and> def_tab f = def_tab (licm_build_def_block fn) \<and>
     (\<forall>a. heap f a = heap fn a \<or> (a \<in> snd ` set (reach_list fn) \<and> folded_from f (heap fn a) (heap f a)))"

lemma fold_inv_step:
  assumes ok: "fold_fn_ok fn" and inv: "fold_inv fn f" and a: "a \<in> snd ` set (reach_list fn)"
    and run: "constant_fold_step a (f, n) = Some (f', n')"
  shows "fold_inv fn f'"
proof -
  let ?i = "heap f a"
  have al: "a \<in> set (all_addrs fn)" using a reach_list_all_addrs by fastforce
  have "f' = f \<or> (\<exists>k. f' = upd_instr a (become_const k) f \<and> fold_result f ?i = Some (Some k))"
    using run by (auto simp: constant_fold_step_def Let_def split: if_splits option.splits)
  then show ?thesis
  proof (elim disjE exE conjE)
    fix k
    assume f': "f' = upd_instr a (become_const k) f" and "fold_result f ?i = Some (Some k)"
    then have j: "folds_to f ?i k" by (intro fold_result_folds_to)
    then have nc: "op ?i \<noteq> OP_CONST" and p: "is_pure (op ?i)" using folds_to_pure by auto
    have same: "heap f a = heap fn a" using inv nc folded_from_keeps unfolding fold_inv_def by metis
    have mono: "const_def f' r = Some x" if "const_def f r = Some x" for r x
      using that nc by (auto simp: const_def_def f' split: option.splits if_splits)
    have mf: "folded_from f' i i'" if "folded_from f i i'" for i i'
      using that mono unfolding folded_from_def folds_to_def by blast
    have "dst ?i \<noteq> 0" "dst ?i < MAX_INSTRS" using ok al p same by (auto simp: fold_fn_ok_def)
    then have "folded_from f (heap fn a) (become_const k ?i)" using j same unfolding folded_from_def by metis
    then have "folded_from f' (heap fn a) (heap f' a)" using mf by (simp add: f')
    moreover have "heap f' b = heap f b" if "b \<noteq> a" for b using that by (simp add: f')
    ultimately show ?thesis using inv a mf unfolding fold_inv_def by (metis f' upd_instr_simps(1,3))
  qed (use inv in simp)
qed

lemma fold_inv_pass:
  assumes "fold_fn_ok fn" "opt_constant_fold_pass fn = Some (fn', n)"
  shows "fold_inv fn fn'"
proof -
  have run: "fold_opt (\<lambda>(bi, a). constant_fold_step a) (reach_list fn) (licm_build_def_block fn, 0) = Some (fn', n)"
    using assms(2) by (simp add: opt_constant_fold_pass_def Let_def)
  have "fold_inv fn (fst (fn', n))"
  proof (rule fold_opt_invariant [where I = "\<lambda>st. fold_inv fn (fst st)", OF run])
    show "fold_inv fn (fst (licm_build_def_block fn, 0 :: nat))" by (simp add: fold_inv_def)
    fix x :: "blockid \<times> addr" and s s' :: "func \<times> nat"
    assume "x \<in> set (reach_list fn)" "fold_inv fn (fst s)" "(case x of (bi, a) \<Rightarrow> constant_fold_step a) s = Some s'"
    then show "fold_inv fn (fst s')"
      using fold_inv_step [OF assms(1), of "fst s" "snd x" "snd s" "fst s'" "snd s'"]
      by (auto simp: split_beta)
  qed
  then show ?thesis by simp
qed

lemma fold_inv_folds:
  assumes ok: "fold_fn_ok fn" and u: "ssa_unique fn" and inv: "fold_inv fn f"
  shows "folds_fn (const_def f) (\<lambda>_. True) fn f" "fold_stable fn f"
proof -
  have b: "blocks f = blocks fn" and t: "def_tab f = def_tab (licm_build_def_block fn)"
    using inv by (auto simp: fold_inv_def)
  have fi: "folds_instr (const_def f) (heap fn a) (heap f a)" if a: "a \<in> set (all_addrs fn)" for a
  proof (cases "heap f a = heap fn a")
    case False
    then have r: "a \<in> snd ` set (reach_list fn)" and ff: "folded_from f (heap fn a) (heap f a)"
      using inv by (auto simp: fold_inv_def)
    have d: "0 < dst (heap fn a)" "dst (heap fn a) < MAX_INSTRS" using ff by (auto simp: folded_from_def)
    have k: "dst (heap f a) = dst (heap fn a)" "op (heap f a) = OP_CONST" "is_pure (op (heap fn a))"
      using folded_from_keeps [OF ff] by auto
    obtain c where "(c, a) \<in> set (reach_list fn)" using r by force
    from licm_def_tab_complete [OF u this refl d] have "const_def f (dst (heap fn a)) = Some (imm (heap f a))"
      using k by (simp add: const_def_def t)
    moreover have "is_float (heap f a) = 0"
      using ff ok a k(3) by (auto simp: folded_from_def become_const_def fold_fn_ok_def)
    ultimately show ?thesis using k by (simp add: folds_instr_def)
  qed (simp add: folds_instr_def)
  then show "folds_fn (const_def f) (\<lambda>_. True) fn f"
    using b set_all_addrs unfolding folds_fn_def by blast
  have "table_ok f"
    unfolding table_ok_def t
  proof (intro allI impI)
    fix r c assume "def_tab (licm_build_def_block fn) r = Some c"
    then have "c \<in> set (all_addrs fn)" "dst (heap fn c) = r" "r \<noteq> 0"
      using licm_table_ok [of fn] by (auto simp: table_ok_def)
    moreover have "dst (heap f c) = dst (heap fn c)"
      using inv folded_from_keeps unfolding fold_inv_def by metis
    ultimately show "c \<in> set (all_addrs f) \<and> dst (heap f c) = r \<and> r \<noteq> 0" using all_addrs_blocks [OF b] by simp
  qed
  then show "fold_stable fn f" using u b ok inv by (auto simp: fold_stable_def fold_fn_ok_def fold_inv_def)
qed

section \<open>Properties\<close>

text \<open>
  C12: Constant folding preserves behaviour. On a function in SSA form with phi nodes first, whose
  computing instructions are 64-bit integer ones with signed division and unsigned right shift, when the pass
  returns, every run of the original from registers that no instruction defines is a run of the
  folded function, with the same effects and result. (The pass folds unsigned divisions as signed
  ones, and signed right shifts arithmetically where the emitted code shifts logically.)
\<close>

theorem opt_constant_fold_sound:
  assumes "ssa_unique fn" "blocks_ok fn" "fold_fn_ok fn" "opt_constant_fold_pass fn = Some (fn', n)"
    and "\<And>r. \<rho> r \<noteq> None \<Longrightarrow> r \<notin> (\<lambda>a. dst (heap fn a)) ` set (all_addrs fn)"
    and "start fn \<rho> = Some c" "run fn c es c'"
  shows "start fn' \<rho> = Some c \<and> run fn' c es c'"
proof -
  note inv = fold_inv_pass [OF assms(3,4)]
  note st = fold_inv_folds [OF assms(3,1) inv]
  have "fold_holds fn' r v" if r: "\<rho> r = Some v" for r v
  proof (cases "const_def fn' r")
    case (Some k)
    then obtain a where "def_tab fn' r = Some a" by (auto simp: const_def_def split: option.splits)
    then have "def_tab (licm_build_def_block fn) r = Some a" using inv by (simp add: fold_inv_def)
    then have "a \<in> set (all_addrs fn)" "dst (heap fn a) = r" using licm_table_ok [of fn] by (auto simp: table_ok_def)
    with assms(5) [of r] r show ?thesis by auto
  qed (simp add: fold_holds_def)
  then have "cf.good fn fn' c" using assms(6) by (intro cf.start_good) auto
  with cf.run_folds [OF st(2,1) assms(2) _ assms(7)] cf.start_folds [OF st(1) assms(2) _ assms(6)]
  show ?thesis by simp
qed

lemma demo_passes_fold_ok: "fold_fn_ok demo_passes"
  by (simp add: fold_fn_ok_def fold_type_ok_def wide_def demo_passes_facts demo_instr MAX_INSTRS_def is_pure_def is_binop_def)

lemma demo_passes_run: "run demo_passes (At 0 [0, 1, 2, 3] (\<lambda>_. None)) [Ret (Some 40)] Halted"
proof -
  let ?e = "\<lambda>_::nat. None :: int64 option"
  let ?e1 = "set_reg 1 5 ?e"
  let ?e2 = "set_reg 2 8 ?e1"
  let ?e3 = "set_reg 3 40 ?e2"
  note d = demo_passes_facts demo_instr is_pure_def is_binop_def eval_def opnds_def value_of_def set_reg_def
  have 1: "step demo_passes (At 0 [0, 1, 2, 3] ?e) None (At 0 [1, 2, 3] ?e1)"
    using step.Pure [of demo_passes 0 ?e 5 0 "[1, 2, 3]"] by (simp add: d)
  have 2: "step demo_passes (At 0 [1, 2, 3] ?e1) None (At 0 [2, 3] ?e2)"
    using step.Pure [of demo_passes 1 ?e1 8 0 "[2, 3]"] by (simp add: d)
  have 3: "step demo_passes (At 0 [2, 3] ?e2) None (At 0 [3] ?e3)"
    using step.Pure [of demo_passes 2 ?e2 40 0 "[3]"] by (simp add: d bin_val_def)
  have 4: "step demo_passes (At 0 [3] ?e3) (Some (Ret (Some 40))) Halted"
    using step.Return [of demo_passes 3 ?e3 "[40]" 0 "[]"] by (simp add: d)
  show ?thesis using 1 2 3 4 by (meson run.intros)
qed

lemma demo_passes_fold: "opt_constant_fold_pass demo_passes \<noteq> None"
  by (simp add: opt_constant_fold_pass_def demo_passes_reach constant_fold_step_def fold_result_def const_def_def
      demo_passes_facts demo_instr licm_def_tab MAX_INSTRS_def foldable_def Let_def become_const_def)

theorem opt_constant_fold_sound_witness:
  "\<exists>fn' n. opt_constant_fold_pass demo_passes = Some (fn', n) \<and>
     run fn' (At 0 [0, 1, 2, 3] (\<lambda>_. None)) [Ret (Some 40)] Halted"
proof -
  obtain fn' n where r: "opt_constant_fold_pass demo_passes = Some (fn', n)"
    using demo_passes_fold by (cases "opt_constant_fold_pass demo_passes") auto
  have st: "start demo_passes (\<lambda>_. None) = Some (At 0 [0, 1, 2, 3] (\<lambda>_. None))"
    by (simp add: start_def body_addrs_def demo_passes_facts demo_instr mk_block_def calloc_block_def)
  from opt_constant_fold_sound [OF demo_passes_ok(1,2) demo_passes_fold_ok r _ st demo_passes_run] r show ?thesis by simp
qed

end
