(* ===== verification/StrengthReduction.thy ===== *)
theory StrengthReduction
  imports PassWalk
begin

text \<open>
  \<^verbatim>\<open>opt_strength_reduction_pass\<close> of \<open>src/zcc_ir_opt_passes.h\<close> with its helpers: multiplications,
  unsigned divisions and remainders by powers of two become shifts and masks.
\<close>

section \<open>Powers of two\<close>

definition opt_is_power_of_2 :: "int64 \<Rightarrow> bool" where
  "opt_is_power_of_2 v \<longleftrightarrow> 0 <s v \<and> v AND (v - 1) = 0"

text \<open>\<^verbatim>\<open>while (v > 1) { v >>= 1; n++; }\<close>\<close>

function log2_loop :: "int64 \<Rightarrow> nat \<Rightarrow> nat" where
  "log2_loop v n = (if 1 <s v then log2_loop (c_sar v 1) (n + 1) else n)"
  by auto

termination
  by (relation "measure (\<lambda>(v, n). nat (sint v))") (auto simp: word_sless_alt sint_c_sar_1)

declare log2_loop.simps [simp del]

definition opt_log2_exact :: "int64 \<Rightarrow> nat" where
  "opt_log2_exact v = log2_loop v 0"

section \<open>Strength reduction\<close>

text \<open>The tables are written at the new register without a test, as in \<open>make_const\<close>.\<close>

definition opt_create_const :: "func \<Rightarrow> blockid \<Rightarrow> addr \<Rightarrow> int64 \<Rightarrow> func \<times> regid" where
  "opt_create_const fn bi a k = (let new_reg = n_regs fn; new = next_addr fn in
     (upd_blk bi (link_in_block a new)
        (fn\<lparr>n_regs := new_reg + 1, next_addr := new + 1,
            heap := (heap fn)(new := calloc_instr\<lparr>op := OP_CONST, dst := new_reg, imm := k, n_src := 0\<rparr>),
            def_tab := (def_tab fn)(new_reg \<mapsto> new), def_block := (def_block fn)(new_reg := bi)\<rparr>),
      new_reg))"

text \<open>The instruction becomes \<open>x opc k\<close> for a constant made in front of it.\<close>

definition reduce_to :: "blockid \<Rightarrow> addr \<Rightarrow> opcode \<Rightarrow> regid \<Rightarrow> int64 \<Rightarrow> func \<times> nat \<Rightarrow> func \<times> nat" where
  "reduce_to bi a opc x k = (\<lambda>(fn, n). let (fn1, c) = opt_create_const fn bi a k in
     (upd_instr a (\<lambda>i. (set_src 1 c (set_src 0 x i))\<lparr>op := opc\<rparr>) fn1, n + 1))"

definition pow2_def :: "func \<Rightarrow> regid \<Rightarrow> int64 option" where
  "pow2_def fn r = (case const_def fn r of None \<Rightarrow> None
     | Some k \<Rightarrow> (if opt_is_power_of_2 k then Some k else None))"

definition reduce_mul :: "blockid \<Rightarrow> addr \<Rightarrow> func \<times> nat \<Rightarrow> func \<times> nat" where
  "reduce_mul bi a = (\<lambda>(fn, n). let i = heap fn a; r0 = src1 i; r1 = src2 i in
     if const_def fn r1 = Some 2 then (upd_instr a (\<lambda>i. (set_src 1 r0 i)\<lparr>op := OP_ADD\<rparr>) fn, n + 1)
     else if const_def fn r0 = Some 2 then (upd_instr a (\<lambda>i. (set_src 0 r1 i)\<lparr>op := OP_ADD\<rparr>) fn, n + 1)
     else case pow2_def fn r1 of
         Some k \<Rightarrow> reduce_to bi a OP_SHL r0 (of_nat (opt_log2_exact k)) (fn, n)
       | None \<Rightarrow> (case pow2_def fn r0 of
            Some k \<Rightarrow> reduce_to bi a OP_SHL r1 (of_nat (opt_log2_exact k)) (fn, n)
          | None \<Rightarrow> (fn, n)))"

definition reduce_div :: "blockid \<Rightarrow> addr \<Rightarrow> func \<times> nat \<Rightarrow> func \<times> nat" where
  "reduce_div bi a = (\<lambda>(fn, n). let i = heap fn a in
     case pow2_def fn (src2 i) of
       Some k \<Rightarrow> reduce_to bi a OP_SHR (src1 i) (of_nat (opt_log2_exact k)) (fn, n)
     | None \<Rightarrow> (fn, n))"

definition reduce_mod :: "blockid \<Rightarrow> addr \<Rightarrow> func \<times> nat \<Rightarrow> func \<times> nat" where
  "reduce_mod bi a = (\<lambda>(fn, n). let i = heap fn a in
     case pow2_def fn (src2 i) of
       Some k \<Rightarrow> reduce_to bi a OP_BAND (src1 i) (k - 1) (fn, n)
     | None \<Rightarrow> (fn, n))"

definition strength_reduction_step :: "blockid \<Rightarrow> addr \<Rightarrow> func \<times> nat \<Rightarrow> func \<times> nat" where
  "strength_reduction_step bi a = (\<lambda>(fn, n). let i = heap fn a;
       unsigned = (ir_type i = IR_TY_U32 \<or> ir_type i = IR_TY_U64) in
     if is_float i \<noteq> 0 then (fn, n)
     else if op i = OP_MUL \<and> n_src i = 2 then reduce_mul bi a (fn, n)
     else if op i = OP_DIV \<and> n_src i = 2 \<and> unsigned then reduce_div bi a (fn, n)
     else if op i = OP_MOD \<and> n_src i = 2 \<and> unsigned then reduce_mod bi a (fn, n)
     else (fn, n))"

definition opt_strength_reduction_pass :: "func \<Rightarrow> func \<times> nat" where
  "opt_strength_reduction_pass = walk strength_reduction_step"

section \<open>Inserting constants\<close>

text \<open>A new constant, linked before an instruction of its block.\<close>

lemma upd_blk_link:
  assumes "heap_ok fn" "blk_at fn bi = Some blk" "a \<in> set (instrs blk)" "blocks f = blocks fn"
  shows "blocks (upd_blk bi (link_in_block a new) f) = blocks (link_instr (Some a) new f)"
proof (rule nth_equalityI)
  fix b assume "b < length (blocks (upd_blk bi (link_in_block a new) f))"
  then have b: "b < n_blocks fn" using assms(4) by simp
  show "blocks (upd_blk bi (link_in_block a new) f) ! b = blocks (link_instr (Some a) new f) ! b"
  proof (cases "b = bi")
    case True
    with b assms(4) show ?thesis by (simp add: upd_blk_def link_instr_def)
  next
    case False
    have "a \<notin> set (instrs y)" if "blocks fn ! b = Some y" for y
      using heap_ok_disjoint [OF assms(1), of b y bi blk] heap_ok_disjoint [OF assms(1), of bi blk b y]
        that assms(2,3) b False by (fastforce simp: blk_at_Some_iff linorder_neq_iff)
    then have "map_option (link_in_block a new) (blocks fn ! b) = blocks fn ! b"
      by (cases "blocks fn ! b") (auto simp: link_in_block_def)
    with b False assms(4) show ?thesis by (simp add: upd_blk_def link_instr_def)
  qed
qed (simp add: link_instr_def)

lemma create_const_ok:
  assumes inv: "value_inv fn \<rho>" and blk: "blk_at fn bi = Some blk" "a \<in> set (instrs blk)"
    and run: "opt_create_const fn bi a k = (fn1, c)"
  shows "value_inv fn1 (\<rho>(n_regs fn := k)) \<and> values_kept fn \<rho> fn1 (\<rho>(n_regs fn := k)) \<and>
    c = n_regs fn \<and> n_regs fn1 = n_regs fn + 1 \<and> (\<forall>b \<in> set (all_addrs fn). heap fn1 b = heap fn b)"
proof -
  let ?\<rho> = "\<rho>(n_regs fn := k)" and ?new = "next_addr fn"
  let ?ci = "calloc_instr\<lparr>op := OP_CONST, dst := n_regs fn, imm := k, n_src := 0\<rparr>"
  define f where "f = fn\<lparr>n_regs := n_regs fn + 1, next_addr := ?new + 1, heap := (heap fn)(?new := ?ci),
      def_tab := (def_tab fn)(n_regs fn \<mapsto> ?new), def_block := (def_block fn)(n_regs fn := bi)\<rparr>"
  have fn1: "fn1 = upd_blk bi (link_in_block a ?new) f" and c: "c = n_regs fn"
    using run by (auto simp: opt_create_const_def Let_def f_def)
  have ok: "heap_ok fn" "counters_ok fn" "0 < n_regs fn" and m: "models fn \<rho>" and tab: "table_ok fn"
    and val: "\<And>b. b \<in> set (all_addrs fn) \<Longrightarrow> val_instr_ok (n_regs fn) (heap fn b)"
    using inv by (auto simp: value_inv_def val_fn_ok_def)
  obtain e where e: "blk_at fn 0 = Some e" using inv by (auto simp: value_inv_def val_fn_ok_def)
  have fb: "blocks f = blocks fn" by (simp add: f_def)
  define g where "g = link_instr (Some a) ?new fn"
  have bl: "blocks fn1 = blocks g"
    using upd_blk_link [OF ok(1) blk fb] by (simp add: fn1 g_def link_instr_def fb)
  have aa: "a \<in> set (all_addrs fn)" using blk set_all_addrs by blast
  note L = heap_ok_link [OF ok(1) e order_refl g_def]
  have all: "set (all_addrs fn1) = insert ?new (set (all_addrs fn))"
    using L aa all_addrs_blocks [OF bl] by auto
  have new: "?new \<notin> set (all_addrs fn)" using ok(1) by (auto simp: heap_ok_def)
  have h: "heap fn1 = (heap fn)(?new := ?ci)" and nr: "n_regs fn1 = n_regs fn + 1"
    and dt: "def_tab fn1 = (def_tab fn)(n_regs fn \<mapsto> ?new)" and na: "next_addr fn1 = ?new + 1"
    by (simp_all add: fn1 f_def)
  have hold: "heap fn1 b = heap fn b" if "b \<in> set (all_addrs fn)" for b using that new h by auto
  have vold: "value_of (heap fn b) ?\<rho> = value_of (heap fn b) \<rho>" if "b \<in> set (all_addrs fn)" for b
  proof (cases "is_pure (op (heap fn b))")
    case True
    then show ?thesis using val [OF that] by (intro value_of_cong) (auto simp: val_instr_ok_def)
  next
    case False
    then have "value_of (heap fn b) ?\<rho> = None" "value_of (heap fn b) \<rho> = None"
      by (meson not_None_eq value_of_pure)+
    then show ?thesis by simp
  qed
  have "heap_ok fn1"
    using L ok(1) all_addrs_blocks [OF bl] all unfolding heap_ok_def na by (auto simp: less_Suc_eq)
  moreover have "counters_ok fn1"
    using counters_ok_link [OF ok(2), of "Some a" ?new] bl by (simp add: counters_ok_def g_def)
  moreover have b1: "blk_at fn1 b = map_option (link_in_block a ?new) (blk_at fn b)" for b
    using blk_at_blocks [OF bl] blk_at_link [of a ?new fn] by (simp add: g_def)
  moreover have "val_instr_ok (n_regs fn1) (heap fn1 b)" if "b \<in> set (all_addrs fn1)" for b
  proof (cases "b = ?new")
    case True
    then show ?thesis using ok(3) by (simp add: h nr val_instr_ok_def wide_def opnds_def calloc_instr_def)
  next
    case False
    with that all have "b \<in> set (all_addrs fn)" by auto
    from val [OF this] hold [OF this] show ?thesis by (auto simp: val_instr_ok_def nr intro: less_SucI)
  qed
  ultimately have "val_fn_ok fn1" using e by (simp add: val_fn_ok_def nr)
  moreover have "models fn1 ?\<rho>" unfolding models_def
  proof
    fix b assume b: "b \<in> set (all_addrs fn1)"
    show "satisfies ?\<rho> (heap fn1 b)"
    proof (cases "b = ?new")
      case True
      then show ?thesis by (simp add: h satisfies_def value_of_def calloc_instr_def)
    next
      case False
      with b all have b': "b \<in> set (all_addrs fn)" by auto
      then have "satisfies \<rho> (heap fn b)" using m by (simp add: models_def)
      then show ?thesis using val [OF b'] vold [OF b'] hold [OF b'] by (simp add: satisfies_def val_instr_ok_def)
    qed
  qed
  moreover have "table_ok fn1"
    using tab all hold new ok(3) unfolding table_ok_def dt by (auto simp: h calloc_instr_def)
  ultimately have 1: "value_inv fn1 ?\<rho>" by (simp add: value_inv_def)
  have "blocks_grow fn fn1"
    unfolding blocks_grow_def
  proof (intro allI impI)
    fix b y assume y: "blk_at fn b = Some y"
    have "set (instrs y) \<subseteq> set (instrs (link_in_block a ?new y))"
      by (auto simp: link_in_block_def set_link_before)
    with y b1 show "\<exists>blk'. blk_at fn1 b = Some blk' \<and> set (instrs y) \<subseteq> set (instrs blk')" by simp
  qed
  then have "values_kept fn \<rho> fn1 ?\<rho>"
    using hold vold by (simp add: values_kept_def nr)
  with 1 c nr hold show ?thesis by simp
qed

section \<open>Strength reduction\<close>

lemma log2_loop_pow2: "m < 63 \<Longrightarrow> log2_loop (2 ^ m) n = n + m"
proof (induction m arbitrary: n)
  case 0
  then show ?case by (subst log2_loop.simps) simp
next
  case (Suc m)
  have s: "sint (2 ^ Suc m :: int64) = 2 ^ Suc m" "sint (2 ^ m :: int64) = 2 ^ m"
    using Suc.prems by (intro sint_pow2, simp)+
  then have "sint (c_sar (2 ^ Suc m) 1) = sint (2 ^ m :: int64)" by (simp add: sint_c_sar_1 del: power_Suc) simp
  then have "c_sar (2 ^ Suc m) 1 = 2 ^ m" by (rule signed_word_eqI)
  moreover have "1 <s (2 ^ Suc m :: int64)"
  proof -
    have "(1 :: int) < 2 ^ Suc m" using one_less_power [of "2 :: int" "Suc m"] by simp
    then show ?thesis using s(1) by (simp only: word_sless_alt) simp
  qed
  ultimately show ?case using Suc by (subst log2_loop.simps) (simp del: power_Suc)
qed

lemma power_of_2_cases:
  assumes "opt_is_power_of_2 k"
  obtains m where "m < 63" "k = 2 ^ m" "opt_log2_exact k = m"
proof -
  obtain m where "m < 63" "k = 2 ^ m" using assms unfolding opt_is_power_of_2_def by (blast intro: pow2_cases)
  moreover from this have "opt_log2_exact k = m" by (simp add: opt_log2_exact_def log2_loop_pow2)
  ultimately show thesis using that by blast
qed

lemma reduce_to_ok:
  assumes inv: "value_inv fn \<rho>" and blk: "blk_at fn bi = Some blk" "a \<in> set (instrs blk)"
    and p: "is_pure (op (heap fn a))" and opc: "is_binop opc" and x: "x < n_regs fn"
    and v: "value_of (heap fn a) \<rho> = bin_val64 opc (ir_type (heap fn a) = IR_TY_U64) (\<rho> x) k"
    and run: "reduce_to bi a opc x k (fn, n) = (fn', n')"
  shows "\<exists>\<rho>'. value_inv fn' \<rho>' \<and> values_kept fn \<rho> fn' \<rho>'"
proof -
  let ?i = "heap fn a" and ?\<rho> = "\<rho>(n_regs fn := k)"
  obtain fn1 c where mk: "opt_create_const fn bi a k = (fn1, c)" by fastforce
  have C: "value_inv fn1 ?\<rho>" "values_kept fn \<rho> fn1 ?\<rho>" "c = n_regs fn" "n_regs fn1 = n_regs fn + 1"
    "\<forall>b \<in> set (all_addrs fn). heap fn1 b = heap fn b"
    using create_const_ok [OF inv blk mk] by blast+
  have a: "a \<in> set (all_addrs fn)" using blk set_all_addrs by blast
  then have h: "heap fn1 a = ?i" and a1: "a \<in> set (all_addrs fn1)"
    using C(5) C(2) blocks_grow_addrs by (auto simp: values_kept_def)
  let ?i' = "(set_src 1 c (set_src 0 x ?i))\<lparr>op := opc\<rparr>"
  have w: "wide ?i" using inv a by (auto simp: value_inv_def val_fn_ok_def val_instr_ok_def)
  have nb: "opc \<noteq> OP_CONST" "opc \<noteq> OP_COPY" "opc \<noteq> OP_BNOT" using opc by (auto simp: is_binop_def)
  have w': "wide ?i'" using w by (simp add: wide_def)
  have "value_of ?i' ?\<rho> = bin_val64 opc (ir_type ?i = IR_TY_U64) (\<rho> x) k"
    using wide_value [OF w', of ?\<rho>] opc x C(3) by simp
  also have "\<dots> = value_of ?i ?\<rho>" using C(2) a h v by (auto simp: values_kept_def)
  finally have "same_value (n_regs fn1) ?\<rho> (heap fn1 a) ?i'"
    using p opc w' nb x C(3,4) by (auto simp: same_value_def h is_pure_def opnds_def)
  from value_inv_upd [OF C(1) a1 this]
  have "value_inv (upd_instr a (\<lambda>_. ?i') fn1) ?\<rho>" "values_kept fn \<rho> (upd_instr a (\<lambda>_. ?i') fn1) ?\<rho>"
    using C(2) values_kept_trans by blast+
  moreover have "fn' = upd_instr a (\<lambda>_. ?i') fn1"
    using run mk by (simp add: reduce_to_def upd_instr_def h)
  ultimately show ?thesis by blast
qed

lemma pow2_def_value:
  assumes "value_inv fn \<rho>" "pow2_def fn r = Some k"
  obtains m where "m < 63" "k = 2 ^ m" "\<rho> r = 2 ^ m" "opt_log2_exact k = m"
proof -
  have "const_def fn r = Some k" "opt_is_power_of_2 k"
    using assms(2) by (auto simp: pow2_def_def split: option.splits if_splits)
  with const_def_value [OF assms(1)] show thesis by (metis that power_of_2_cases)
qed

lemma double_ok:
  assumes inv: "value_inv fn \<rho>" and a: "a \<in> set (all_addrs fn)" "op (heap fn a) = OP_MUL"
    and k: "k = 0 \<or> k = 1" "\<rho> (src (heap fn a) k) = 2"
  shows "\<exists>\<rho>'. value_inv (upd_instr a (\<lambda>i. (set_src k (src (heap fn a) (1 - k)) i)\<lparr>op := OP_ADD\<rparr>) fn) \<rho>' \<and>
    values_kept fn \<rho> (upd_instr a (\<lambda>i. (set_src k (src (heap fn a) (1 - k)) i)\<lparr>op := OP_ADD\<rparr>) fn) \<rho>'"
proof -
  let ?i = "heap fn a"
  let ?i' = "(set_src k (src ?i (1 - k)) ?i)\<lparr>op := OP_ADD\<rparr>"
  have b: "is_binop (op ?i)" using a by (simp add: is_binop_def)
  note F = binop_facts [OF inv a(1) b]
  have w': "wide ?i'" using F(1) by (simp add: wide_def)
  have "value_of ?i' \<rho> = value_of ?i \<rho>" using wide_value [OF w', of \<rho>] F(5) k a by (auto simp: is_binop_def)
  then have "same_value (n_regs fn) \<rho> ?i ?i'"
    using w' b F k by (auto simp: same_value_def is_pure_def is_binop_def opnds_def)
  from value_inv_upd [OF inv a(1) this] show ?thesis by (auto simp: upd_instr_def)
qed

lemma reduce_mul_ok:
  assumes inv: "value_inv fn \<rho>" and blk: "blk_at fn bi = Some blk" "a \<in> set (instrs blk)"
    and o: "op (heap fn a) = OP_MUL" and run: "reduce_mul bi a (fn, n) = (fn', n')"
  shows "\<exists>\<rho>'. value_inv fn' \<rho>' \<and> values_kept fn \<rho> fn' \<rho>'"
proof -
  let ?i = "heap fn a"
  have a: "a \<in> set (all_addrs fn)" using blk set_all_addrs by blast
  have b: "is_binop (op ?i)" using o by (simp add: is_binop_def)
  note F = binop_facts [OF inv a b] and red = reduce_to_ok [OF inv blk]
  consider (r1) "const_def fn (src2 ?i) = Some 2"
    | (r0) "const_def fn (src2 ?i) \<noteq> Some 2" "const_def fn (src1 ?i) = Some 2"
    | (p1) k where "const_def fn (src2 ?i) \<noteq> Some 2" "const_def fn (src1 ?i) \<noteq> Some 2" "pow2_def fn (src2 ?i) = Some k"
    | (p0) k where "const_def fn (src2 ?i) \<noteq> Some 2" "const_def fn (src1 ?i) \<noteq> Some 2"
        "pow2_def fn (src2 ?i) = None" "pow2_def fn (src1 ?i) = Some k"
    | (none) "fn' = fn"
    using run by (fastforce simp: reduce_mul_def Let_def split: if_splits option.splits)
  then show ?thesis
  proof cases
    case r1
    then have "fn' = upd_instr a (\<lambda>i. (set_src 1 (src1 ?i) i)\<lparr>op := OP_ADD\<rparr>) fn"
      using run by (simp add: reduce_mul_def Let_def)
    with double_ok [OF inv a o, of 1] const_def_value [OF inv r1] show ?thesis by simp
  next
    case r0
    then have "fn' = upd_instr a (\<lambda>i. (set_src 0 (src2 ?i) i)\<lparr>op := OP_ADD\<rparr>) fn"
      using run by (simp add: reduce_mul_def Let_def)
    with double_ok [OF inv a o, of 0] const_def_value [OF inv r0(2)] show ?thesis by simp
  next
    case p1
    then obtain m where m: "m < 63" "k = 2 ^ m" "\<rho> (src2 ?i) = 2 ^ m" "opt_log2_exact k = m"
      using pow2_def_value [OF inv] by blast
    have "reduce_to bi a OP_SHL (src1 ?i) (of_nat m) (fn, n) = (fn', n')"
      using run p1 m(4) by (simp add: reduce_mul_def Let_def)
    from red [OF F(2) _ F(3) _ this] F(5) m o show ?thesis by (simp add: is_binop_def c_shl_pow2)
  next
    case p0
    then obtain m where m: "m < 63" "k = 2 ^ m" "\<rho> (src1 ?i) = 2 ^ m" "opt_log2_exact k = m"
      using pow2_def_value [OF inv] by blast
    have "reduce_to bi a OP_SHL (src2 ?i) (of_nat m) (fn, n) = (fn', n')"
      using run p0 m(4) by (simp add: reduce_mul_def Let_def)
    from red [OF F(2) _ F(4) _ this] F(5) m o show ?thesis by (simp add: is_binop_def c_shl_pow2 mult.commute)
  qed (use inv values_kept_refl in blast)
qed

lemma reduce_div_ok:
  assumes inv: "value_inv fn \<rho>" and blk: "blk_at fn bi = Some blk" "a \<in> set (instrs blk)"
    and o: "op (heap fn a) = OP_DIV" "ir_type (heap fn a) = IR_TY_U64" and run: "reduce_div bi a (fn, n) = (fn', n')"
  shows "\<exists>\<rho>'. value_inv fn' \<rho>' \<and> values_kept fn \<rho> fn' \<rho>'"
proof (cases "pow2_def fn (src2 (heap fn a))")
  case (Some k)
  have a: "a \<in> set (all_addrs fn)" using blk set_all_addrs by blast
  have b: "is_binop (op (heap fn a))" using o by (simp add: is_binop_def)
  note F = binop_facts [OF inv a b]
  obtain m where m: "m < 63" "\<rho> (src2 (heap fn a)) = 2 ^ m" "opt_log2_exact k = m"
    using pow2_def_value [OF inv Some] by blast
  have nz: "(2 :: int64) ^ m \<noteq> 0" using m(1) sint_pow2 [of m] by auto
  have "reduce_to bi a OP_SHR (src1 (heap fn a)) (of_nat m) (fn, n) = (fn', n')"
    using run Some m(3) by (simp add: reduce_div_def Let_def)
  from reduce_to_ok [OF inv blk F(2) _ F(3) _ this] F(5) m nz o show ?thesis by (simp add: is_binop_def c_shr_pow2)
qed (use run inv values_kept_refl in \<open>auto simp: reduce_div_def Let_def\<close>)

lemma reduce_mod_ok:
  assumes inv: "value_inv fn \<rho>" and blk: "blk_at fn bi = Some blk" "a \<in> set (instrs blk)"
    and o: "op (heap fn a) = OP_MOD" "ir_type (heap fn a) = IR_TY_U64" and run: "reduce_mod bi a (fn, n) = (fn', n')"
  shows "\<exists>\<rho>'. value_inv fn' \<rho>' \<and> values_kept fn \<rho> fn' \<rho>'"
proof (cases "pow2_def fn (src2 (heap fn a))")
  case (Some k)
  have a: "a \<in> set (all_addrs fn)" using blk set_all_addrs by blast
  have b: "is_binop (op (heap fn a))" using o by (simp add: is_binop_def)
  note F = binop_facts [OF inv a b]
  obtain m where m: "m < 63" "k = 2 ^ m" "\<rho> (src2 (heap fn a)) = 2 ^ m"
    using pow2_def_value [OF inv Some] by blast
  have nz: "(2 :: int64) ^ m \<noteq> 0" using m(1) sint_pow2 [of m] by auto
  have "reduce_to bi a OP_BAND (src1 (heap fn a)) (2 ^ m - 1) (fn, n) = (fn', n')"
    using run Some m(2) by (simp add: reduce_mod_def Let_def)
  from reduce_to_ok [OF inv blk F(2) _ F(3) _ this] F(5) m nz o show ?thesis by (simp add: is_binop_def mod_pow2_mask)
qed (use run inv values_kept_refl in \<open>auto simp: reduce_mod_def Let_def\<close>)

lemma strength_reduction_ok:
  assumes inv: "value_inv fn \<rho>" and blk: "blk_at fn bi = Some blk" "a \<in> set (instrs blk)"
    and run: "strength_reduction_step bi a (fn, n) = (fn', n')"
  shows "\<exists>\<rho>'. value_inv fn' \<rho>' \<and> values_kept fn \<rho> fn' \<rho>'"
proof -
  have "a \<in> set (all_addrs fn)" using blk set_all_addrs by blast
  then have "wide (heap fn a)" using inv by (auto simp: value_inv_def val_fn_ok_def val_instr_ok_def)
  then have w: "ir_type (heap fn a) \<noteq> IR_TY_U32" by (auto simp: wide_def)
  have "fn' = fn \<or> (op (heap fn a) = OP_MUL \<and> reduce_mul bi a (fn, n) = (fn', n')) \<or>
      (op (heap fn a) = OP_DIV \<and> ir_type (heap fn a) = IR_TY_U64 \<and> reduce_div bi a (fn, n) = (fn', n')) \<or>
      (op (heap fn a) = OP_MOD \<and> ir_type (heap fn a) = IR_TY_U64 \<and> reduce_mod bi a (fn, n) = (fn', n'))"
    using run w by (auto simp: strength_reduction_step_def Let_def split: if_splits)
  then show ?thesis
    using reduce_mul_ok [OF inv blk] reduce_div_ok [OF inv blk] reduce_mod_ok [OF inv blk] inv values_kept_refl by blast
qed

interpretation sr: value_pass strength_reduction_step value_inv
  by unfold_locales (rule strength_reduction_ok)

section \<open>Properties\<close>

text \<open>
  C13: Strength reduction preserves values. On a function with sane lists and 64-bit integer
  instructions, any register assignment that satisfies the equations of its instructions extends
  to the constants that were inserted so that it satisfies those of the reduced function; each
  instruction is still there, writes the same register and computes the same value, and lists and
  counters stay well formed.
\<close>

theorem opt_strength_reduction_sound:
  assumes "val_fn_ok fn" "models fn \<rho>" "opt_strength_reduction_pass fn = (fn', n)"
  shows "\<exists>\<rho>'. models fn' \<rho>' \<and> val_fn_ok fn' \<and> values_kept fn \<rho> fn' \<rho>'"
  using sr.walk_ok [OF licm_value_inv [OF assms(1,2)] assms(3) [unfolded opt_strength_reduction_pass_def]]
  by (auto simp: value_inv_def)

theorem opt_strength_reduction_sound_witness:
  "\<exists>\<rho>'. models (fst (opt_strength_reduction_pass demo_passes)) \<rho>' \<and> \<rho>' 3 = 40"
proof -
  obtain fn' n where r: "opt_strength_reduction_pass demo_passes = (fn', n)" by fastforce
  from opt_strength_reduction_sound [OF demo_passes_ok(3) demo_passes_models r] obtain \<rho>'
    where "models fn' \<rho>'" "values_kept demo_passes demo_regs fn' \<rho>'" by blast
  then show ?thesis by (intro exI [of _ \<rho>']) (simp add: r values_kept_def demo_passes_facts)
qed

end
