(* ===== verification/Peephole.thy ===== *)
theory Peephole
  imports PassWalk
begin

text \<open>
  \<^verbatim>\<open>opt_peephole_pass\<close> of \<open>src/zcc_ir_opt_passes.h\<close>: thirteen rules, each sound but the one that
  turns a multiplication by -1 into a copy.
\<close>

section \<open>Peephole\<close>

text \<open>
  A rule answers the new instruction. The rules of \<open>peep_first\<close> end the visit (\<^verbatim>\<open>continue\<close>), those of
  \<open>peep_rest\<close> are tried one after the other on what the earlier ones have made.
\<close>

type_synonym peep_rule = "func \<Rightarrow> addr \<Rightarrow> instr option"

definition become_copy :: "regid \<Rightarrow> instr \<Rightarrow> instr" where
  "become_copy r i = i\<lparr>op := OP_COPY, src := (src i)(0 := r), n_src := 1\<rparr>"

definition not_def :: "func \<Rightarrow> regid \<Rightarrow> regid option" where
  "not_def fn r = (case def_tab fn r of None \<Rightarrow> None
     | Some a \<Rightarrow> (if op (heap fn a) = OP_BNOT \<and> n_src (heap fn a) = 1 then Some (src1 (heap fn a)) else None))"

definition complements :: "func \<Rightarrow> instr \<Rightarrow> bool" where
  "complements fn i \<longleftrightarrow> not_def fn (src1 i) = Some (src2 i) \<or> not_def fn (src2 i) = Some (src1 i)"

definition peep_self_zero :: peep_rule where
  "peep_self_zero fn a = (let i = heap fn a in
     if (op i = OP_SUB \<or> op i = OP_BXOR) \<and> n_src i = 2 \<and> src1 i = src2 i
     then Some (become_const 0 i) else None)"

definition peep_self_copy :: peep_rule where
  "peep_self_copy fn a = (let i = heap fn a in
     if (op i = OP_BAND \<or> op i = OP_BOR) \<and> n_src i = 2 \<and> src1 i = src2 i
     then Some (become_copy (src1 i) i) else None)"

definition peep_band_not :: peep_rule where
  "peep_band_not fn a = (let i = heap fn a in
     if op i = OP_BAND \<and> n_src i = 2 \<and> complements fn i then Some (become_const 0 i) else None)"

definition peep_bor_not :: peep_rule where
  "peep_bor_not fn a = (let i = heap fn a in
     if (op i = OP_BOR \<or> op i = OP_BXOR) \<and> n_src i = 2 \<and> complements fn i
     then Some (become_const (-1) i) else None)"

definition peep_double_not :: peep_rule where
  "peep_double_not fn a = (let i = heap fn a in
     if op i = OP_BNOT \<and> n_src i = 1
     then map_option (\<lambda>r. become_copy r i) (not_def fn (src1 i)) else None)"

definition is_cmp :: "opcode \<Rightarrow> bool" where
  "is_cmp opc \<longleftrightarrow> opc \<in> {OP_EQ, OP_NE, OP_LT, OP_LE, OP_GT, OP_GE}"

fun swap_cmp :: "opcode \<Rightarrow> opcode" where
  "swap_cmp OP_LT = OP_GT"
| "swap_cmp OP_LE = OP_GE"
| "swap_cmp OP_GT = OP_LT"
| "swap_cmp OP_GE = OP_LE"
| "swap_cmp opc = opc"

definition peep_cmp_swap :: peep_rule where
  "peep_cmp_swap fn a = (let i = heap fn a in
     if is_cmp (op i) \<and> n_src i = 2 \<and> const_def fn (src1 i) \<noteq> None \<and> const_def fn (src2 i) = None
     then Some ((set_src 1 (src1 i) (set_src 0 (src2 i) i))\<lparr>op := swap_cmp (op i)\<rparr>) else None)"

definition peep_op_zero :: peep_rule where
  "peep_op_zero fn a = (let i = heap fn a;
       k1 = (if n_src i > 1 then const_def fn (src2 i) else None);
       k0 = (if n_src i > 0 then const_def fn (src1 i) else None) in
     if op i \<in> {OP_ADD, OP_SUB, OP_BOR, OP_BXOR, OP_SHL, OP_SHR} then
       (if k1 = Some 0 then
          (if op i \<noteq> OP_SHL \<and> op i \<noteq> OP_SHR then Some (become_copy (src1 i) i) else None)
        else if op i \<noteq> OP_SUB \<and> op i \<noteq> OP_SHL \<and> op i \<noteq> OP_SHR \<and> k0 = Some 0
        then Some (become_copy (src2 i) i) else None)
     else None)"

definition peep_op_one :: peep_rule where
  "peep_op_one fn a = (let i = heap fn a in
     if op i = OP_MUL \<or> op i = OP_DIV then
       (if const_def fn (src2 i) = Some 1 then Some (become_copy (src1 i) i)
        else if op i = OP_MUL \<and> const_def fn (src1 i) = Some 1 then Some (become_copy (src2 i) i)
        else None)
     else None)"

definition peep_mul_band :: peep_rule where
  "peep_mul_band fn a = (let i = heap fn a in
     if op i = OP_MUL \<or> op i = OP_BAND then
       (if const_def fn (src2 i) = Some 0 \<or> const_def fn (src1 i) = Some 0 then Some (become_const 0 i)
        else if const_def fn (src2 i) = Some (-1) then Some (become_copy (src1 i) i)
        else if const_def fn (src1 i) = Some (-1) then Some (become_copy (src2 i) i)
        else None)
     else None)"

definition peep_bor_ones :: peep_rule where
  "peep_bor_ones fn a = (let i = heap fn a in
     if op i = OP_BOR \<and> n_src i = 2 \<and> (const_def fn (src2 i) = Some (-1) \<or> const_def fn (src1 i) = Some (-1))
     then Some (become_const (-1) i) else None)"

definition peep_bxor_ones :: peep_rule where
  "peep_bxor_ones fn a = (let i = heap fn a in
     if op i = OP_BXOR \<and> n_src i = 2 then
       (if const_def fn (src2 i) = Some (-1) then Some (i\<lparr>op := OP_BNOT, n_src := 1\<rparr>)
        else if const_def fn (src1 i) = Some (-1) then Some ((set_src 0 (src2 i) i)\<lparr>op := OP_BNOT, n_src := 1\<rparr>)
        else None)
     else None)"

definition peep_cmp_self :: peep_rule where
  "peep_cmp_self fn a = (let i = heap fn a in
     if is_cmp (op i) \<and> n_src i = 2 \<and> src1 i = src2 i
     then Some (become_const (if op i = OP_EQ \<or> op i = OP_LE \<or> op i = OP_GE then 1 else 0) i) else None)"

definition peep_shift_zero :: peep_rule where
  "peep_shift_zero fn a = (let i = heap fn a in
     if (op i = OP_SHL \<or> op i = OP_SHR) \<and> n_src i = 2 \<and> const_def fn (src2 i) = Some 0
     then Some (become_copy (src1 i) i) else None)"

definition peep_first :: "peep_rule list" where
  "peep_first = [peep_self_zero, peep_self_copy, peep_band_not, peep_bor_not, peep_double_not]"

definition peep_rest :: "peep_rule list" where
  "peep_rest = [peep_cmp_swap, peep_op_zero, peep_op_one, peep_mul_band, peep_bor_ones, peep_bxor_ones,
     peep_cmp_self, peep_shift_zero]"

fun first_of :: "peep_rule list \<Rightarrow> peep_rule" where
  "first_of [] fn a = None"
| "first_of (R # Rs) fn a = (case R fn a of None \<Rightarrow> first_of Rs fn a | Some i \<Rightarrow> Some i)"

definition apply_rule :: "addr \<Rightarrow> peep_rule \<Rightarrow> func \<times> nat \<Rightarrow> func \<times> nat" where
  "apply_rule a R = (\<lambda>(fn, n). case R fn a of None \<Rightarrow> (fn, n)
     | Some i \<Rightarrow> (upd_instr a (\<lambda>_. i) fn, n + 1))"

definition peephole_step :: "blockid \<Rightarrow> addr \<Rightarrow> func \<times> nat \<Rightarrow> func \<times> nat" where
  "peephole_step bi a = (\<lambda>(fn, n).
     if is_float (heap fn a) \<noteq> 0 then (fn, n)
     else case first_of peep_first fn a of
         Some i \<Rightarrow> (upd_instr a (\<lambda>_. i) fn, n + 1)
       | None \<Rightarrow> fold (apply_rule a) peep_rest (fn, n))"

definition opt_peephole_pass :: "func \<Rightarrow> func \<times> nat" where
  "opt_peephole_pass = walk peephole_step"

section \<open>Soundness of the rules\<close>

lemma not_def_value:
  assumes "value_inv fn \<rho>" "not_def fn r = Some q"
  shows "\<rho> r = NOT (\<rho> q)" "q < n_regs fn"
proof -
  obtain b where b: "def_tab fn r = Some b" "op (heap fn b) = OP_BNOT" "src1 (heap fn b) = q"
    using assms(2) by (auto simp: not_def_def split: option.splits if_splits)
  then have l: "b \<in> set (all_addrs fn)" "dst (heap fn b) = r" "r \<noteq> 0"
    using assms(1) by (auto simp: value_inv_def table_ok_def)
  then have v: "val_instr_ok (n_regs fn) (heap fn b)" "satisfies \<rho> (heap fn b)"
    using assms(1) by (auto simp: value_inv_def val_fn_ok_def models_def)
  with b l show "\<rho> r = NOT (\<rho> q)" by (simp add: satisfies_def value_of_def val_instr_ok_def wide_def)
  show "q < n_regs fn" using v(1) b by (simp add: val_instr_ok_def is_pure_def opnds_def)
qed

text \<open>
  The rules are sound but for one: \<open>peep_mul_band\<close> turns \<open>x * -1\<close> into a copy of \<open>x\<close>. The
  invariant keeps that case out.
\<close>

definition no_neg_mul :: "func \<Rightarrow> (regid \<Rightarrow> int64) \<Rightarrow> bool" where
  "no_neg_mul fn \<rho> \<longleftrightarrow> (\<forall>a \<in> set (all_addrs fn). op (heap fn a) = OP_MUL \<longrightarrow>
     \<rho> (src1 (heap fn a)) \<noteq> -1 \<and> \<rho> (src2 (heap fn a)) \<noteq> -1)"

definition peep_inv :: "func \<Rightarrow> (regid \<Rightarrow> int64) \<Rightarrow> bool" where
  "peep_inv fn \<rho> \<longleftrightarrow> value_inv fn \<rho> \<and> no_neg_mul fn \<rho>"

definition peep_ok :: "peep_rule \<Rightarrow> bool" where
  "peep_ok R \<longleftrightarrow> (\<forall>fn \<rho> a i'. peep_inv fn \<rho> \<longrightarrow> a \<in> set (all_addrs fn) \<longrightarrow> R fn a = Some i' \<longrightarrow>
     same_value (n_regs fn) \<rho> (heap fn a) i' \<and> op i' \<noteq> OP_MUL)"

lemma peep_okI:
  assumes "\<And>fn \<rho> a i'. value_inv fn \<rho> \<Longrightarrow> no_neg_mul fn \<rho> \<Longrightarrow> a \<in> set (all_addrs fn) \<Longrightarrow> R fn a = Some i' \<Longrightarrow>
    same_value (n_regs fn) \<rho> (heap fn a) i' \<and> op i' \<noteq> OP_MUL"
  shows "peep_ok R"
  using assms by (auto simp: peep_ok_def peep_inv_def)

lemma same_value_const:
  assumes "value_inv fn \<rho>" "a \<in> set (all_addrs fn)" "is_binop (op (heap fn a))"
    "bin_val64 (op (heap fn a)) (ir_type (heap fn a) = IR_TY_U64) (\<rho> (src1 (heap fn a))) (\<rho> (src2 (heap fn a))) = Some k"
  shows "same_value (n_regs fn) \<rho> (heap fn a) (become_const k (heap fn a)) \<and> op (become_const k (heap fn a)) \<noteq> OP_MUL"
  using binop_facts [OF assms(1-3)] assms(4)
  by (auto simp: same_value_def become_const_def is_pure_def opnds_def wide_def value_of_def)

lemma same_value_copy:
  assumes "value_inv fn \<rho>" "a \<in> set (all_addrs fn)" "is_pure (op (heap fn a))" "r < n_regs fn"
    "value_of (heap fn a) \<rho> = Some (\<rho> r)"
  shows "same_value (n_regs fn) \<rho> (heap fn a) (become_copy r (heap fn a)) \<and> op (become_copy r (heap fn a)) \<noteq> OP_MUL"
proof -
  have "wide (heap fn a)" using assms(1,2) by (auto simp: value_inv_def val_fn_ok_def val_instr_ok_def)
  then show ?thesis using assms
    by (auto simp: same_value_def become_copy_def is_pure_def opnds_def wide_def value_of_def)
qed

lemma not_self [simp]: "x AND NOT x = (0 :: int64)" "NOT x AND x = 0" "x OR NOT x = -1" "NOT x OR x = -1"
  "x XOR NOT x = -1" "NOT x XOR x = -1"
  by (auto simp: bit_eq_iff bit_simps)

lemma peep_const_okI:
  assumes "\<And>fn \<rho> a i'. value_inv fn \<rho> \<Longrightarrow> R fn a = Some i' \<Longrightarrow>
    i' = become_const k (heap fn a) \<and> is_binop (op (heap fn a)) \<and>
    bin_val64 (op (heap fn a)) (ir_type (heap fn a) = IR_TY_U64) (\<rho> (src1 (heap fn a))) (\<rho> (src2 (heap fn a))) = Some k"
  shows "peep_ok R"
  using assms same_value_const by (blast intro: peep_okI)

lemma peep_self_zero_ok: "peep_ok peep_self_zero"
  by (rule peep_const_okI [of _ 0]) (auto simp: peep_self_zero_def Let_def is_binop_def split: if_splits)

lemma peep_self_copy_ok: "peep_ok peep_self_copy"
proof (rule peep_okI)
  fix fn \<rho> a i'
  assume inv: "value_inv fn \<rho>" and a: "a \<in> set (all_addrs fn)" and r: "peep_self_copy fn a = Some i'"
  then have o: "op (heap fn a) = OP_BAND \<or> op (heap fn a) = OP_BOR" "src1 (heap fn a) = src2 (heap fn a)"
    "i' = become_copy (src1 (heap fn a)) (heap fn a)"
    by (auto simp: peep_self_copy_def Let_def split: if_splits)
  then have b: "is_binop (op (heap fn a))" by (auto simp: is_binop_def)
  note F = binop_facts [OF inv a b]
  show "same_value (n_regs fn) \<rho> (heap fn a) i' \<and> op i' \<noteq> OP_MUL"
    unfolding o(3) by (rule same_value_copy [OF inv a F(2,3)]) (use F(5) o in auto)
qed

lemma complements_value: "value_inv fn \<rho> \<Longrightarrow> complements fn i \<Longrightarrow>
    \<rho> (src1 i) = NOT (\<rho> (src2 i)) \<or> \<rho> (src2 i) = NOT (\<rho> (src1 i))"
  using not_def_value by (auto simp: complements_def)

lemma peep_band_not_ok: "peep_ok peep_band_not"
  by (rule peep_const_okI [of _ 0])
    (auto simp: peep_band_not_def Let_def is_binop_def split: if_splits dest!: complements_value)

lemma peep_bor_not_ok: "peep_ok peep_bor_not"
  by (rule peep_const_okI [of _ "-1"])
    (auto simp: peep_bor_not_def Let_def is_binop_def split: if_splits dest!: complements_value)

lemma peep_double_not_ok: "peep_ok peep_double_not"
proof (rule peep_okI)
  fix fn \<rho> a i'
  assume inv: "value_inv fn \<rho>" and a: "a \<in> set (all_addrs fn)" and r: "peep_double_not fn a = Some i'"
  then obtain q where q: "op (heap fn a) = OP_BNOT" "not_def fn (src1 (heap fn a)) = Some q"
    "i' = become_copy q (heap fn a)"
    by (auto simp: peep_double_not_def Let_def split: if_splits)
  have w: "wide (heap fn a)" using inv a by (auto simp: value_inv_def val_fn_ok_def val_instr_ok_def)
  show "same_value (n_regs fn) \<rho> (heap fn a) i' \<and> op i' \<noteq> OP_MUL"
    unfolding q(3) by (rule same_value_copy [OF inv a])
      (use q not_def_value [OF inv q(2)] w in \<open>auto simp: is_pure_def value_of_def wide_def\<close>)
qed

lemma peep_cmp_swap_ok: "peep_ok peep_cmp_swap"
proof (rule peep_okI)
  fix fn \<rho> a i'
  assume inv: "value_inv fn \<rho>" and a: "a \<in> set (all_addrs fn)" and r: "peep_cmp_swap fn a = Some i'"
  let ?i = "heap fn a"
  from r have o: "is_cmp (op ?i)" "i' = (set_src 1 (src1 ?i) (set_src 0 (src2 ?i) ?i))\<lparr>op := swap_cmp (op ?i)\<rparr>"
    by (auto simp: peep_cmp_swap_def Let_def split: if_splits)
  then have b: "is_binop (op ?i)" "is_binop (swap_cmp (op ?i))" by (auto simp: is_binop_def is_cmp_def)
  note F = binop_facts [OF inv a b(1)]
  have w: "wide i'" using F(1) by (simp add: o wide_def)
  have "value_of i' \<rho> = value_of ?i \<rho>"
    using wide_value [OF w, of \<rho>] F(5) b(2) o by (auto simp: is_cmp_def c_bool_def)
  with F b w show "same_value (n_regs fn) \<rho> ?i i' \<and> op i' \<noteq> OP_MUL"
    using o(1) by (auto simp: same_value_def o(2) is_pure_def opnds_def is_cmp_def split: if_splits)
qed

text \<open>The rules that copy one operand when the other is a neutral constant.\<close>

lemma same_value_neutral:
  assumes inv: "value_inv fn \<rho>" and a: "a \<in> set (all_addrs fn)" and b: "is_binop (op (heap fn a))"
    and k: "j = 0 \<or> j = 1" "const_def fn (src (heap fn a) (1 - j)) = Some k"
    and v: "\<And>x. bin_val64 (op (heap fn a)) (ir_type (heap fn a) = IR_TY_U64)
      (if j = 0 then x else k) (if j = 0 then k else x) = Some x"
  shows "same_value (n_regs fn) \<rho> (heap fn a) (become_copy (src (heap fn a) j) (heap fn a)) \<and>
    op (become_copy (src (heap fn a) j) (heap fn a)) \<noteq> OP_MUL"
proof (rule same_value_copy [OF inv a])
  note F = binop_facts [OF inv a b]
  show "is_pure (op (heap fn a))" by (rule F)
  show "src (heap fn a) j < n_regs fn" using F(3,4) k(1) by auto
  have "\<rho> (src (heap fn a) (1 - j)) = k" by (rule const_def_value [OF inv k(2)])
  with F(5) k(1) v [of "\<rho> (src (heap fn a) j)"] show "value_of (heap fn a) \<rho> = Some (\<rho> (src (heap fn a) j))" by auto
qed

lemma peep_op_zero_ok: "peep_ok peep_op_zero"
proof (rule peep_okI)
  fix fn \<rho> a i'
  assume inv: "value_inv fn \<rho>" and a: "a \<in> set (all_addrs fn)" and r: "peep_op_zero fn a = Some i'"
  let ?i = "heap fn a"
  consider (one) "op ?i \<in> {OP_ADD, OP_SUB, OP_BOR, OP_BXOR}" "const_def fn (src2 ?i) = Some 0" "i' = become_copy (src1 ?i) ?i"
    | (two) "op ?i \<in> {OP_ADD, OP_BOR, OP_BXOR}" "const_def fn (src1 ?i) = Some 0" "i' = become_copy (src2 ?i) ?i"
    using r by (auto simp: peep_op_zero_def Let_def split: if_splits)
  then show "same_value (n_regs fn) \<rho> ?i i' \<and> op i' \<noteq> OP_MUL"
  proof cases
    case one
    then show ?thesis unfolding one(3) by (intro same_value_neutral [OF inv a, of 0 0]) (auto simp: is_binop_def)
  next
    case two
    then show ?thesis unfolding two(3) by (intro same_value_neutral [OF inv a, of 1 0]) (auto simp: is_binop_def)
  qed
qed

lemma peep_op_one_ok: "peep_ok peep_op_one"
proof (rule peep_okI)
  fix fn \<rho> a i'
  assume inv: "value_inv fn \<rho>" and a: "a \<in> set (all_addrs fn)" and r: "peep_op_one fn a = Some i'"
  let ?i = "heap fn a"
  consider (one) "op ?i \<in> {OP_MUL, OP_DIV}" "const_def fn (src2 ?i) = Some 1" "i' = become_copy (src1 ?i) ?i"
    | (two) "op ?i = OP_MUL" "const_def fn (src1 ?i) = Some 1" "i' = become_copy (src2 ?i) ?i"
    using r by (auto simp: peep_op_one_def Let_def split: if_splits)
  then show "same_value (n_regs fn) \<rho> ?i i' \<and> op i' \<noteq> OP_MUL"
  proof cases
    case one
    then show ?thesis unfolding one(3)
      by (intro same_value_neutral [OF inv a, of 0 1]) (auto simp: is_binop_def c_sdiv_1)
  next
    case two
    then show ?thesis unfolding two(3) by (intro same_value_neutral [OF inv a, of 1 1]) (auto simp: is_binop_def)
  qed
qed

lemma peep_mul_band_ok: "peep_ok peep_mul_band"
proof (rule peep_okI)
  fix fn \<rho> a i'
  assume inv: "value_inv fn \<rho>" and nn: "no_neg_mul fn \<rho>" and a: "a \<in> set (all_addrs fn)"
    and r: "peep_mul_band fn a = Some i'"
  let ?i = "heap fn a"
  consider (zero) "op ?i = OP_MUL \<or> op ?i = OP_BAND" "const_def fn (src2 ?i) = Some 0 \<or> const_def fn (src1 ?i) = Some 0"
      "i' = become_const 0 ?i"
    | (one) "op ?i = OP_MUL \<or> op ?i = OP_BAND" "const_def fn (src2 ?i) = Some (-1)" "i' = become_copy (src1 ?i) ?i"
    | (two) "op ?i = OP_MUL \<or> op ?i = OP_BAND" "const_def fn (src1 ?i) = Some (-1)" "i' = become_copy (src2 ?i) ?i"
    using r by (auto simp: peep_mul_band_def Let_def split: if_splits)
  then show "same_value (n_regs fn) \<rho> ?i i' \<and> op i' \<noteq> OP_MUL"
  proof cases
    case zero
    then show ?thesis unfolding zero(3) using const_def_value [OF inv]
      by (intro same_value_const [OF inv a]) (auto simp: is_binop_def)
  next
    case one
    then have "op ?i = OP_BAND" using nn a const_def_value [OF inv one(2)] by (auto simp: no_neg_mul_def)
    with one show ?thesis unfolding one(3) by (intro same_value_neutral [OF inv a, of 0 "-1"]) (auto simp: is_binop_def)
  next
    case two
    then have "op ?i = OP_BAND" using nn a const_def_value [OF inv two(2)] by (auto simp: no_neg_mul_def)
    with two show ?thesis unfolding two(3) by (intro same_value_neutral [OF inv a, of 1 "-1"]) (auto simp: is_binop_def)
  qed
qed

lemma peep_bor_ones_ok: "peep_ok peep_bor_ones"
  by (rule peep_const_okI [of _ "-1"])
    (auto simp: peep_bor_ones_def Let_def is_binop_def split: if_splits dest: const_def_value)

lemma peep_bxor_ones_ok: "peep_ok peep_bxor_ones"
proof (rule peep_okI)
  fix fn \<rho> a i'
  assume inv: "value_inv fn \<rho>" and a: "a \<in> set (all_addrs fn)" and r: "peep_bxor_ones fn a = Some i'"
  let ?i = "heap fn a"
  have x: "op ?i = OP_BXOR"
    "(const_def fn (src2 ?i) = Some (-1) \<and> i' = ?i\<lparr>op := OP_BNOT, n_src := 1\<rparr>) \<or>
     (const_def fn (src1 ?i) = Some (-1) \<and> i' = (set_src 0 (src2 ?i) ?i)\<lparr>op := OP_BNOT, n_src := 1\<rparr>)"
    using r by (auto simp: peep_bxor_ones_def Let_def split: if_splits)
  then have b: "is_binop (op ?i)" by (simp add: is_binop_def)
  note F = binop_facts [OF inv a b]
  have "x XOR -1 = NOT x" "-1 XOR x = NOT x" for x :: int64 by (auto simp: bit_eq_iff bit_simps)
  then show "same_value (n_regs fn) \<rho> ?i i' \<and> op i' \<noteq> OP_MUL"
    using x F const_def_value [OF inv]
    by (auto simp: same_value_def is_pure_def opnds_def wide_def value_of_def)
qed

lemma peep_cmp_self_ok: "peep_ok peep_cmp_self"
proof (rule peep_okI)
  fix fn \<rho> a i'
  assume inv: "value_inv fn \<rho>" and a: "a \<in> set (all_addrs fn)" and r: "peep_cmp_self fn a = Some i'"
  let ?i = "heap fn a"
  from r have o: "is_cmp (op ?i)" "src1 ?i = src2 ?i"
    "i' = become_const (if op ?i = OP_EQ \<or> op ?i = OP_LE \<or> op ?i = OP_GE then 1 else 0) ?i"
    by (auto simp: peep_cmp_self_def Let_def split: if_splits)
  show "same_value (n_regs fn) \<rho> ?i i' \<and> op i' \<noteq> OP_MUL"
    unfolding o(3) using o by (intro same_value_const [OF inv a]) (auto simp: is_binop_def is_cmp_def c_bool_def)
qed

lemma peep_shift_zero_ok: "peep_ok peep_shift_zero"
proof (rule peep_okI)
  fix fn \<rho> a i'
  assume inv: "value_inv fn \<rho>" and a: "a \<in> set (all_addrs fn)" and r: "peep_shift_zero fn a = Some i'"
  let ?i = "heap fn a"
  from r have o: "op ?i = OP_SHL \<or> op ?i = OP_SHR" "const_def fn (src2 ?i) = Some 0" "i' = become_copy (src1 ?i) ?i"
    by (auto simp: peep_shift_zero_def Let_def split: if_splits)
  show "same_value (n_regs fn) \<rho> ?i i' \<and> op i' \<noteq> OP_MUL"
    unfolding o(3) using o by (intro same_value_neutral [OF inv a, of 0 0]) (auto simp: is_binop_def)
qed

lemmas peep_rules_ok = peep_self_zero_ok peep_self_copy_ok peep_band_not_ok peep_bor_not_ok peep_double_not_ok
  peep_cmp_swap_ok peep_op_zero_ok peep_op_one_ok peep_mul_band_ok peep_bor_ones_ok peep_bxor_ones_ok
  peep_cmp_self_ok peep_shift_zero_ok

lemma peep_rule_step:
  assumes R: "peep_ok R" and inv: "peep_inv fn \<rho>" and a: "a \<in> set (all_addrs fn)" and s: "R fn a = Some i'"
  shows "peep_inv (upd_instr a (\<lambda>_. i') fn) \<rho>" "values_kept fn \<rho> (upd_instr a (\<lambda>_. i') fn) \<rho>"
proof -
  have v: "same_value (n_regs fn) \<rho> (heap fn a) i'" "op i' \<noteq> OP_MUL"
    using assms by (auto simp: peep_ok_def)
  have i: "value_inv fn \<rho>" "no_neg_mul fn \<rho>" using inv by (auto simp: peep_inv_def)
  have "no_neg_mul (upd_instr a (\<lambda>_. i') fn) \<rho>"
    unfolding no_neg_mul_def
  proof (intro ballI impI)
    fix b assume b: "b \<in> set (all_addrs (upd_instr a (\<lambda>_. i') fn))" "op (heap (upd_instr a (\<lambda>_. i') fn) b) = OP_MUL"
    then have n: "b \<noteq> a" "b \<in> set (all_addrs fn)" using v(2) by auto
    then have h: "heap (upd_instr a (\<lambda>_. i') fn) b = heap fn b" by simp
    show "\<rho> (src1 (heap (upd_instr a (\<lambda>_. i') fn) b)) \<noteq> -1 \<and>
        \<rho> (src2 (heap (upd_instr a (\<lambda>_. i') fn) b)) \<noteq> -1"
      using i(2) n(2) b(2) unfolding no_neg_mul_def h by blast
  qed
  with value_inv_upd(1) [OF i(1) a v(1)] show "peep_inv (upd_instr a (\<lambda>_. i') fn) \<rho>" by (simp add: peep_inv_def)
  show "values_kept fn \<rho> (upd_instr a (\<lambda>_. i') fn) \<rho>" by (rule value_inv_upd(2) [OF i(1) a v(1)])
qed

lemma peep_okD: "peep_ok R \<Longrightarrow> peep_inv fn \<rho> \<Longrightarrow> a \<in> set (all_addrs fn) \<Longrightarrow> R fn a = Some i' \<Longrightarrow>
    same_value (n_regs fn) \<rho> (heap fn a) i' \<and> op i' \<noteq> OP_MUL"
  unfolding peep_ok_def by blast

lemma first_of_ok: "(\<And>R. R \<in> set Rs \<Longrightarrow> peep_ok R) \<Longrightarrow> peep_ok (first_of Rs)"
proof (induction Rs)
  case (Cons R Rs)
  then have R: "peep_ok R" and Rs: "peep_ok (first_of Rs)" by simp_all
  show ?case unfolding peep_ok_def
  proof (intro allI impI)
    fix fn \<rho> a i'
    assume "peep_inv fn \<rho>" "a \<in> set (all_addrs fn)" "first_of (R # Rs) fn a = Some i'"
    then show "same_value (n_regs fn) \<rho> (heap fn a) i' \<and> op i' \<noteq> OP_MUL"
      using peep_okD [OF R] peep_okD [OF Rs] by (cases "R fn a") simp_all
  qed
qed (simp add: peep_ok_def)

lemma apply_rules_ok:
  assumes "\<And>R. R \<in> set Rs \<Longrightarrow> peep_ok R" "peep_inv fn \<rho>" "a \<in> set (all_addrs fn)"
    "fold (apply_rule a) Rs (fn, n) = (fn', n')"
  shows "peep_inv fn' \<rho> \<and> values_kept fn \<rho> fn' \<rho>"
  using assms
proof (induction Rs arbitrary: fn n)
  case Nil
  then show ?case using values_kept_refl by auto
next
  case (Cons R Rs)
  show ?case
  proof (cases "R fn a")
    case None
    with Cons show ?thesis by (simp add: apply_rule_def)
  next
    case (Some i')
    let ?fn = "upd_instr a (\<lambda>_. i') fn"
    have "peep_ok R" using Cons.prems(1) by simp
    note S = peep_rule_step [OF this Cons.prems(2,3) Some]
    have "peep_inv fn' \<rho> \<and> values_kept ?fn \<rho> fn' \<rho>"
      by (rule Cons.IH) (use Cons.prems Some S in \<open>auto simp: apply_rule_def\<close>)
    with S(2) values_kept_trans show ?thesis by blast
  qed
qed

lemma peephole_ok:
  assumes inv: "peep_inv fn \<rho>" and blk: "blk_at fn bi = Some blk" "a \<in> set (instrs blk)"
    and run: "peephole_step bi a (fn, n) = (fn', n')"
  shows "\<exists>\<rho>'. peep_inv fn' \<rho>' \<and> values_kept fn \<rho> fn' \<rho>'"
proof -
  have a: "a \<in> set (all_addrs fn)" using blk set_all_addrs by blast
  have R: "peep_ok R" if "R \<in> set peep_first \<or> R \<in> set peep_rest" for R
    using that peep_rules_ok by (auto simp: peep_first_def peep_rest_def)
  have f: "peep_ok (first_of peep_first)" by (rule first_of_ok) (use R in blast)
  have "peep_inv fn' \<rho> \<and> values_kept fn \<rho> fn' \<rho>"
  proof (cases "is_float (heap fn a) = 0")
    case False
    then have "fn' = fn" using run by (simp add: peephole_step_def)
    with inv values_kept_refl show ?thesis by blast
  next
    case True
    show ?thesis
    proof (cases "first_of peep_first fn a")
      case None
      then have "fold (apply_rule a) peep_rest (fn, n) = (fn', n')" using run True by (simp add: peephole_step_def)
      with R inv a show ?thesis by (intro apply_rules_ok) auto
    next
      case (Some i')
      then have "fn' = upd_instr a (\<lambda>_. i') fn" using run True by (simp add: peephole_step_def)
      with peep_rule_step [OF f inv a Some] show ?thesis by simp
    qed
  qed
  then show ?thesis by blast
qed

interpretation pp: value_pass peephole_step peep_inv
  by unfold_locales (rule peephole_ok)

section \<open>Properties\<close>



definition demo_neg :: func where
  "demo_neg = mk_func [mk_block [0, 1, 2, 3] [] []]
     [mk_const 1 5, mk_const 2 (-1), mk_instr OP_MUL 3 [1, 2], mk_instr OP_RET 0 [3]] 4"

lemma demo_neg_facts:
  "reach_list demo_neg = [(0, 0), (0, 1), (0, 2), (0, 3)]" "all_addrs demo_neg = [0, 1, 2, 3]"
  "heap demo_neg 0 = mk_const 1 5" "heap demo_neg (Suc 0) = mk_const 2 (-1)"
  "heap demo_neg 2 = mk_instr OP_MUL 3 [1, 2]" "heap demo_neg 3 = mk_instr OP_RET 0 [3]"
  by (auto simp: demo_neg_def blk_at_def mk_func_def mk_block_def calloc_block_def all_addrs_def blk_instrs_def
      reach_list_def)

lemma demo_neg_tab: "def_tab (licm_build_def_block demo_neg) = [1 \<mapsto> 0, 2 \<mapsto> 1, 3 \<mapsto> 2]"
  by (simp add: licm_def_tab demo_neg_facts demo_instr MAX_INSTRS_def)

lemma demo_neg_step:
  "peephole_step 0 0 (licm_build_def_block demo_neg, 0) = (licm_build_def_block demo_neg, 0)"
  "peephole_step 0 (Suc 0) (licm_build_def_block demo_neg, 0) = (licm_build_def_block demo_neg, 0)"
  "peephole_step 0 2 (licm_build_def_block demo_neg, 0) =
     (upd_instr 2 (\<lambda>_. become_copy 1 (mk_instr OP_MUL 3 [1, 2])) (licm_build_def_block demo_neg), Suc 0)"
  "heap f 3 = mk_instr OP_RET 0 [3] \<Longrightarrow> peephole_step 0 3 (f, n) = (f, n)"
  by (simp_all add: peephole_step_def peep_first_def peep_rest_def apply_rule_def peep_self_zero_def peep_self_copy_def
      peep_band_not_def peep_bor_not_def peep_double_not_def peep_cmp_swap_def peep_op_zero_def peep_op_one_def
      peep_mul_band_def peep_bor_ones_def peep_bxor_ones_def peep_cmp_self_def peep_shift_zero_def is_cmp_def
      demo_neg_facts demo_instr Let_def const_def_def demo_neg_tab become_copy_def)

lemma demo_neg_pass: "opt_peephole_pass demo_neg =
    (upd_instr 2 (\<lambda>_. become_copy 1 (mk_instr OP_MUL 3 [1, 2])) (licm_build_def_block demo_neg), Suc 0)"
proof -
  have "\<not> dead (heap demo_neg a)" if "a \<in> {0, 1, 2, 3}" for a
    using that by (auto simp: demo_neg_facts demo_instr)
  then show ?thesis
    by (simp add: opt_peephole_pass_def walk_def Let_def demo_neg_facts demo_neg_step)
      (simp add: demo_instr demo_neg_step demo_neg_facts)
qed

text \<open>
  C15: The peephole pass turns a multiplication by -1 into a copy: of \<open>5 * -1\<close> it makes \<open>5\<close>. The
  rule for \<open>BAND x, -1\<close> shares its branch with \<^verbatim>\<open>OP_MUL\<close>.
\<close>

theorem peephole_drops_negation:
  "let i = heap demo_neg 2; i' = heap (fst (opt_peephole_pass demo_neg)) 2; \<rho> = (\<lambda>r. if r = 1 then 5 else -1) in
   op i = OP_MUL \<and> value_of i \<rho> = Some (-5) \<and> op i' = OP_COPY \<and> value_of i' \<rho> = Some 5"
  by (simp add: demo_neg_pass demo_neg_facts Let_def)
    (simp add: demo_instr become_copy_def value_of_def bin_val_def)

end
