(* ===== verification/CopyProp.thy ===== *)
theory CopyProp
  imports PassWalk
begin

text \<open>
  \<^verbatim>\<open>opt_copy_prop_pass\<close> of \<open>src/zcc_ir_opt_passes.h\<close>: the map of copies, its chains, and the
  operands it replaces.
\<close>

section \<open>Copy propagation\<close>

text \<open>
  \<^verbatim>\<open>copy_map\<close>: the source of the copy that defines a register, 0 for none. The code has an array of
  \<open>MAX_INSTRS\<close> entries and does not test the destination it writes at; the map takes every write.
\<close>

type_synonym copy_map = "regid \<Rightarrow> regid"

definition plain_copy :: "instr \<Rightarrow> bool" where
  "plain_copy i \<longleftrightarrow> op i = OP_COPY \<and> n_src i = 1 \<and> \<not> sbt_has_cast i \<and> is_float i = 0 \<and> src_is_float i = 0"

definition collect_copies :: "func \<Rightarrow> copy_map" where
  "collect_copies fn = fold (\<lambda>(bi, a) cm. let i = heap fn a in
     if dead i then cm else if plain_copy i then cm(dst i := src1 i) else cm) (reach_list fn) (\<lambda>_. 0)"

text \<open>\<^verbatim>\<open>while (copy_map[curr] && depth++ < 50) curr = copy_map[curr]\<close>\<close>

fun chase :: "nat \<Rightarrow> copy_map \<Rightarrow> regid \<Rightarrow> regid" where
  "chase 0 cm r = r"
| "chase (Suc n) cm r = (if cm r \<noteq> 0 then chase n cm (cm r) else r)"

definition resolve_chains :: "copy_map \<Rightarrow> copy_map" where
  "resolve_chains cm = fold (\<lambda>i cm. if cm i \<noteq> 0 then cm(i := chase 50 cm (cm i)) else cm) [1..<MAX_INSTRS] cm"

definition via :: "copy_map \<Rightarrow> regid \<Rightarrow> regid" where
  "via cm r = (if cm r \<noteq> 0 then cm r else r)"

definition propagate_src :: "copy_map \<Rightarrow> instr \<Rightarrow> instr" where
  "propagate_src cm i = i\<lparr>src := (\<lambda>k. if k < n_src i \<and> op i \<noteq> OP_BR \<and> \<not> (op i = OP_CONDBR \<and> k \<ge> 1)
     then via cm (src i k) else src i k)\<rparr>"

definition propagate_args :: "copy_map \<Rightarrow> instr \<Rightarrow> instr" where
  "propagate_args cm i = (if op i = OP_CALL then i\<lparr>call_args := map (via cm) (call_args i)\<rparr> else i)"

definition propagate_phi :: "copy_map \<Rightarrow> instr \<Rightarrow> instr" where
  "propagate_phi cm i = (if op i = OP_PHI then i\<lparr>phi := map (\<lambda>(r, b). (via cm r, b)) (phi i)\<rparr> else i)"

definition propagate_ret :: "copy_map \<Rightarrow> instr \<Rightarrow> instr" where
  "propagate_ret cm i = (if op i = OP_RET \<and> n_src i = 1 then set_src 0 (via cm (src1 i)) i else i)"

definition propagate_instr :: "copy_map \<Rightarrow> instr \<Rightarrow> instr" where
  "propagate_instr cm i = propagate_ret cm (propagate_phi cm (propagate_args cm (propagate_src cm i)))"

definition count_hits :: "copy_map \<Rightarrow> regid list \<Rightarrow> nat" where
  "count_hits cm rs = length (filter (\<lambda>r. cm r \<noteq> 0) rs)"

definition propagate_count :: "copy_map \<Rightarrow> instr \<Rightarrow> nat" where
  "propagate_count cm i =
     count_hits cm (map (src i) (filter (\<lambda>k. op i \<noteq> OP_BR \<and> \<not> (op i = OP_CONDBR \<and> k \<ge> 1)) [0..<n_src i])) +
     (if op i = OP_CALL then count_hits cm (call_args i) else 0) +
     (if op i = OP_PHI then count_hits cm (map fst (phi i)) else 0) +
     (if op i = OP_RET \<and> n_src i = 1 then count_hits cm [src1 (propagate_src cm i)] else 0)"

definition copy_prop_step :: "copy_map \<Rightarrow> blockid \<Rightarrow> addr \<Rightarrow> func \<times> nat \<Rightarrow> func \<times> nat" where
  "copy_prop_step cm bi a = (\<lambda>(fn, n).
     (upd_instr a (propagate_instr cm) fn, n + propagate_count cm (heap fn a)))"

definition opt_copy_prop_pass :: "func \<Rightarrow> func \<times> nat" where
  "opt_copy_prop_pass fn =
     walk (copy_prop_step (resolve_chains (collect_copies (licm_build_def_block fn)))) fn"

section \<open>What the map says\<close>

text \<open>Every entry of the map names a register of the same value.\<close>

definition copies_ok :: "(regid \<Rightarrow> int64) \<Rightarrow> copy_map \<Rightarrow> bool" where
  "copies_ok \<rho> cm \<longleftrightarrow> (\<forall>r. cm r \<noteq> 0 \<longrightarrow> \<rho> (cm r) = \<rho> r)"

lemma via_value: "copies_ok \<rho> cm \<Longrightarrow> \<rho> (via cm r) = \<rho> r"
  by (simp add: via_def copies_ok_def)

lemma chase_value: "copies_ok \<rho> cm \<Longrightarrow> \<rho> (chase n cm r) = \<rho> r"
  by (induction n arbitrary: r) (auto simp: copies_ok_def)

lemma resolve_chains_ok: "copies_ok \<rho> cm \<Longrightarrow> copies_ok \<rho> (resolve_chains cm)"
  unfolding resolve_chains_def
proof (rule fold_invariant [where I = "copies_ok \<rho>"])
  fix i and cm :: copy_map
  assume "copies_ok \<rho> cm"
  with chase_value [OF this, of 50 "cm i"] show "copies_ok \<rho> (if cm i \<noteq> 0 then cm(i := chase 50 cm (cm i)) else cm)"
    by (simp add: copies_ok_def)
qed

lemma collect_copies_ok:
  assumes "models fn \<rho>" "\<And>a. a \<in> set (all_addrs fn) \<Longrightarrow> is_pure (op (heap fn a)) \<Longrightarrow> dst (heap fn a) \<noteq> 0 \<and> \<not> is32 (ir_type (heap fn a))"
  shows "copies_ok \<rho> (collect_copies fn)"
  unfolding collect_copies_def
proof (rule fold_invariant [where I = "copies_ok \<rho>"])
  fix x :: "blockid \<times> addr" and cm
  assume x: "x \<in> set (reach_list fn)" and cm: "copies_ok \<rho> cm"
  obtain bi a where ba: "x = (bi, a)" by (cases x)
  with x have a: "a \<in> set (all_addrs fn)" using reach_list_all_addrs by blast
  have "\<rho> (dst (heap fn a)) = \<rho> (src1 (heap fn a))" if "plain_copy (heap fn a)"
  proof -
    have "satisfies \<rho> (heap fn a)" "dst (heap fn a) \<noteq> 0" "\<not> is32 (ir_type (heap fn a))"
      using assms a that by (auto simp: models_def plain_copy_def is_pure_def)
    with that show ?thesis by (simp add: plain_copy_def satisfies_def value_of_def)
  qed
  with cm show "copies_ok \<rho> ((case x of (bi, a) \<Rightarrow> \<lambda>cm. let i = heap fn a in
      if dead i then cm else if plain_copy i then cm(dst i := src1 i) else cm) cm)"
    by (auto simp: ba copies_ok_def Let_def)
qed (simp add: copies_ok_def)

text \<open>An instruction that reads other registers with the same values.\<close>

definition same_reads :: "(regid \<Rightarrow> int64) \<Rightarrow> instr \<Rightarrow> instr \<Rightarrow> bool" where
  "same_reads \<rho> i i' \<longleftrightarrow> op i' = op i \<and> dst i' = dst i \<and> imm i' = imm i \<and> n_src i' = n_src i \<and>
     ir_type i' = ir_type i \<and> is_float i' = is_float i \<and> src_is_float i' = src_is_float i \<and>
     (\<forall>k. if is_reg_operand (op i) k then \<rho> (src i' k) = \<rho> (src i k) else src i' k = src i k) \<and>
     map \<rho> (call_args i') = map \<rho> (call_args i) \<and>
     map (\<lambda>(r, b). (\<rho> r, b)) (phi i') = map (\<lambda>(r, b). (\<rho> r, b)) (phi i)"

lemma propagate_same_reads:
  assumes "copies_ok \<rho> cm"
  shows "same_reads \<rho> i (propagate_instr cm i)"
proof -
  have [simp]: "\<rho> (via cm r) = \<rho> r" for r by (rule via_value [OF assms])
  show ?thesis
    by (auto simp: same_reads_def propagate_instr_def propagate_ret_def propagate_phi_def propagate_args_def
        propagate_src_def is_reg_operand_def comp_def split_beta)
qed

lemma same_reads_value:
  assumes "same_reads \<rho> i i'"
  shows "value_of i' \<rho> = value_of i \<rho>"
proof (cases "is_pure (op i)")
  case True
  then have "\<rho> (src1 i') = \<rho> (src1 i)" "\<rho> (src2 i') = \<rho> (src2 i)"
    using assms by (cases "op i"; simp add: same_reads_def is_reg_operand_def)+
  with assms show ?thesis by (simp add: value_of_def same_reads_def)
next
  case False
  have "op i' = op i" using assms by (simp add: same_reads_def)
  with False have "value_of i \<rho> = None" "value_of i' \<rho> = None" by (metis not_None_eq value_of_pure)+
  then show ?thesis by simp
qed

lemma same_reads_refl: "same_reads \<rho> i i"
  by (simp add: same_reads_def)

lemma same_reads_trans: "same_reads \<rho> i j \<Longrightarrow> same_reads \<rho> j k \<Longrightarrow> same_reads \<rho> i k"
  unfolding same_reads_def by (simp split: if_splits)

lemma copy_prop_walk:
  assumes "copies_ok \<rho> cm" "walk (copy_prop_step cm) fn = (fn', n)"
  shows "blocks fn' = blocks fn \<and> n_regs fn' = n_regs fn \<and> (\<forall>a. same_reads \<rho> (heap fn a) (heap fn' a))"
proof -
  let ?I = "\<lambda>st :: func \<times> nat. blocks (fst st) = blocks fn \<and> n_regs (fst st) = n_regs fn \<and>
    (\<forall>a. same_reads \<rho> (heap fn a) (heap (fst st) a))"
  have "?I (walk (copy_prop_step cm) fn)"
    unfolding walk_def Let_def
  proof (rule fold_invariant [where I = ?I])
    fix x :: "blockid \<times> addr" and st :: "func \<times> nat" assume I: "?I st"
    obtain bi a where x: "x = (bi, a)" by (cases x)
    obtain f m where st: "st = (f, m)" by (cases st)
    have "same_reads \<rho> (heap fn a) (propagate_instr cm (heap f a))"
      using I by (intro same_reads_trans [OF _ propagate_same_reads [OF assms(1)]]) (simp add: st)
    then show "?I ((\<lambda>(bi, a) (fn, n). if dead (heap fn a) then (fn, n) else copy_prop_step cm bi a (fn, n)) x st)"
      using I by (simp add: x st copy_prop_step_def)
  qed (simp add: same_reads_refl)
  with assms(2) show ?thesis by simp
qed

lemma copy_prop_ok:
  assumes m: "models fn \<rho>" and d: "\<And>a. a \<in> set (all_addrs fn) \<Longrightarrow> is_pure (op (heap fn a)) \<Longrightarrow> dst (heap fn a) \<noteq> 0 \<and> \<not> is32 (ir_type (heap fn a))"
    and run: "opt_copy_prop_pass fn = (fn', n)"
  shows "blocks fn' = blocks fn \<and> models fn' \<rho> \<and> (\<forall>a. same_reads \<rho> (heap fn a) (heap fn' a))"
proof -
  have "copies_ok \<rho> (resolve_chains (collect_copies (licm_build_def_block fn)))"
    by (intro resolve_chains_ok collect_copies_ok) (use m d in \<open>simp_all add: models_def\<close>)
  from copy_prop_walk [OF this run [unfolded opt_copy_prop_pass_def]]
  have b: "blocks fn' = blocks fn" and s: "\<And>a. same_reads \<rho> (heap fn a) (heap fn' a)" by auto
  have "satisfies \<rho> (heap fn' a)" if a: "a \<in> set (all_addrs fn')" for a
  proof -
    have "satisfies \<rho> (heap fn a)" using a m all_addrs_blocks [OF b] by (simp add: models_def)
    moreover have "dst (heap fn' a) = dst (heap fn a)" using s [of a] by (simp add: same_reads_def)
    ultimately show ?thesis using same_reads_value [OF s [of a]] by (simp add: satisfies_def)
  qed
  with b s show ?thesis by (simp add: models_def)
qed

section \<open>Properties\<close>



end
