(* ===== verification/AddressMode.thy ===== *)
theory AddressMode
  imports PassWalk
begin

text \<open>
  \<^verbatim>\<open>opt_address_mode_folding_pass\<close> of \<open>src/zcc_ir_opt_passes.h\<close>: an addition of a constant becomes
  the displacement of the load or store that uses it.
\<close>

section \<open>Address-mode folding\<close>

definition addr_slot :: "instr \<Rightarrow> nat" where
  "addr_slot i = (if op i = OP_LOAD then 0 else 1)"

text \<open>The base register and displacement of an addition with a constant.\<close>

definition base_disp :: "func \<Rightarrow> regid \<Rightarrow> (regid \<times> int64) option" where
  "base_disp fn r = (if r = 0 \<or> r \<ge> MAX_INSTRS then None else
     case def_tab fn r of None \<Rightarrow> None
     | Some a \<Rightarrow> (let i = heap fn a; s0 = src1 i; s1 = src2 i in
         if op i = OP_ADD \<and> n_src i = 2 \<and> s0 < MAX_INSTRS \<and> s1 < MAX_INSTRS then
           (case const_def fn s1 of
              Some k \<Rightarrow> Some (s0, k)
            | None \<Rightarrow> (case const_def fn s0 of Some k \<Rightarrow> Some (s1, k) | None \<Rightarrow> None))
         else None))"

definition amf_step :: "blockid \<Rightarrow> addr \<Rightarrow> func \<times> nat \<Rightarrow> func \<times> nat" where
  "amf_step bi a = (\<lambda>(fn, n). let i = heap fn a in
     if op i = OP_LOAD \<or> op i = OP_STORE then
       (case base_disp fn (src i (addr_slot i)) of
          None \<Rightarrow> (fn, n)
        | Some (b, k) \<Rightarrow>
            (if b \<noteq> 0 \<and> - 2147483648 \<le>s k \<and> k \<le>s 2147483647
             then (upd_instr a (\<lambda>i. (set_src (addr_slot i) b i)\<lparr>amf := \<lparr>folded = True, base = b, disp = k\<rparr>\<rparr>) fn, n + 1)
             else (fn, n)))
     else (fn, n))"

definition opt_address_mode_folding_pass :: "func \<Rightarrow> func \<times> nat" where
  "opt_address_mode_folding_pass = walk amf_step"

section \<open>The address is the same\<close>

text \<open>The address a load or store accesses: its register plus the folded displacement.\<close>

definition mem_addr :: "(regid \<Rightarrow> int64) \<Rightarrow> instr \<Rightarrow> int64" where
  "mem_addr \<rho> i = \<rho> (src i (addr_slot i)) + (if folded (amf i) then disp (amf i) else 0)"

definition is_mem :: "instr \<Rightarrow> bool" where
  "is_mem i \<longleftrightarrow> op i = OP_LOAD \<or> op i = OP_STORE"

lemma base_disp_value:
  assumes inv: "value_inv fn \<rho>" and b: "base_disp fn r = Some (b, k)"
  shows "\<rho> b + k = \<rho> r"
proof -
  obtain a where a: "def_tab fn r = Some a" "op (heap fn a) = OP_ADD"
    and c: "(const_def fn (src2 (heap fn a)) = Some k \<and> b = src1 (heap fn a)) \<or>
      (const_def fn (src1 (heap fn a)) = Some k \<and> b = src2 (heap fn a))"
    using b by (auto simp: base_disp_def Let_def split: if_splits option.splits)
  then have l: "a \<in> set (all_addrs fn)" "dst (heap fn a) = r" "r \<noteq> 0"
    using inv by (auto simp: value_inv_def table_ok_def)
  have "is_binop (op (heap fn a))" using a by (simp add: is_binop_def)
  from binop_facts(5) [OF inv l(1) this] have "value_of (heap fn a) \<rho> = Some (\<rho> (src1 (heap fn a)) + \<rho> (src2 (heap fn a)))"
    using a by simp
  moreover have "satisfies \<rho> (heap fn a)" using inv l by (auto simp: value_inv_def models_def)
  ultimately have "\<rho> r = \<rho> (src1 (heap fn a)) + \<rho> (src2 (heap fn a))" using l by (simp add: satisfies_def)
  with c const_def_value [OF inv] show ?thesis by (auto simp: add.commute)
qed

definition amf_rel :: "(regid \<Rightarrow> int64) \<Rightarrow> instr \<Rightarrow> instr \<Rightarrow> bool" where
  "amf_rel \<rho> i i' \<longleftrightarrow> i' = i \<or> (is_mem i \<and> (\<exists>b k. i' = (set_src (addr_slot i) b i)\<lparr>amf := \<lparr>folded = True, base = b, disp = k\<rparr>\<rparr> \<and>
     \<rho> b + k = \<rho> (src i (addr_slot i)) \<and> - 2147483648 \<le>s k \<and> k \<le>s 2147483647))"

lemma amf_step_ok:
  assumes inv: "value_inv fn \<rho>" and a: "a \<in> set (all_addrs fn)" and run: "amf_step bi a (fn, n) = (fn', n')"
  shows "value_inv fn' \<rho> \<and> blocks fn' = blocks fn \<and> amf_rel \<rho> (heap fn a) (heap fn' a) \<and> (\<forall>b. b \<noteq> a \<longrightarrow> heap fn' b = heap fn b)"
proof -
  let ?i = "heap fn a"
  have "fn' = fn \<or> (\<exists>b k. is_mem ?i \<and> base_disp fn (src ?i (addr_slot ?i)) = Some (b, k) \<and>
      - 2147483648 \<le>s k \<and> k \<le>s 2147483647 \<and>
      fn' = upd_instr a (\<lambda>i. (set_src (addr_slot ?i) b i)\<lparr>amf := \<lparr>folded = True, base = b, disp = k\<rparr>\<rparr>) fn)"
    using run by (auto simp: amf_step_def is_mem_def Let_def upd_instr_def split: if_splits option.splits)
  then show ?thesis
  proof (elim disjE exE conjE)
    assume "fn' = fn"
    with inv show ?thesis by (simp add: amf_rel_def)
  next
    fix b k
    let ?i' = "(set_src (addr_slot ?i) b ?i)\<lparr>amf := \<lparr>folded = True, base = b, disp = k\<rparr>\<rparr>"
    assume m: "is_mem ?i" and bd: "base_disp fn (src ?i (addr_slot ?i)) = Some (b, k)"
      and r: "- 2147483648 \<le>s k" "k \<le>s 2147483647"
      and fn': "fn' = upd_instr a (\<lambda>i. (set_src (addr_slot ?i) b i)\<lparr>amf := \<lparr>folded = True, base = b, disp = k\<rparr>\<rparr>) fn"
    have np: "\<not> is_pure (op ?i)" using m by (auto simp: is_mem_def is_pure_def is_binop_def)
    have fn2: "fn' = upd_instr a (\<lambda>_. ?i') fn" by (simp add: fn' upd_instr_def)
    have "value_of ?i' \<rho> = None" using np value_of_pure [of ?i' \<rho>] by (cases "value_of ?i' \<rho>") auto
    then have "satisfies \<rho> ?i'" by (simp add: satisfies_def)
    moreover have "val_instr_ok (n_regs fn) ?i'"
      using inv a np by (auto simp: value_inv_def val_fn_ok_def val_instr_ok_def wide_def)
    ultimately have "value_inv fn' \<rho>"
      using inv unfolding fn2 by (auto simp: value_inv_def val_fn_ok_def models_def table_ok_def)
    moreover have "amf_rel \<rho> ?i ?i'"
      using m r base_disp_value [OF inv bd] unfolding amf_rel_def by blast
    ultimately show ?thesis by (simp add: fn2)
  qed
qed

lemma amf_fold_ok:
  assumes "value_inv fn \<rho>" "distinct (map snd xs)" "\<forall>x \<in> set xs. snd x \<in> set (all_addrs fn)"
    "fold (\<lambda>(bi, a) (fn, n). if dead (heap fn a) then (fn, n) else amf_step bi a (fn, n)) xs (fn, n) = (fn', n')"
  shows "value_inv fn' \<rho> \<and> blocks fn' = blocks fn \<and> (\<forall>a. amf_rel \<rho> (heap fn a) (heap fn' a)) \<and>
    (\<forall>a. a \<notin> snd ` set xs \<longrightarrow> heap fn' a = heap fn a)"
  using assms
proof (induction xs arbitrary: fn n)
  case Nil
  then show ?case by (simp add: amf_rel_def)
next
  case (Cons x xs)
  obtain bi a where x: "x = (bi, a)" by (cases x)
  obtain f m where s: "(if dead (heap fn a) then (fn, n) else amf_step bi a (fn, n)) = (f, m)" by fastforce
  have 1: "value_inv f \<rho> \<and> blocks f = blocks fn \<and> amf_rel \<rho> (heap fn a) (heap f a) \<and> (\<forall>b. b \<noteq> a \<longrightarrow> heap f b = heap fn b)"
  proof (cases "dead (heap fn a)")
    case True
    with s Cons.prems(1) show ?thesis by (simp add: amf_rel_def)
  next
    case False
    then have "amf_step bi a (fn, n) = (f, m)" using s by simp
    from amf_step_ok [OF Cons.prems(1) _ this] Cons.prems(3) show ?thesis by (simp add: x)
  qed
  have r: "fold (\<lambda>(bi, a) (fn, n). if dead (heap fn a) then (fn, n) else amf_step bi a (fn, n)) xs (f, m) = (fn', n')"
    using Cons.prems(4) s by (simp add: x)
  have 2: "value_inv fn' \<rho> \<and> blocks fn' = blocks f \<and> (\<forall>a. amf_rel \<rho> (heap f a) (heap fn' a)) \<and>
    (\<forall>a. a \<notin> snd ` set xs \<longrightarrow> heap fn' a = heap f a)"
    by (rule Cons.IH [OF _ _ _ r]) (use 1 Cons.prems all_addrs_blocks [of f fn] in auto)
  have na: "a \<notin> snd ` set xs" using Cons.prems(2) by (simp add: x)
  have "amf_rel \<rho> (heap fn b) (heap fn' b)" for b
  proof (cases "b = a")
    case True
    with 1 2 na show ?thesis by simp
  next
    case False
    then have "heap fn b = heap f b" using 1 by simp
    with 2 show ?thesis by simp
  qed
  with 1 2 show ?case by (auto simp: x)
qed

section \<open>Properties\<close>


definition demo_amf :: func where
  "demo_amf = mk_func [mk_block [0, 1, 2, 3, 4] [] []]
     [mk_instr OP_ALLOCA 1 [], mk_const 2 16, mk_instr OP_ADD 3 [1, 2], mk_instr OP_LOAD 4 [3], mk_instr OP_RET 0 [4]] 5"

lemma demo_amf_facts:
  "blk_at demo_amf b = (if b = 0 then Some (mk_block [0, 1, 2, 3, 4] [] []) else None)"
  "blocks demo_amf = [Some (mk_block [0, 1, 2, 3, 4] [] [])]"
  "all_addrs demo_amf = [0, 1, 2, 3, 4]" "n_regs demo_amf = 5" "next_addr demo_amf = 5"
  "heap demo_amf 0 = mk_instr OP_ALLOCA 1 []" "heap demo_amf (Suc 0) = mk_const 2 16"
  "heap demo_amf 2 = mk_instr OP_ADD 3 [1, 2]" "heap demo_amf 3 = mk_instr OP_LOAD 4 [3]"
  "heap demo_amf 4 = mk_instr OP_RET 0 [4]"
  by (auto simp: demo_amf_def blk_at_def mk_func_def mk_block_def calloc_block_def all_addrs_def blk_instrs_def)


end
