(* ===== verification/LoopValidator.thy ===== *)
theory LoopValidator
  imports CloneRemap "HOL-Library.Monad_Syntax"
begin

text \<open>
  \<open>src/src/opt/loop_validator.c\<close>: recognition of loops with one preheader, one latch and a
  constant step, and the number of their iterations. \<^verbatim>\<open>None\<close> stands for a call that does not
  return a result: a chain of copies that closes on itself, which the \<^verbatim>\<open>while\<close> loop follows for
  ever, or the mark of a branch target outside the block array.
\<close>

section \<open>Definitions\<close>

record loop_info =
  preheader :: blockid
  header :: blockid
  latch :: blockid
  exit_blk :: blockid
  ind_var :: regid
  step_val :: int64
  step_op :: opcode
  cmp_reg :: regid
  cmp_op :: opcode
  limit :: int64
  limit_is_const :: bool
  trip_count :: int64

text \<open>\<^verbatim>\<open>memset(info, 0, ...)\<close> and the trip count of an unknown loop.\<close>

definition loop_info0 :: loop_info where
  "loop_info0 = \<lparr>preheader = 0, header = 0, latch = 0, exit_blk = 0, ind_var = 0, step_val = 0,
     step_op = OP_NOP, cmp_reg = 0, cmp_op = OP_NOP, limit = 0, limit_is_const = False,
     trip_count = -1\<rparr>"

definition reverse_cmp_op :: "opcode \<Rightarrow> opcode" where
  "reverse_cmp_op opc = (case opc of OP_LT \<Rightarrow> OP_GT | OP_LE \<Rightarrow> OP_GE | OP_GT \<Rightarrow> OP_LT
     | OP_GE \<Rightarrow> OP_LE | _ \<Rightarrow> opc)"

definition can_reach_without :: "func \<Rightarrow> blockid \<Rightarrow> blockid \<Rightarrow> blockid \<Rightarrow> bool option" where
  "can_reach_without fn start target avoid =
     (if start = target then Some True
      else if start = avoid then Some False
      else if n_blocks fn \<le> start then None
      else Some (snd (search_from (succs_at fn) (n_blocks fn) (\<lambda>b. b \<noteq> avoid) (\<lambda>b. b = target) start)))"

text \<open>Latch and preheader: the predecessor the header reaches without the other is the latch.\<close>

definition latch_preheader :: "func \<Rightarrow> blockid \<Rightarrow> blockid \<Rightarrow> blockid \<Rightarrow> (blockid \<times> blockid) option option" where
  "latch_preheader fn h p0 p1 = do {
     l0 \<leftarrow> can_reach_without fn h p0 p1;
     l1 \<leftarrow> can_reach_without fn h p1 p0;
     Some (if l0 \<and> \<not> l1 then Some (p0, p1) else if l1 \<and> \<not> l0 then Some (p1, p0) else None)
   }"

text \<open>The exit block and the register tested (\<^verbatim>\<open>NO_BLOCK\<close> and 0 when neither block tests).\<close>

definition latch_exit :: "func \<Rightarrow> blockid \<Rightarrow> block \<Rightarrow> blockid \<times> regid" where
  "latch_exit fn h lb = (case tail_of fn lb of
       None \<Rightarrow> (NO_BLOCK, 0)
     | Some t \<Rightarrow> if op t \<noteq> OP_CONDBR then (NO_BLOCK, 0)
         else if src t 1 = h then (src t 2, src t 0)
         else if src t 2 = h then (src t 1, src t 0)
         else (NO_BLOCK, src t 0))"

definition loop_exit :: "func \<Rightarrow> blockid \<Rightarrow> block \<Rightarrow> blockid \<Rightarrow> block \<Rightarrow> (blockid \<times> regid) option" where
  "loop_exit fn h hb l lb = (case tail_of fn hb of
       None \<Rightarrow> Some (latch_exit fn h lb)
     | Some t \<Rightarrow> if op t \<noteq> OP_CONDBR then Some (latch_exit fn h lb)
         else if src t 1 = l then Some (src t 2, src t 0)
         else if src t 2 = l then Some (src t 1, src t 0)
         else do {
           r \<leftarrow> can_reach_without fn (src t 1) l h;
           Some (if r then src t 2 else src t 1, src t 0)
         })"

text \<open>The values a phi node takes from the preheader and from the latch; the last entry counts.\<close>

definition phi_ends :: "blockid \<Rightarrow> blockid \<Rightarrow> instr \<Rightarrow> regid \<times> regid" where
  "phi_ends ph l i = fold (\<lambda>(r, b) (vp, vl). if b = ph then (r, vl) else if b = l then (vp, r) else (vp, vl))
     (phi i) (0, 0)"

text \<open>The loop that looks through copies, which has no bound.\<close>

partial_function (option) through_copies :: "func \<Rightarrow> addr option \<Rightarrow> addr option option" where
  "through_copies fn d = (case d of None \<Rightarrow> Some None
     | Some a \<Rightarrow> if op (heap fn a) = OP_COPY then through_copies fn (def_of fn (src1 (heap fn a)))
                else Some (Some a))"

text \<open>The constant step of the phi node \<open>p\<close> when its latch value is the sum or difference \<open>d\<close>.\<close>

definition const_step :: "func \<Rightarrow> instr \<Rightarrow> instr \<Rightarrow> int64 option" where
  "const_step fn p d =
     (if op d \<noteq> OP_ADD \<and> op d \<noteq> OP_SUB then None
      else if src1 d = dst p then reg_is_const fn (src2 d)
      else if src2 d = dst p \<and> op d = OP_ADD then reg_is_const fn (src1 d)
      else None)"

text \<open>The first phi node of the header that qualifies: register, step, operation, initial value.\<close>

fun find_induction :: "func \<Rightarrow> blockid \<Rightarrow> blockid \<Rightarrow> addr list \<Rightarrow> (regid \<times> int64 \<times> opcode \<times> regid) option option" where
  "find_induction fn ph l [] = Some None"
| "find_induction fn ph l (a # as) =
     (let p = heap fn a; (vp, vl) = phi_ends ph l p in
      if op p \<noteq> OP_PHI then Some None
      else if vp = 0 \<or> vl = 0 then find_induction fn ph l as
      else do {
        d \<leftarrow> through_copies fn (def_of fn vl);
        case d of None \<Rightarrow> find_induction fn ph l as
        | Some da \<Rightarrow> (case const_step fn p (heap fn da) of
              Some k \<Rightarrow> Some (Some (dst p, k, op (heap fn da), vp))
            | None \<Rightarrow> find_induction fn ph l as)
      })"

definition is_compare :: "opcode \<Rightarrow> bool" where
  "is_compare opc \<longleftrightarrow> opc \<in> {OP_EQ, OP_NE, OP_LT, OP_LE, OP_GT, OP_GE}"

text \<open>The other side of the test and the comparison as seen from the induction variable.\<close>

definition loop_limit :: "func \<Rightarrow> regid \<Rightarrow> instr \<Rightarrow> (opcode \<times> int64 option) option" where
  "loop_limit fn iv c =
     (if src1 c = iv then Some (op c, reg_is_const fn (src2 c))
      else if src2 c = iv then Some (reverse_cmp_op (op c), reg_is_const fn (src1 c))
      else if resolve_copy fn (src1 c) = iv then Some (op c, reg_is_const fn (src2 c))
      else if resolve_copy fn (src2 c) = iv then Some (reverse_cmp_op (op c), reg_is_const fn (src1 c))
      else None)"

definition compute_trips :: "int64 \<Rightarrow> int64 \<Rightarrow> int64 \<Rightarrow> opcode \<Rightarrow> opcode \<Rightarrow> int64" where
  "compute_trips init lim st sop cop =
     (if \<not> 0 <s st then -1
      else if sop = OP_ADD then
        (if cop = OP_LT then (if lim \<le>s init then 0 else sdiv64 (lim - init + st - 1) st)
         else if cop = OP_LE then (if lim <s init then 0 else sdiv64 (lim - init) st + 1)
         else if cop = OP_NE \<and> init \<le>s lim \<and> c_smod (lim - init) st = Some 0
              then sdiv64 (lim - init) st
         else -1)
      else if sop = OP_SUB then
        (if cop = OP_GT then (if init \<le>s lim then 0 else sdiv64 (init - lim + st - 1) st)
         else if cop = OP_GE then (if init <s lim then 0 else sdiv64 (init - lim) st + 1)
         else if cop = OP_NE \<and> lim \<le>s init \<and> c_smod (init - lim) st = Some 0
              then sdiv64 (init - lim) st
         else -1)
      else -1)"

text \<open>From the test on: the comparison, the limit and the trip count.\<close>

definition finish_loop :: "func \<Rightarrow> regid \<Rightarrow> loop_info \<Rightarrow> bool \<times> loop_info" where
  "finish_loop fn vp info = (case def_of fn (cmp_reg info) of
       None \<Rightarrow> (False, info)
     | Some ca \<Rightarrow>
        (if \<not> is_compare (op (heap fn ca)) then (False, info)
         else case loop_limit fn (ind_var info) (heap fn ca) of
             None \<Rightarrow> (False, info)
           | Some (cop, lo) \<Rightarrow>
               let info2 = info\<lparr>cmp_op := cop, limit := (case lo of None \<Rightarrow> 0 | Some k \<Rightarrow> k),
                             limit_is_const := lo \<noteq> None\<rparr>
               in (True, case (reg_is_const fn vp, lo) of
                     (Some i, Some k) \<Rightarrow>
                       info2\<lparr>trip_count := compute_trips i k (step_val info) (step_op info) cop\<rparr>
                   | _ \<Rightarrow> info2)))"

text \<open>From the choice of the latch on.\<close>

definition detect_with :: "func \<Rightarrow> blockid \<Rightarrow> block \<Rightarrow> blockid \<Rightarrow> blockid \<Rightarrow> (bool \<times> loop_info) option" where
  "detect_with fn h hb l ph = (case blk_at fn l of
       None \<Rightarrow> None
     | Some lb \<Rightarrow> do {
         (ex, cr) \<leftarrow> loop_exit fn h hb l lb;
         let info1 = loop_info0\<lparr>preheader := ph, header := h, latch := l\<rparr>;
         if ex = NO_BLOCK \<or> cr = 0 then Some (False, info1)
         else do {
           let info2 = info1\<lparr>exit_blk := ex, cmp_reg := cr\<rparr>;
           r \<leftarrow> find_induction fn ph l (instrs hb);
           case r of
             None \<Rightarrow> Some (False, info2)
           | Some (iv, k, sop, vp) \<Rightarrow>
               if iv = 0 then Some (False, info2)
               else Some (finish_loop fn vp (info2\<lparr>ind_var := iv, step_val := k, step_op := sop\<rparr>))
         }
       })"

definition opt_detect_canonical_loop :: "func \<Rightarrow> blockid \<Rightarrow> (bool \<times> loop_info) option" where
  "opt_detect_canonical_loop fn h = (case blk_at fn h of
       None \<Rightarrow> Some (False, loop_info0)
     | Some hb \<Rightarrow>
         if \<not> reachable hb \<or> length (preds hb) \<noteq> 2 then Some (False, loop_info0)
         else let p0 = preds hb ! 0; p1 = preds hb ! 1 in
           if blk_at fn p0 = None \<or> blk_at fn p1 = None then Some (False, loop_info0)
           else do {
             lp \<leftarrow> latch_preheader fn h p0 p1;
             case lp of None \<Rightarrow> Some (False, loop_info0)
             | Some (l, ph) \<Rightarrow> detect_with fn h hb l ph
           })"

section \<open>The trip count\<close>

text \<open>
  The reference: how often the body of \<^verbatim>\<open>for (x = init; x cop lim; x = x sop st)\<close> runs, in the
  arithmetic of the IR, with a bound on the number of tests.
\<close>

fun iterations :: "nat \<Rightarrow> opcode \<Rightarrow> int64 \<Rightarrow> opcode \<Rightarrow> int64 \<Rightarrow> int64 \<Rightarrow> nat option" where
  "iterations 0 cop lim sop st x = None"
| "iterations (Suc n) cop lim sop st x =
     (if bin_val64 cop False x lim = Some 1
      then (case bin_val64 sop False x st of None \<Rightarrow> None
            | Some y \<Rightarrow> map_option Suc (iterations n cop lim sop st y))
      else Some 0)"

lemma iterations_exact:
  assumes adv: "\<And>x. bin_val64 sop False x st = Some (x + d)"
    and "\<And>k. k < t \<Longrightarrow> bin_val64 cop False (x + of_nat k * d) lim = Some 1"
    and "bin_val64 cop False (x + of_nat t * d) lim \<noteq> Some 1"
  shows "iterations (Suc t) cop lim sop st x = Some t"
  using assms(2,3)
proof (induction t arbitrary: x)
  case 0
  then show ?case by simp
next
  case (Suc t)
  have run: "bin_val64 cop False x lim = Some 1" using Suc.prems(1) [of 0] by simp
  have "iterations (Suc t) cop lim sop st (x + d) = Some t"
  proof (rule Suc.IH)
    show "bin_val64 cop False (x + d + of_nat k * d) lim = Some 1" if "k < t" for k
      using Suc.prems(1) [of "Suc k"] that by (simp add: algebra_simps)
    show "bin_val64 cop False (x + d + of_nat t * d) lim \<noteq> Some 1"
      using Suc.prems(2) by (simp add: algebra_simps)
  qed
  then show ?case by (simp only: iterations.simps(2) [of "Suc t"] run adv) simp
qed

text \<open>A progression that stays in the range of the type.\<close>

lemma sint_progression:
  assumes "- 9223372036854775808 \<le> sint x + int k * e" "sint x + int k * e \<le> 9223372036854775807"
    and "d = (word_of_int e :: int64)"
  shows "sint (x + of_nat k * d) = sint x + int k * e"
proof -
  have "x + of_nat k * d = word_of_int (sint x + int k * e)"
    using assms(3) by simp
  then show ?thesis using assms(1,2) by (simp only: sint64_of_int)
qed

lemma sdiv64_pos: "0 \<le> sint a \<Longrightarrow> 0 < sint b \<Longrightarrow> sint (sdiv64 a b) = sint a div sint b"
proof -
  assume a: "0 \<le> sint a" "0 < sint b"
  then have e: "sint a sdiv sint b = sint a div sint b"
    by (simp only: signed_divide_int_def) (simp add: sgn_if)
  have "0 \<le> sint a div sint b" "sint a div sint b \<le> sint a" using int_div_bounds [OF a(2,1)] by blast+
  then show ?thesis using sint64_bounds(2) [of a] unfolding sdiv64_def e by (intro sint64_of_int) linarith+
qed

lemma c_smod_0:
  assumes "c_smod a b = Some 0" "0 \<le> sint a" "0 < sint b"
  shows "sint a mod sint b = 0"
proof -
  have "sint a smod sint b = sint a mod sint b"
    using assms(2,3) by (simp only: signed_modulo_int_def signed_divide_int_def) (simp add: sgn_if minus_div_mult_eq_mod)
  moreover have "word_of_int (sint a smod sint b) = (0 :: int64)"
    using assms(1) unfolding c_smod_def by (simp only: option.inject split: if_splits) simp_all
  ultimately have w: "word_of_int (sint a mod sint b) = (0 :: int64)" by simp
  have "0 \<le> sint a mod sint b" "sint a mod sint b < sint b" using assms(3) by simp_all
  then have "sint (word_of_int (sint a mod sint b) :: int64) = sint a mod sint b"
    using sint64_bounds(2) [of b] by (intro sint64_of_int) linarith+
  then show ?thesis unfolding w by simp
qed

text \<open>The number of steps of size \<open>s\<close> that cover a distance \<open>m\<close>.\<close>

lemma ceil_div_bounds:
  fixes m s :: int
  assumes "0 < s" "0 < m"
  defines "t \<equiv> (m + s - 1) div s"
  shows "0 < t" "(t - 1) * s < m" "m \<le> t * s" "t * s < m + s"
proof -
  have e: "t * s + (m + s - 1) mod s = m + s - 1" unfolding t_def by simp
  have r: "0 \<le> (m + s - 1) mod s" "(m + s - 1) mod s < s" using assms(1) by simp_all
  show "m \<le> t * s" "t * s < m + s" using e r by linarith+
  then show "(t - 1) * s < m" by (simp add: algebra_simps)
  show "0 < t"
  proof (rule ccontr)
    assume "\<not> 0 < t"
    then have "t * s \<le> 0" using assms(1) by (simp add: mult_nonpos_nonneg)
    with \<open>m \<le> t * s\<close> assms(2) show False by simp
  qed
qed

lemma floor_div_bounds:
  fixes m s :: int
  assumes "0 < s" "0 \<le> m"
  defines "t \<equiv> m div s + 1"
  shows "0 < t" "(t - 1) * s \<le> m" "m < t * s" "t * s \<le> m + s"
proof -
  have e: "m div s * s + m mod s = m" by simp
  have r: "0 \<le> m mod s" "m mod s < s" using assms(1) by simp_all
  show "(t - 1) * s \<le> m" "m < t * s" "t * s \<le> m + s"
    using e r unfolding t_def by (simp_all only: distrib_right mult_1 add_diff_cancel_right')
  show "0 < t" unfolding t_def using int_div_bounds [OF assms(1,2)] by simp
qed

lemma iterations_by:
  assumes adv: "\<And>y. bin_val64 sop False y st = Some (y + d)" and d: "d = word_of_int e"
    and t: "0 \<le> t"
    and rng: "\<And>k. 0 \<le> k \<Longrightarrow> k \<le> t \<Longrightarrow> - 9223372036854775808 \<le> sint x + k * e \<and> sint x + k * e \<le> 9223372036854775807"
    and test: "\<And>y. bin_val64 cop False y lim = Some (c_bool (P (sint y)))"
    and go: "\<And>k. 0 \<le> k \<Longrightarrow> k < t \<Longrightarrow> P (sint x + k * e)" and stop: "\<not> P (sint x + t * e)"
  shows "iterations (Suc (nat t)) cop lim sop st x = Some (nat t)"
proof (rule iterations_exact [OF adv])
  show "bin_val64 cop False (x + of_nat k * d) lim = Some 1" if "k < nat t" for k
    using that rng [of "int k"] go [of "int k"] by (simp add: test sint_progression [OF _ _ d] c_bool_def)
  show "bin_val64 cop False (x + of_nat (nat t) * d) lim \<noteq> Some 1"
    using t rng [of t] stop sint_progression [OF _ _ d, of x "nat t"] by (simp add: test c_bool_def)
qed

lemma iterations_up:
  assumes "0 < sint st" "0 \<le> t" "sint x + t * sint st \<le> 9223372036854775807"
    and "\<And>y. bin_val64 cop False y lim = Some (c_bool (P (sint y)))"
    and "\<And>k. 0 \<le> k \<Longrightarrow> k < t \<Longrightarrow> P (sint x + k * sint st)" "\<not> P (sint x + t * sint st)"
  shows "iterations (Suc (nat t)) cop lim OP_ADD st x = Some (nat t)"
proof (rule iterations_by [where P = P and e = "sint st" and d = st])
  fix k :: int assume "0 \<le> k" "k \<le> t"
  then have "0 \<le> k * sint st" "k * sint st \<le> t * sint st" using assms(1) by simp_all
  with assms(3) sint64_bounds(1) [of x]
  show "- 9223372036854775808 \<le> sint x + k * sint st \<and> sint x + k * sint st \<le> 9223372036854775807" by linarith
qed (use assms in simp_all)

lemma iterations_down:
  assumes "0 < sint st" "0 \<le> t" "- 9223372036854775808 \<le> sint x - t * sint st"
    and "\<And>y. bin_val64 cop False y lim = Some (c_bool (P (sint y)))"
    and "\<And>k. 0 \<le> k \<Longrightarrow> k < t \<Longrightarrow> P (sint x - k * sint st)" "\<not> P (sint x - t * sint st)"
  shows "iterations (Suc (nat t)) cop lim OP_SUB st x = Some (nat t)"
proof (rule iterations_by [where P = P and e = "- sint st" and d = "- st"])
  fix k :: int assume "0 \<le> k" "k \<le> t"
  then have "0 \<le> k * sint st" "k * sint st \<le> t * sint st" using assms(1) by simp_all
  with assms(3) sint64_bounds(2) [of x]
  show "- 9223372036854775808 \<le> sint x + k * - sint st \<and> sint x + k * - sint st \<le> 9223372036854775807" by simp
qed (use assms in simp_all)

lemma iterations_none:
  "bin_val64 cop False x lim \<noteq> Some 1 \<Longrightarrow> iterations (Suc (nat 0)) cop lim sop st x = Some (nat 0)"
  by simp

text \<open>What the distances of a loop must satisfy for the code's arithmetic not to wrap.\<close>

definition trips_in_range :: "int64 \<Rightarrow> int64 \<Rightarrow> int64 \<Rightarrow> opcode \<Rightarrow> bool" where
  "trips_in_range init lim st sop \<longleftrightarrow>
     (if sop = OP_ADD
      then sint lim + sint st \<le> 9223372036854775807 \<and> sint lim - sint init + sint st \<le> 9223372036854775807
      else - 9223372036854775808 \<le> sint lim - sint st \<and> sint init - sint lim + sint st \<le> 9223372036854775807)"

lemma unat_sint: "0 \<le> sint t \<Longrightarrow> unat t = nat (sint t)" for t :: int64
proof -
  assume t: "0 \<le> sint t"
  have "uint t = uint (word_of_int (sint t) :: int64)" by simp
  also have "\<dots> = sint t" using t sint64_bounds(2) [of t] by (simp only: uint_word_of_int) simp
  finally show ?thesis by (simp add: unat_eq_nat_uint)
qed

lemma trips_ceil:
  assumes "0 < sint st" "0 < m" "m + sint st \<le> 9223372036854775807" "sint d = m" 
  shows "sint (sdiv64 (d + st - 1) st) = (m + sint st - 1) div sint st"
proof -
  have "sint (d + st) = m + sint st" using assms by (subst sint64_add) simp_all
  then have "sint (d + st - 1) = m + sint st - 1" using assms by (subst sint64_sub) simp_all
  then show ?thesis using assms by (subst sdiv64_pos) simp_all
qed

lemma trips_floor:
  assumes "0 < sint st" "0 \<le> m" "m + sint st \<le> 9223372036854775807" "sint d = m"
  shows "sint (sdiv64 d st) = m div sint st" "sint (sdiv64 d st + 1) = m div sint st + 1"
proof -
  show *: "sint (sdiv64 d st) = m div sint st" using assms by (subst sdiv64_pos) simp_all
  have "0 \<le> m div sint st" "m div sint st \<le> m" using int_div_bounds [OF assms(1,2)] by blast+
  then show "sint (sdiv64 d st + 1) = m div sint st + 1" using assms(1,3) * by (subst sint64_add) simp_all
qed

lemma dist_sint:
  assumes "sint a \<le> sint b" "sint b - sint a \<le> 9223372036854775807"
  shows "sint (b - a :: int64) = sint b - sint a"
  using assms by (intro sint64_sub) simp_all

lemmas sless_sint = word_sless_alt word_sle_eq

lemma trips_LT:
  assumes "0 < sint st" "trips_in_range init lim st OP_ADD" "sint init < sint lim"
  defines "t \<equiv> sdiv64 (lim - init + st - 1) st"
  shows "0 \<le> sint t" "iterations (Suc (nat (sint t))) OP_LT lim OP_ADD st init = Some (nat (sint t))"
proof -
  let ?m = "sint lim - sint init"
  have d: "sint (lim - init) = ?m" using assms by (intro dist_sint) (simp_all add: trips_in_range_def)
  have t: "sint t = (?m + sint st - 1) div sint st"
    unfolding t_def using assms d by (intro trips_ceil) (simp_all add: trips_in_range_def)
  note B = ceil_div_bounds [of "sint st" ?m, folded t]
  show "0 \<le> sint t" using B(1) assms by simp
  show "iterations (Suc (nat (sint t))) OP_LT lim OP_ADD st init = Some (nat (sint t))"
  proof (rule iterations_up [where P = "\<lambda>y. y < sint lim"])
    fix k assume "0 \<le> k" "k < sint t"
    then have "k * sint st \<le> (sint t - 1) * sint st" using assms(1) by simp
    moreover have "(sint t - 1) * sint st < ?m" using B(2) assms by simp
    ultimately show "sint init + k * sint st < sint lim" by linarith
  qed (use B assms in \<open>simp_all add: trips_in_range_def sless_sint\<close>)
qed

lemma trips_LE:
  assumes "0 < sint st" "trips_in_range init lim st OP_ADD" "sint init \<le> sint lim"
  defines "t \<equiv> sdiv64 (lim - init) st + 1"
  shows "0 \<le> sint t" "iterations (Suc (nat (sint t))) OP_LE lim OP_ADD st init = Some (nat (sint t))"
proof -
  let ?m = "sint lim - sint init"
  have d: "sint (lim - init) = ?m" using assms by (intro dist_sint) (simp_all add: trips_in_range_def)
  have t: "sint t = ?m div sint st + 1"
    unfolding t_def using assms d by (intro trips_floor) (simp_all add: trips_in_range_def)
  note B = floor_div_bounds [of "sint st" ?m, folded t]
  show "0 \<le> sint t" using B(1) assms by simp
  show "iterations (Suc (nat (sint t))) OP_LE lim OP_ADD st init = Some (nat (sint t))"
  proof (rule iterations_up [where P = "\<lambda>y. y \<le> sint lim"])
    fix k assume "0 \<le> k" "k < sint t"
    then have "k * sint st \<le> (sint t - 1) * sint st" using assms(1) by simp
    moreover have "(sint t - 1) * sint st \<le> ?m" using B(2) assms by simp
    ultimately show "sint init + k * sint st \<le> sint lim" by linarith
  qed (use B assms in \<open>simp_all add: trips_in_range_def sless_sint\<close>)
qed

lemma trips_NE_up:
  assumes "0 < sint st" "trips_in_range init lim st OP_ADD" "sint init \<le> sint lim"
    "c_smod (lim - init) st = Some 0"
  defines "t \<equiv> sdiv64 (lim - init) st"
  shows "0 \<le> sint t" "iterations (Suc (nat (sint t))) OP_NE lim OP_ADD st init = Some (nat (sint t))"
proof -
  let ?m = "sint lim - sint init"
  have d: "sint (lim - init) = ?m" using assms by (intro dist_sint) (simp_all add: trips_in_range_def)
  have t: "sint t = ?m div sint st"
    unfolding t_def using assms d by (intro trips_floor) (simp_all add: trips_in_range_def)
  have z: "?m mod sint st = 0" using c_smod_0 [OF assms(4)] assms d by simp
  then have e: "sint t * sint st = ?m" unfolding t using z by (metis add.right_neutral div_mult_mod_eq)
  show 0: "0 \<le> sint t" using int_div_bounds [of "sint st" ?m] assms unfolding t by simp
  show "iterations (Suc (nat (sint t))) OP_NE lim OP_ADD st init = Some (nat (sint t))"
  proof (rule iterations_up [where P = "\<lambda>y. y \<noteq> sint lim"])
    fix k assume "0 \<le> k" "k < sint t"
    then have "k * sint st < sint t * sint st" using assms(1) by simp
    with e show "sint init + k * sint st \<noteq> sint lim" by simp
  qed (use e 0 assms sint64_bounds(2) [of lim] in \<open>simp_all flip: word_eq_iff_signed\<close>)
qed

lemma trips_GT:
  assumes "0 < sint st" "trips_in_range init lim st OP_SUB" "sint lim < sint init"
  defines "t \<equiv> sdiv64 (init - lim + st - 1) st"
  shows "0 \<le> sint t" "iterations (Suc (nat (sint t))) OP_GT lim OP_SUB st init = Some (nat (sint t))"
proof -
  let ?m = "sint init - sint lim"
  have d: "sint (init - lim) = ?m" using assms by (intro dist_sint) (simp_all add: trips_in_range_def)
  have t: "sint t = (?m + sint st - 1) div sint st"
    unfolding t_def using assms d by (intro trips_ceil) (simp_all add: trips_in_range_def)
  note B = ceil_div_bounds [of "sint st" ?m, folded t]
  show "0 \<le> sint t" using B(1) assms by simp
  show "iterations (Suc (nat (sint t))) OP_GT lim OP_SUB st init = Some (nat (sint t))"
  proof (rule iterations_down [where P = "\<lambda>y. sint lim < y"])
    fix k assume "0 \<le> k" "k < sint t"
    then have "k * sint st \<le> (sint t - 1) * sint st" using assms(1) by simp
    moreover have "(sint t - 1) * sint st < ?m" using B(2) assms by simp
    ultimately show "sint lim < sint init - k * sint st" by linarith
  qed (use B assms in \<open>simp_all add: trips_in_range_def sless_sint\<close>)
qed

lemma trips_GE:
  assumes "0 < sint st" "trips_in_range init lim st OP_SUB" "sint lim \<le> sint init"
  defines "t \<equiv> sdiv64 (init - lim) st + 1"
  shows "0 \<le> sint t" "iterations (Suc (nat (sint t))) OP_GE lim OP_SUB st init = Some (nat (sint t))"
proof -
  let ?m = "sint init - sint lim"
  have d: "sint (init - lim) = ?m" using assms by (intro dist_sint) (simp_all add: trips_in_range_def)
  have t: "sint t = ?m div sint st + 1"
    unfolding t_def using assms d by (intro trips_floor) (simp_all add: trips_in_range_def)
  note B = floor_div_bounds [of "sint st" ?m, folded t]
  show "0 \<le> sint t" using B(1) assms by simp
  show "iterations (Suc (nat (sint t))) OP_GE lim OP_SUB st init = Some (nat (sint t))"
  proof (rule iterations_down [where P = "\<lambda>y. sint lim \<le> y"])
    fix k assume "0 \<le> k" "k < sint t"
    then have "k * sint st \<le> (sint t - 1) * sint st" using assms(1) by simp
    moreover have "(sint t - 1) * sint st \<le> ?m" using B(2) assms by simp
    ultimately show "sint lim \<le> sint init - k * sint st" by linarith
  qed (use B assms in \<open>simp_all add: trips_in_range_def sless_sint\<close>)
qed

lemma trips_NE_down:
  assumes "0 < sint st" "trips_in_range init lim st OP_SUB" "sint lim \<le> sint init"
    "c_smod (init - lim) st = Some 0"
  defines "t \<equiv> sdiv64 (init - lim) st"
  shows "0 \<le> sint t" "iterations (Suc (nat (sint t))) OP_NE lim OP_SUB st init = Some (nat (sint t))"
proof -
  let ?m = "sint init - sint lim"
  have d: "sint (init - lim) = ?m" using assms by (intro dist_sint) (simp_all add: trips_in_range_def)
  have t: "sint t = ?m div sint st"
    unfolding t_def using assms d by (intro trips_floor) (simp_all add: trips_in_range_def)
  have z: "?m mod sint st = 0" using c_smod_0 [OF assms(4)] assms d by simp
  then have e: "sint t * sint st = ?m" unfolding t using z by (metis add.right_neutral div_mult_mod_eq)
  show 0: "0 \<le> sint t" using int_div_bounds [of "sint st" ?m] assms unfolding t by simp
  show "iterations (Suc (nat (sint t))) OP_NE lim OP_SUB st init = Some (nat (sint t))"
  proof (rule iterations_down [where P = "\<lambda>y. y \<noteq> sint lim"])
    fix k assume "0 \<le> k" "k < sint t"
    then have "k * sint st < sint t * sint st" using assms(1) by simp
    with e show "sint init - k * sint st \<noteq> sint lim" by simp
  qed (use e 0 assms sint64_bounds(1) [of lim] in \<open>simp_all flip: word_eq_iff_signed\<close>)
qed

lemma compute_trips_correct:
  assumes "compute_trips init lim st sop cop \<noteq> -1" "trips_in_range init lim st sop"
  defines "t \<equiv> compute_trips init lim st sop cop"
  shows "0 \<le> sint t \<and> iterations (Suc (nat (sint t))) cop lim sop st init = Some (nat (sint t))"
proof -
  have st: "0 < sint st" using assms(1) by (auto simp: compute_trips_def word_sless_alt split: if_splits)
  consider (up) "sop = OP_ADD" | (down) "sop = OP_SUB"
    using assms(1) by (auto simp: compute_trips_def split: if_splits)
  then show ?thesis
  proof cases
    case up
    then consider "cop = OP_LT" | "cop = OP_LE"
      | "cop = OP_NE" "init \<le>s lim" "c_smod (lim - init) st = Some 0"
      using assms(1) by (auto simp: compute_trips_def split: if_splits)
    then show ?thesis
    proof cases
      case 1
      then show ?thesis using up st assms(2) trips_LT [of st init lim] unfolding t_def
        by (cases "lim \<le>s init") (simp_all add: compute_trips_def sless_sint c_bool_def)
    next
      case 2
      then show ?thesis using up st assms(2) trips_LE [of st init lim] unfolding t_def
        by (cases "lim <s init") (simp_all add: compute_trips_def sless_sint c_bool_def)
    next
      case 3
      then show ?thesis using up st assms(2) trips_NE_up [of st init lim] unfolding t_def
        by (simp add: compute_trips_def sless_sint)
    qed
  next
    case down
    then consider "cop = OP_GT" | "cop = OP_GE"
      | "cop = OP_NE" "lim \<le>s init" "c_smod (init - lim) st = Some 0"
      using assms(1) by (auto simp: compute_trips_def split: if_splits)
    then show ?thesis
    proof cases
      case 1
      then show ?thesis using down st assms(2) trips_GT [of st init lim] unfolding t_def
        by (cases "init \<le>s lim") (simp_all add: compute_trips_def sless_sint c_bool_def)
    next
      case 2
      then show ?thesis using down st assms(2) trips_GE [of st init lim] unfolding t_def
        by (cases "init <s lim") (simp_all add: compute_trips_def sless_sint c_bool_def)
    next
      case 3
      then show ?thesis using down st assms(2) trips_NE_down [of st init lim] unfolding t_def
        by (simp add: compute_trips_def sless_sint)
    qed
  qed
qed

section \<open>What the recognised loops look like\<close>

text \<open>A path from \<open>u\<close> to \<open>v\<close> that does not pass through \<open>avoid\<close> (except at its end).\<close>

definition reaches_without :: "func \<Rightarrow> blockid \<Rightarrow> blockid \<Rightarrow> blockid \<Rightarrow> bool" where
  "reaches_without fn avoid u v \<longleftrightarrow>
     u = v \<or> (u \<noteq> avoid \<and> (u, v) \<in> (edge_rel (succs_at fn) (n_blocks fn) (\<lambda>b. b \<noteq> avoid))\<^sup>*)"

lemma can_reach_without_exact:
  "can_reach_without fn s t avoid = Some r \<Longrightarrow> r = reaches_without fn avoid s t"
  using search_from_correct(1) [OF prod.collapse [symmetric], of "succs_at fn" "n_blocks fn" "\<lambda>b. b \<noteq> avoid" "\<lambda>b. b = t" s]
  by (auto simp: can_reach_without_def reaches_without_def split: if_splits)

lemma can_reach_without_defined: "s < n_blocks fn \<Longrightarrow> \<exists>r. can_reach_without fn s t avoid = Some r"
  by (auto simp: can_reach_without_def)

text \<open>Under an assignment consistent with the function, copies do not change the value.\<close>

lemma def_of_models:
  assumes "def_use_ok fn" "models fn \<rho>" "def_of fn r = Some a"
  shows "satisfies \<rho> (heap fn a)" "dst (heap fn a) = r" "r \<noteq> 0" "a \<in> set (all_addrs fn)"
  using assms by (auto simp: def_use_ok_def models_def def_of_def split: if_splits)

lemma reg_is_const_value:
  assumes "def_use_ok fn" "models fn \<rho>" "\<forall>a \<in> set (all_addrs fn). wide (heap fn a)" "reg_is_const fn r = Some k"
  shows "\<rho> r = k"
proof -
  obtain a where a: "def_of fn r = Some a" "op (heap fn a) = OP_CONST" "imm (heap fn a) = k"
    using assms(4) by (auto simp: reg_is_const_def split: option.splits if_splits)
  note D = def_of_models [OF assms(1,2) a(1)]
  have "value_of (heap fn a) \<rho> = Some k" using a(2,3) D(4) assms(3) by (simp add: value_of_def wide_def)
  with D show ?thesis by (simp add: satisfies_def)
qed

lemma copy_value:
  assumes "def_use_ok fn" "models fn \<rho>" "\<forall>a \<in> set (all_addrs fn). wide (heap fn a)"
    "def_of fn r = Some a" "op (heap fn a) = OP_COPY"
  shows "\<rho> (src1 (heap fn a)) = \<rho> r"
proof -
  note D = def_of_models [OF assms(1,2,4)]
  have "value_of (heap fn a) \<rho> = Some (\<rho> (src1 (heap fn a)))" using assms(3,5) D(4) by (simp add: value_of_def wide_def)
  with D show ?thesis by (simp add: satisfies_def)
qed

lemma resolve_copy_models:
  assumes "def_use_ok fn" "models fn \<rho>" "\<forall>a \<in> set (all_addrs fn). wide (heap fn a)"
  shows "\<rho> (resolve_copy_n n fn r) = \<rho> r"
  by (induction n arbitrary: r) (auto simp: copy_value [OF assms] split: option.split)

lemma through_copies_value:
  assumes ok: "def_use_ok fn" "models fn \<rho>" "\<forall>a \<in> set (all_addrs fn). wide (heap fn a)"
    and run: "through_copies fn (def_of fn r) = Some (Some a)"
  shows "\<exists>q. def_of fn q = Some a \<and> \<rho> q = \<rho> r"
proof -
  define P where "P fn' d y \<longleftrightarrow> (\<forall>r. fn' = fn \<longrightarrow> d = def_of fn r \<longrightarrow> y = Some a \<longrightarrow>
    (\<exists>q. def_of fn q = Some a \<and> \<rho> q = \<rho> r))" for fn' d y
  have "P fn (def_of fn r) (Some a)"
  proof (rule through_copies.raw_induct [OF _ run])
    fix f fn' d y
    assume IH: "\<And>fn' d y. f fn' d = Some y \<Longrightarrow> P fn' d y"
      and body: "(case d of None \<Rightarrow> Some None
        | Some a \<Rightarrow> if op (heap fn' a) = OP_COPY then f fn' (def_of fn' (src1 (heap fn' a))) else Some (Some a)) = Some y"
    show "P fn' d y"
    proof (cases d)
      case None
      with body show ?thesis by (auto simp: P_def)
    next
      case (Some b)
      show ?thesis
      proof (cases "op (heap fn' b) = OP_COPY")
        case True
        with body Some have "P fn' (def_of fn' (src1 (heap fn' b))) y" by (intro IH) simp
        then show ?thesis using copy_value [OF ok] True Some unfolding P_def by (metis (no_types))
      next
        case False
        with body Some show ?thesis by (auto simp: P_def)
      qed
    qed
  qed
  then show ?thesis by (simp add: P_def)
qed

lemma find_induction_found:
  "find_induction fn ph l as = Some (Some (iv, k, sop, vp)) \<Longrightarrow>
    \<exists>a \<in> set as. op (heap fn a) = OP_PHI \<and> dst (heap fn a) = iv \<and> (\<exists>vl d. phi_ends ph l (heap fn a) = (vp, vl) \<and>
      through_copies fn (def_of fn vl) = Some (Some d) \<and> sop = op (heap fn d) \<and>
      const_step fn (heap fn a) (heap fn d) = Some k)"
proof (induction as)
  case (Cons a as)
  obtain vp' vl where ends: "phi_ends ph l (heap fn a) = (vp', vl)" by fastforce
  show ?case
  proof (cases "find_induction fn ph l as = Some (Some (iv, k, sop, vp))")
    case True
    with Cons.IH show ?thesis by auto
  next
    case False
    with Cons.prems ends have phi: "op (heap fn a) = OP_PHI" "vp' \<noteq> 0" "vl \<noteq> 0"
      by (auto simp: Let_def split: if_splits)
    with Cons.prems ends obtain r where r: "through_copies fn (def_of fn vl) = Some r"
      by (auto simp: Let_def bind_eq_Some_conv)
    with Cons.prems ends phi False obtain d where "r = Some d" "const_step fn (heap fn a) (heap fn d) = Some k"
        "dst (heap fn a) = iv" "sop = op (heap fn d)" "vp = vp'"
      by (auto simp: Let_def split: option.splits)
    with ends r phi show ?thesis by auto
  qed
qed simp

lemma const_step_value:
  assumes ok: "def_use_ok fn" "models fn \<rho>" "\<forall>a \<in> set (all_addrs fn). wide (heap fn a)"
    and d: "def_of fn q = Some d" and k: "const_step fn p (heap fn d) = Some k"
  shows "bin_val64 (op (heap fn d)) False (\<rho> (dst p)) k = Some (\<rho> q)"
proof -
  note D = def_of_models [OF ok(1,2) d]
  have w: "is_float (heap fn d) = 0" "\<not> is32 (ir_type (heap fn d))" using ok(3) D(4) by (auto simp: wide_def)
  have v: "bin_val (op (heap fn d)) (ir_type (heap fn d)) (\<rho> (src1 (heap fn d))) (\<rho> (src2 (heap fn d))) = Some x \<Longrightarrow> \<rho> q = x" for x
    using D(1-3) w k by (auto simp: satisfies_def value_of_def const_step_def split: if_splits)
  note K = reg_is_const_value [OF ok]
  consider "op (heap fn d) = OP_ADD" "src1 (heap fn d) = dst p" "\<rho> (src2 (heap fn d)) = k"
    | "op (heap fn d) = OP_SUB" "src1 (heap fn d) = dst p" "\<rho> (src2 (heap fn d)) = k"
    | "op (heap fn d) = OP_ADD" "src2 (heap fn d) = dst p" "\<rho> (src1 (heap fn d)) = k"
    using k K by (auto simp: const_step_def split: if_splits)
  then show ?thesis by cases (use v w(2) in \<open>auto simp: bin_val_def add.commute\<close>)
qed

lemma reverse_cmp_op_value:
  "is_compare opc \<Longrightarrow> bin_val64 (reverse_cmp_op opc) uns a b = bin_val64 opc uns b a"
  by (auto simp: is_compare_def reverse_cmp_op_def eq_commute)

lemma compare_signed: "is_compare opc \<Longrightarrow> bin_val64 opc uns a b = bin_val64 opc False a b"
  by (auto simp: is_compare_def)

lemma loop_limit_value:
  assumes ok: "def_use_ok fn" "models fn \<rho>" "\<forall>a \<in> set (all_addrs fn). wide (heap fn a)"
    and c: "def_of fn q = Some c" "is_compare (op (heap fn c))"
    and k: "loop_limit fn iv (heap fn c) = Some (cop, Some k)"
  shows "bin_val64 cop False (\<rho> iv) k = Some (\<rho> q)"
proof -
  note D = def_of_models [OF ok(1,2) c(1)]
  have w: "wide (heap fn c)" using ok(3) D(4) by simp
  let ?o = "op (heap fn c)" and ?a = "\<rho> (src1 (heap fn c))" and ?b = "\<rho> (src2 (heap fn c))"
  have "value_of (heap fn c) \<rho> = bin_val64 ?o False ?a ?b"
    using c(2) w compare_signed [OF c(2)] unfolding value_of_def wide_def
    by (auto simp: is_compare_def bin_val_wide)
  moreover obtain v where "bin_val64 ?o False ?a ?b = Some v" using c(2) by (auto simp: is_compare_def)
  ultimately have v: "bin_val64 ?o False ?a ?b = Some (\<rho> q)" using D(1-3) by (auto simp: satisfies_def)
  note K = reg_is_const_value [OF ok] and C = resolve_copy_models [OF ok, of 100, folded resolve_copy_def]
  consider "cop = ?o" "?a = \<rho> iv" "?b = k" | "cop = reverse_cmp_op ?o" "?b = \<rho> iv" "?a = k"
    using k K C [of "src1 (heap fn c)"] C [of "src2 (heap fn c)"]
    by (auto simp: loop_limit_def split: if_splits)
  then show ?thesis using v c(2) by cases (simp_all add: reverse_cmp_op_value)
qed

text \<open>A recognised loop: one latch that closes it, one preheader outside it.\<close>

definition loop_shape :: "func \<Rightarrow> blockid \<Rightarrow> loop_info \<Rightarrow> bool" where
  "loop_shape fn h info \<longleftrightarrow> header info = h \<and> preheader info \<noteq> latch info \<and>
     is_block fn (preheader info) \<and> is_block fn (latch info) \<and>
     (\<exists>hb. blk_at fn h = Some hb \<and> reachable hb \<and> length (preds hb) = 2 \<and>
        set (preds hb) = {preheader info, latch info}) \<and>
     reaches_without fn (preheader info) h (latch info) \<and>
     \<not> reaches_without fn (latch info) h (preheader info)"

lemma finish_loop_True:
  assumes "finish_loop fn vp info = (True, info')"
  shows "\<exists>ca cop lo. def_of fn (cmp_reg info) = Some ca \<and> is_compare (op (heap fn ca)) \<and>
    loop_limit fn (ind_var info) (heap fn ca) = Some (cop, lo) \<and>
    info' = info\<lparr>cmp_op := cop, limit := (case lo of None \<Rightarrow> 0 | Some k \<Rightarrow> k), limit_is_const := lo \<noteq> None,
      trip_count := (case (reg_is_const fn vp, lo) of
         (Some i, Some k) \<Rightarrow> compute_trips i k (step_val info) (step_op info) cop | _ \<Rightarrow> trip_count info)\<rparr>"
proof -
  from assms obtain ca cop lo where c: "def_of fn (cmp_reg info) = Some ca" "is_compare (op (heap fn ca))"
      "loop_limit fn (ind_var info) (heap fn ca) = Some (cop, lo)"
    by (auto simp: finish_loop_def split: option.splits if_splits)
  moreover have "info' = info\<lparr>cmp_op := cop, limit := (case lo of None \<Rightarrow> 0 | Some k \<Rightarrow> k), limit_is_const := lo \<noteq> None,
      trip_count := (case (reg_is_const fn vp, lo) of
         (Some i, Some k) \<Rightarrow> compute_trips i k (step_val info) (step_op info) cop | _ \<Rightarrow> trip_count info)\<rparr>"
  proof -
    have "info' = snd (finish_loop fn vp info)" using assms by simp
    also have "\<dots> = info\<lparr>cmp_op := cop, limit := (case lo of None \<Rightarrow> 0 | Some k \<Rightarrow> k), limit_is_const := lo \<noteq> None,
      trip_count := (case (reg_is_const fn vp, lo) of
         (Some i, Some k) \<Rightarrow> compute_trips i k (step_val info) (step_op info) cop | _ \<Rightarrow> trip_count info)\<rparr>"
      unfolding finish_loop_def Let_def c(1,3) option.case prod.case using c(2)
      by (cases lo; cases "reg_is_const fn vp") simp_all
    finally show ?thesis .
  qed
  ultimately show ?thesis by blast
qed

lemma detect_with_True:
  assumes "detect_with fn h hb l ph = Some (True, info)"
  shows "\<exists>a \<in> set (instrs hb). \<exists>vp vl d ca lo. op (heap fn a) = OP_PHI \<and> dst (heap fn a) = ind_var info \<and>
    phi_ends ph l (heap fn a) = (vp, vl) \<and> through_copies fn (def_of fn vl) = Some (Some d) \<and>
    step_op info = op (heap fn d) \<and> const_step fn (heap fn a) (heap fn d) = Some (step_val info) \<and>
    def_of fn (cmp_reg info) = Some ca \<and> is_compare (op (heap fn ca)) \<and>
    loop_limit fn (ind_var info) (heap fn ca) = Some (cmp_op info, lo) \<and>
    limit info = (case lo of None \<Rightarrow> 0 | Some k \<Rightarrow> k) \<and> limit_is_const info = (lo \<noteq> None) \<and>
    trip_count info = (case (reg_is_const fn vp, lo) of
      (Some i, Some k) \<Rightarrow> compute_trips i k (step_val info) (step_op info) (cmp_op info) | _ \<Rightarrow> -1) \<and>
    ind_var info \<noteq> 0 \<and> preheader info = ph \<and> header info = h \<and> latch info = l \<and>
    (\<exists>lb. loop_exit fn h hb l lb = Some (exit_blk info, cmp_reg info))"
proof -
  define info2 where "info2 ex cr = loop_info0\<lparr>preheader := ph, header := h, latch := l, exit_blk := ex, cmp_reg := cr\<rparr>" for ex cr
  obtain lb where lb: "blk_at fn l = Some lb" using assms by (auto simp: detect_with_def split: option.splits)
  with assms obtain ex cr where x: "loop_exit fn h hb l lb = Some (ex, cr)" "ex \<noteq> NO_BLOCK" "cr \<noteq> 0"
    by (auto simp: detect_with_def Let_def bind_eq_Some_conv split: if_splits)
  obtain r where r: "find_induction fn ph l (instrs hb) = Some r"
    using assms lb x by (auto simp: detect_with_def Let_def bind_eq_Some_conv)
  with assms lb x obtain iv k sop vp where f: "find_induction fn ph l (instrs hb) = Some (Some (iv, k, sop, vp))" "iv \<noteq> 0"
    and fin: "finish_loop fn vp ((info2 ex cr)\<lparr>ind_var := iv, step_val := k, step_op := sop\<rparr>) = (True, info)"
    by (cases r) (auto simp: detect_with_def Let_def info2_def split: if_splits)
  have I: "cmp_reg (info2 ex cr) = cr" "trip_count (info2 ex cr) = -1" "preheader (info2 ex cr) = ph"
    "header (info2 ex cr) = h" "latch (info2 ex cr) = l" "exit_blk (info2 ex cr) = ex"
    by (simp_all add: info2_def loop_info0_def)
  from finish_loop_True [OF fin] obtain ca cop lo where F: "def_of fn cr = Some ca" "is_compare (op (heap fn ca))"
      "loop_limit fn iv (heap fn ca) = Some (cop, lo)"
      "info = (info2 ex cr)\<lparr>ind_var := iv, step_val := k, step_op := sop, cmp_op := cop,
          limit := (case lo of None \<Rightarrow> 0 | Some k \<Rightarrow> k), limit_is_const := lo \<noteq> None,
          trip_count := (case (reg_is_const fn vp, lo) of (Some i, Some j) \<Rightarrow> compute_trips i j k sop cop | _ \<Rightarrow> -1)\<rparr>"
    by (simp add: I cong: option.case_cong) blast
  from find_induction_found [OF f(1)] obtain a vl d where "a \<in> set (instrs hb)" "op (heap fn a) = OP_PHI"
      "dst (heap fn a) = iv" "phi_ends ph l (heap fn a) = (vp, vl)" "through_copies fn (def_of fn vl) = Some (Some d)"
      "sop = op (heap fn d)" "const_step fn (heap fn a) (heap fn d) = Some k" by blast
  then show ?thesis
    using F(1-3) f(2) by (intro bexI [of _ a] exI [of _ vp] exI [of _ vl] exI [of _ d] exI [of _ ca] exI [of _ lo])
      (use x(1) in \<open>auto simp: F(4) I cong: option.case_cong\<close>)
qed

lemma detect_True:
  assumes "opt_detect_canonical_loop fn h = Some (True, info)"
  shows "\<exists>hb. blk_at fn h = Some hb \<and> detect_with fn h hb (latch info) (preheader info) = Some (True, info) \<and>
    loop_shape fn h info"
proof -
  obtain hb where hb: "blk_at fn h = Some hb" "reachable hb" "length (preds hb) = 2"
    using assms by (auto simp: opt_detect_canonical_loop_def split: option.splits if_splits)
  let ?p0 = "preds hb ! 0" and ?p1 = "preds hb ! 1"
  have ps: "set (preds hb) = {?p0, ?p1}" using hb(3) by (auto simp: numeral_2_eq_2 length_Suc_conv)
  from assms hb have bl: "is_block fn ?p0" "is_block fn ?p1"
    by (auto simp: opt_detect_canonical_loop_def is_block_def Let_def split: if_splits)
  with assms hb obtain l ph where lp: "latch_preheader fn h ?p0 ?p1 = Some (Some (l, ph))"
      "detect_with fn h hb l ph = Some (True, info)"
    by (auto simp: opt_detect_canonical_loop_def is_block_def Let_def bind_eq_Some_conv split: option.splits if_splits)
  have i: "header info = h" "latch info = l" "preheader info = ph" using detect_with_True [OF lp(2)] by auto
  have r: "(l = ?p0 \<and> ph = ?p1 \<or> l = ?p1 \<and> ph = ?p0) \<and> reaches_without fn ph h l \<and> \<not> reaches_without fn l h ph"
    using lp(1) by (auto simp: latch_preheader_def bind_eq_Some_conv dest!: can_reach_without_exact split: if_splits)
  then have "ph \<noteq> l" by auto
  with r i hb ps bl lp show ?thesis by (auto simp: loop_shape_def)
qed

section \<open>Properties\<close>

declare iterations.simps [simp del]

text \<open>
  The rounds of a recognised loop: \<open>R k\<close> gives every register its value in round \<open>k\<close>. The phi nodes
  of the header take the values of the preheader in the first round, and in every other those that
  the latch sends; the branch \<open>t\<close> of the header leaves the loop in round \<open>n\<close> and not before.
\<close>

definition branch_target :: "instr \<Rightarrow> (regid \<Rightarrow> int64) \<Rightarrow> blockid" where
  "branch_target t \<rho> = (if \<rho> (src1 t) \<noteq> 0 then src t 1 else src t 2)"

definition header_rounds :: "func \<Rightarrow> blockid \<Rightarrow> loop_info \<Rightarrow> instr \<Rightarrow> nat \<Rightarrow> (nat \<Rightarrow> regid \<Rightarrow> int64) \<Rightarrow> bool" where
  "header_rounds fn h info t n R \<longleftrightarrow> (\<forall>k \<le> n. models fn (R k)) \<and>
     (\<forall>a \<in> set (blk_instrs (blk_at fn h)). op (heap fn a) = OP_PHI \<longrightarrow>
        (\<forall>vp vl. phi_ends (preheader info) (latch info) (heap fn a) = (vp, vl) \<longrightarrow>
           R 0 (dst (heap fn a)) = R 0 vp \<and> (\<forall>k < n. R (Suc k) (dst (heap fn a)) = R k vl))) \<and>
     (\<forall>k < n. branch_target t (R k) \<noteq> exit_blk info) \<and> branch_target t (R n) = exit_blk info"

lemma iterations_rounds:
  assumes "\<And>k. k < n \<Longrightarrow> bin_val64 cop False (x k) lim = Some 1" "bin_val64 cop False (x n) lim \<noteq> Some 1"
    and "\<And>k. k < n \<Longrightarrow> bin_val64 sop False (x k) st = Some (x (Suc k))"
  shows "iterations (Suc n) cop lim sop st (x 0) = Some n"
  using assms
proof (induction n arbitrary: x)
  case 0
  then show ?case by (simp add: iterations.simps)
next
  case (Suc n)
  have "iterations (Suc n) cop lim sop st (x (Suc 0)) = Some n"
    by (rule Suc.IH [of "\<lambda>k. x (Suc k)"]) (use Suc.prems in auto)
  then show ?case using Suc.prems(1) [of 0] Suc.prems(3) [of 0] by (simp add: iterations.simps(2) [of "Suc n"])
qed

lemma iterations_unique:
  "iterations m cop lim sop st x = Some a \<Longrightarrow> iterations n cop lim sop st x = Some b \<Longrightarrow> a = b"
proof (induction m arbitrary: n x a b)
  case 0
  then show ?case by (simp add: iterations.simps)
next
  case (Suc m)
  then show ?case by (cases n) (auto simp: iterations.simps split: if_splits option.splits)
qed

lemma compare_value:
  "is_compare opc \<Longrightarrow> bin_val64 opc False a b = Some v \<Longrightarrow> v \<noteq> 0 \<longleftrightarrow> bin_val64 opc False a b = Some 1"
  by (auto simp: is_compare_def c_bool_def split: if_splits)

lemma compare_value': "is_compare opc \<Longrightarrow> bin_val64 opc False a b \<noteq> Some 1 \<Longrightarrow> bin_val64 opc False a b = Some 0"
  by (auto simp: is_compare_def c_bool_def split: if_splits)

lemma reverse_is_compare: "is_compare opc \<Longrightarrow> is_compare (reverse_cmp_op opc)"
  by (auto simp: is_compare_def reverse_cmp_op_def)

lemma loop_limit_compare: "loop_limit fn iv i = Some (cop, lo) \<Longrightarrow> is_compare (op i) \<Longrightarrow> is_compare cop"
  by (auto simp: loop_limit_def reverse_is_compare split: if_splits)

text \<open>In the rounds of a loop that goes on while the test holds, the test and the step are those of the reference.\<close>

lemma header_rounds_iterations:
  assumes R: "header_rounds fn h info t n R" and t: "src t 2 = exit_blk info" "src t 1 \<noteq> exit_blk info" "src1 t = cmp_reg info"
    and a: "a \<in> set (blk_instrs (blk_at fn h))" "op (heap fn a) = OP_PHI" "dst (heap fn a) = ind_var info"
      "phi_ends (preheader info) (latch info) (heap fn a) = (vp, vl)" and c: "is_compare (cmp_op info)"
    and sound: "\<And>\<rho>. models fn \<rho> \<Longrightarrow> bin_val64 (step_op info) False (\<rho> (ind_var info)) (step_val info) = Some (\<rho> vl) \<and>
      bin_val64 (cmp_op info) False (\<rho> (ind_var info)) (limit info) = Some (\<rho> (cmp_reg info))"
  shows "iterations (Suc n) (cmp_op info) (limit info) (step_op info) (step_val info) (R 0 vp) = Some n"
proof -
  let ?x = "\<lambda>k. R k (ind_var info)"
  have m: "models fn (R k)" if "k \<le> n" for k using R that by (simp add: header_rounds_def)
  have p: "?x 0 = R 0 vp" "\<And>k. k < n \<Longrightarrow> ?x (Suc k) = R k vl"
    using R a unfolding header_rounds_def by metis+
  have b: "R k (cmp_reg info) \<noteq> 0 \<longleftrightarrow> k < n" if "k \<le> n" for k
    using R t that by (cases "k < n") (auto simp: header_rounds_def branch_target_def split: if_splits)
  have "iterations (Suc n) (cmp_op info) (limit info) (step_op info) (step_val info) (?x 0) = Some n"
  proof (rule iterations_rounds)
    show "bin_val64 (cmp_op info) False (?x k) (limit info) = Some 1" if "k < n" for k
      using compare_value [OF c] sound [OF m, of k] b [of k] that by (metis less_imp_le)
    show "bin_val64 (cmp_op info) False (?x n) (limit info) \<noteq> Some 1"
      using compare_value [OF c] sound [OF m, of n] b [of n] by (metis order_refl less_irrefl)
    show "bin_val64 (step_op info) False (?x k) (step_val info) = Some (?x (Suc k))" if "k < n" for k
      using sound [OF m, of k] p(2) that by simp
  qed
  then show ?thesis by (simp add: p)
qed


text \<open>\<^verbatim>\<open>for (i = 0; i < 10; i += 3)\<close>.\<close>

definition demo_loop :: func where
  "demo_loop = rebuild_def_use (mk_func
     [mk_block [0, 1, 2, 3] [1] [], mk_block [4, 5, 6] [2, 3] [0, 2], mk_block [7, 8] [1] [1], mk_block [9] [] [1]]
     [mk_const 1 0, mk_const 2 10, mk_const 3 3, mk_instr OP_BR 0 [1],
      mk_phi 4 [(1, 0), (6, 2)], mk_instr OP_LT 5 [4, 2], mk_instr OP_CONDBR 0 [5, 2, 3],
      mk_instr OP_ADD 6 [4, 3], mk_instr OP_BR 0 [1], mk_instr OP_RET 0 []] 6)"

lemma demo_loop_defs:
  "def_of demo_loop 1 = Some 0" "def_of demo_loop 2 = Some 1" "def_of demo_loop 3 = Some 2"
  "def_of demo_loop 5 = Some 5" "def_of demo_loop 6 = Some 7"
  by (simp_all add: demo_loop_def def_of_rebuild MAX_INSTRS_def mk_defs all_addrs_def blk_instrs_def)

lemma demo_loop_blocks:
  "n_blocks demo_loop = 4" "succs_at demo_loop 1 = [2, 3]" "succs_at demo_loop 2 = [1]"
  "succs_at demo_loop 0 = [1]" "succs_at demo_loop 3 = []"
  by (simp_all add: demo_loop_def rebuild_def_use_def mk_func_def mk_block_def calloc_block_def succs_at_def
      blk_at_def numeral_2_eq_2 numeral_3_eq_3)

lemma demo_loop_heap:
  "heap demo_loop = heap (mk_func [] 
     [mk_const 1 0, mk_const 2 10, mk_const 3 3, mk_instr OP_BR 0 [1],
      mk_phi 4 [(1, 0), (6, 2)], mk_instr OP_LT 5 [4, 2], mk_instr OP_CONDBR 0 [5, 2, 3],
      mk_instr OP_ADD 6 [4, 3], mk_instr OP_BR 0 [1], mk_instr OP_RET 0 []] 6)"
  by (simp add: demo_loop_def rebuild_def_use_def mk_func_def)

lemma demo_loop_reach:
  "can_reach_without demo_loop 1 2 0 = Some True" "can_reach_without demo_loop 1 0 2 = Some False"
  by (simp_all add: can_reach_without_def search_from_def demo_loop_blocks demo_loop_blocks [unfolded One_nat_def] visit_def)

lemma demo_loop_detect:
  "opt_detect_canonical_loop demo_loop 1 = Some (True, \<lparr>preheader = 0, header = 1, latch = 2, exit_blk = 3,
     ind_var = 4, step_val = 3, step_op = OP_ADD, cmp_reg = 5, cmp_op = OP_LT, limit = 10,
     limit_is_const = True, trip_count = 4\<rparr>)"
proof -
  have b: "blk_at demo_loop 1 = Some (mk_block [4, 5, 6] [2, 3] [0, 2])" "blk_at demo_loop 2 = Some (mk_block [7, 8] [1] [1])"
    "blk_at demo_loop 0 = Some (mk_block [0, 1, 2, 3] [1] [])"
    by (simp_all add: demo_loop_def rebuild_def_use_def mk_func_def blk_at_def)
  have d: "loop_exit demo_loop 1 (mk_block [4, 5, 6] [2, 3] [0, 2]) 2 (mk_block [7, 8] [1] [1]) = Some (3, 5)"
    by (simp add: loop_exit_def tail_of_def demo_loop_heap mk_defs)
  have f: "find_induction demo_loop 0 2 [4, 5, 6] = Some (Some (4, 3, OP_ADD, 1))"
    by (simp add: demo_loop_heap mk_defs phi_ends_def demo_loop_defs through_copies.simps const_step_def reg_is_const_def)
  have c: "compute_trips 0 10 3 OP_ADD OP_LT = 4"
    by (simp add: compute_trips_def word_sless_alt word_sle_eq sdiv64_def signed_divide_int_def)
  have i: "instrs (mk_block as ss ps) = as" "preds (mk_block as ss ps) = ps" "reachable (mk_block as ss ps)" for as ss ps
    by (simp_all add: mk_block_def calloc_block_def)
  define res where "res = \<lparr>preheader = 0, header = 1, latch = 2, exit_blk = 3, ind_var = 4, step_val = 3,
     step_op = OP_ADD, cmp_reg = 5, cmp_op = OP_LT, limit = 10, limit_is_const = True, trip_count = 4 :: int64\<rparr>"
  have fin: "finish_loop demo_loop 1 (loop_info0\<lparr>preheader := 0, header := 1, latch := 2, exit_blk := 3, cmp_reg := 5,
      ind_var := 4, step_val := 3, step_op := OP_ADD\<rparr>) = (True, res)"
    by (simp add: finish_loop_def demo_loop_defs demo_loop_defs [unfolded One_nat_def] is_compare_def loop_limit_def
        demo_loop_heap mk_defs reg_is_const_def c loop_info0_def res_def)
  have "detect_with demo_loop 1 (mk_block [4, 5, 6] [2, 3] [0, 2]) 2 0 = Some (True, res)"
    unfolding detect_with_def b option.case d i
    by (simp add: f fin [unfolded One_nat_def] NO_BLOCK_def Let_def del: find_induction.simps)
  then show ?thesis
    unfolding opt_detect_canonical_loop_def b option.case i res_def [symmetric]
    by (simp add: b i latch_preheader_def demo_loop_reach [unfolded One_nat_def])
qed

lemma demo_loop_addrs: "all_addrs demo_loop = [0, 1, 2, 3, 4, 5, 6, 7, 8, 9]"
  by (simp add: demo_loop_def all_addrs_def rebuild_def_use_def mk_func_def mk_block_def blk_instrs_def)

lemma demo_loop_wide: "\<forall>a \<in> set (all_addrs demo_loop). wide (heap demo_loop a)"
  by (simp add: demo_loop_addrs demo_loop_heap mk_defs wide_def)

definition demo_env :: "regid \<Rightarrow> int64" where
  "demo_env r = (if r = 2 then 10 else if r = 3 then 3 else if r = 5 then 1 else if r = 6 then 3 else 0)"

lemma demo_loop_models: "models demo_loop demo_env"
  by (simp add: models_def demo_loop_addrs demo_loop_heap mk_defs satisfies_def value_of_def bin_val_def
      demo_env_def c_bool_def word_sless_alt)

definition demo_rounds :: "nat \<Rightarrow> regid \<Rightarrow> int64" where
  "demo_rounds k r = (if r = 2 then 10 else if r = 3 then 3 else if r = 4 then of_nat (3 * k)
     else if r = 5 then c_bool (k < 4) else if r = 6 then of_nat (3 * k + 3) else 0)"

abbreviation demo_info :: loop_info where
  "demo_info \<equiv> \<lparr>preheader = 0, header = 1, latch = 2, exit_blk = 3,
     ind_var = 4, step_val = 3, step_op = OP_ADD, cmp_reg = 5, cmp_op = OP_LT, limit = 10,
     limit_is_const = True, trip_count = 4\<rparr>"

lemma demo_rounds_models: "k \<le> 4 \<Longrightarrow> models demo_loop (demo_rounds k)"
proof -
  assume "k \<le> 4"
  then have "k = 0 \<or> k = 1 \<or> k = 2 \<or> k = 3 \<or> k = 4" by auto
  then show ?thesis
    by (elim disjE) (simp_all add: models_def demo_loop_addrs demo_loop_heap mk_defs satisfies_def value_of_def
        bin_val_def demo_rounds_def c_bool_def word_sless_alt)
qed

lemma demo_header: "blk_instrs (blk_at demo_loop 1) = [4, 5, 6]"
  by (simp add: demo_loop_def rebuild_def_use_def mk_func_def blk_at_def blk_instrs_def mk_block_def)

lemma demo_header_rounds: "header_rounds demo_loop 1 demo_info (mk_instr OP_CONDBR 0 [5, 2, 3]) 4 demo_rounds"
  unfolding header_rounds_def demo_header
  by (auto simp: demo_rounds_models demo_loop_heap mk_defs phi_ends_def branch_target_def demo_rounds_def c_bool_def)


lemma through_copies_ends:
  fixes rank :: "regid \<Rightarrow> nat"
  assumes "\<And>r a. def_of fn r = Some a \<Longrightarrow> op (heap fn a) = OP_COPY \<Longrightarrow> rank (src1 (heap fn a)) < rank r"
  shows "\<exists>y. through_copies fn (def_of fn r) = Some y"
proof (induction "rank r" arbitrary: r rule: less_induct)
  case less
  show ?case
  proof (cases "def_of fn r")
    case None
    then show ?thesis by (simp add: through_copies.simps)
  next
    case (Some a)
    show ?thesis
    proof (cases "op (heap fn a) = OP_COPY")
      case True
      with less [OF assms [OF Some True]] Some show ?thesis by (simp add: through_copies.simps [of fn "Some a"])
    next
      case False
      with Some show ?thesis by (simp add: through_copies.simps)
    qed
  qed
qed

lemma find_induction_ends:
  assumes "\<And>r. \<exists>y. through_copies fn (def_of fn r) = Some y"
  shows "\<exists>y. find_induction fn ph l as = Some y"
proof (induction as)
  case (Cons a as)
  obtain vp vl where e: "phi_ends ph l (heap fn a) = (vp, vl)" by fastforce
  obtain y where "through_copies fn (def_of fn vl) = Some y" using assms by blast
  with Cons e show ?case by (auto simp: Let_def split: option.split)
qed simp

lemma loop_exit_ends:
  assumes "\<And>t. tail_of fn hb = Some t \<Longrightarrow> op t = OP_CONDBR \<Longrightarrow> src t 1 < n_blocks fn"
  shows "\<exists>y. loop_exit fn h hb l lb = Some y"
proof (cases "tail_of fn hb")
  case None
  then show ?thesis by (simp add: loop_exit_def)
next
  case (Some t)
  show ?thesis
  proof (cases "op t = OP_CONDBR")
    case True
    then obtain r where "can_reach_without fn (src t 1) l h = Some r"
      using can_reach_without_defined assms Some by blast
    with Some True show ?thesis by (simp add: loop_exit_def)
  qed (simp add: loop_exit_def Some)
qed

text \<open>
  C33: Loop recognition returns. The loop over copies has no counter, but when every copy leads to a
  register of smaller rank (as the definitions of a program in SSA form do along the dominator tree)
  and branches stay inside the block array, \<^verbatim>\<open>opt_detect_canonical_loop\<close> ends with a result for every
  header.
\<close>

theorem opt_detect_canonical_loop_returns:
  fixes rank :: "regid \<Rightarrow> nat"
  assumes "\<And>r a. def_of fn r = Some a \<Longrightarrow> op (heap fn a) = OP_COPY \<Longrightarrow> rank (src1 (heap fn a)) < rank r"
    and "\<And>b blk t. blk_at fn b = Some blk \<Longrightarrow> tail_of fn blk = Some t \<Longrightarrow> op t = OP_CONDBR \<Longrightarrow> src t 1 < n_blocks fn"
  shows "\<exists>res. opt_detect_canonical_loop fn h = Some res"
proof (cases "\<exists>hb. blk_at fn h = Some hb \<and> reachable hb \<and> length (preds hb) = 2 \<and>
    is_block fn (preds hb ! 0) \<and> is_block fn (preds hb ! 1)")
  case False
  then show ?thesis
    by (cases "blk_at fn h") (auto simp: opt_detect_canonical_loop_def is_block_def Let_def)
next
  case True
  then obtain hb where hb: "blk_at fn h = Some hb" "reachable hb" "length (preds hb) = 2"
      "is_block fn (preds hb ! 0)" "is_block fn (preds hb ! 1)" by blast
  have h: "h < n_blocks fn" using hb(1) by (rule blk_at_Some_lt)
  obtain l0 l1 where l: "can_reach_without fn h (preds hb ! 0) (preds hb ! 1) = Some l0"
      "can_reach_without fn h (preds hb ! 1) (preds hb ! 0) = Some l1"
    using can_reach_without_defined [OF h] by metis
  have D: "\<exists>res. detect_with fn h hb l ph = Some res" if lb: "is_block fn l" for l ph
  proof -
    obtain lb where lb: "blk_at fn l = Some lb" using lb by (auto simp: is_block_def)
    obtain ex cr where x: "loop_exit fn h hb l lb = Some (ex, cr)"
      using loop_exit_ends [OF assms(2) [OF hb(1)]] by (metis surj_pair)
    obtain r where f: "find_induction fn ph l (instrs hb) = Some r"
      using find_induction_ends [OF through_copies_ends [of fn rank, OF assms(1)]] by blast
    show ?thesis unfolding detect_with_def lb option.case x
      by (cases r) (auto simp: f Let_def)
  qed
  have "\<exists>res. (case lp of None \<Rightarrow> Some (False, loop_info0) | Some (l, ph) \<Rightarrow> detect_with fn h hb l ph) = Some res"
    if "latch_preheader fn h (preds hb ! 0) (preds hb ! 1) = Some lp" for lp
    using that hb(4,5) D by (auto simp: latch_preheader_def l l [unfolded One_nat_def] split: if_splits)
  then show ?thesis
    using hb by (auto simp: opt_detect_canonical_loop_def is_block_def latch_preheader_def l l [unfolded One_nat_def] Let_def)
qed

theorem opt_detect_canonical_loop_returns_witness:
  "\<exists>res. opt_detect_canonical_loop demo_loop 1 = Some res"
proof (rule opt_detect_canonical_loop_returns [of demo_loop id])
  fix r a assume r: "def_of demo_loop r = Some a" "op (heap demo_loop a) = OP_COPY"
  have "def_use_ok demo_loop" by (simp add: demo_loop_def rebuild_def_use_ok)
  with r have "a \<in> set (all_addrs demo_loop)" by (simp add: def_use_ok_def)
  with r show "id (src1 (heap demo_loop a)) < id r"
    by (auto simp: demo_loop_addrs demo_loop_heap mk_defs)
next
  fix b blk t assume "blk_at demo_loop b = Some blk" "tail_of demo_loop blk = Some t" "op t = OP_CONDBR"
  then have "t \<in> heap demo_loop ` set (all_addrs demo_loop)" "op t = OP_CONDBR"
    by (auto simp: tail_of_def set_all_addrs split: if_splits intro!: imageI exI conjI last_in_set)
  then show "src t 1 < n_blocks demo_loop"
    by (auto simp: demo_loop_addrs demo_loop_blocks demo_loop_heap mk_defs)
qed

lemma through_copies_self:
  assumes "def_of fn r = Some a" "op (heap fn a) = OP_COPY" "src1 (heap fn a) = r"
  shows "through_copies fn (Some a) = None"
proof (rule ccontr)
  assume "through_copies fn (Some a) \<noteq> None"
  then obtain y where y: "through_copies fn (Some a) = Some y" by blast
  have "fn = fn \<longrightarrow> Some a = Some a \<longrightarrow> False"
  proof (rule through_copies.raw_induct [where P = "\<lambda>fn' d y. fn' = fn \<longrightarrow> d = Some a \<longrightarrow> False", OF _ y])
    fix f fn' d y
    assume IH: "\<And>fn' d y. f fn' d = Some y \<Longrightarrow> fn' = fn \<longrightarrow> d = Some a \<longrightarrow> False"
      and body: "(case d of None \<Rightarrow> Some None
        | Some a \<Rightarrow> if op (heap fn' a) = OP_COPY then f fn' (def_of fn' (src1 (heap fn' a))) else Some (Some a)) = Some y"
    show "fn' = fn \<longrightarrow> d = Some a \<longrightarrow> False"
    proof (intro impI)
      assume "fn' = fn" "d = Some a"
      with body assms have "f fn (Some a) = Some y" by simp
      with IH show False by blast
    qed
  qed
  then show False by simp
qed


text \<open>A latch value that is a copy of itself.\<close>

definition spin_loop :: func where
  "spin_loop = rebuild_def_use (mk_func
     [mk_block [0, 1, 2] [1] [], mk_block [3, 4, 5] [2, 3] [0, 2], mk_block [6, 7] [1] [1], mk_block [8] [] [1]]
     [mk_const 1 0, mk_const 2 10, mk_instr OP_BR 0 [1],
      mk_phi 4 [(1, 0), (6, 2)], mk_instr OP_LT 5 [4, 2], mk_instr OP_CONDBR 0 [5, 2, 3],
      mk_instr OP_COPY 6 [6], mk_instr OP_BR 0 [1], mk_instr OP_RET 0 []] 6)"

lemma spin_loop_addrs: "all_addrs spin_loop = [0, 1, 2, 3, 4, 5, 6, 7, 8]"
  by (simp add: spin_loop_def all_addrs_def rebuild_def_use_def mk_func_def mk_block_def blk_instrs_def)

lemma spin_loop_heap:
  "heap spin_loop = heap (mk_func [] [mk_const 1 0, mk_const 2 10, mk_instr OP_BR 0 [1],
      mk_phi 4 [(1, 0), (6, 2)], mk_instr OP_LT 5 [4, 2], mk_instr OP_CONDBR 0 [5, 2, 3],
      mk_instr OP_COPY 6 [6], mk_instr OP_BR 0 [1], mk_instr OP_RET 0 []] 6)"
  by (simp add: spin_loop_def rebuild_def_use_def mk_func_def)

lemma spin_loop_blocks: "blocks spin_loop = map Some 
     [mk_block [0, 1, 2] [1] [], mk_block [3, 4, 5] [2, 3] [0, 2], mk_block [6, 7] [1] [1], mk_block [8] [] [1]]"
  by (simp add: spin_loop_def rebuild_def_use_def mk_func_def)

lemma spin_loop_blk: "blk_at spin_loop b = Some blk \<longleftrightarrow>
    b = 0 \<and> blk = mk_block [0, 1, 2] [1] [] \<or> b = 1 \<and> blk = mk_block [3, 4, 5] [2, 3] [0, 2] \<or>
    b = 2 \<and> blk = mk_block [6, 7] [1] [1] \<or> b = 3 \<and> blk = mk_block [8] [] [1]"
  by (auto simp: blk_at_Some_iff spin_loop_blocks less_Suc_eq numeral_eq_Suc)

lemma spin_loop_ok: "heap_ok spin_loop" "counters_ok spin_loop" "function_ok spin_loop no_info"
proof -
  show "heap_ok spin_loop" by (simp add: heap_ok_def spin_loop_addrs) (simp add: spin_loop_def rebuild_def_use_def mk_func_def)
  show "counters_ok spin_loop" by (rule counters_okI) (auto simp: spin_loop_blk mk_block_def)
  have reach: "reach_list spin_loop = [(0, 0), (0, 1), (0, 2), (1, 3), (1, 4), (1, 5), (2, 6), (2, 7), (3, 8)]"
    by (simp add: reach_list_def spin_loop_blocks blk_at_def mk_block_def upt_rec)
  have defs: "ssa_defs spin_loop = [1, 2, 4, 5, 6]"
    by (simp add: ssa_defs_def reach spin_loop_heap mk_defs)
  have t: "terminators_ok spin_loop"
    by (auto simp: terminators_ok_def spin_loop_blk mk_block_def spin_loop_heap mk_defs is_terminator_def)
  have c: "cfg_ok spin_loop" by (auto simp: cfg_ok_def edges_ok_def spin_loop_blk mk_block_def calloc_block_def)
  have s: "ssa_ok spin_loop no_info"
    by (auto simp: ssa_ok_def defs reach ssa_defined_def MAX_INSTRS_def no_info_def spin_loop_heap mk_defs
        is_reg_operand_def instr_typed_def less_Suc_eq)
  have "phi_ok spin_loop no_info"
    by (auto simp: phi_ok_def spin_loop_blk mk_block_def calloc_block_def phis_first_Cons phis_first_Nil
        spin_loop_heap mk_func_def mk_instr_def mk_const_def mk_phi_def calloc_instr_def phi_entry_ok_def no_info_def)
  with t c s show "function_ok spin_loop no_info" by (simp add: function_ok_def)
qed

lemma spin_loop_defs: "def_of spin_loop 6 = Some 6"
  by (simp add: spin_loop_def def_of_rebuild MAX_INSTRS_def mk_defs all_addrs_def blk_instrs_def)

lemma spin_loop_hangs: "opt_detect_canonical_loop spin_loop 1 = None"
proof -
  have b: "blk_at spin_loop 1 = Some (mk_block [3, 4, 5] [2, 3] [0, 2])" "blk_at spin_loop 2 = Some (mk_block [6, 7] [1] [1])"
    "blk_at spin_loop 0 = Some (mk_block [0, 1, 2] [1] [])"
    by (simp_all add: spin_loop_blk)
  have i: "instrs (mk_block as ss ps) = as" "preds (mk_block as ss ps) = ps" "reachable (mk_block as ss ps)" for as ss ps
    by (simp_all add: mk_block_def calloc_block_def)
  have d: "loop_exit spin_loop 1 (mk_block [3, 4, 5] [2, 3] [0, 2]) 2 (mk_block [6, 7] [1] [1]) = Some (3, 5)"
    by (simp add: loop_exit_def tail_of_def spin_loop_heap mk_defs)
  have "through_copies spin_loop (def_of spin_loop 6) = None" unfolding spin_loop_defs
    by (rule through_copies_self [OF spin_loop_defs]) (simp_all add: spin_loop_heap mk_defs)
  then have f: "find_induction spin_loop 0 2 [3, 4, 5] = None"
    by (simp add: spin_loop_heap mk_defs phi_ends_def)
  have n: "detect_with spin_loop 1 (mk_block [3, 4, 5] [2, 3] [0, 2]) 2 0 = None"
    unfolding detect_with_def b option.case d i by (simp add: f NO_BLOCK_def Let_def del: find_induction.simps)
  have "succs_at spin_loop 0 = [1]" "succs_at spin_loop 1 = [2, 3]" "succs_at spin_loop 2 = [1]" "succs_at spin_loop 3 = []"
      "n_blocks spin_loop = 4"
    by (simp_all add: succs_at_def spin_loop_blocks blk_at_def mk_block_def calloc_block_def numeral_2_eq_2 numeral_3_eq_3)
  note c = this this [unfolded One_nat_def]
  have r: "can_reach_without spin_loop 1 2 0 = Some True" "can_reach_without spin_loop 1 0 2 = Some False"
    unfolding can_reach_without_def search_from_def by (simp_all add: visit_def c)
  show ?thesis
    unfolding opt_detect_canonical_loop_def b option.case i
    by (simp add: b i latch_preheader_def r [unfolded One_nat_def] n [unfolded One_nat_def])
qed

text \<open>
  C34: Loop recognition may hang on input the verifier accepts. In \<open>spin_loop\<close> the value the latch sends
  to the header is a register defined as a copy of itself; \<^verbatim>\<open>verify_function_ir\<close> counts one
  definition and reports nothing, and \<^verbatim>\<open>opt_detect_canonical_loop\<close> never leaves its loop over copies.
\<close>

theorem opt_detect_canonical_loop_hangs:
  "fst (snd (verify_function_ir spin_loop no_info (\<lambda>_. 0) (empty_report 4))) \<and>
   opt_detect_canonical_loop spin_loop 1 = None"
  using verify_function_result(1) [OF spin_loop_ok(1,2), of "\<lambda>_. 0" no_info "empty_report 4"] spin_loop_ok(3) spin_loop_hangs
  by (metis prod.collapse)

end
