(* ===== verification/CapTripwire.thy ===== *)
theory CapTripwire
  imports PassWalk "HOL-Library.Monad_Syntax"
begin

text \<open>
  \<open>src/src/opt/cap_tripwire.c\<close>: the capability of a pointer that is a constant offset from a stack
  slot, the test whether an access through it stays inside the slot, and the pass that puts a call of
  \<^verbatim>\<open>abort\<close> before the accesses that do not.
\<close>

section \<open>Definitions\<close>

datatype cap_status = CAP_PROVABLY_SAFE | CAP_LOOP_BOUNDED | CAP_DYNAMIC_UNBOUNDED | CAP_REVOKED_USE_AFTER_FREE

record affine_cap =
  base_reg :: regid
  capacity :: int64
  min_offset :: int64
  max_offset :: int64
  status :: cap_status

record cap_metrics =
  memory_accesses_inspected :: nat
  bounds_checks_elided :: nat
  tripwires_injected :: nat
  uaf_traps_injected :: nat

definition unknown_cap :: "regid \<Rightarrow> affine_cap" where
  "unknown_cap r = \<lparr>base_reg = r, capacity = -1, min_offset = 0, max_offset = 0, status = CAP_DYNAMIC_UNBOUNDED\<rparr>"

definition alloca_cap :: "regid \<Rightarrow> int64 \<Rightarrow> affine_cap" where
  "alloca_cap r sz = \<lparr>base_reg = r, capacity = (if 0 <s sz then sz else 64), min_offset = 0, max_offset = 0,
     status = CAP_PROVABLY_SAFE\<rparr>"

text \<open>The capability of a pointer \<open>k\<close> bytes further.\<close>

definition shift_cap :: "int64 \<Rightarrow> affine_cap \<Rightarrow> affine_cap" where
  "shift_cap k c =
     (let c1 = c\<lparr>min_offset := min_offset c + k, max_offset := max_offset c + k\<rparr>
      in if 0 \<le>s min_offset c1 \<and> max_offset c1 <s capacity c1 then c1\<lparr>status := CAP_PROVABLY_SAFE\<rparr>
         else if capacity c1 \<le>s max_offset c1 \<or> min_offset c1 <s 0 then c1\<lparr>status := CAP_DYNAMIC_UNBOUNDED\<rparr>
         else c1)"

text \<open>The recursion has no bound of its own; \<open>None\<close> when it does not end.\<close>

partial_function (option) analyze_pointer_capability :: "func \<Rightarrow> regid \<Rightarrow> affine_cap option" where
  "analyze_pointer_capability fn r = (case def_of fn r of
       None \<Rightarrow> Some (unknown_cap r)
     | Some a \<Rightarrow>
         if op (heap fn a) = OP_ALLOCA then Some (alloca_cap r (imm (heap fn a)))
         else if op (heap fn a) = OP_ADD
         then (case reg_is_const fn (src2 (heap fn a)) of
                 None \<Rightarrow> Some (unknown_cap r)
               | Some k \<Rightarrow> do {
                   c \<leftarrow> analyze_pointer_capability fn (src1 (heap fn a));
                   Some (if 0 <s capacity c then shift_cap k c else unknown_cap r)
                 })
         else Some (unknown_cap r))"

definition is_access_provably_safe :: "affine_cap \<Rightarrow> int64 \<Rightarrow> bool" where
  "is_access_provably_safe c sz = (if capacity c \<le>s 0 then False else if min_offset c <s 0 then False
     else max_offset c + sz \<le>s capacity c)"

definition provably_unsafe :: "affine_cap \<Rightarrow> int64 \<Rightarrow> bool" where
  "provably_unsafe c sz \<longleftrightarrow> 0 <s capacity c \<and>
     (min_offset c <s 0 \<or> capacity c <s max_offset c + sz \<or> status c = CAP_REVOKED_USE_AFTER_FREE)"

definition trap_instr :: instr where
  "trap_instr = calloc_instr\<lparr>op := OP_CALL, call_name := ''abort''\<rparr>"

text \<open>A new trap linked before the instruction \<open>a\<close> of block \<open>bi\<close>.\<close>

definition insert_trap :: "blockid \<Rightarrow> addr \<Rightarrow> func \<Rightarrow> func" where
  "insert_trap bi a fn = upd_blk bi (link_in_block a (next_addr fn))
     (fn\<lparr>heap := (heap fn)(next_addr fn := trap_instr), next_addr := next_addr fn + 1\<rparr>)"

definition is_mem_access :: "instr \<Rightarrow> bool" where
  "is_mem_access i \<longleftrightarrow> op i = OP_LOAD \<or> op i = OP_STORE"

definition cap_step :: "blockid \<Rightarrow> addr \<Rightarrow> func \<times> cap_metrics \<times> bool \<Rightarrow> (func \<times> cap_metrics \<times> bool) option" where
  "cap_step bi a = (\<lambda>(fn, m, ch).
     if \<not> is_mem_access (heap fn a) then Some (fn, m, ch)
     else do {
       c \<leftarrow> analyze_pointer_capability fn (src1 (heap fn a));
       let m1 = m\<lparr>memory_accesses_inspected := memory_accesses_inspected m + 1\<rparr>;
       Some (if is_access_provably_safe c 8
         then (fn, m1\<lparr>bounds_checks_elided := bounds_checks_elided m1 + 1\<rparr>, ch)
         else if provably_unsafe c 8
         then (insert_trap bi a fn,
               m1\<lparr>tripwires_injected := tripwires_injected m1 + 1,
                  uaf_traps_injected := (if status c = CAP_REVOKED_USE_AFTER_FREE
                    then uaf_traps_injected m1 + 1 else uaf_traps_injected m1)\<rparr>, True)
         else (fn, m1, ch))
     })"

definition cap_metrics0 :: cap_metrics where
  "cap_metrics0 = \<lparr>memory_accesses_inspected = 0, bounds_checks_elided = 0, tripwires_injected = 0, uaf_traps_injected = 0\<rparr>"

definition cap_block :: "blockid \<Rightarrow> func \<times> cap_metrics \<times> bool \<Rightarrow> (func \<times> cap_metrics \<times> bool) option" where
  "cap_block bi s = (case blk_at (fst s) bi of
       None \<Rightarrow> Some s
     | Some b \<Rightarrow> if \<not> reachable b then Some s else fold_opt (cap_step bi) (instrs b) s)"

definition opt_cap_tripwire_pass :: "func \<Rightarrow> (func \<times> cap_metrics \<times> bool) option" where
  "opt_cap_tripwire_pass fn = (if n_blocks fn = 0 then Some (fn, cap_metrics0, False)
     else fold_opt cap_block [0..<n_blocks fn] (licm_build_def_block fn, cap_metrics0, False))"

section \<open>What a capability says\<close>

text \<open>
  \<open>cap_of fn r b k\<close>: register \<open>r\<close> is the stack slot \<open>b\<close> plus the constants of \<open>k\<close>, through additions of the code.
\<close>

inductive slot_offset :: "func \<Rightarrow> regid \<Rightarrow> addr \<Rightarrow> int64 \<Rightarrow> bool" for fn where
  slot: "def_of fn r = Some a \<Longrightarrow> op (heap fn a) = OP_ALLOCA \<Longrightarrow> slot_offset fn r a 0"
| plus: "def_of fn r = Some d \<Longrightarrow> op (heap fn d) = OP_ADD \<Longrightarrow> reg_is_const fn (src2 (heap fn d)) = Some k
    \<Longrightarrow> slot_offset fn (src1 (heap fn d)) a j \<Longrightarrow> slot_offset fn r a (j + k)"

inductive_cases slot_offsetE: "slot_offset fn r a k"

text \<open>An analysis with a positive capacity has found the slot and the offset.\<close>

definition cap_fits :: "func \<Rightarrow> regid \<Rightarrow> affine_cap \<Rightarrow> bool" where
  "cap_fits fn r c \<longleftrightarrow> (0 <s capacity c \<longrightarrow>
     (\<exists>a. slot_offset fn r a (max_offset c) \<and> min_offset c = max_offset c \<and> def_of fn (base_reg c) = Some a \<and>
       capacity c = (if 0 <s imm (heap fn a) then imm (heap fn a) else 64))) \<and>
     status c \<noteq> CAP_REVOKED_USE_AFTER_FREE"

lemma shift_cap_simps [simp]:
  "base_reg (shift_cap k c) = base_reg c" "capacity (shift_cap k c) = capacity c"
  "min_offset (shift_cap k c) = min_offset c + k" "max_offset (shift_cap k c) = max_offset c + k"
  by (simp_all add: shift_cap_def Let_def)

lemma unknown_cap_fits: "cap_fits fn r (unknown_cap r)"
  by (simp add: cap_fits_def unknown_cap_def word_sless_alt)

lemma shift_cap_status: "status c \<noteq> CAP_REVOKED_USE_AFTER_FREE \<Longrightarrow> status (shift_cap k c) \<noteq> CAP_REVOKED_USE_AFTER_FREE"
  by (simp add: shift_cap_def Let_def)

lemma analyze_fits:
  assumes "analyze_pointer_capability fn r = Some c"
  shows "cap_fits fn r c"
proof (rule analyze_pointer_capability.raw_induct [OF _ assms])
  fix f fn r c
  assume IH: "\<And>fn r c. f fn r = Some c \<Longrightarrow> cap_fits fn r c"
  assume body: "(case def_of fn r of None \<Rightarrow> Some (unknown_cap r)
     | Some a \<Rightarrow>
         if op (heap fn a) = OP_ALLOCA then Some (alloca_cap r (imm (heap fn a)))
         else if op (heap fn a) = OP_ADD
         then (case reg_is_const fn (src2 (heap fn a)) of
                 None \<Rightarrow> Some (unknown_cap r)
               | Some k \<Rightarrow> f fn (src1 (heap fn a)) \<bind>
                   (\<lambda>c. Some (if 0 <s capacity c then shift_cap k c else unknown_cap r)))
         else Some (unknown_cap r)) = Some c"
  consider "c = unknown_cap r"
    | a where "def_of fn r = Some a" "op (heap fn a) = OP_ALLOCA" "c = alloca_cap r (imm (heap fn a))"
    | a k c' where "def_of fn r = Some a" "op (heap fn a) = OP_ADD" "reg_is_const fn (src2 (heap fn a)) = Some k"
        "f fn (src1 (heap fn a)) = Some c'" "0 <s capacity c'" "c = shift_cap k c'"
    using body by (auto simp: bind_eq_Some_conv split: option.splits if_splits)
  then show "cap_fits fn r c"
  proof cases
    case 1
    then show ?thesis by (simp add: unknown_cap_fits)
  next
    case 2
    then show ?thesis by (auto simp: cap_fits_def alloca_cap_def intro: slot_offset.slot)
  next
    case 3
    from IH [OF 3(4)] 3(5) obtain b where b: "slot_offset fn (src1 (heap fn a)) b (max_offset c')"
        "min_offset c' = max_offset c'" "def_of fn (base_reg c') = Some b"
        "capacity c' = (if 0 <s imm (heap fn b) then imm (heap fn b) else 64)" "status c' \<noteq> CAP_REVOKED_USE_AFTER_FREE"
      by (auto simp: cap_fits_def)
    have "slot_offset fn r b (max_offset c' + k)" by (rule slot_offset.plus [OF 3(1-3) b(1)])
    with b 3(6) shift_cap_status [OF b(5)] show ?thesis unfolding cap_fits_def shift_cap_simps by (intro conjI impI exI [of _ b]) simp_all
  qed
qed

lemma slot_offset_value:
  assumes "slot_offset fn r a k" and ok: "def_use_ok fn" "models fn \<rho>" "\<forall>a \<in> set (all_addrs fn). wide (heap fn a)"
  shows "\<rho> r = \<rho> (dst (heap fn a)) + k"
  using assms(1)
proof induction
  case (slot r a)
  then show ?case using ok(1) by (auto simp: def_use_ok_def)
next
  case (plus r d k a j)
  have d: "d \<in> set (all_addrs fn)" "dst (heap fn d) = r" "r \<noteq> 0"
    using plus.hyps(1) ok(1) by (auto simp: def_use_ok_def def_of_def split: if_splits)
  obtain b where b: "def_of fn (src2 (heap fn d)) = Some b" "op (heap fn b) = OP_CONST" "imm (heap fn b) = k"
    using plus.hyps(3) by (auto simp: reg_is_const_def split: option.splits if_splits)
  then have "b \<in> set (all_addrs fn)" "dst (heap fn b) = src2 (heap fn d)" "src2 (heap fn d) \<noteq> 0"
    using ok(1) by (auto simp: def_use_ok_def def_of_def split: if_splits)
  then have "\<rho> (src2 (heap fn d)) = k"
    using ok(2,3) b(2,3) by (auto simp: models_def satisfies_def value_of_def wide_def)
  moreover have "\<rho> r = \<rho> (src1 (heap fn d)) + \<rho> (src2 (heap fn d))"
    using ok(2,3) d plus.hyps(2) by (auto simp: models_def satisfies_def value_of_def wide_def bin_val_def)
  ultimately show ?case using plus.IH by simp
qed

lemma provably_safe_bounds:
  assumes "is_access_provably_safe c 8" "min_offset c = max_offset c" "sint (max_offset c) \<le> 9223372036854775799"
  shows "0 <s capacity c" "0 \<le> sint (max_offset c)" "sint (max_offset c) + 8 \<le> sint (capacity c)"
proof -
  have a: "0 < sint (capacity c)" "0 \<le> sint (max_offset c)" "sint (max_offset c + 8) \<le> sint (capacity c)"
    using assms(1,2) by (auto simp: is_access_provably_safe_def word_sless_alt word_sle_eq split: if_splits)
  moreover have "sint (max_offset c + 8) = sint (max_offset c) + 8"
    using a(2) assms(3) by (subst sint64_add) simp_all
  ultimately show "0 <s capacity c" "0 \<le> sint (max_offset c)" "sint (max_offset c) + 8 \<le> sint (capacity c)"
    by (simp_all add: word_sless_alt)
qed

section \<open>What the pass inserts\<close>

text \<open>The analysis reads the table of definitions and the instructions it points to.\<close>

definition same_defs :: "func \<Rightarrow> func \<Rightarrow> bool" where
  "same_defs fn fn' \<longleftrightarrow> def_tab fn' = def_tab fn \<and> (\<forall>r a. def_of fn r = Some a \<longrightarrow> heap fn' a = heap fn a)"

lemma same_defs_def_of: "same_defs fn fn' \<Longrightarrow> def_of fn' = def_of fn"
  by (simp add: same_defs_def def_of_def fun_eq_iff)

lemma same_defs_sym: "same_defs fn fn' \<Longrightarrow> same_defs fn' fn"
  using same_defs_def_of [of fn fn'] by (simp add: same_defs_def)

lemma same_defs_of: "same_defs fn fn' \<Longrightarrow> def_of fn' r = def_of fn r \<and> reg_is_const fn' r = reg_is_const fn r"
  using same_defs_def_of [of fn fn'] by (auto simp: same_defs_def reg_is_const_def split: option.split)

lemma analyze_same_defs:
  assumes "analyze_pointer_capability fn r = Some c" "same_defs fn fn'"
  shows "analyze_pointer_capability fn' r = Some c"
proof -
  have "\<forall>fn'. same_defs fn fn' \<longrightarrow> analyze_pointer_capability fn' r = Some c"
  proof (rule analyze_pointer_capability.raw_induct [OF _ assms(1)])
    fix f fn r c
    assume IH: "\<And>fn r c. f fn r = Some c \<Longrightarrow> \<forall>fn'. same_defs fn fn' \<longrightarrow> analyze_pointer_capability fn' r = Some c"
    assume body: "(case def_of fn r of None \<Rightarrow> Some (unknown_cap r)
       | Some a \<Rightarrow>
           if op (heap fn a) = OP_ALLOCA then Some (alloca_cap r (imm (heap fn a)))
           else if op (heap fn a) = OP_ADD
           then (case reg_is_const fn (src2 (heap fn a)) of
                   None \<Rightarrow> Some (unknown_cap r)
                 | Some k \<Rightarrow> f fn (src1 (heap fn a)) \<bind>
                     (\<lambda>c. Some (if 0 <s capacity c then shift_cap k c else unknown_cap r)))
           else Some (unknown_cap r)) = Some c"
    show "\<forall>fn'. same_defs fn fn' \<longrightarrow> analyze_pointer_capability fn' r = Some c"
    proof (intro allI impI)
      fix fn' assume s: "same_defs fn fn'"
      note D = same_defs_of [OF s]
      show "analyze_pointer_capability fn' r = Some c"
      proof (cases "def_of fn r")
        case None
        with body D show ?thesis by (simp add: analyze_pointer_capability.simps)
      next
        case (Some a)
        have h: "heap fn' a = heap fn a" using s Some by (simp add: same_defs_def)
        have step: "analyze_pointer_capability fn' r =
           (if op (heap fn a) = OP_ALLOCA then Some (alloca_cap r (imm (heap fn a)))
           else if op (heap fn a) = OP_ADD
           then (case reg_is_const fn (src2 (heap fn a)) of
                   None \<Rightarrow> Some (unknown_cap r)
                 | Some k \<Rightarrow> analyze_pointer_capability fn' (src1 (heap fn a)) \<bind>
                     (\<lambda>c. Some (if 0 <s capacity c then shift_cap k c else unknown_cap r)))
           else Some (unknown_cap r))"
          by (subst analyze_pointer_capability.simps) (simp add: D Some h cong: option.case_cong)
        show ?thesis
        proof (cases "op (heap fn a) = OP_ADD \<and> reg_is_const fn (src2 (heap fn a)) \<noteq> None")
          case False
          then show ?thesis using body Some step by (auto split: option.splits if_splits)
        next
          case True
          then obtain k c' where k: "reg_is_const fn (src2 (heap fn a)) = Some k" "f fn (src1 (heap fn a)) = Some c'"
              "c = (if 0 <s capacity c' then shift_cap k c' else unknown_cap r)"
            using body Some by (auto simp: bind_eq_Some_conv)
          with IH [OF k(2)] s have "analyze_pointer_capability fn' (src1 (heap fn a)) = Some c'" by blast
          then show ?thesis using step True k by simp
        qed
      qed
    qed
  qed
  with assms(2) show ?thesis by blast
qed

text \<open>The accesses that get a trap.\<close>

definition trapped :: "func \<Rightarrow> addr \<Rightarrow> bool" where
  "trapped fn a \<longleftrightarrow> is_mem_access (heap fn a) \<and>
     (case analyze_pointer_capability fn (src1 (heap fn a)) of None \<Rightarrow> False
      | Some c \<Rightarrow> \<not> is_access_provably_safe c 8 \<and> provably_unsafe c 8)"

definition with_traps :: "func \<Rightarrow> addr list \<Rightarrow> instr list" where
  "with_traps fn as = concat (map (\<lambda>a. if trapped fn a then [trap_instr, heap fn a] else [heap fn a]) as)"

definition count_traps :: "func \<Rightarrow> addr list \<Rightarrow> cap_metrics \<Rightarrow> cap_metrics \<Rightarrow> bool" where
  "count_traps fn as m m' \<longleftrightarrow>
     memory_accesses_inspected m' = memory_accesses_inspected m + length (filter (\<lambda>a. is_mem_access (heap fn a)) as) \<and>
     tripwires_injected m' = tripwires_injected m + length (filter (trapped fn) as)"

lemma cap_step_result:
  assumes run: "cap_step bi a (fn1, m, ch) = Some s" and same: "same_defs fn fn1" and a: "heap fn1 a = heap fn a"
  shows "\<exists>m'. s = (if trapped fn a then insert_trap bi a fn1 else fn1, m', ch \<or> trapped fn a) \<and> count_traps fn [a] m m'"
proof (cases "is_mem_access (heap fn a)")
  case False
  then show ?thesis using run a by (auto simp: cap_step_def trapped_def count_traps_def)
next
  case True
  then obtain c where c: "analyze_pointer_capability fn1 (src1 (heap fn a)) = Some c"
    using run a by (auto simp: cap_step_def bind_eq_Some_conv)
  from analyze_same_defs [OF c same_defs_sym [OF same]]
  have t: "trapped fn a \<longleftrightarrow> \<not> is_access_provably_safe c 8 \<and> provably_unsafe c 8" using True by (simp add: trapped_def)
  show ?thesis using run a c True t by (auto simp: cap_step_def count_traps_def Let_def)
qed

lemma link_before_middle: "a \<notin> set pre \<Longrightarrow> link_before a x (pre @ a # as) = pre @ x # a # as"
  by (induction pre) auto

lemma count_traps_append:
  "count_traps fn as m m1 \<Longrightarrow> count_traps fn bs m1 m2 \<Longrightarrow> count_traps fn (as @ bs) m m2"
  by (simp add: count_traps_def)

text \<open>A function that differs in one block, its heap and its allocation counter.\<close>

definition grown :: "func \<Rightarrow> blockid \<Rightarrow> block \<Rightarrow> func \<Rightarrow> bool" where
  "grown fn1 bi b2 fn2 \<longleftrightarrow> (\<exists>h n. fn2 = fn1\<lparr>blocks := (blocks fn1)[bi := Some b2], heap := h, next_addr := n\<rparr> \<and>
     next_addr fn1 \<le> n \<and> (\<forall>x < next_addr fn1. h x = heap fn1 x))"

lemma grown_trans: "grown fn1 bi b2 fn2 \<Longrightarrow> grown fn2 bi b3 fn3 \<Longrightarrow> grown fn1 bi b3 fn3"
proof -
  assume "grown fn1 bi b2 fn2" "grown fn2 bi b3 fn3"
  then obtain h n h' n' where "fn2 = fn1\<lparr>blocks := (blocks fn1)[bi := Some b2], heap := h, next_addr := n\<rparr>"
      "next_addr fn1 \<le> n" "\<forall>x < next_addr fn1. h x = heap fn1 x"
      "fn3 = fn2\<lparr>blocks := (blocks fn2)[bi := Some b3], heap := h', next_addr := n'\<rparr>"
      "next_addr fn2 \<le> n'" "\<forall>x < next_addr fn2. h' x = heap fn2 x"
    unfolding grown_def by blast
  then show ?thesis unfolding grown_def by (intro exI [of _ h'] exI [of _ n']) simp
qed

lemma grown_insert:
  assumes "blk_at fn1 bi = Some b1" "a \<in> set (instrs b1)"
  shows "grown fn1 bi (b1\<lparr>instrs := link_before a (next_addr fn1) (instrs b1), n_instrs := n_instrs b1 + 1\<rparr>)
    (insert_trap bi a fn1)" "heap (insert_trap bi a fn1) (next_addr fn1) = trap_instr"
    "next_addr (insert_trap bi a fn1) = next_addr fn1 + 1"
proof -
  have "insert_trap bi a fn1 = fn1\<lparr>blocks := (blocks fn1)[bi := Some (b1\<lparr>instrs := link_before a (next_addr fn1) (instrs b1),
      n_instrs := n_instrs b1 + 1\<rparr>)], heap := (heap fn1)(next_addr fn1 := trap_instr), next_addr := next_addr fn1 + 1\<rparr>"
    using assms by (simp add: insert_trap_def upd_blk_def link_in_block_def blk_at_Some_iff)
  then show "grown fn1 bi (b1\<lparr>instrs := link_before a (next_addr fn1) (instrs b1), n_instrs := n_instrs b1 + 1\<rparr>)
    (insert_trap bi a fn1)" "heap (insert_trap bi a fn1) (next_addr fn1) = trap_instr"
    "next_addr (insert_trap bi a fn1) = next_addr fn1 + 1"
    unfolding grown_def by (auto intro!: exI [of _ "(heap fn1)(next_addr fn1 := trap_instr)"] exI [of _ "next_addr fn1 + 1"])
qed

lemma grownD:
  assumes "grown fn1 bi b2 fn2"
  shows "blocks fn2 = (blocks fn1)[bi := Some b2]" "def_tab fn2 = def_tab fn1" "next_addr fn1 \<le> next_addr fn2"
    "x < next_addr fn1 \<Longrightarrow> heap fn2 x = heap fn1 x"
  using assms by (auto simp: grown_def)

lemma grown_same:
  assumes "grown fn1 bi b2 fn2" "blk_at fn1 bi = Some b1"
  shows "blk_at fn2 = (blk_at fn1)(bi := Some b2)" "n_blocks fn2 = n_blocks fn1" "blk_at fn2 bi = Some b2"
  using grownD(1) [OF assms(1)] blk_at_Some_lt [OF assms(2)] by (auto simp: blk_at_def fun_eq_iff)

lemma grown_refl: "blk_at fn1 bi = Some b1 \<Longrightarrow> grown fn1 bi b1 fn1"
  unfolding grown_def blk_at_Some_iff
  by (intro exI [of _ "heap fn1"] exI [of _ "next_addr fn1"]) (cases fn1, auto, metis list_update_id)

lemma cap_fold:
  assumes "fold_opt (cap_step bi) as (fn1, m, ch) = Some (fn2, m2, ch2)"
    and "blk_at fn1 bi = Some b1" "instrs b1 = pre @ as" "distinct (instrs b1)"
    and "\<forall>x \<in> set (instrs b1). x < next_addr fn1" "same_defs fn fn1" "\<forall>a \<in> set as. heap fn1 a = heap fn a"
    and "\<forall>r a. def_of fn r = Some a \<longrightarrow> a < next_addr fn1"
  shows "\<exists>rest. grown fn1 bi (b1\<lparr>instrs := pre @ rest, n_instrs := n_instrs b1 + length (filter (trapped fn) as)\<rparr>) fn2 \<and>
    map (heap fn2) rest = with_traps fn as \<and> filter (\<lambda>x. x < next_addr fn1) rest = as \<and>
    distinct (pre @ rest) \<and> (\<forall>x \<in> set rest. x < next_addr fn2) \<and>
    ch2 = (ch \<or> (\<exists>a \<in> set as. trapped fn a)) \<and> count_traps fn as m m2"
  using assms
proof (induction as arbitrary: fn1 m ch b1 pre)
  case Nil
  then show ?case using grown_refl [OF Nil(2)]
    by (intro exI [of _ "[]"]) (auto simp: with_traps_def count_traps_def)
next
  case (Cons a as)
  obtain s where s: "cap_step bi a (fn1, m, ch) = Some s" "fold_opt (cap_step bi) as s = Some (fn2, m2, ch2)"
    using Cons.prems(1) by (auto split: option.splits)
  from cap_step_result [OF s(1) Cons.prems(6)] Cons.prems(7) obtain m1 where
    m1: "s = (if trapped fn a then insert_trap bi a fn1 else fn1, m1, ch \<or> trapped fn a)" "count_traps fn [a] m m1"
    by auto
  have a: "a \<in> set (instrs b1)" "a \<notin> set pre" "a < next_addr fn1" using Cons.prems(3-5) by auto
  show ?case
  proof (cases "trapped fn a")
    case False
    with m1 s(2) have "fold_opt (cap_step bi) as (fn1, m1, ch) = Some (fn2, m2, ch2)" by simp
    from Cons.IH [OF this Cons.prems(2), where pre = "pre @ [a]"] Cons.prems(3-8) obtain rest where
      R: "grown fn1 bi (b1\<lparr>instrs := (pre @ [a]) @ rest, n_instrs := n_instrs b1 + length (filter (trapped fn) as)\<rparr>) fn2"
        "map (heap fn2) rest = with_traps fn as" "filter (\<lambda>x. x < next_addr fn1) rest = as"
        "distinct ((pre @ [a]) @ rest)" "\<forall>x \<in> set rest. x < next_addr fn2"
        "ch2 = (ch \<or> (\<exists>a \<in> set as. trapped fn a))" "count_traps fn as m1 m2"
      by auto
    have "heap fn2 a = heap fn a" "a < next_addr fn2" using R(1) a(3) Cons.prems(7) by (auto dest: grownD)
    with R False a count_traps_append [OF m1(2) R(7)] show ?thesis
      by (intro exI [of _ "a # rest"]) (simp add: with_traps_def)
  next
    case True
    let ?n = "next_addr fn1" and ?f = "insert_trap bi a fn1"
    let ?b = "b1\<lparr>instrs := link_before a ?n (instrs b1), n_instrs := n_instrs b1 + 1\<rparr>"
    note G = grown_insert [OF Cons.prems(2) a(1)]
    note S = grown_same [OF G(1) Cons.prems(2)]
    from True m1 s(2) have run: "fold_opt (cap_step bi) as (?f, m1, True) = Some (fn2, m2, ch2)" by simp
    have i: "instrs ?b = (pre @ [?n, a]) @ as" using Cons.prems(3) a(2) by (simp add: link_before_middle)
    have lt: "\<forall>x \<in> set (pre @ a # as). x < ?n" using Cons.prems(3,5) by simp
    have d: "distinct (instrs ?b)" using Cons.prems(3,4) lt unfolding i by auto
    have h: "\<forall>x < ?n. heap ?f x = heap fn1 x" using grownD(4) [OF G(1)] by simp
    have sd: "same_defs fn ?f" using Cons.prems(6,8) grownD(2) [OF G(1)] h by (auto simp: same_defs_def)
    have "\<forall>x \<in> set as. heap ?f x = heap fn x" using h lt Cons.prems(7) by simp
    from Cons.IH [OF run S(3) i d _ sd this] lt i G(3) Cons.prems(8) obtain rest where
      R: "grown ?f bi (?b\<lparr>instrs := (pre @ [?n, a]) @ rest, n_instrs := n_instrs ?b + length (filter (trapped fn) as)\<rparr>) fn2"
        "map (heap fn2) rest = with_traps fn as" "filter (\<lambda>x. x < next_addr ?f) rest = as"
        "distinct ((pre @ [?n, a]) @ rest)" "\<forall>x \<in> set rest. x < next_addr fn2"
        "ch2 = (True \<or> (\<exists>a \<in> set as. trapped fn a))" "count_traps fn as m1 m2"
      by (auto simp: less_Suc_eq)
    have heaps: "heap fn2 a = heap fn a" "heap fn2 ?n = trap_instr" "?n < next_addr fn2"
      using grownD(3,4) [OF R(1)] G(2,3) a(3) h Cons.prems(7) by auto
    have "x \<noteq> ?n" if "x \<in> set rest" for x using R(4) that by auto
    then have "filter (\<lambda>x. x < ?n) rest = as" using R(3) G(3) by (metis (mono_tags, lifting) Suc_eq_plus1 filter_cong less_Suc_eq)
    with R heaps True a count_traps_append [OF m1(2) R(7)] grown_trans [OF G(1) R(1)] show ?thesis
      by (intro exI [of _ "?n # a # rest"]) (simp add: with_traps_def)
  qed
qed

lemma grown_heap_ok:
  assumes ok: "heap_ok fn1" and b1: "blk_at fn1 bi = Some b1" and g: "grown fn1 bi b2 fn2"
    and f: "filter (\<lambda>x. x < next_addr fn1) (instrs b2) = instrs b1" and d: "distinct (instrs b2)"
    and lt: "\<forall>x \<in> set (instrs b2). x < next_addr fn2"
  shows "heap_ok fn2"
proof -
  let ?L = "concat (map blk_instrs (take bi (blocks fn1)))" and ?R = "concat (map blk_instrs (drop (Suc bi) (blocks fn1)))"
  have bi: "bi < length (blocks fn1)" "blocks fn1 ! bi = Some b1" using b1 by (auto simp: blk_at_Some_iff)
  have a1: "all_addrs fn1 = ?L @ instrs b1 @ ?R"
    using id_take_nth_drop [OF bi(1)] bi(2) unfolding all_addrs_def
    by (metis blk_instrs_def concat.simps(2) concat_append list.simps(9) map_append option.simps(5))
  have a2: "all_addrs fn2 = ?L @ instrs b2 @ ?R"
    unfolding all_addrs_def grownD(1) [OF g] upd_conv_take_nth_drop [OF bi(1)] by (simp add: blk_instrs_def)
  have old: "x \<in> set ?L \<union> set ?R \<Longrightarrow> x < next_addr fn1" for x using ok a1 by (auto simp: heap_ok_def)
  have "x \<in> set (instrs b1)" if "x \<in> set (instrs b2)" "x < next_addr fn1" for x using that f [symmetric] by simp
  moreover have "distinct (?L @ instrs b1 @ ?R)" using ok a1 by (simp add: heap_ok_def)
  ultimately have "distinct (all_addrs fn2)" using d old unfolding a2 distinct_append by fastforce
  moreover have "\<forall>a \<in> set (all_addrs fn2). a < next_addr fn2"
    using old lt grownD(3) [OF g] unfolding a2 by fastforce
  ultimately show ?thesis by (simp add: heap_ok_def)
qed

text \<open>The instructions of the reachable blocks below \<open>k\<close>.\<close>

definition reach_upto :: "func \<Rightarrow> nat \<Rightarrow> addr list" where
  "reach_upto fn k = concat (map (\<lambda>b. case blk_at fn b of None \<Rightarrow> []
     | Some blk \<Rightarrow> if reachable blk then instrs blk else []) [0..<k])"

text \<open>Block \<open>b\<close> after the pass: the instructions with their traps if it was visited, else the block.\<close>

definition trapped_block :: "func \<Rightarrow> func \<Rightarrow> bool \<Rightarrow> block \<Rightarrow> block \<Rightarrow> bool" where
  "trapped_block fn fn' visited blk blk' \<longleftrightarrow> (if visited \<and> reachable blk
     then blk' = blk\<lparr>instrs := instrs blk', n_instrs := n_instrs blk + length (filter (trapped fn) (instrs blk))\<rparr> \<and>
        map (heap fn') (instrs blk') = with_traps fn (instrs blk) \<and>
        filter (\<lambda>x. x < next_addr fn) (instrs blk') = instrs blk
     else blk' = blk)"

definition cap_inv :: "func \<Rightarrow> nat \<Rightarrow> func \<times> cap_metrics \<times> bool \<Rightarrow> bool" where
  "cap_inv fn k = (\<lambda>(fn', m, ch). heap_ok fn' \<and> def_tab fn' = def_tab fn \<and> next_addr fn \<le> next_addr fn' \<and>
     (\<forall>x < next_addr fn. heap fn' x = heap fn x) \<and> n_blocks fn' = n_blocks fn \<and>
     (\<forall>b. rel_option (trapped_block fn fn' (b < k)) (blk_at fn b) (blk_at fn' b)) \<and>
     count_traps fn (reach_upto fn k) cap_metrics0 m \<and> ch = (\<exists>a \<in> set (reach_upto fn k). trapped fn a))"

lemma trapped_block_mono:
  assumes t: "trapped_block fn fn1 v blk blk1" and lt: "\<forall>x \<in> set (instrs blk1). x < next_addr fn1"
    and h: "\<forall>x < next_addr fn1. heap fn2 x = heap fn1 x"
  shows "trapped_block fn fn2 v blk blk1"
proof -
  have "map (heap fn2) (instrs blk1) = map (heap fn1) (instrs blk1)" using lt h by simp
  with t show ?thesis unfolding trapped_block_def by metis
qed

lemma reach_upto_Suc: "reach_upto fn (Suc k) = reach_upto fn k @ (case blk_at fn k of None \<Rightarrow> []
     | Some blk \<Rightarrow> if reachable blk then instrs blk else [])"
  by (simp add: reach_upto_def)

lemma cap_inv_step:
  assumes inv: "cap_inv fn k (fn1, m, ch)" and run: "cap_block k (fn1, m, ch) = Some (fn2, m2, ch2)"
    and tab: "\<forall>r a. def_of fn r = Some a \<longrightarrow> a < next_addr fn" and ok: "heap_ok fn"
  shows "cap_inv fn (Suc k) (fn2, m2, ch2)"
proof -
  have I: "heap_ok fn1" "def_tab fn1 = def_tab fn" "next_addr fn \<le> next_addr fn1" "\<forall>x < next_addr fn. heap fn1 x = heap fn x"
    "n_blocks fn1 = n_blocks fn" "\<And>b. rel_option (trapped_block fn fn1 (b < k)) (blk_at fn b) (blk_at fn1 b)"
    "count_traps fn (reach_upto fn k) cap_metrics0 m" "ch = (\<exists>a \<in> set (reach_upto fn k). trapped fn a)"
    using inv by (auto simp: cap_inv_def)
  have k: "blk_at fn1 k = blk_at fn k" using I(6) [of k] by (cases rule: option.rel_cases) (auto simp: trapped_block_def)
  have other: "trapped_block fn fn1 (b < Suc k) x y = trapped_block fn fn1 (b < k) x y" if "b \<noteq> k" for b x y
    using that by (simp add: trapped_block_def less_Suc_eq)
  show ?thesis
  proof (cases "\<exists>blk. blk_at fn k = Some blk \<and> reachable blk")
    case False
    then have "fn2 = fn1" "m2 = m" "ch2 = ch" "reach_upto fn (Suc k) = reach_upto fn k"
      using run k by (auto simp: cap_block_def reach_upto_Suc split: option.splits if_splits)
    moreover have "rel_option (trapped_block fn fn1 (b < Suc k)) (blk_at fn b) (blk_at fn1 b)" for b
    proof (cases "b = k")
      case True
      with False k show ?thesis by (cases "blk_at fn k") (auto simp: trapped_block_def)
    next
      case b: False
      then show ?thesis using I(6) [of b] other [OF b] by (simp add: less_Suc_eq)
    qed
    ultimately show ?thesis using I by (simp add: cap_inv_def)
  next
    case True
    then obtain blk where blk: "blk_at fn k = Some blk" "reachable blk" by blast
    then have run': "fold_opt (cap_step k) (instrs blk) (fn1, m, ch) = Some (fn2, m2, ch2)"
      using run k by (simp add: cap_block_def)
    have addrs: "set (instrs blk) \<subseteq> set (all_addrs fn)" using blk(1) unfolding subset_iff set_all_addrs by blast
    then have lt0: "\<forall>x \<in> set (instrs blk). x < next_addr fn" using ok by (auto simp: heap_ok_def)
    have d: "distinct (instrs blk)" using ok blk(1) distinct_blk by (auto simp: heap_ok_def)
    have sd: "same_defs fn fn1" using I(2,4) tab by (auto simp: same_defs_def)
    from cap_fold [OF run' k [unfolded blk(1)], of "[]" fn] d lt0 I(3,4) sd tab obtain rest where
      R: "grown fn1 k (blk\<lparr>instrs := rest, n_instrs := n_instrs blk + length (filter (trapped fn) (instrs blk))\<rparr>) fn2"
        "map (heap fn2) rest = with_traps fn (instrs blk)" "filter (\<lambda>x. x < next_addr fn1) rest = instrs blk"
        "distinct rest" "\<forall>x \<in> set rest. x < next_addr fn2"
        "ch2 = (ch \<or> (\<exists>a \<in> set (instrs blk). trapped fn a))" "count_traps fn (instrs blk) m m2"
      by (fastforce dest: order_less_le_trans)
    note b1 = k [unfolded blk(1)] and S = grown_same [OF R(1) k [unfolded blk(1)]]
    have f: "filter (\<lambda>x. x < next_addr fn) rest = instrs blk"
    proof -
      have "filter (\<lambda>x. x < next_addr fn) rest = filter (\<lambda>x. x < next_addr fn) (filter (\<lambda>x. x < next_addr fn1) rest)"
        using I(3) by (auto simp: intro!: filter_cong)
      also have "\<dots> = instrs blk" unfolding R(3) using lt0 by (simp add: filter_id_conv)
      finally show ?thesis .
    qed
    have "rel_option (trapped_block fn fn2 (b < Suc k)) (blk_at fn b) (blk_at fn2 b)" for b
    proof (cases "b = k")
      case True
      then show ?thesis using blk S(1) R(2) f by (simp add: trapped_block_def)
    next
      case b: False
      have lt1: "\<forall>x \<in> set (instrs y). x < next_addr fn1" if "blk_at fn1 b = Some y" for y
        using that I(1) by (auto simp: heap_ok_def set_all_addrs)
      from I(6) [of b] show ?thesis
        using S(1) b trapped_block_mono lt1 grownD(4) [OF R(1)] other [OF b]
        by (cases rule: option.rel_cases) (auto simp: less_Suc_eq)
    qed
    moreover have "heap_ok fn2" by (rule grown_heap_ok [OF I(1) b1 R(1)]) (use R in simp_all)
    moreover have "count_traps fn (reach_upto fn (Suc k)) cap_metrics0 m2"
      using count_traps_append [OF I(7) R(7)] blk by (simp add: reach_upto_Suc)
    ultimately show ?thesis
      using I grownD(2-4) [OF R(1)] S(2) R(6) blk by (auto simp: cap_inv_def reach_upto_Suc)
  qed
qed

section \<open>Properties\<close>

lemma map_snd_reach_list: "map snd (reach_list fn) = reach_upto fn (n_blocks fn)"
  unfolding reach_list_def reach_upto_def map_concat map_map
  by (intro arg_cong [of _ _ concat] map_cong refl) (auto simp: comp_def split: option.split)

lemma cap_inv_0: "heap_ok fn \<Longrightarrow> cap_inv fn 0 (fn, cap_metrics0, False)"
  by (auto simp: cap_inv_def reach_upto_def count_traps_def cap_metrics0_def trapped_block_def intro!: option.rel_refl)

lemma cap_inv_pass:
  assumes ok: "heap_ok fn" and tab: "\<forall>r a. def_of fn r = Some a \<longrightarrow> a < next_addr fn"
    and run: "fold_opt cap_block [0..<k] (fn, cap_metrics0, False) = Some s"
  shows "cap_inv fn k s"
  using run
proof (induction k arbitrary: s)
  case 0
  then show ?case using cap_inv_0 [OF ok] by simp
next
  case (Suc k)
  then obtain s1 where s1: "fold_opt cap_block [0..<k] (fn, cap_metrics0, False) = Some s1" "cap_block k s1 = Some s"
    by (auto simp: fold_opt_append split: option.splits)
  obtain fn1 m1 ch1 fn2 m2 ch2 where e: "s1 = (fn1, m1, ch1)" "s = (fn2, m2, ch2)" by (metis prod_cases3)
  from cap_inv_step [OF Suc.IH [OF s1(1), unfolded e] s1(2) [unfolded e] tab ok] e show ?case by simp
qed

text \<open>
  C35: The tripwire pass inserts traps and does nothing else. In every reachable block a call of
  \<^verbatim>\<open>abort\<close> stands directly before exactly those loads and stores whose pointer the analysis places
  outside its stack slot; every other block and every instruction is as before, the lists stay well
  formed and the counters right, the result flag says whether there was a trap and the metrics count them.
\<close>

theorem opt_cap_tripwire_inserts:
  assumes "heap_ok fn" "counters_ok fn" "opt_cap_tripwire_pass fn = Some (fn', m, ch)"
  defines "fn0 \<equiv> licm_build_def_block fn"
  shows "heap_ok fn' \<and> counters_ok fn' \<and> (\<forall>x < next_addr fn. heap fn' x = heap fn x) \<and>
    (\<forall>b. rel_option (trapped_block fn0 fn' True) (blk_at fn b) (blk_at fn' b)) \<and>
    (ch \<longleftrightarrow> (\<exists>(b, a) \<in> set (reach_list fn). trapped fn0 a)) \<and>
    tripwires_injected m = length (filter (\<lambda>(b, a). trapped fn0 a) (reach_list fn)) \<and>
    memory_accesses_inspected m = length (filter (\<lambda>(b, a). is_mem_access (heap fn a)) (reach_list fn))"
proof (cases "n_blocks fn = 0")
  case True
  then show ?thesis using assms
    by (auto simp: opt_cap_tripwire_pass_def reach_list_def blk_at_def cap_metrics0_def)
next
  case False
  have tab: "\<forall>r a. def_of fn0 r = Some a \<longrightarrow> a < next_addr fn0"
    using licm_facts [of fn] assms(1) by (auto simp: fn0_def def_of_def heap_ok_def)
  have "cap_inv fn0 (n_blocks fn0) (fn', m, ch)"
    by (rule cap_inv_pass [OF _ tab]) (use assms(1,3) False in \<open>simp_all add: fn0_def opt_cap_tripwire_pass_def\<close>)
  then have I: "heap_ok fn'" "\<forall>x < next_addr fn. heap fn' x = heap fn x" "n_blocks fn' = n_blocks fn"
      "\<And>b. rel_option (trapped_block fn0 fn' (b < n_blocks fn)) (blk_at fn b) (blk_at fn' b)"
      "count_traps fn0 (map snd (reach_list fn)) cap_metrics0 m" "ch = (\<exists>a \<in> set (map snd (reach_list fn)). trapped fn0 a)"
    using map_snd_reach_list [of fn0] by (auto simp: cap_inv_def fn0_def)
  have r: "rel_option (trapped_block fn0 fn' True) (blk_at fn b) (blk_at fn' b)" for b
    using I(4) [of b] by (cases "b < n_blocks fn") (auto simp: blk_at_def I(3))
  have len: "length (with_traps fn0 as) = length as + length (filter (trapped fn0) as)" for as
    by (induction as) (auto simp: with_traps_def)
  have "counters_ok fn'"
  proof (rule counters_okI)
    fix b blk' assume "blk_at fn' b = Some blk'"
    with r [of b] obtain blk where blk: "blk_at fn b = Some blk" "trapped_block fn0 fn' True blk blk'"
      by (auto simp: option_rel_Some2)
    have n: "n_instrs blk = length (instrs blk)" using assms(2) blk(1) by (rule counters_ok_blk)
    show "n_instrs blk' = length (instrs blk')"
    proof (cases "reachable blk")
      case True
      then have e: "blk' = blk\<lparr>instrs := instrs blk', n_instrs := n_instrs blk + length (filter (trapped fn0) (instrs blk))\<rparr>"
          and m: "map (heap fn') (instrs blk') = with_traps fn0 (instrs blk)"
        using blk(2) unfolding trapped_block_def by presburger+
      have "n_instrs blk' = n_instrs blk + length (filter (trapped fn0) (instrs blk))"
        using arg_cong [OF e, of n_instrs] by simp
      moreover have "length (instrs blk') = length (with_traps fn0 (instrs blk))" using arg_cong [OF m, of length] by simp
      ultimately show ?thesis by (simp add: len n)
    next
      case False
      with blk(2) n show ?thesis by (simp add: trapped_block_def)
    qed
  qed
  moreover have h: "heap fn0 = heap fn" by (simp add: fn0_def)
  ultimately show ?thesis using I r by (auto simp: count_traps_def cap_metrics0_def filter_map comp_def case_prod_unfold)
qed

text \<open>A stack slot of 16 bytes, a load at offset 8, a load at offset 16, a store of the bad pointer's register.\<close>

definition demo_cap :: func where
  "demo_cap = mk_func [mk_block [0, 1, 2, 3, 4, 5, 6, 7] [] []]
     [(mk_instr OP_ALLOCA 1 [])\<lparr>imm := 16\<rparr>, mk_const 2 8, mk_instr OP_ADD 3 [1, 2], mk_instr OP_LOAD 4 [3],
      mk_instr OP_ADD 5 [3, 2], mk_instr OP_LOAD 6 [5], mk_instr OP_STORE 0 [4, 5], mk_instr OP_RET 0 []] 6"

lemma demo_cap_ok: "heap_ok demo_cap" "counters_ok demo_cap"
  by (simp_all add: demo_cap_def mk_defs heap_ok_def counters_ok_def all_addrs_def blk_instrs_def)

lemma licm_one_block:
  assumes "blocks fn = [Some blk]" "reachable blk"
  shows "def_tab (licm_build_def_block fn) = fold (\<lambda>a t. let d = dst (heap fn a) in
    if d \<noteq> 0 \<and> d < MAX_INSTRS then t(d \<mapsto> a) else t) (instrs blk) (\<lambda>_. None)"
proof -
  have "def_tab (fold (\<lambda>a f. let d = dst (heap f a) in if d \<noteq> 0 \<and> d < MAX_INSTRS
      then f\<lparr>def_block := (def_block f)(d := b), def_tab := (def_tab f)(d \<mapsto> a)\<rparr> else f) as f) =
    fold (\<lambda>a t. let d = dst (heap f a) in if d \<noteq> 0 \<and> d < MAX_INSTRS then t(d \<mapsto> a) else t) as (def_tab f)" for as and f :: func and b
    by (induction as arbitrary: f) (simp_all add: Let_def cong: if_cong)
  then show ?thesis using assms by (simp add: licm_build_def_block_def for_blk_def blk_at_def Let_def cong: if_cong)
qed

abbreviation demo_licm :: func where "demo_licm \<equiv> licm_build_def_block demo_cap"

lemma demo_cap_heap:
  "heap demo_cap 0 = (mk_instr OP_ALLOCA 1 [])\<lparr>imm := 16\<rparr>" "heap demo_cap 1 = mk_const 2 8"
  "heap demo_cap 2 = mk_instr OP_ADD 3 [1, 2]" "heap demo_cap 3 = mk_instr OP_LOAD 4 [3]"
  "heap demo_cap 4 = mk_instr OP_ADD 5 [3, 2]" "heap demo_cap 5 = mk_instr OP_LOAD 6 [5]"
  "heap demo_cap 6 = mk_instr OP_STORE 0 [4, 5]" "heap demo_cap 7 = mk_instr OP_RET 0 []"
  by (simp_all add: demo_cap_def mk_func_def)

lemma demo_cap_tab: "def_tab demo_licm = (\<lambda>_. None)(1 \<mapsto> 0, 2 \<mapsto> 1, 3 \<mapsto> 2, 4 \<mapsto> 3, 5 \<mapsto> 4, 6 \<mapsto> 5)"
  by (subst licm_one_block [of _ "mk_block [0, 1, 2, 3, 4, 5, 6, 7] [] []"])
    (simp_all add: demo_cap_def mk_defs MAX_INSTRS_def)

lemmas demo_cap_eval = reg_is_const_def def_of_def demo_cap_tab demo_cap_heap demo_cap_heap [unfolded One_nat_def]
  MAX_INSTRS_def mk_instr_def mk_const_def calloc_instr_def

lemma demo_cap_analysis:
  "analyze_pointer_capability demo_licm 1 = Some (alloca_cap 1 16)"
  "analyze_pointer_capability demo_licm 3 = Some (shift_cap 8 (alloca_cap 1 16))"
  "analyze_pointer_capability demo_licm 5 = Some (shift_cap 8 (shift_cap 8 (alloca_cap 1 16)))"
  "analyze_pointer_capability demo_licm 4 = Some (unknown_cap 4)"
proof -
  show a: "analyze_pointer_capability demo_licm 1 = Some (alloca_cap 1 16)"
    by (subst analyze_pointer_capability.simps) (simp add: demo_cap_eval)
  show b: "analyze_pointer_capability demo_licm 3 = Some (shift_cap 8 (alloca_cap 1 16))"
    by (subst analyze_pointer_capability.simps) (simp add: demo_cap_eval a [unfolded One_nat_def] alloca_cap_def word_sless_alt)
  show "analyze_pointer_capability demo_licm 5 = Some (shift_cap 8 (shift_cap 8 (alloca_cap 1 16)))"
    by (subst analyze_pointer_capability.simps) (simp add: demo_cap_eval b alloca_cap_def word_sless_alt)
  show "analyze_pointer_capability demo_licm 4 = Some (unknown_cap 4)"
    by (subst analyze_pointer_capability.simps) (simp add: demo_cap_eval)
qed

lemma demo_cap_run:
  "opt_cap_tripwire_pass demo_cap = Some (insert_trap 0 5 (licm_build_def_block demo_cap),
     \<lparr>memory_accesses_inspected = 3, bounds_checks_elided = 1, tripwires_injected = 1, uaf_traps_injected = 0\<rparr>, True)"
proof -
  define f where "f = demo_licm"
  have h: "heap f = heap demo_cap" "blk_at f = blk_at demo_cap" by (simp_all add: f_def)
  note hd = demo_cap_heap and t = demo_cap_tab [folded f_def] and b = demo_cap_analysis(2) [folded f_def]
    and c = demo_cap_analysis(3) [folded f_def] and d = demo_cap_analysis(4) [folded f_def]
  have n: "next_addr f = 8" by (simp add: f_def demo_cap_def mk_func_def)
  let ?g = "insert_trap 0 5 f"
  have g: "heap ?g 6 = heap f 6" "heap ?g 7 = heap f 7" by (simp_all add: insert_trap_def n)
  have "same_defs f ?g" unfolding same_defs_def by (auto simp: insert_trap_def upd_blk_def def_of_def t n split: if_splits)
  then have d': "analyze_pointer_capability ?g 4 = Some (unknown_cap 4)" by (rule analyze_same_defs [OF d])
  define m where "m i e j = \<lparr>memory_accesses_inspected = i, bounds_checks_elided = e, tripwires_injected = j, uaf_traps_injected = 0\<rparr>" for i e j
  have skip: "cap_step 0 x (f, m i e j, ch) = Some (f, m i e j, ch)" if "x \<in> {0, 1, 2, 4}" for x i e j ch
    using that by (auto simp: cap_step_def h hd hd(2) [unfolded One_nat_def] is_mem_access_def mk_instr_def mk_const_def)
  have s3: "cap_step 0 3 (f, m 0 0 0, False) = Some (f, m 1 1 0, False)"
    by (simp add: cap_step_def h hd is_mem_access_def mk_defs b m_def is_access_provably_safe_def alloca_cap_def word_sless_alt word_sle_eq)
  have s5: "cap_step 0 5 (f, m 1 1 0, False) = Some (?g, m 2 1 1, True)"
    by (simp add: cap_step_def h hd is_mem_access_def mk_defs c m_def is_access_provably_safe_def provably_unsafe_def
        alloca_cap_def shift_cap_def Let_def word_sless_alt word_sle_eq)
  have s6: "cap_step 0 6 (?g, m 2 1 1, True) = Some (?g, m 3 1 1, True)"
    by (simp add: cap_step_def g h hd is_mem_access_def mk_defs d' [unfolded mk_defs] m_def is_access_provably_safe_def provably_unsafe_def
        unknown_cap_def word_sless_alt word_sle_eq)
  have s7: "cap_step 0 7 (?g, m 3 1 1, True) = Some (?g, m 3 1 1, True)"
    by (simp add: cap_step_def g h hd is_mem_access_def mk_defs)
  have l: "fold_opt (cap_step 0) [0, 1, 2, 3, 4, 5, 6, 7] (f, m 0 0 0, False) = Some (?g, m 3 1 1, True)"
    using skip s3 s5 s6 s7 by simp
  have "opt_cap_tripwire_pass demo_cap = cap_block 0 (f, m 0 0 0, False)"
    by (simp add: opt_cap_tripwire_pass_def f_def demo_cap_def mk_func_def cap_metrics0_def m_def split: option.split)
  also have "\<dots> = fold_opt (cap_step 0) [0, 1, 2, 3, 4, 5, 6, 7] (f, m 0 0 0, False)"
    by (simp add: cap_block_def h) (simp add: demo_cap_def mk_func_def blk_at_def mk_block_def)
  finally show ?thesis using l by (simp add: f_def m_def)
qed

theorem opt_cap_tripwire_inserts_witness:
  "\<exists>fn' m. opt_cap_tripwire_pass demo_cap = Some (fn', m, True) \<and> heap_ok fn' \<and> counters_ok fn' \<and>
     (\<exists>(b, a) \<in> set (reach_list demo_cap). trapped demo_licm a)"
  using opt_cap_tripwire_inserts [OF demo_cap_ok demo_cap_run] demo_cap_run by blast



text \<open>
  C37: The tripwire pass misses out-of-range accesses. It takes the pointer of a store from \<^verbatim>\<open>src[0]\<close>,
  which holds the stored value (the address is \<^verbatim>\<open>src[1]\<close>): the store to offset 16 of the 16-byte slot of
  \<open>demo_cap\<close> gets no trap, though the load from the same pointer does. And the end of an access wraps:
  an offset of \<open>2 ^ 63 - 1\<close> counts as provably safe.
\<close>

theorem opt_cap_tripwire_misses:
  "slot_offset demo_licm (src2 (heap demo_licm 6)) 0 16 \<and> op (heap demo_licm 6) = OP_STORE \<and>
   trapped demo_licm 5 \<and> \<not> trapped demo_licm 6 \<and>
   is_access_provably_safe (shift_cap int64_max (alloca_cap 1 16)) 8"
proof (intro conjI)
  have "slot_offset demo_licm 1 0 0" by (rule slot_offset.slot) (simp_all add: demo_cap_eval)
  then have "slot_offset demo_licm 3 0 (0 + 8)" by - (rule slot_offset.plus [where d = 2], simp_all add: demo_cap_eval)
  then have "slot_offset demo_licm 5 0 (0 + 8 + 8)" by - (rule slot_offset.plus [where d = 4], simp_all add: demo_cap_eval)
  then show "slot_offset demo_licm (src2 (heap demo_licm 6)) 0 16" by (simp add: demo_cap_heap mk_instr_def calloc_instr_def)
  show "op (heap demo_licm 6) = OP_STORE" by (simp add: demo_cap_heap mk_instr_def calloc_instr_def)
  show "trapped demo_licm 5" by (simp add: trapped_def demo_cap_heap mk_instr_def calloc_instr_def is_mem_access_def demo_cap_analysis
      is_access_provably_safe_def provably_unsafe_def alloca_cap_def word_sless_alt word_sle_eq)
  show "\<not> trapped demo_licm 6" by (simp add: trapped_def demo_cap_heap mk_instr_def calloc_instr_def is_mem_access_def demo_cap_analysis
      is_access_provably_safe_def provably_unsafe_def unknown_cap_def word_sless_alt word_sle_eq)
  show "is_access_provably_safe (shift_cap int64_max (alloca_cap 1 16)) 8"
    by (simp add: is_access_provably_safe_def alloca_cap_def word_sless_alt word_sle_eq)
qed

end
