(* ===== verification/IrParser.thy ===== *)
theory IrParser
  imports CloneRemap "HOL-Library.Monad_Syntax"
begin

text \<open>
  The textual IR, \<open>src/src/opt/ir_parser.c\<close>: the lexer \<^verbatim>\<open>next_token\<close>, the recursive-descent parser
  \<^verbatim>\<open>parse_ir_module\<close> and the printer \<^verbatim>\<open>print_ir_function\<close>. A file is its string of characters, whose end is
  the terminating zero; positions count lines. \<open>None\<close> stands for the parser's \<^verbatim>\<open>exit(1)\<close>, for a write outside
  the block or the argument array, and for a loop that never leaves the end of the file. The fixed buffers for names and
  types (64 and 16 bytes, filled with \<^verbatim>\<open>strcpy\<close>) are strings without a bound.
\<close>

section \<open>Characters\<close>

definition char_code :: "char \<Rightarrow> nat" where "char_code c = of_char c"

definition is_space :: "char \<Rightarrow> bool" where
  "is_space c \<longleftrightarrow> char_code c = 32 \<or> (9 \<le> char_code c \<and> char_code c \<le> 13)"

definition is_digit :: "char \<Rightarrow> bool" where
  "is_digit c \<longleftrightarrow> 48 \<le> char_code c \<and> char_code c \<le> 57"

definition is_alpha :: "char \<Rightarrow> bool" where
  "is_alpha c \<longleftrightarrow> (65 \<le> char_code c \<and> char_code c \<le> 90) \<or> (97 \<le> char_code c \<and> char_code c \<le> 122)"

definition is_ident_start :: "char \<Rightarrow> bool" where
  "is_ident_start c \<longleftrightarrow> is_alpha c \<or> c \<in> {CHR ''%'', CHR ''@'', CHR ''_'', CHR ''.''}"

definition is_ident_char :: "char \<Rightarrow> bool" where
  "is_ident_char c \<longleftrightarrow> is_alpha c \<or> is_digit c \<or> c \<in> {CHR ''%'', CHR ''@'', CHR ''_'', CHR ''.''}"

section \<open>Numbers\<close>

text \<open>\<^verbatim>\<open>strtoll\<close> in base 10 on a text that starts with a minus sign or a digit; the value saturates.\<close>

definition digits_val :: "string \<Rightarrow> nat" where
  "digits_val ds = fold (\<lambda>c n. 10 * n + (char_code c - 48)) ds 0"

definition saturate :: "int \<Rightarrow> int64" where
  "saturate k = word_of_int (max (- 9223372036854775808) (min 9223372036854775807 k))"

definition strtoll :: "string \<Rightarrow> int64 \<times> string" where
  "strtoll s = (case s of
      [] \<Rightarrow> (0, s)
    | c # cs \<Rightarrow>
       if c = CHR ''-''
       then (if takeWhile is_digit cs = [] then (0, s)
             else (saturate (- int (digits_val (takeWhile is_digit cs))), dropWhile is_digit cs))
       else (saturate (int (digits_val (takeWhile is_digit s))), dropWhile is_digit s))"

section \<open>Tokens\<close>

datatype token_kind =
    TOK_EOF | TOK_FUNC | TOK_RET | TOK_CONST | TOK_PHI | TOK_JMP | TOK_BR
  | TOK_ADD | TOK_SUB | TOK_MUL | TOK_DIV | TOK_MOD | TOK_AND | TOK_OR | TOK_XOR | TOK_NOT | TOK_NEG
  | TOK_SHL | TOK_SHR | TOK_LOAD | TOK_STORE | TOK_IDENT | TOK_NUM | TOK_ARROW
  | TOK_LBRACE | TOK_RBRACE | TOK_LPAREN | TOK_RPAREN | TOK_LBRACKET | TOK_RBRACKET
  | TOK_COLON | TOK_COMMA | TOK_EQ | TOK_CALL

record token =
  kind :: token_kind
  spelling :: string
  val :: int64
  at_line :: nat

definition keyword :: "string \<Rightarrow> token_kind" where
  "keyword w =
     (if w = ''func'' then TOK_FUNC else if w = ''ret'' then TOK_RET
      else if w = ''const'' then TOK_CONST else if w = ''phi'' then TOK_PHI
      else if w = ''jmp'' then TOK_JMP else if w = ''br'' then TOK_BR
      else if w = ''add'' then TOK_ADD else if w = ''sub'' then TOK_SUB
      else if w = ''mul'' then TOK_MUL else if w = ''div'' then TOK_DIV
      else if w = ''mod'' then TOK_MOD else if w = ''and'' then TOK_AND
      else if w = ''or'' then TOK_OR else if w = ''xor'' then TOK_XOR
      else if w = ''not'' then TOK_NOT else if w = ''neg'' then TOK_NEG
      else if w = ''load'' then TOK_LOAD else if w = ''store'' then TOK_STORE
      else if w = ''call'' then TOK_CALL else TOK_IDENT)"

definition punct :: "char \<Rightarrow> token_kind option" where
  "punct c =
     (if c = CHR ''{'' then Some TOK_LBRACE else if c = CHR ''}'' then Some TOK_RBRACE
      else if c = CHR ''('' then Some TOK_LPAREN else if c = CHR '')'' then Some TOK_RPAREN
      else if c = CHR ''['' then Some TOK_LBRACKET else if c = CHR '']'' then Some TOK_RBRACKET
      else if c = CHR '':'' then Some TOK_COLON else if c = CHR '','' then Some TOK_COMMA
      else if c = CHR ''='' then Some TOK_EQ else None)"

text \<open>White space, line ends and comments before a token.\<close>

fun skip_blank :: "bool \<Rightarrow> string \<Rightarrow> nat \<Rightarrow> string \<times> nat" where
  "skip_blank com [] l = ([], l)"
| "skip_blank com (c # cs) l =
     (if c = CHR 0x0A then skip_blank False cs (l + 1)
      else if com then skip_blank True cs l
      else if is_space c then skip_blank False cs l
      else if c = CHR '';'' then skip_blank True cs l
      else (c # cs, l))"

definition token_at :: "string \<Rightarrow> nat \<Rightarrow> token \<times> string" where
  "token_at s l = (case s of
      [] \<Rightarrow> (\<lparr>kind = TOK_EOF, spelling = [], val = 0, at_line = l\<rparr>, [])
    | c # cs \<Rightarrow>
       if c = CHR ''-'' \<and> (case cs of [] \<Rightarrow> False | d # _ \<Rightarrow> d = CHR ''>'')
       then (\<lparr>kind = TOK_ARROW, spelling = ''->'', val = 0, at_line = l\<rparr>, tl cs)
       else (case punct c of
          Some k \<Rightarrow> (\<lparr>kind = k, spelling = [c], val = 0, at_line = l\<rparr>, cs)
        | None \<Rightarrow>
          if c = CHR ''-'' \<or> is_digit c
          then let (v, r) = strtoll s
               in (\<lparr>kind = TOK_NUM, spelling = take (length s - length r) s, val = v, at_line = l\<rparr>, r)
          else if is_ident_start c
          then let w = take 63 (takeWhile is_ident_char s)
               in (\<lparr>kind = keyword w, spelling = w, val = 0, at_line = l\<rparr>, dropWhile is_ident_char s)
          else (\<lparr>kind = TOK_IDENT, spelling = [c], val = 0, at_line = l\<rparr>, cs)))"

definition next_token :: "string \<Rightarrow> nat \<Rightarrow> token \<times> string \<times> nat" where
  "next_token s l = (let (s1, l1) = skip_blank False s l; (t, r) = token_at s1 l1 in (t, r, l1))"

section \<open>Parser state\<close>

text \<open>The registers of the function being parsed; the number of a register is its position, from 1.\<close>

record parser_reg =
  reg_name :: string
  reg_ty :: string
  reg_param :: bool

definition MAX_REGS_PER_FUNC :: nat where "MAX_REGS_PER_FUNC = 4096"
definition MAX_FUNCS_PER_MOD :: nat where "MAX_FUNCS_PER_MOD = 100"

text \<open>A register that is known keeps its number and takes the type if it had none.\<close>

fun find_reg :: "string \<Rightarrow> string option \<Rightarrow> parser_reg list \<Rightarrow> (nat \<times> parser_reg list) option" where
  "find_reg name ty [] = None"
| "find_reg name ty (r # rs) =
     (if reg_name r = name
      then Some (0, (case ty of Some t \<Rightarrow> if reg_ty r = [] then r\<lparr>reg_ty := t\<rparr> else r | None \<Rightarrow> r) # rs)
      else map_option (\<lambda>(k, rs'). (Suc k, r # rs')) (find_reg name ty rs))"

definition get_or_create_reg :: "parser_reg list \<Rightarrow> string \<Rightarrow> string option \<Rightarrow> bool \<Rightarrow> (regid \<times> parser_reg list) option" where
  "get_or_create_reg rs name ty param = (case find_reg name ty rs of
      Some (k, rs') \<Rightarrow> Some (Suc k, rs')
    | None \<Rightarrow> if length rs \<ge> MAX_REGS_PER_FUNC then None
        else Some (Suc (length rs), rs @ [\<lparr>reg_name = name, reg_ty = (case ty of Some t \<Rightarrow> t | None \<Rightarrow> []), reg_param = param\<rparr>]))"

text \<open>\<^verbatim>\<open>(BlockID)atoi(name + 2)\<close>.\<close>

definition parse_block_id :: "string \<Rightarrow> blockid" where
  "parse_block_id w = (if take 2 w = ''bb''
     then min 9223372036854775807 (digits_val (takeWhile is_digit (drop 2 w))) mod 4294967296
     else NO_BLOCK)"

record pstate =
  rest :: string
  line :: nat
  tok :: token
  ctx :: "parser_reg list"

definition advance :: "pstate \<Rightarrow> pstate" where
  "advance s = (let (t, r, l) = next_token (rest s) (line s) in s\<lparr>rest := r, line := l, tok := t\<rparr>)"

definition first_is :: "char \<Rightarrow> string \<Rightarrow> bool" where
  "first_is c w = (case w of [] \<Rightarrow> False | d # _ \<Rightarrow> d = c)"

definition is_reg_tok :: "token \<Rightarrow> bool" where
  "is_reg_tok t \<longleftrightarrow> kind t = TOK_IDENT \<and> first_is CHR ''%'' (spelling t)"

text \<open>The register named by the token at hand.\<close>

definition reg_here :: "string option \<Rightarrow> bool \<Rightarrow> pstate \<Rightarrow> (regid \<times> pstate) option" where
  "reg_here ty param s = map_option (\<lambda>(r, c). (r, s\<lparr>ctx := c\<rparr>)) (get_or_create_reg (ctx s) (spelling (tok s)) ty param)"

section \<open>Instructions\<close>

definition type_of_name :: "string \<Rightarrow> irtype" where
  "type_of_name t = (if t = ''i32'' then IR_TY_I32 else if t = ''u32'' then IR_TY_U32
     else if t = ''u64'' then IR_TY_U64 else if t = ''i1'' then IR_TY_I32 else IR_TY_I64)"

definition cmp_of_name :: "string \<Rightarrow> opcode option" where
  "cmp_of_name p = (if p = ''eq'' then Some OP_EQ else if p = ''ne'' then Some OP_NE
     else if p = ''lt'' then Some OP_LT else if p = ''le'' then Some OP_LE
     else if p = ''gt'' then Some OP_GT else if p = ''ge'' then Some OP_GE else None)"

definition op_of_name :: "string \<Rightarrow> string \<Rightarrow> opcode option" where
  "op_of_name w p =
     (if w = ''add'' then Some OP_ADD else if w = ''sub'' then Some OP_SUB
      else if w = ''mul'' then Some OP_MUL
      else if w = ''div'' \<or> w = ''sdiv'' \<or> w = ''udiv'' then Some OP_DIV
      else if w = ''mod'' then Some OP_MOD else if w = ''and'' then Some OP_BAND
      else if w = ''or'' then Some OP_BOR else if w = ''xor'' then Some OP_BXOR
      else if w = ''not'' then Some OP_BNOT else if w = ''neg'' then Some OP_BNOT
      else if w = ''shl'' then Some OP_SHL else if w = ''shr'' \<or> w = ''ashr'' then Some OP_SHR
      else if w = ''copy'' then Some OP_COPY
      else if w = ''icmp'' then cmp_of_name p else None)"

partial_function (option) parse_phi_entries :: "(regid \<times> blockid) list \<Rightarrow> pstate \<Rightarrow> ((regid \<times> blockid) list \<times> pstate) option" where
  "parse_phi_entries ps s =
     (if kind (tok s) \<noteq> TOK_LBRACKET then Some (ps, s)
      else let s1 = advance s; b = parse_block_id (spelling (tok s1)) in
        (case reg_here None False (advance (advance s1)) of
           None \<Rightarrow> None
         | Some (r, s2) \<Rightarrow>
             let s3 = advance (advance s2); s4 = (if kind (tok s3) = TOK_COMMA then advance s3 else s3)
             in parse_phi_entries (if length ps < MAX_PHI_SOURCES then ps @ [(r, b)] else ps) s4))"

definition MAX_CALL_ARGS :: nat where "MAX_CALL_ARGS = 16"

partial_function (option) parse_args :: "regid list \<Rightarrow> pstate \<Rightarrow> (regid list \<times> pstate) option" where
  "parse_args as s =
     (if kind (tok s) = TOK_RPAREN then Some (as, s)
      else let ty = spelling (tok s) in
        (case reg_here (Some ty) False (advance s) of
           None \<Rightarrow> None
         | Some (r, s1) \<Rightarrow>
             if length as \<ge> MAX_CALL_ARGS then None
             else let s2 = advance s1; s3 = (if kind (tok s2) = TOK_COMMA then advance s2 else s2)
                  in parse_args (as @ [r]) s3))"

text \<open>From the name of the callee on.\<close>

definition parse_call :: "instr \<Rightarrow> pstate \<Rightarrow> (instr \<times> pstate) option" where
  "parse_call i s =
     (let w = spelling (tok s);
          i1 = i\<lparr>op := OP_CALL, call_name := (if first_is CHR ''@'' w then tl w else w)\<rparr>;
          s1 = advance s in
      if kind (tok s1) = TOK_LPAREN
      then (case parse_args [] (advance s1) of
              None \<Rightarrow> None
            | Some (as, s2) \<Rightarrow> Some (i1\<lparr>call_args := as\<rparr>, advance s2))
      else Some (i1, s1))"

text \<open>\<^verbatim>\<open>sprintf("%%const_val_%lld")\<close>: a literal operand becomes a register of that name.\<close>

definition int_str :: "int \<Rightarrow> string" where
  "int_str k = (if k < 0 then CHR ''-'' # nat_str (nat (- k)) else nat_str (nat k))"

definition parse_operand2 :: "string \<Rightarrow> instr \<Rightarrow> pstate \<Rightarrow> (instr \<times> pstate) option" where
  "parse_operand2 ty i s =
     (if is_reg_tok (tok s)
      then map_option (\<lambda>(r, s1). ((set_src 1 r i)\<lparr>n_src := 2\<rparr>, s1)) (reg_here None False s)
      else if kind (tok s) = TOK_NUM
      then map_option (\<lambda>(r, c). ((set_src 1 r i)\<lparr>n_src := 2\<rparr>, s\<lparr>ctx := c\<rparr>))
             (get_or_create_reg (ctx s) (''%const_val_'' @ int_str (sint (val (tok s)))) (Some ty) False)
      else Some (i, s))"

definition parse_operands :: "string \<Rightarrow> instr \<Rightarrow> pstate \<Rightarrow> (instr \<times> pstate) option" where
  "parse_operands ty i s =
     (case (if is_reg_tok (tok s)
            then map_option (\<lambda>(r, s1). ((set_src 0 r i)\<lparr>n_src := 1\<rparr>, s1)) (reg_here None False s)
            else Some (i, s)) of
        None \<Rightarrow> None
      | Some (i1, s1) \<Rightarrow>
          let s2 = advance s1 in
          if kind (tok s2) = TOK_COMMA
          then map_option (\<lambda>(i2, s3). (i2, advance s3)) (parse_operand2 ty i1 (advance s2))
          else Some (i1, s2))"

text \<open>An instruction that defines a register, from the register on.\<close>

definition parse_def :: "instr \<Rightarrow> pstate \<Rightarrow> (instr \<times> pstate) option" where
  "parse_def i0 s =
     (let name = spelling (tok s); s1 = advance s in
      if kind (tok s1) \<noteq> TOK_EQ then None
      else let s2 = advance s1; w = spelling (tok s2);
               s3 = advance s2;
               p = (if w = ''icmp'' then spelling (tok s3) else []);
               s4 = (if w = ''icmp'' then advance s3 else s3);
               ty = spelling (tok s4) in
        (case get_or_create_reg (ctx s4) name (Some (if w = ''icmp'' then [] else ty)) False of
           None \<Rightarrow> None
         | Some (d, c) \<Rightarrow>
             let i = i0\<lparr>ir_type := type_of_name ty, dst := d\<rparr>; s5 = advance (s4\<lparr>ctx := c\<rparr>) in
             if w = ''const'' then Some (i\<lparr>op := OP_CONST, imm := val (tok s5)\<rparr>, advance s5)
             else if w = ''phi''
             then map_option (\<lambda>(ps, s6). (i\<lparr>op := OP_PHI, phi := ps\<rparr>, s6)) (parse_phi_entries [] s5)
             else if w = ''call'' then parse_call i s5
             else (case op_of_name w p of
                     None \<Rightarrow> None
                   | Some opc \<Rightarrow> parse_operands ty (i\<lparr>op := opc\<rparr>) s5)))"

text \<open>An instruction without a result, from its name on.\<close>

definition parse_effect :: "instr \<Rightarrow> pstate \<Rightarrow> (instr \<times> pstate) option" where
  "parse_effect i s =
     (let k = kind (tok s); s1 = advance s; w = spelling (tok s1) in
      if k = TOK_JMP \<or> (k = TOK_BR \<and> take 2 w = ''bb'')
      then Some ((set_src 0 (parse_block_id w) i)\<lparr>op := OP_BR, n_src := 1\<rparr>, advance s1)
      else if k = TOK_BR then
        (case reg_here (Some w) False (advance s1) of
           None \<Rightarrow> None
         | Some (r, s2) \<Rightarrow>
             let s3 = advance (advance s2); s4 = advance (advance s3) in
             Some ((set_src 2 (parse_block_id (spelling (tok s4)))
                     (set_src 1 (parse_block_id (spelling (tok s3))) (set_src 0 r i)))
                   \<lparr>op := OP_CONDBR, sbt_has_cast := (w = ''i1''), n_src := 3\<rparr>, advance s4))
      else if k = TOK_RET then
        (let s2 = advance s1 in
         if is_reg_tok (tok s2)
         then map_option (\<lambda>(r, s3). ((set_src 0 r i)\<lparr>op := OP_RET, n_src := 1\<rparr>, advance s3)) (reg_here (Some w) False s2)
         else Some (i\<lparr>op := OP_RET, n_src := 0\<rparr>, s2))
      else if k = TOK_STORE then
        (case reg_here (Some w) False (advance s1) of
           None \<Rightarrow> None
         | Some (r, s2) \<Rightarrow>
             map_option (\<lambda>(q, s3). ((set_src 1 q (set_src 0 r i))\<lparr>op := OP_STORE, n_src := 2\<rparr>, advance s3))
               (reg_here None False (advance (advance (advance s2)))))
      else if k = TOK_CALL then parse_call (i\<lparr>dst := 0\<rparr>) s1
      else None)"

definition parse_instr :: "pstate \<Rightarrow> (instr \<times> pstate) option" where
  "parse_instr s = (let i = calloc_instr\<lparr>line_no := int (at_line (tok s))\<rparr> in
     if is_reg_tok (tok s) then parse_def i s else parse_effect i s)"

section \<open>Functions and modules\<close>

definition empty_func :: func where
  "empty_func = \<lparr>blocks = [], heap = (\<lambda>_. calloc_instr), next_addr = 0, def_tab = (\<lambda>_. None), def_block = (\<lambda>_. 0),
     n_regs = 0, func_name = [], ret_type = [], licm_hoisted = 0\<rparr>"

definition label_block :: "blockid \<Rightarrow> block" where
  "label_block b = calloc_block\<lparr>block_id := b, block_name := ''bb'' @ nat_str b, reachable := True\<rparr>"

text \<open>\<^verbatim>\<open>fn->blocks[bid] = bb\<close>, with \<^verbatim>\<open>n_blocks\<close> raised above \<open>b\<close>.\<close>

definition put_block :: "blockid \<Rightarrow> func \<Rightarrow> func option" where
  "put_block b fn = (if b \<ge> MAX_BLOCKS then None
     else Some (fn\<lparr>blocks := (blocks fn @ replicate (b + 1 - n_blocks fn) None)[b := Some (label_block b)]\<rparr>))"

definition append_instr :: "blockid \<Rightarrow> instr \<Rightarrow> func \<Rightarrow> func" where
  "append_instr b i fn = upd_blk b (\<lambda>bb. bb\<lparr>instrs := instrs bb @ [next_addr fn], n_instrs := n_instrs bb + 1\<rparr>)
     (fn\<lparr>heap := (heap fn)(next_addr fn := i), next_addr := next_addr fn + 1\<rparr>)"

definition is_label :: "token \<Rightarrow> bool" where
  "is_label t \<longleftrightarrow> kind t = TOK_IDENT \<and> take 2 (spelling t) = ''bb''"

partial_function (option) parse_body :: "blockid option \<Rightarrow> func \<Rightarrow> pstate \<Rightarrow> (func \<times> pstate) option" where
  "parse_body cur fn s =
     (if kind (tok s) = TOK_RBRACE \<or> kind (tok s) = TOK_EOF then Some (fn, s)
      else if is_label (tok s)
      then let b = parse_block_id (spelling (tok s)); s1 = advance s in
        if kind (tok s1) \<noteq> TOK_COLON then None
        else (case put_block b fn of None \<Rightarrow> None | Some fn1 \<Rightarrow> parse_body (Some b) fn1 (advance s1))
      else (case cur of
          None \<Rightarrow> None
        | Some b \<Rightarrow> (case parse_instr s of
              None \<Rightarrow> None
            | Some (i, s1) \<Rightarrow> parse_body cur (append_instr b i fn) s1)))"

partial_function (option) parse_params :: "pstate \<Rightarrow> pstate option" where
  "parse_params s =
     (if kind (tok s) = TOK_RPAREN then Some s
      else if kind (tok s) \<noteq> TOK_IDENT then None
      else let ty = spelling (tok s); s1 = advance s in
        if \<not> is_reg_tok (tok s1) then None
        else (case reg_here (Some ty) True s1 of
                None \<Rightarrow> None
              | Some (_, s2) \<Rightarrow>
                  let s3 = advance s2 in parse_params (if kind (tok s3) = TOK_COMMA then advance s3 else s3)))"

text \<open>The edges of the terminators; a successor without a block is listed but gets no predecessor.\<close>

definition link_succs :: "blockid \<Rightarrow> blockid list \<Rightarrow> func \<Rightarrow> func" where
  "link_succs bi ds fn = fold (\<lambda>d fn. case blk_at fn d of None \<Rightarrow> fn
       | Some _ \<Rightarrow> upd_blk d (\<lambda>b. b\<lparr>preds := preds b @ [bi]\<rparr>) fn) ds
     (upd_blk bi (\<lambda>b. b\<lparr>succs := succs b @ ds\<rparr>) fn)"

definition build_edges :: "func \<Rightarrow> func" where
  "build_edges fn =
     for_blk (\<lambda>bi bb fn. link_succs bi (term_targets fn bb) fn) (\<lambda>fn. fn) (n_blocks fn)
       (fn\<lparr>blocks := map (map_option clear_edges) (blocks fn)\<rparr>)"

text \<open>\<^verbatim>\<open>init_reg_types\<close>: the verifier's tables from the registers of the parser.\<close>

definition reg_tables :: "parser_reg list \<Rightarrow> string \<Rightarrow> reg_info" where
  "reg_tables rs rt = \<lparr>g_reg_types = (\<lambda>r. if 1 \<le> r \<and> r \<le> length rs then reg_ty (rs ! (r - 1)) else []),
     g_reg_is_param = (\<lambda>r. 1 \<le> r \<and> r \<le> length rs \<and> reg_param (rs ! (r - 1))), g_fn_ret_type = rt\<rparr>"

text \<open>A function, from the token after \<^verbatim>\<open>func\<close> to the one after its closing brace.\<close>

definition parse_func :: "pstate \<Rightarrow> (func \<times> reg_info \<times> pstate) option" where
  "parse_func s =
     (if \<not> (kind (tok s) = TOK_IDENT \<and> first_is CHR ''@'' (spelling (tok s))) then None
      else let name = tl (spelling (tok s)); s1 = advance (s\<lparr>ctx := []\<rparr>) in
        if kind (tok s1) \<noteq> TOK_LPAREN then None
        else do {
          s2 \<leftarrow> parse_params (advance s1);
          let s3 = advance s2;
          if kind (tok s3) \<noteq> TOK_ARROW then None
          else do {
            let s4 = advance s3;
            let rt = spelling (tok s4);
            let s5 = advance s4;
            if kind (tok s5) \<noteq> TOK_LBRACE then None
            else do {
              (fn, s6) \<leftarrow> parse_body None (empty_func\<lparr>func_name := name, ret_type := rt\<rparr>) (advance s5);
              if kind (tok s6) \<noteq> TOK_RBRACE then None
              else Some (build_edges (fn\<lparr>n_regs := length (ctx s6)\<rparr>), reg_tables (ctx s6) rt, advance s6)
            }
          }
        })"

partial_function (option) parse_funcs :: "(func \<times> reg_info) list \<Rightarrow> pstate \<Rightarrow> (func \<times> reg_info) list option" where
  "parse_funcs fs s =
     (if kind (tok s) \<noteq> TOK_FUNC then Some fs
      else if length fs \<ge> MAX_FUNCS_PER_MOD then None
      else (case parse_func (advance s) of
              None \<Rightarrow> None
            | Some (fn, info, s1) \<Rightarrow> parse_funcs (fs @ [(fn, info)]) s1))"

text \<open>
  The tables of a function are saved and loaded with it, except \<^verbatim>\<open>g_fn_ret_type\<close>, one global that holds
  the return type of the function parsed last: every function is verified against that.
\<close>

definition share_ret_type :: "(func \<times> reg_info) list \<Rightarrow> (func \<times> reg_info) list" where
  "share_ret_type fs = (if fs = [] then [] else map (\<lambda>(fn, info). (fn, info\<lparr>g_fn_ret_type := g_fn_ret_type (snd (last fs))\<rparr>)) fs)"

definition parse_ir_module :: "string \<Rightarrow> (func \<times> reg_info) list option" where
  "parse_ir_module file = map_option share_ret_type (parse_funcs []
     (advance \<lparr>rest = file, line = 1, tok = \<lparr>kind = TOK_EOF, spelling = [], val = 0, at_line = 1\<rparr>, ctx = []\<rparr>))"

section \<open>Printing\<close>

definition nl :: string where "nl = [CHR 0x0A]"

definition reg_str :: "regid \<Rightarrow> string" where "reg_str r = ''%r'' @ nat_str r"
definition block_str :: "blockid \<Rightarrow> string" where "block_str b = ''bb'' @ nat_str b"

fun commas :: "string list \<Rightarrow> string" where
  "commas [] = []"
| "commas [w] = w"
| "commas (w # ws) = w @ '', '' @ commas ws"

definition type_name :: "reg_info \<Rightarrow> instr \<Rightarrow> string" where
  "type_name info i = (if g_reg_types info (dst i) \<noteq> [] then g_reg_types info (dst i)
     else if ir_type i = IR_TY_I64 \<or> ir_type i = IR_TY_U64 then ''i64''
     else if ir_type i = IR_TY_U32 then ''u32'' else ''i32'')"

definition operand_type :: "reg_info \<Rightarrow> string \<Rightarrow> regid \<Rightarrow> string" where
  "operand_type info dflt r = (if g_reg_types info r \<noteq> [] then g_reg_types info r else dflt)"

definition name_of_op :: "instr \<Rightarrow> string" where
  "name_of_op i = (case op i of
      OP_ADD \<Rightarrow> ''add'' | OP_SUB \<Rightarrow> ''sub'' | OP_MUL \<Rightarrow> ''mul''
    | OP_DIV \<Rightarrow> (if sbt_has_cast i then ''udiv'' else ''sdiv'') | OP_MOD \<Rightarrow> ''mod''
    | OP_BAND \<Rightarrow> ''and'' | OP_BOR \<Rightarrow> ''or'' | OP_BXOR \<Rightarrow> ''xor'' | OP_BNOT \<Rightarrow> ''not''
    | OP_SHL \<Rightarrow> ''shl'' | OP_SHR \<Rightarrow> ''shr''
    | OP_EQ \<Rightarrow> ''eq'' | OP_NE \<Rightarrow> ''ne'' | OP_LT \<Rightarrow> ''lt'' | OP_LE \<Rightarrow> ''le''
    | OP_GT \<Rightarrow> ''gt'' | OP_GE \<Rightarrow> ''ge'' | _ \<Rightarrow> ''unknown'')"

definition is_cmp_op :: "opcode \<Rightarrow> bool" where
  "is_cmp_op opc \<longleftrightarrow> opc \<in> {OP_EQ, OP_NE, OP_LT, OP_LE, OP_GT, OP_GE}"

definition args_str :: "reg_info \<Rightarrow> instr \<Rightarrow> string" where
  "args_str info i = commas (map (\<lambda>r. operand_type info ''i32'' r @ '' '' @ reg_str r) (call_args i))"

definition print_def :: "reg_info \<Rightarrow> instr \<Rightarrow> string" where
  "print_def info i = (let ty = type_name info i in ''  '' @ reg_str (dst i) @ '' = '' @
     (if op i = OP_CONST then ''const '' @ ty @ '' '' @ int_str (sint (imm i)) @ nl
      else if op i = OP_COPY then ''copy '' @ ty @ '' '' @ reg_str (src1 i) @ nl
      else if op i = OP_PHI then ''phi '' @ ty @ '' '' @
        commas (map (\<lambda>(r, b). ''['' @ block_str b @ '': '' @ reg_str r @ '']'') (phi i)) @ nl
      else if op i = OP_CALL then ''call '' @ ty @ '' @'' @ call_name i @ ''('' @ args_str info i @ '')'' @ nl
      else (if is_cmp_op (op i) then ''icmp '' else []) @ name_of_op i @ '' '' @ ty @ '' '' @
        (if n_src i > 0 then reg_str (src1 i) else []) @
        (if n_src i > 1 then '', '' @ reg_str (src2 i) else []) @ nl))"

definition print_effect :: "reg_info \<Rightarrow> instr \<Rightarrow> string" where
  "print_effect info i =
     (if op i = OP_CALL then ''  call @'' @ call_name i @ ''('' @ args_str info i @ '')'' @ nl
      else if op i = OP_BR then ''  jmp '' @ block_str (src i 0) @ nl
      else if op i = OP_CONDBR then ''  br '' @ operand_type info ''i1'' (src i 0) @ '' '' @ reg_str (src i 0) @
        '', '' @ block_str (src i 1) @ '', '' @ block_str (src i 2) @ nl
      else if op i = OP_RET then
        (if n_src i > 0 then ''  ret '' @ operand_type info ''i32'' (src i 0) @ '' '' @ reg_str (src i 0) @ nl
         else ''  ret void'' @ nl)
      else if op i = OP_STORE then ''  store '' @ operand_type info ''i32'' (src i 0) @ '' '' @ reg_str (src i 0) @
        '', ptr '' @ reg_str (src i 1) @ nl
      else [])"

definition print_ir_instr :: "reg_info \<Rightarrow> instr \<Rightarrow> string" where
  "print_ir_instr info i = (if dst i \<noteq> 0 then print_def info i else print_effect info i)"

definition print_block :: "reg_info \<Rightarrow> func \<Rightarrow> block \<Rightarrow> string" where
  "print_block info fn bb = block_name bb @ '':'' @ nl @ concat (map (\<lambda>a. print_ir_instr info (heap fn a)) (instrs bb))"

definition params_str :: "reg_info \<Rightarrow> func \<Rightarrow> string" where
  "params_str info fn = commas (map (\<lambda>r. operand_type info ''i32'' r @ '' '' @ reg_str r)
     (filter (g_reg_is_param info) [1..<n_regs fn + 1]))"

definition print_ir_function :: "reg_info \<Rightarrow> func \<Rightarrow> string" where
  "print_ir_function info fn =
     ''func @'' @ (if func_name fn \<noteq> [] then func_name fn else ''func'') @ ''('' @ params_str info fn @ '') -> '' @
     (if ret_type fn \<noteq> [] then ret_type fn else ''i32'') @ '' {'' @ nl @
     concat (map (\<lambda>bi. case blk_at fn bi of None \<Rightarrow> []
        | Some bb \<Rightarrow> (if bi > 0 then nl else []) @ print_block info fn bb) [0..<n_blocks fn]) @
     ''}'' @ nl"

section \<open>Reading what was printed\<close>

lemma char_code_of [simp]: "n < 256 \<Longrightarrow> char_code (char_of n) = n"
  by (simp add: char_code_def)

lemmas char_class = is_space_def is_digit_def is_alpha_def is_ident_start_def is_ident_char_def char_code_def

subsection \<open>Numbers\<close>

lemma digits_val_append: "digits_val (xs @ [c]) = 10 * digits_val xs + (char_code c - 48)"
  by (simp add: digits_val_def)

lemma nat_str_digits: "\<forall>c \<in> set (nat_str n). is_digit c"
  by (induction n rule: nat_str.induct) (subst nat_str.simps, auto simp: is_digit_def)

lemma digits_val_nat_str [simp]: "digits_val (nat_str n) = n"
proof (induction n rule: nat_str.induct)
  case (1 n)
  show ?case
  proof (cases "n < 10")
    case True
    then show ?thesis by (subst nat_str.simps) (simp add: digits_val_def)
  next
    case False
    then have "digits_val (nat_str n) = 10 * digits_val (nat_str (n div 10)) + (char_code (char_of (48 + n mod 10)) - 48)"
      by (subst nat_str.simps) (simp add: digits_val_append)
    with 1 False show ?thesis by simp
  qed
qed

lemma nat_str_not_Nil [simp]: "nat_str n \<noteq> []"
  by (subst nat_str.simps) simp

lemma nat_str_inj: "nat_str m = nat_str n \<Longrightarrow> m = n"
  by (metis digits_val_nat_str)

lemma nat_str_length: "n < 10 ^ k \<Longrightarrow> 0 < k \<Longrightarrow> length (nat_str n) \<le> k"
proof (induction k arbitrary: n)
  case (Suc k)
  show ?case
  proof (cases "n < 10")
    case False
    with Suc.prems have "0 < k" by (cases k) auto
    moreover have "n div 10 < 10 ^ k" using Suc.prems by (simp add: less_mult_imp_div_less)
    ultimately have "length (nat_str (n div 10)) \<le> k" using Suc.IH by blast
    with False show ?thesis by (subst nat_str.simps) simp
  qed (subst nat_str.simps, simp)
qed simp

lemma nat_str_take [simp]:
  assumes "s = [] \<or> \<not> is_digit (hd s)"
  shows "takeWhile is_digit (nat_str n @ s) = nat_str n" "dropWhile is_digit (nat_str n @ s) = s"
  using assms nat_str_digits [of n] by (cases s; simp add: takeWhile_append dropWhile_append)+

text \<open>What ends a printed number or name: the characters the printer writes after one.\<close>

definition is_stop :: "char \<Rightarrow> bool" where
  "is_stop c \<longleftrightarrow> c \<in> {CHR '' '', CHR 0x0A, CHR '','', CHR '':'', CHR '')'', CHR '']'', CHR ''(''}"

lemma stop_class: "is_stop c \<Longrightarrow> \<not> is_digit c \<and> \<not> is_ident_char c"
  by (auto simp: is_stop_def char_class)

lemma strtoll_int_str:
  assumes "- 9223372036854775808 \<le> k" "k \<le> 9223372036854775807" "is_stop c"
  shows "strtoll (int_str k @ c # s) = (word_of_int k, c # s)"
proof (cases "k < 0")
  case True
  with assms stop_class [of c] show ?thesis by (simp add: strtoll_def int_str_def saturate_def)
next
  case False
  obtain d ds where d: "nat_str (nat k) = d # ds" by (cases "nat_str (nat k)") auto
  then have "d \<noteq> CHR ''-''" using nat_str_digits [of "nat k"] by (auto simp: char_class)
  then have "strtoll (nat_str (nat k) @ c # s) = (saturate (int (digits_val (takeWhile is_digit (nat_str (nat k) @ c # s)))),
      dropWhile is_digit (nat_str (nat k) @ c # s))"
    unfolding strtoll_def d by simp
  with False assms stop_class [of c] show ?thesis by (simp add: int_str_def saturate_def)
qed

subsection \<open>Tokens\<close>

text \<open>What the lexer makes of the head of a text, and where it stops.\<close>

definition reads :: "string \<Rightarrow> nat \<Rightarrow> token_kind \<Rightarrow> string \<Rightarrow> int64 \<Rightarrow> string \<Rightarrow> nat \<Rightarrow> bool" where
  "reads s l k w v r l' \<longleftrightarrow> next_token s l = (\<lparr>kind = k, spelling = w, val = v, at_line = l'\<rparr>, r, l')"

lemma next_token_space [simp]: "next_token (CHR '' '' # s) l = next_token s l"
  by (simp add: next_token_def char_class)

lemma next_token_nl [simp]: "next_token (CHR 0x0A # s) l = next_token s (l + 1)"
  by (simp add: next_token_def)

lemma next_token_punct:
  assumes "punct c = Some k"
  shows "next_token (c # s) l = (\<lparr>kind = k, spelling = [c], val = 0, at_line = l\<rparr>, s, l)"
proof -
  have "c \<in> {CHR ''{'', CHR ''}'', CHR ''('', CHR '')'', CHR ''['', CHR '']'', CHR '':'', CHR '','', CHR ''=''}"
    using assms by (auto simp: punct_def split: if_splits)
  then have "skip_blank False (c # s) l = (c # s, l)" "c \<noteq> CHR ''-''" by (auto simp: char_class)
  with assms show ?thesis by (simp add: next_token_def token_at_def)
qed

lemma next_token_arrow: "next_token (CHR ''-'' # CHR ''>'' # s) l = (\<lparr>kind = TOK_ARROW, spelling = ''->'', val = 0, at_line = l\<rparr>, s, l)"
  by (simp add: next_token_def token_at_def char_class)

lemma start_class:
  assumes "is_ident_start c"
  shows "c \<notin> {CHR 0x0A, CHR '';'', CHR ''-'', CHR ''{'', CHR ''}'', CHR ''('', CHR '')'', CHR ''['', CHR '']'', CHR '':'', CHR '','', CHR ''=''}"
    "\<not> is_space c" "\<not> is_digit c" "punct c = None"
proof -
  show *: "c \<notin> {CHR 0x0A, CHR '';'', CHR ''-'', CHR ''{'', CHR ''}'', CHR ''('', CHR '')'', CHR ''['', CHR '']'', CHR '':'', CHR '','', CHR ''=''}"
    using assms by (auto simp: char_class)
  show "\<not> is_space c" "\<not> is_digit c" using assms by (auto simp: char_class)
  show "punct c = None" using * by (simp add: punct_def)
qed

lemma num_class:
  assumes "c = CHR ''-'' \<or> is_digit c"
  shows "c \<notin> {CHR 0x0A, CHR '';'', CHR ''{'', CHR ''}'', CHR ''('', CHR '')'', CHR ''['', CHR '']'', CHR '':'', CHR '','', CHR ''=''}"
    "\<not> is_space c" "punct c = None"
proof -
  show *: "c \<notin> {CHR 0x0A, CHR '';'', CHR ''{'', CHR ''}'', CHR ''('', CHR '')'', CHR ''['', CHR '']'', CHR '':'', CHR '','', CHR ''=''}"
    using assms by (auto simp: char_class)
  show "\<not> is_space c" using assms by (auto simp: char_class)
  show "punct c = None" using * by (simp add: punct_def)
qed

definition is_word :: "string \<Rightarrow> bool" where
  "is_word w \<longleftrightarrow> w \<noteq> [] \<and> is_ident_start (hd w) \<and> list_all is_ident_char w \<and> length w \<le> 63"

lemma next_token_word:
  assumes w: "is_word w" and c: "is_stop c"
  shows "next_token (w @ c # s) l = (\<lparr>kind = keyword w, spelling = w, val = 0, at_line = l\<rparr>, c # s, l)"
proof -
  obtain a as where a: "w = a # as" using w by (cases w) (auto simp: is_word_def)
  have i: "is_ident_start a" "\<forall>x \<in> set w. is_ident_char x" "length w \<le> 63"
    using w a by (auto simp: is_word_def list_all_iff)
  have n: "a \<noteq> CHR 0x0A" "\<not> is_space a" "a \<noteq> CHR '';''" "a \<noteq> CHR ''-''" "\<not> is_digit a" "punct a = None"
    using start_class [OF i(1)] by simp_all
  have t: "takeWhile is_ident_char (w @ c # s) = w" "dropWhile is_ident_char (w @ c # s) = c # s"
    using i(2) stop_class [OF c] by (simp_all add: takeWhile_append dropWhile_append)
  have "skip_blank False (w @ c # s) l = (w @ c # s, l)" using n by (simp add: a)
  moreover have "token_at (w @ c # s) l = (\<lparr>kind = keyword w, spelling = w, val = 0, at_line = l\<rparr>, c # s)"
    using n i t by (simp add: token_at_def Let_def a)
  ultimately show ?thesis by (simp add: next_token_def)
qed

lemma next_token_num:
  assumes "- 9223372036854775808 \<le> k" "k \<le> 9223372036854775807" "is_stop c"
  shows "\<exists>w. next_token (int_str k @ c # s) l = (\<lparr>kind = TOK_NUM, spelling = w, val = word_of_int k, at_line = l\<rparr>, c # s, l)"
proof -
  obtain a as where a: "int_str k = a # as" by (cases "int_str k") (auto simp: int_str_def split: if_splits)
  have h: "a = CHR ''-'' \<or> is_digit a" using a nat_str_digits [of "nat k"] by (auto simp: int_str_def split: if_splits)
  have m: "\<not> (a = CHR ''-'' \<and> (case as @ c # s of [] \<Rightarrow> False | d # _ \<Rightarrow> d = CHR ''>''))"
  proof (cases "k < 0")
    case True
    then have "as = nat_str (nat (- k))" using a by (simp add: int_str_def)
    moreover obtain d ds where d: "nat_str (nat (- k)) = d # ds" by (cases "nat_str (nat (- k))") auto
    moreover have "is_digit d" using nat_str_digits [of "nat (- k)"] d by simp
    then have "d \<noteq> CHR ''>''" by (auto simp: char_class)
    ultimately show ?thesis by simp
  next
    case False
    then show ?thesis using a nat_str_digits [of "nat k"] by (auto simp: int_str_def char_class)
  qed
  have n: "a \<noteq> CHR 0x0A" "\<not> is_space a" "a \<noteq> CHR '';''" "punct a = None" using num_class [OF h] by simp_all
  have "skip_blank False (int_str k @ c # s) l = (int_str k @ c # s, l)" using n by (simp add: a)
  moreover have "\<exists>w. token_at (int_str k @ c # s) l = (\<lparr>kind = TOK_NUM, spelling = w, val = word_of_int k, at_line = l\<rparr>, c # s)"
  proof -
    have T: "strtoll (a # as @ c # s) = (word_of_int k, c # s)" using strtoll_int_str [OF assms, of s] by (simp add: a)
    show ?thesis unfolding token_at_def a append_Cons list.case
      by (simp only: m if_False n(4) option.case h if_True T Let_def prod.case) blast
  qed
  ultimately show ?thesis by (auto simp: next_token_def)
qed

end
