(* ===== verification/IrRoundtrip.thy ===== *)
theory IrRoundtrip
  imports IrParser
begin

text \<open>
  The printer of the textual IR against its parser: a printed function is read back as the same function
  up to an injective renaming of its registers. The proof follows the grammar: what the lexer makes of
  each printed piece (\<open>look\<close>), the numbers the parser gives to names (\<open>intern\<close>, \<open>number\<close>), one lemma per
  form of instruction, then the lines of a block, the blocks and the function.
\<close>

section \<open>Pieces of the text\<close>

subsection \<open>Parser states\<close>

text \<open>The state whose token is the first of the text \<open>u\<close>.\<close>

definition look :: "string \<Rightarrow> nat \<Rightarrow> parser_reg list \<Rightarrow> pstate" where
  "look u l c = (let (t, r, l') = next_token u l in \<lparr>rest = r, line = l', tok = t, ctx = c\<rparr>)"

lemma advance_look: "advance s = look (rest s) (line s) (ctx s)"
  by (simp add: advance_def look_def split: prod.split)

abbreviation plain_tok :: "token_kind \<Rightarrow> string \<Rightarrow> nat \<Rightarrow> token" where
  "plain_tok k w l \<equiv> \<lparr>kind = k, spelling = w, val = 0, at_line = l\<rparr>"

lemma look_space [simp]: "look (CHR '' '' # u) l c = look u l c" and look_nl [simp]: "look (CHR 0x0A # u) l c = look u (Suc l) c"
  by (simp_all add: look_def)

lemma look_punct [simp]:
  "look (CHR '','' # u) l c = \<lparr>rest = u, line = l, tok = plain_tok TOK_COMMA '','' l, ctx = c\<rparr>"
  "look (CHR '':'' # u) l c = \<lparr>rest = u, line = l, tok = plain_tok TOK_COLON '':'' l, ctx = c\<rparr>"
  "look (CHR ''='' # u) l c = \<lparr>rest = u, line = l, tok = plain_tok TOK_EQ ''='' l, ctx = c\<rparr>"
  "look (CHR ''('' # u) l c = \<lparr>rest = u, line = l, tok = plain_tok TOK_LPAREN ''('' l, ctx = c\<rparr>"
  "look (CHR '')'' # u) l c = \<lparr>rest = u, line = l, tok = plain_tok TOK_RPAREN '')'' l, ctx = c\<rparr>"
  "look (CHR ''['' # u) l c = \<lparr>rest = u, line = l, tok = plain_tok TOK_LBRACKET ''['' l, ctx = c\<rparr>"
  "look (CHR '']'' # u) l c = \<lparr>rest = u, line = l, tok = plain_tok TOK_RBRACKET '']'' l, ctx = c\<rparr>"
  "look (CHR ''{'' # u) l c = \<lparr>rest = u, line = l, tok = plain_tok TOK_LBRACE ''{'' l, ctx = c\<rparr>"
  "look (CHR ''}'' # u) l c = \<lparr>rest = u, line = l, tok = plain_tok TOK_RBRACE ''}'' l, ctx = c\<rparr>"
  "look (CHR ''-'' # CHR ''>'' # u) l c = \<lparr>rest = u, line = l, tok = plain_tok TOK_ARROW ''->'' l, ctx = c\<rparr>"
  by (simp_all add: look_def next_token_punct punct_def next_token_arrow)

lemma look_word [simp]:
  "is_word w \<Longrightarrow> is_stop x \<Longrightarrow> look (w @ x # u) l c = \<lparr>rest = x # u, line = l, tok = plain_tok (keyword w) w l, ctx = c\<rparr>"
  by (simp add: look_def next_token_word)

lemma is_stop_simps [simp]:
  "is_stop (CHR '' '')" "is_stop (CHR 0x0A)" "is_stop (CHR '','')" "is_stop (CHR '':'')" "is_stop (CHR '')'')"
  "is_stop (CHR '']'')" "is_stop (CHR ''('')"
  by (simp_all add: is_stop_def)

lemma word_chars:
  "is_word ''const''" "is_word ''copy''" "is_word ''phi''" "is_word ''call''" "is_word ''icmp''" "is_word ''jmp''"
  "is_word ''br''" "is_word ''ret''" "is_word ''void''" "is_word ''store''" "is_word ''ptr''" "is_word ''func''"
  by (simp_all add: is_word_def char_class)

lemmas look_keyword [simp] =
  look_word [OF word_chars(1), of "CHR '' ''", simplified] look_word [OF word_chars(2), of "CHR '' ''", simplified]
  look_word [OF word_chars(3), of "CHR '' ''", simplified] look_word [OF word_chars(4), of "CHR '' ''", simplified]
  look_word [OF word_chars(5), of "CHR '' ''", simplified] look_word [OF word_chars(6), of "CHR '' ''", simplified]
  look_word [OF word_chars(7), of "CHR '' ''", simplified] look_word [OF word_chars(8), of "CHR '' ''", simplified]
  look_word [OF word_chars(9), of "CHR 0x0A", simplified] look_word [OF word_chars(10), of "CHR '' ''", simplified]
  look_word [OF word_chars(11), of "CHR '' ''", simplified] look_word [OF word_chars(12), of "CHR '' ''", simplified]

subsection \<open>Names\<close>

lemma nat_str_ident: "list_all is_ident_char (nat_str n)"
  using nat_str_digits [of n] by (auto simp: list_all_iff is_ident_char_def)

lemma reg_str_word: "r < 65536 \<Longrightarrow> is_word (reg_str r)"
  using nat_str_length [of r 5] nat_str_ident [of r] by (simp add: is_word_def reg_str_def char_class)

lemma block_str_word: "b < 65536 \<Longrightarrow> is_word (block_str b)"
  using nat_str_length [of b 5] nat_str_ident [of b] by (simp add: is_word_def block_str_def char_class)

lemma keyword_reg [simp]: "keyword (reg_str r) = TOK_IDENT"
  by (simp add: keyword_def reg_str_def)

lemma keyword_block [simp]: "keyword (block_str b) = TOK_IDENT"
  by (cases "nat_str b" rule: list.exhaust) (simp_all add: keyword_def block_str_def)

lemma look_reg [simp]:
  "r < 65536 \<Longrightarrow> is_stop x \<Longrightarrow>
   look (reg_str r @ x # u) l c = \<lparr>rest = x # u, line = l, tok = plain_tok TOK_IDENT (reg_str r) l, ctx = c\<rparr>"
  by (simp add: reg_str_word)

lemma look_block [simp]:
  "b < 65536 \<Longrightarrow> is_stop x \<Longrightarrow>
   look (block_str b @ x # u) l c = \<lparr>rest = x # u, line = l, tok = plain_tok TOK_IDENT (block_str b) l, ctx = c\<rparr>"
  by (simp add: block_str_word)

lemma is_reg_tok_reg [simp]: "is_reg_tok (plain_tok TOK_IDENT (reg_str r) l)"
  by (simp add: is_reg_tok_def first_is_def reg_str_def)

lemma parse_block_id_str [simp]: "b < 65536 \<Longrightarrow> parse_block_id (block_str b) = b"
  using nat_str_digits [of b] by (simp add: parse_block_id_def block_str_def takeWhile_eq_all_conv [THEN iffD2])

lemma take2_block_str [simp]: "take 2 (block_str b) = ''bb''"
  by (simp add: block_str_def)

lemma keyword_punct [simp]:
  "keyword w \<noteq> TOK_RPAREN" "keyword w \<noteq> TOK_COMMA" "keyword w \<noteq> TOK_LBRACKET" "keyword w \<noteq> TOK_EQ" "keyword w \<noteq> TOK_NUM"
  by (simp_all add: keyword_def)

subsection \<open>Registers are numbered in the order of their first mention\<close>

abbreviation names :: "parser_reg list \<Rightarrow> string list" where "names c \<equiv> map reg_name c"

definition intern :: "regid \<Rightarrow> string list \<Rightarrow> string list" where
  "intern r ns = (if reg_str r \<in> set ns then ns else ns @ [reg_str r])"

definition number :: "string list \<Rightarrow> regid \<Rightarrow> regid" where
  "number ns r = Suc (length (takeWhile (\<lambda>n. n \<noteq> reg_str r) ns))"

abbreviation intern_all :: "regid list \<Rightarrow> string list \<Rightarrow> string list" where
  "intern_all rs ns \<equiv> fold intern rs ns"

lemma number_append [simp]: "reg_str r \<in> set ns \<Longrightarrow> number (ns @ ms) r = number ns r"
  unfolding number_def by (subst takeWhile_append1) auto

lemma intern_all_extends: "\<exists>ms. intern_all rs ns = ns @ ms"
  by (induction rs arbitrary: ns) (auto simp: intern_def, metis append_assoc)

lemma known_intern [simp]: "reg_str r \<in> set (intern r ns)"
  by (simp add: intern_def)

lemma number_intern_all [simp]: "reg_str r \<in> set ns \<Longrightarrow> number (intern_all rs ns) r = number ns r"
  using intern_all_extends [of rs ns] by auto

lemma length_intern_all: "length ns \<le> length (intern_all rs ns)"
  using intern_all_extends [of rs ns] by auto

lemma find_reg_known:
  "name \<in> set (names c) \<Longrightarrow> \<exists>c'. find_reg name ty c = Some (length (takeWhile (\<lambda>n. n \<noteq> name) (names c)), c') \<and> names c' = names c"
  by (induction c) (auto split: option.splits)

lemma find_reg_new: "name \<notin> set (names c) \<Longrightarrow> find_reg name ty c = None"
  by (induction c) auto

lemma get_or_create_reg_str:
  assumes "length (intern_all rs (intern r (names c))) \<le> MAX_REGS_PER_FUNC"
  shows "\<exists>c'. get_or_create_reg c (reg_str r) ty p = Some (number (intern r (names c)) r, c') \<and> names c' = intern r (names c)"
proof (cases "reg_str r \<in> set (names c)")
  case True
  then show ?thesis using find_reg_known [OF True, of ty] by (auto simp: get_or_create_reg_def intern_def number_def)
next
  case False
  have "length (intern r (names c)) \<le> MAX_REGS_PER_FUNC" using assms length_intern_all order_trans by blast
  with False have "length c < MAX_REGS_PER_FUNC" by (simp add: intern_def)
  moreover have "takeWhile (\<lambda>n. n \<noteq> reg_str r) (names c @ [reg_str r]) = names c"
    using False by (subst takeWhile_append2) (auto simp: image_iff)
  ultimately show ?thesis using find_reg_new [OF False] False by (simp add: get_or_create_reg_def intern_def number_def)
qed


subsection \<open>Instructions\<close>

text \<open>
  The instructions the printer writes in the parser's language. It has a syntax for neither loads nor the
  stack and address operations, and prints them as \<^verbatim>\<open>unknown\<close>; types and callees are names of the lexer.
\<close>

definition ty_ok :: "string \<Rightarrow> bool" where "ty_ok t \<longleftrightarrow> is_word t \<and> take 2 t \<noteq> ''bb''"

definition instr_regs :: "instr \<Rightarrow> regid list" where
  "instr_regs i = (if dst i \<noteq> 0 then [dst i] else []) @
     (case op i of
        OP_CONST \<Rightarrow> []
      | OP_PHI \<Rightarrow> List.map fst (phi i)
      | OP_CALL \<Rightarrow> call_args i
      | OP_BR \<Rightarrow> []
      | OP_CONDBR \<Rightarrow> [src i 0]
      | _ \<Rightarrow> List.map (src i) [0..<n_src i])"

definition instr_blocks :: "instr \<Rightarrow> blockid list" where
  "instr_blocks i = (case op i of OP_PHI \<Rightarrow> List.map snd (phi i) | OP_BR \<Rightarrow> [src i 0] | OP_CONDBR \<Rightarrow> [src i 1, src i 2] | _ \<Rightarrow> [])"

definition form_ok :: "instr \<Rightarrow> bool" where
  "form_ok i = (if dst i \<noteq> 0
     then (case op i of
         OP_CONST \<Rightarrow> True
       | OP_COPY \<Rightarrow> n_src i = 1 | OP_BNOT \<Rightarrow> n_src i = 1
       | OP_PHI \<Rightarrow> phi i \<noteq> [] \<and> length (phi i) \<le> MAX_PHI_SOURCES
       | OP_CALL \<Rightarrow> is_word (CHR ''@'' # call_name i) \<and> length (call_args i) \<le> MAX_CALL_ARGS
       | opc \<Rightarrow> n_src i = 2 \<and> opc \<in> {OP_ADD, OP_SUB, OP_MUL, OP_DIV, OP_MOD, OP_BAND, OP_BOR, OP_BXOR, OP_SHL, OP_SHR,
                   OP_EQ, OP_NE, OP_LT, OP_LE, OP_GT, OP_GE})
     else (case op i of
         OP_CALL \<Rightarrow> is_word (CHR ''@'' # call_name i) \<and> length (call_args i) \<le> MAX_CALL_ARGS
       | OP_BR \<Rightarrow> True | OP_CONDBR \<Rightarrow> True
       | OP_RET \<Rightarrow> n_src i \<le> 1
       | opc \<Rightarrow> opc = OP_STORE \<and> n_src i = 2))"

definition printable :: "reg_info \<Rightarrow> instr \<Rightarrow> bool" where
  "printable info i \<longleftrightarrow> form_ok i \<and> list_all (\<lambda>r. r < 65536) (instr_regs i) \<and> list_all (\<lambda>b. b < 65536) (instr_blocks i) \<and>
     (\<forall>r \<in> set (instr_regs i). g_reg_types info r = [] \<or> ty_ok (g_reg_types info r))"

text \<open>What the reader makes of it: the registers renumbered, the type read off its name, the signedness of a division lost.\<close>

definition reread :: "reg_info \<Rightarrow> (regid \<Rightarrow> regid) \<Rightarrow> nat \<Rightarrow> instr \<Rightarrow> instr" where
  "reread info m l i = (let j = calloc_instr\<lparr>op := op i, line_no := int l\<rparr> in
     if dst i \<noteq> 0 then
       (let d = j\<lparr>dst := m (dst i), ir_type := type_of_name (type_name info i)\<rparr> in
        case op i of
          OP_CONST \<Rightarrow> d\<lparr>imm := imm i\<rparr>
        | OP_PHI \<Rightarrow> d\<lparr>phi := List.map (\<lambda>(r, b). (m r, b)) (phi i)\<rparr>
        | OP_CALL \<Rightarrow> d\<lparr>call_name := call_name i, call_args := List.map m (call_args i)\<rparr>
        | _ \<Rightarrow> (if n_src i = 1 then (set_src 0 (m (src1 i)) d)\<lparr>n_src := 1\<rparr>
               else (set_src 1 (m (src2 i)) (set_src 0 (m (src1 i)) d))\<lparr>n_src := 2\<rparr>))
     else (case op i of
          OP_CALL \<Rightarrow> j\<lparr>call_name := call_name i, call_args := List.map m (call_args i)\<rparr>
        | OP_BR \<Rightarrow> (set_src 0 (src i 0) j)\<lparr>n_src := 1\<rparr>
        | OP_CONDBR \<Rightarrow> (set_src 2 (src i 2) (set_src 1 (src i 1) (set_src 0 (m (src i 0)) j)))
             \<lparr>n_src := 3, sbt_has_cast := (operand_type info ''i1'' (src i 0) = ''i1'')\<rparr>
        | OP_RET \<Rightarrow> (if n_src i > 0 then (set_src 0 (m (src i 0)) j)\<lparr>n_src := 1\<rparr> else j)
        | _ \<Rightarrow> (set_src 1 (m (src i 1)) (set_src 0 (m (src i 0)) j))\<lparr>n_src := 2\<rparr>))"

text \<open>The token after the line must not be taken for a part of it.\<close>

definition ends_line :: "instr \<Rightarrow> token \<Rightarrow> bool" where
  "ends_line i t \<longleftrightarrow> kind t \<notin> {TOK_LBRACKET, TOK_COMMA} \<and> (op i = OP_RET \<and> n_src i = 0 \<longrightarrow> \<not> is_reg_tok t)"

lemma parse_args_str:
  assumes "list_all (\<lambda>r. r < 65536 \<and> (g_reg_types info r = [] \<or> is_word (g_reg_types info r))) as"
    "length (intern_all (as @ rs) (names c)) \<le> MAX_REGS_PER_FUNC" "length bs + length as \<le> MAX_CALL_ARGS"
  shows "\<exists>c'. parse_args bs (look (commas (List.map (\<lambda>r. operand_type info ''i32'' r @ '' '' @ reg_str r) as) @ CHR '')'' # u) l c) =
      Some (bs @ List.map (number (names c')) as, look (CHR '')'' # u) l c') \<and> names c' = intern_all as (names c)"
  using assms
proof (induction as arbitrary: bs c)
  case Nil
  then show ?case by (subst parse_args.simps) simp
next
  case (Cons a as)
  let ?ty = "operand_type info ''i32'' a"
  have ty: "is_word ?ty" "a < 65536" "length bs < MAX_CALL_ARGS" using Cons.prems by (auto simp: operand_type_def is_word_def char_class)
  obtain c1 where c1: "get_or_create_reg c (reg_str a) (Some ?ty) False = Some (number (intern a (names c)) a, c1)"
      "names c1 = intern a (names c)"
    using get_or_create_reg_str [of "as @ rs" a c "Some ?ty" False] Cons.prems by auto
  obtain c2 where c2: "parse_args (bs @ [number (names c1) a])
        (look (commas (List.map (\<lambda>r. operand_type info ''i32'' r @ '' '' @ reg_str r) as) @ CHR '')'' # u) l c1) =
      Some ((bs @ [number (names c1) a]) @ List.map (number (names c2)) as, look (CHR '')'' # u) l c2)"
      "names c2 = intern_all as (names c1)"
    using Cons.IH [of c1 "bs @ [number (names c1) a]"] Cons.prems c1(2) by auto
  have n: "number (names c2) a = number (names c1) a" by (simp add: c2(2) c1(2))
  show ?case
  proof (cases as)
    case Nil
    with ty c1 c2 n show ?thesis by (subst parse_args.simps) (simp add: reg_here_def advance_look)
  next
    case (Cons a' as')
    with ty c1 c2 n show ?thesis by (subst parse_args.simps) (simp add: reg_here_def advance_look)
  qed
qed


lemma parse_phi_str:
  assumes "list_all (\<lambda>(r, b). r < 65536 \<and> b < 65536) ps" "length qs + length ps \<le> MAX_PHI_SOURCES"
    "length (intern_all (List.map fst ps @ rs) (names c)) \<le> MAX_REGS_PER_FUNC"
    "kind (tok (look u (Suc l) c)) \<notin> {TOK_LBRACKET, TOK_COMMA}"
    "ps \<noteq> []"
  shows "\<exists>c'. parse_phi_entries qs (look (commas (List.map (\<lambda>(r, b). ''['' @ block_str b @ '': '' @ reg_str r @ '']'') ps) @ CHR 0x0A # u) l c) =
      Some (qs @ List.map (\<lambda>(r, b). (number (names c') r, b)) ps, look u (Suc l) c') \<and> names c' = intern_all (List.map fst ps) (names c)"
  using assms
proof (induction ps arbitrary: qs c)
  case (Cons p ps)
  obtain r b where p: "p = (r, b)" by (cases p)
  have ty: "r < 65536" "b < 65536" "length qs < MAX_PHI_SOURCES" using Cons.prems by (auto simp: p)
  obtain c1 where c1: "get_or_create_reg c (reg_str r) None False = Some (number (intern r (names c)) r, c1)"
      "names c1 = intern r (names c)"
    using get_or_create_reg_str [of "List.map fst ps @ rs" r c None False] Cons.prems by (auto simp: p)
  have t: "kind (tok (look u (Suc l) c1)) \<notin> {TOK_LBRACKET, TOK_COMMA}" using Cons.prems(4) by (simp add: look_def split: prod.splits)
  show ?case
  proof (cases "ps = []")
    case True
    have "parse_phi_entries (qs @ [(number (names c1) r, b)]) (look u (Suc l) c1) = Some (qs @ [(number (names c1) r, b)], look u (Suc l) c1)"
      using t by (subst parse_phi_entries.simps) simp
    then show ?thesis using True ty c1 t
      by (subst parse_phi_entries.simps) (auto simp: reg_here_def advance_look p Let_def intro!: exI [of _ c1])
  next
    case False
    obtain c2 where c2: "parse_phi_entries (qs @ [(number (names c1) r, b)])
          (look (commas (List.map (\<lambda>(r, b). ''['' @ block_str b @ '': '' @ reg_str r @ '']'') ps) @ CHR 0x0A # u) l c1) =
        Some ((qs @ [(number (names c1) r, b)]) @ List.map (\<lambda>(r, b). (number (names c2) r, b)) ps, look u (Suc l) c2)"
        "names c2 = intern_all (List.map fst ps) (names c1)"
      using Cons.IH [of "qs @ [(number (names c1) r, b)]" c1] Cons.prems c1(2) t False by (auto simp: p)
    have n: "number (names c2) r = number (names c1) r" by (simp add: c2(2) c1(2))
    obtain p' ps' where q: "ps = p' # ps'" using False by (cases ps) auto
    obtain r' b' where p': "p' = (r', b')" by (cases p')
    show ?thesis using ty c1 c2 n
      by (intro exI [of _ c2], subst parse_phi_entries.simps) (simp add: reg_here_def advance_look p q p')
  qed
qed simp

subsection \<open>Lines\<close>

lemma tok_look: "tok (look u l c) = fst (next_token u l)"
  by (simp add: look_def split: prod.split)

lemma ty_ok_word: "ty_ok t \<Longrightarrow> is_word t"
  by (simp add: ty_ok_def)

lemma ty_ok_type_name:
  "printable info i \<Longrightarrow> dst i \<noteq> 0 \<Longrightarrow> ty_ok (type_name info i)"
  by (auto simp: printable_def instr_regs_def type_name_def ty_ok_def is_word_def char_class)

lemma ty_ok_operand:
  "printable info i \<Longrightarrow> r \<in> set (instr_regs i) \<Longrightarrow> ty_ok d \<Longrightarrow> ty_ok (operand_type info d r)"
  by (auto simp: printable_def operand_type_def)

lemma ty_ok_default: "ty_ok ''i32''" "ty_ok ''i1''"
  by (simp_all add: ty_ok_def is_word_def char_class)

lemma take2_take2 [simp]: "take 2 (CHR ''%'' # w) \<noteq> ''bb''"
  by (cases w) simp_all

text \<open>The register defined, the operation and the type: the state after them.\<close>

lemma parse_def_head:
  assumes "d < 65536" "is_word w" "w \<noteq> ''icmp''" "is_word ty"
    "get_or_create_reg c (reg_str d) (Some ty) False = Some (m, c1)"
  shows "parse_instr (look (''  '' @ reg_str d @ '' = '' @ w @ CHR '' '' # ty @ CHR '' '' # u) l c) =
    (let i = calloc_instr\<lparr>line_no := int l, ir_type := type_of_name ty, dst := m\<rparr>; s5 = look u l c1 in
     if w = ''const'' then Some (i\<lparr>op := OP_CONST, imm := val (tok s5)\<rparr>, advance s5)
     else if w = ''phi''
     then map_option (\<lambda>(ps, s6). (i\<lparr>op := OP_PHI, phi := ps\<rparr>, s6)) (parse_phi_entries [] s5)
     else if w = ''call'' then parse_call i s5
     else (case op_of_name w [] of None \<Rightarrow> None | Some opc \<Rightarrow> parse_operands ty (i\<lparr>op := opc\<rparr>) s5))"
  using assms by (simp add: parse_instr_def parse_def_def advance_look)

lemma parse_def_head_icmp:
  assumes "d < 65536" "is_word p" "is_word ty"
    "get_or_create_reg c (reg_str d) (Some []) False = Some (m, c1)" "cmp_of_name p = Some opc"
  shows "parse_instr (look (''  '' @ reg_str d @ '' = icmp '' @ p @ CHR '' '' # ty @ CHR '' '' # u) l c) =
    parse_operands ty (calloc_instr\<lparr>line_no := int l, ir_type := type_of_name ty, dst := m, op := opc\<rparr>) (look u l c1)"
  using assms by (simp add: parse_instr_def parse_def_def advance_look op_of_name_def)

lemma parse_operands1:
  assumes "r < 65536" "length (intern_all rs (intern r (names c))) \<le> MAX_REGS_PER_FUNC"
    "kind (fst (next_token u (Suc l))) \<noteq> TOK_COMMA"
  shows "\<exists>c'. parse_operands ty i (look (reg_str r @ CHR 0x0A # u) l c) =
      Some ((set_src 0 (number (intern r (names c)) r) i)\<lparr>n_src := 1\<rparr>, look u (Suc l) c') \<and> names c' = intern r (names c)"
proof -
  obtain c1 where c1: "get_or_create_reg c (reg_str r) None False = Some (number (intern r (names c)) r, c1)"
      "names c1 = intern r (names c)"
    using get_or_create_reg_str [OF assms(2), of None False] by auto
  with assms show ?thesis
    by (intro exI [of _ c1]) (simp add: parse_operands_def reg_here_def advance_look tok_look Let_def)
qed

lemma parse_operands2:
  assumes "r < 65536" "q < 65536" "length (intern_all [r, q] (names c)) \<le> MAX_REGS_PER_FUNC"
  defines "N \<equiv> number (intern_all [r, q] (names c))"
  shows "\<exists>c'. parse_operands ty i (look (reg_str r @ '', '' @ reg_str q @ CHR 0x0A # u) l c) =
      Some ((set_src 1 (N q) (set_src 0 (N r) i))\<lparr>n_src := 2\<rparr>, look u (Suc l) c') \<and> names c' = intern_all [r, q] (names c)"
proof -
  obtain c1 where c1: "get_or_create_reg c (reg_str r) None False = Some (number (intern r (names c)) r, c1)"
      "names c1 = intern r (names c)"
    using get_or_create_reg_str [of "[q]" r c None False] assms by auto
  obtain c2 where c2: "get_or_create_reg c1 (reg_str q) None False = Some (number (intern q (names c1)) q, c2)"
      "names c2 = intern q (names c1)"
    using get_or_create_reg_str [of "[]" q c1 None False] assms c1 by auto
  have "N r = number (intern r (names c)) r" 
    using number_intern_all [of r "intern r (names c)" "[q]"] by (simp add: N_def)
  with assms c1 c2 show ?thesis
    by (intro exI [of _ c2]) (simp add: parse_operands_def parse_operand2_def reg_here_def advance_look set_src_def Let_def)
qed


definition rereads :: "reg_info \<Rightarrow> instr \<Rightarrow> string \<Rightarrow> nat \<Rightarrow> parser_reg list \<Rightarrow> bool" where
  "rereads info i u l c \<longleftrightarrow> (\<exists>c'. names c' = intern_all (instr_regs i) (names c) \<and>
     parse_instr (look (print_ir_instr info i @ u) l c) = Some (reread info (number (names c')) l i, look u (Suc l) c'))"

lemma reread_const:
  assumes "printable info i" "length (intern_all (instr_regs i) (names c)) \<le> MAX_REGS_PER_FUNC" "dst i \<noteq> 0" "op i = OP_CONST"
  shows "rereads info i u l c"
proof -
  have r: "instr_regs i = [dst i]" "dst i < 65536" using assms by (auto simp: instr_regs_def printable_def)
  let ?ty = "type_name info i"
  have ty: "is_word ?ty" using ty_ok_type_name assms ty_ok_word by blast
  obtain c1 where c1: "get_or_create_reg c (reg_str (dst i)) (Some ?ty) False = Some (number (intern (dst i) (names c)) (dst i), c1)"
      "names c1 = intern (dst i) (names c)"
    using get_or_create_reg_str [of "[]" "dst i" c] assms r by auto
  obtain w where w: "next_token (int_str (sint (imm i)) @ CHR 0x0A # u) l = (\<lparr>kind = TOK_NUM, spelling = w, val = imm i, at_line = l\<rparr>, CHR 0x0A # u, l)"
    using next_token_num [of "sint (imm i)" "CHR 0x0A" u l] sint64_bounds [of "imm i"] by auto
  then have "look (int_str (sint (imm i)) @ CHR 0x0A # u) l c1 = \<lparr>rest = CHR 0x0A # u, line = l, tok = \<lparr>kind = TOK_NUM, spelling = w, val = imm i, at_line = l\<rparr>, ctx = c1\<rparr>"
    by (simp add: look_def)
  then show ?thesis
    using assms(3,4) c1(2) parse_def_head [OF r(2) word_chars(1) _ ty c1(1), of "int_str (sint (imm i)) @ CHR 0x0A # u" l]
    unfolding rereads_def
    by (intro exI [of _ c1]) (simp add: r print_ir_instr_def print_def_def nl_def reread_def Let_def advance_look)
qed

lemma reread_phi:
  assumes "printable info i" "length (intern_all (instr_regs i) (names c)) \<le> MAX_REGS_PER_FUNC" "dst i \<noteq> 0" "op i = OP_PHI"
    "ends_line i (fst (next_token u (Suc l)))"
  shows "rereads info i u l c"
proof -
  have r: "instr_regs i = dst i # List.map fst (phi i)" "dst i < 65536" "phi i \<noteq> []" "length (phi i) \<le> MAX_PHI_SOURCES"
    "list_all (\<lambda>(r, b). r < 65536 \<and> b < 65536) (phi i)"
    using assms by (auto simp: instr_regs_def printable_def instr_blocks_def form_ok_def list_all_iff)
  let ?ty = "type_name info i"
  have ty: "is_word ?ty" using ty_ok_type_name assms ty_ok_word by blast
  obtain c1 where c1: "get_or_create_reg c (reg_str (dst i)) (Some ?ty) False = Some (number (intern (dst i) (names c)) (dst i), c1)"
      "names c1 = intern (dst i) (names c)"
    using get_or_create_reg_str [of "List.map fst (phi i)" "dst i" c] assms r by auto
  have e: "kind (tok (look u (Suc l) c1)) \<notin> {TOK_LBRACKET, TOK_COMMA}"
    using assms(5) by (auto simp: ends_line_def tok_look)
  obtain c2 where c2: "parse_phi_entries [] (look (commas (List.map (\<lambda>(r, b). ''['' @ block_str b @ '': '' @ reg_str r @ '']'') (phi i)) @ CHR 0x0A # u) l c1) =
      Some (List.map (\<lambda>(r, b). (number (names c2) r, b)) (phi i), look u (Suc l) c2)" "names c2 = intern_all (List.map fst (phi i)) (names c1)"
    using parse_phi_str [of "phi i" "[]" "[]" c1 u l] assms(2) e r c1(2) by auto
  have n: "number (names c2) (dst i) = number (names c1) (dst i)" by (simp add: c2(2) c1(2))
  show ?thesis
    using assms(3,4) c1(2) c2 n parse_def_head [OF r(2) word_chars(3) _ ty c1(1), of "commas (List.map (\<lambda>(r, b). ''['' @ block_str b @ '': '' @ reg_str r @ '']'') (phi i)) @ CHR 0x0A # u" l]
    unfolding rereads_def
    by (intro exI [of _ c2]) (simp add: r print_ir_instr_def print_def_def nl_def reread_def Let_def)
qed


lemma parse_call_args:
  assumes "list_all (\<lambda>r. r < 65536 \<and> (g_reg_types info r = [] \<or> is_word (g_reg_types info r))) (call_args i)"
    "length (intern_all (call_args i) (names c)) \<le> MAX_REGS_PER_FUNC" "length (call_args i) \<le> MAX_CALL_ARGS"
    "is_word (CHR ''@'' # call_name i)"
  shows "\<exists>c'. parse_call j (look (CHR ''@'' # call_name i @ CHR ''('' # args_str info i @ CHR '')'' # CHR 0x0A # u) l c) =
      Some (j\<lparr>op := OP_CALL, call_name := call_name i, call_args := List.map (number (names c')) (call_args i)\<rparr>, look u (Suc l) c') \<and>
      names c' = intern_all (call_args i) (names c)"
proof -
  obtain c1 where c1: "parse_args [] (look (args_str info i @ CHR '')'' # CHR 0x0A # u) l c) =
      Some (List.map (number (names c1)) (call_args i), look (CHR '')'' # CHR 0x0A # u) l c1)" "names c1 = intern_all (call_args i) (names c)"
    using parse_args_str [OF assms(1), of "[]" c "[]" "CHR 0x0A # u" l] assms(2,3) by (auto simp: args_str_def)
  have "look (CHR ''@'' # call_name i @ CHR ''('' # v) l c = \<lparr>rest = CHR ''('' # v, line = l, tok = plain_tok (keyword (CHR ''@'' # call_name i)) (CHR ''@'' # call_name i) l, ctx = c\<rparr>" for v
    using look_word [OF assms(4), of "CHR ''(''" v l c] by simp
  then show ?thesis using c1
    by (intro exI [of _ c1]) (simp add: parse_call_def advance_look first_is_def Let_def)
qed

lemma reread_call:
  assumes "printable info i" "length (intern_all (instr_regs i) (names c)) \<le> MAX_REGS_PER_FUNC" "op i = OP_CALL"
  shows "rereads info i u l c"
proof (cases "dst i = 0")
  case True
  then have r: "instr_regs i = call_args i"
    "list_all (\<lambda>r. r < 65536 \<and> (g_reg_types info r = [] \<or> is_word (g_reg_types info r))) (call_args i)"
    "length (call_args i) \<le> MAX_CALL_ARGS" "is_word (CHR ''@'' # call_name i)"
    using assms by (auto simp: instr_regs_def printable_def form_ok_def list_all_iff ty_ok_def)
  obtain c1 where c1: "parse_call (calloc_instr\<lparr>line_no := int l, dst := 0\<rparr>) (look (CHR ''@'' # call_name i @ CHR ''('' # args_str info i @ CHR '')'' # CHR 0x0A # u) l c) =
      Some (calloc_instr\<lparr>line_no := int l, dst := 0, op := OP_CALL, call_name := call_name i, call_args := List.map (number (names c1)) (call_args i)\<rparr>, look u (Suc l) c1)"
      "names c1 = intern_all (call_args i) (names c)"
    using parse_call_args [OF r(2) _ r(3,4), of c "calloc_instr\<lparr>line_no := int l, dst := 0\<rparr>" u l] assms(2) r(1) by auto
  show ?thesis unfolding rereads_def using True assms(3) c1
    by (intro exI [of _ c1]) (simp add: r print_ir_instr_def print_effect_def nl_def reread_def Let_def parse_instr_def
        parse_effect_def advance_look is_reg_tok_def keyword_def calloc_instr_def)
next
  case False
  then have r: "instr_regs i = dst i # call_args i" "dst i < 65536"
    "list_all (\<lambda>r. r < 65536 \<and> (g_reg_types info r = [] \<or> is_word (g_reg_types info r))) (call_args i)"
    "length (call_args i) \<le> MAX_CALL_ARGS" "is_word (CHR ''@'' # call_name i)"
    using assms by (auto simp: instr_regs_def printable_def form_ok_def list_all_iff ty_ok_def)
  let ?ty = "type_name info i" and ?v = "CHR ''@'' # call_name i @ CHR ''('' # args_str info i @ CHR '')'' # CHR 0x0A # u"
  have ty: "is_word ?ty" using ty_ok_type_name assms False ty_ok_word by blast
  obtain c1 where c1: "get_or_create_reg c (reg_str (dst i)) (Some ?ty) False = Some (number (intern (dst i) (names c)) (dst i), c1)"
      "names c1 = intern (dst i) (names c)"
    using get_or_create_reg_str [of "call_args i" "dst i" c] assms r by auto
  define j where "j = calloc_instr\<lparr>line_no := int l, ir_type := type_of_name ?ty, dst := number (intern (dst i) (names c)) (dst i)\<rparr>"
  obtain c2 where c2: "parse_call j (look ?v l c1) =
      Some (j\<lparr>op := OP_CALL, call_name := call_name i, call_args := List.map (number (names c2)) (call_args i)\<rparr>, look u (Suc l) c2)"
      "names c2 = intern_all (call_args i) (names c1)"
    using parse_call_args [OF r(3) _ r(4,5), of c1 j u l] assms(2) r(1) c1(2) by auto
  have n: "number (names c2) (dst i) = number (names c1) (dst i)" by (simp add: c2(2) c1(2))
  show ?thesis
    using False assms(3) c1(2) c2 n parse_def_head [OF r(2) word_chars(4) _ ty c1(1), of ?v l]
    unfolding rereads_def
    by (intro exI [of _ c2]) (simp add: r print_ir_instr_def print_def_def nl_def reread_def Let_def j_def)
qed


lemma reread_unary:
  assumes "printable info i" "length (intern_all (instr_regs i) (names c)) \<le> MAX_REGS_PER_FUNC" "dst i \<noteq> 0"
    "op i \<in> {OP_COPY, OP_BNOT}" "ends_line i (fst (next_token u (Suc l)))"
  shows "rereads info i u l c"
proof -
  have r: "instr_regs i = [dst i, src1 i]" "dst i < 65536" "src1 i < 65536" "n_src i = 1"
    using assms by (auto simp: instr_regs_def printable_def form_ok_def)
  let ?ty = "type_name info i" and ?w = "if op i = OP_COPY then ''copy'' else ''not''" and ?N = "number (intern_all [dst i, src1 i] (names c))"
  have ty: "is_word ?ty" using ty_ok_type_name assms ty_ok_word by blast
  have w: "is_word ?w" by (simp add: word_chars is_word_def char_class)
  have e: "kind (fst (next_token u (Suc l))) \<noteq> TOK_COMMA" using assms(5) by (simp add: ends_line_def)
  obtain c1 where c1: "get_or_create_reg c (reg_str (dst i)) (Some ?ty) False = Some (number (intern (dst i) (names c)) (dst i), c1)"
      "names c1 = intern (dst i) (names c)"
    using get_or_create_reg_str [of "[src1 i]" "dst i" c] assms r by auto
  define j where "j = calloc_instr\<lparr>line_no := int l, ir_type := type_of_name ?ty, dst := ?N (dst i), op := op i\<rparr>"
  obtain c2 where c2: "parse_operands ?ty j (look (reg_str (src1 i) @ CHR 0x0A # u) l c1) =
      Some ((set_src 0 (?N (src1 i)) j)\<lparr>n_src := 1\<rparr>, look u (Suc l) c2)" "names c2 = intern_all [dst i, src1 i] (names c)"
    using parse_operands1 [of "src1 i" "[]" c1 u l ?ty j] assms(2) r e c1(2) by auto
  have n: "?N (dst i) = number (names c1) (dst i)" using number_intern_all [of "dst i" "names c1" "[src1 i]"] c1(2) by simp
  have "parse_instr (look (print_ir_instr info i @ u) l c) = parse_operands ?ty j (look (reg_str (src1 i) @ CHR 0x0A # u) l c1)"
    using assms(3,4) parse_def_head [OF r(2) w _ ty c1(1), of "reg_str (src1 i) @ CHR 0x0A # u" l] n c1(2)
    by (auto simp: r print_ir_instr_def print_def_def nl_def Let_def op_of_name_def is_cmp_op_def name_of_op_def j_def)
  then show ?thesis using assms(3,4) c2 r
    unfolding rereads_def by (intro exI [of _ c2]) (auto simp: reread_def j_def calloc_instr_def)
qed

definition binary_ops :: "opcode set" where
  "binary_ops = {OP_ADD, OP_SUB, OP_MUL, OP_DIV, OP_MOD, OP_BAND, OP_BOR, OP_BXOR, OP_SHL, OP_SHR}"

lemma op_of_name_of_op:
  assumes "op i \<in> binary_ops"
  shows "is_word (name_of_op i)" "op_of_name (name_of_op i) [] = Some (op i)" "\<not> is_cmp_op (op i)"
    "name_of_op i \<notin> {''const'', ''phi'', ''call'', ''icmp''}"
proof -
  have *: "is_word w" if "w \<in> {''add'', ''sub'', ''mul'', ''udiv'', ''sdiv'', ''mod'', ''and'', ''or'', ''xor'', ''shl'', ''shr''}" for w
    using that by (elim insertE emptyE) (simp_all add: is_word_def char_class)
  show "is_word (name_of_op i)" using assms unfolding binary_ops_def by (intro *, elim insertE emptyE) (simp_all add: name_of_op_def)
  show "op_of_name (name_of_op i) [] = Some (op i)" "\<not> is_cmp_op (op i)" "name_of_op i \<notin> {''const'', ''phi'', ''call'', ''icmp''}"
    using assms unfolding binary_ops_def by (elim insertE emptyE; simp add: name_of_op_def op_of_name_def is_cmp_op_def)+
qed

lemma cmp_of_name_of_op:
  assumes "is_cmp_op (op i)"
  shows "is_word (name_of_op i)" "cmp_of_name (name_of_op i) = Some (op i)"
  using assms unfolding is_cmp_op_def
  by (elim insertE emptyE; simp add: name_of_op_def is_word_def char_class cmp_of_name_def)+

lemma reread_binary:
  assumes "printable info i" "length (intern_all (instr_regs i) (names c)) \<le> MAX_REGS_PER_FUNC" "dst i \<noteq> 0"
    "op i \<in> binary_ops \<or> is_cmp_op (op i)"
  shows "rereads info i u l c"
proof -
  have r: "instr_regs i = [dst i, src1 i, src2 i]" "dst i < 65536" "src1 i < 65536" "src2 i < 65536" "n_src i = 2"
    using assms by (auto simp: instr_regs_def printable_def form_ok_def binary_ops_def is_cmp_op_def numeral_2_eq_2)
  let ?ty = "type_name info i" and ?N = "number (intern_all [dst i, src1 i, src2 i] (names c))"
    and ?v = "reg_str (src1 i) @ '', '' @ reg_str (src2 i) @ CHR 0x0A # u"
  have ty: "is_word ?ty" using ty_ok_type_name assms ty_ok_word by blast
  let ?t = "if is_cmp_op (op i) then [] else ?ty"
  obtain c1 where c1: "get_or_create_reg c (reg_str (dst i)) (Some ?t) False = Some (number (intern (dst i) (names c)) (dst i), c1)"
      "names c1 = intern (dst i) (names c)"
    using get_or_create_reg_str [of "[src1 i, src2 i]" "dst i" c] assms r by auto
  define j where "j = calloc_instr\<lparr>line_no := int l, ir_type := type_of_name ?ty, dst := ?N (dst i), op := op i\<rparr>"
  obtain c2 where c2: "parse_operands ?ty j (look ?v l c1) =
      Some ((set_src 1 (?N (src2 i)) (set_src 0 (?N (src1 i)) j))\<lparr>n_src := 2\<rparr>, look u (Suc l) c2)"
      "names c2 = intern_all [dst i, src1 i, src2 i] (names c)"
    using parse_operands2 [of "src1 i" "src2 i" c1 ?ty j u l] assms(2) r c1(2) by auto
  have n: "?N (dst i) = number (names c1) (dst i)" using number_intern_all [of "dst i" "names c1" "[src1 i, src2 i]"] c1(2) by simp
  have "parse_instr (look (print_ir_instr info i @ u) l c) = parse_operands ?ty j (look ?v l c1)"
  proof (cases "is_cmp_op (op i)")
    case True
    then have o: "op i \<notin> {OP_CONST, OP_COPY, OP_PHI, OP_CALL}" by (auto simp: is_cmp_op_def)
    have c': "get_or_create_reg c (reg_str (dst i)) (Some []) False = Some (number (intern (dst i) (names c)) (dst i), c1)"
      using c1(1) True by simp
    show ?thesis using o assms(3) True n c1(2) parse_def_head_icmp [OF r(2) cmp_of_name_of_op(1) [OF True] ty c' cmp_of_name_of_op(2) [OF True], of ?v l]
      by (simp add: r print_ir_instr_def print_def_def nl_def j_def)
  next
    case False
    with assms have b: "op i \<in> binary_ops" by simp
    then have o: "op i \<notin> {OP_CONST, OP_COPY, OP_PHI, OP_CALL}" by (auto simp: binary_ops_def)
    have c': "get_or_create_reg c (reg_str (dst i)) (Some ?ty) False = Some (number (intern (dst i) (names c)) (dst i), c1)"
      using c1(1) False by simp
    show ?thesis using o assms(3) False n c1(2) op_of_name_of_op [OF b] parse_def_head [OF r(2) op_of_name_of_op(1) [OF b] _ ty c', of ?v l]
      by (simp add: r print_ir_instr_def print_def_def nl_def j_def)
  qed
  moreover have "reread info ?N l i = (set_src 1 (?N (src2 i)) (set_src 0 (?N (src1 i)) j))\<lparr>n_src := 2\<rparr>"
    using assms(3,4) r by (auto simp: reread_def j_def binary_ops_def is_cmp_op_def calloc_instr_def)
  ultimately show ?thesis using c2 r unfolding rereads_def by (intro exI [of _ c2]) simp
qed


lemma reread_jump:
  assumes "printable info i" "dst i = 0" "op i = OP_BR"
  shows "rereads info i u l c"
proof -
  have "src i 0 < 65536" "instr_regs i = []" using assms by (auto simp: printable_def instr_blocks_def instr_regs_def)
  then show ?thesis using assms(2,3) unfolding rereads_def
    by (intro exI [of _ c]) (simp add: print_ir_instr_def print_effect_def nl_def reread_def parse_instr_def parse_effect_def
        advance_look is_reg_tok_def keyword_def calloc_instr_def set_src_def)
qed

lemma reread_branch:
  assumes "printable info i" "length (intern_all (instr_regs i) (names c)) \<le> MAX_REGS_PER_FUNC" "dst i = 0" "op i = OP_CONDBR"
  shows "rereads info i u l c"
proof -
  have r: "src i 0 < 65536" "src i 1 < 65536" "src i 2 < 65536" "instr_regs i = [src i 0]"
    using assms by (auto simp: printable_def instr_blocks_def instr_regs_def)
  let ?ty = "operand_type info ''i1'' (src i 0)"
  have ty: "ty_ok ?ty" using ty_ok_operand assms r ty_ok_default by simp
  obtain c1 where c1: "get_or_create_reg c (reg_str (src i 0)) (Some ?ty) False = Some (number (intern (src i 0) (names c)) (src i 0), c1)"
      "names c1 = intern (src i 0) (names c)"
    using get_or_create_reg_str [of "[]" "src i 0" c "Some ?ty" False] assms(2) r by auto
  show ?thesis using assms(3,4) c1 r ty [unfolded ty_ok_def] unfolding rereads_def
    by (intro exI [of _ c1]) (simp add: print_ir_instr_def print_effect_def nl_def reread_def parse_instr_def parse_effect_def
        advance_look is_reg_tok_def keyword_def calloc_instr_def set_src_def reg_here_def Let_def)
qed

lemma reread_ret:
  assumes "printable info i" "length (intern_all (instr_regs i) (names c)) \<le> MAX_REGS_PER_FUNC" "dst i = 0" "op i = OP_RET"
    "ends_line i (fst (next_token u (Suc l)))"
  shows "rereads info i u l c"
proof (cases "n_src i = 0")
  case True
  then have "instr_regs i = []" using assms by (simp add: instr_regs_def)
  then show ?thesis using True assms(3-5) unfolding rereads_def
    by (intro exI [of _ c]) (simp add: print_ir_instr_def print_effect_def nl_def reread_def parse_instr_def parse_effect_def
        advance_look is_reg_tok_def [of "plain_tok TOK_RET _ _"] keyword_def calloc_instr_def ends_line_def tok_look Let_def)
next
  case False
  then have n: "n_src i = 1" using assms by (simp add: printable_def form_ok_def)
  then have r: "src i 0 < 65536" "instr_regs i = [src i 0]" using assms by (auto simp: printable_def instr_regs_def)
  let ?ty = "operand_type info ''i32'' (src i 0)"
  have ty: "ty_ok ?ty" using ty_ok_operand assms r ty_ok_default by simp
  obtain c1 where c1: "get_or_create_reg c (reg_str (src i 0)) (Some ?ty) False = Some (number (intern (src i 0) (names c)) (src i 0), c1)"
      "names c1 = intern (src i 0) (names c)"
    using get_or_create_reg_str [of "[]" "src i 0" c "Some ?ty" False] assms(2) r by auto
  show ?thesis using assms(3,4) c1 r n ty [unfolded ty_ok_def] unfolding rereads_def
    by (intro exI [of _ c1]) (simp add: print_ir_instr_def print_effect_def nl_def reread_def parse_instr_def parse_effect_def
        advance_look is_reg_tok_def [of "plain_tok TOK_RET _ _"] is_reg_tok_def [of "plain_tok (keyword ''ret'') _ _"] keyword_def [of "''ret''"]
        calloc_instr_def set_src_def reg_here_def Let_def)
qed

lemma reread_store:
  assumes "printable info i" "length (intern_all (instr_regs i) (names c)) \<le> MAX_REGS_PER_FUNC" "dst i = 0" "op i = OP_STORE"
  shows "rereads info i u l c"
proof -
  have r: "src i 0 < 65536" "src i 1 < 65536" "instr_regs i = [src i 0, src i 1]" "n_src i = 2"
    using assms by (auto simp: printable_def form_ok_def instr_regs_def numeral_2_eq_2)
  let ?ty = "operand_type info ''i32'' (src i 0)"
  have ty: "ty_ok ?ty" using ty_ok_operand assms r ty_ok_default by simp
  obtain c1 where c1: "get_or_create_reg c (reg_str (src i 0)) (Some ?ty) False = Some (number (intern (src i 0) (names c)) (src i 0), c1)"
      "names c1 = intern (src i 0) (names c)"
    using get_or_create_reg_str [of "[src i 1]" "src i 0" c "Some ?ty" False] assms(2) r by auto
  obtain c2 where c2: "get_or_create_reg c1 (reg_str (src i 1)) None False = Some (number (intern (src i 1) (names c1)) (src i 1), c2)"
      "names c2 = intern (src i 1) (names c1)"
    using get_or_create_reg_str [of "[]" "src i 1" c1 None False] assms(2) r c1(2) by auto
  have n: "number (names c2) (src i 0) = number (names c1) (src i 0)"
    using number_intern_all [of "src i 0" "names c1" "[src i 1]"] c1(2) c2(2) by simp
  show ?thesis using assms(3,4) c1 c2 r n ty [unfolded ty_ok_def] unfolding rereads_def
    by (intro exI [of _ c2]) (simp add: print_ir_instr_def print_effect_def nl_def reread_def parse_instr_def parse_effect_def
        advance_look is_reg_tok_def keyword_def [of "''store''"]
        calloc_instr_def set_src_def reg_here_def Let_def)
qed

lemma rereads_instr:
  assumes "printable info i" "length (intern_all (instr_regs i) (names c)) \<le> MAX_REGS_PER_FUNC"
    "ends_line i (fst (next_token u (Suc l)))"
  shows "rereads info i u l c"
proof (cases "dst i = 0")
  case True
  with assms(1) have "op i \<in> {OP_CALL, OP_BR, OP_CONDBR, OP_RET, OP_STORE}" by (cases "op i") (auto simp: printable_def form_ok_def)
  with assms True show ?thesis by (auto intro: reread_call reread_jump reread_branch reread_ret reread_store)
next
  case False
  with assms(1) have "op i \<in> {OP_CALL, OP_CONST, OP_PHI, OP_COPY, OP_BNOT} \<or> op i \<in> binary_ops \<or> is_cmp_op (op i)"
    by (cases "op i") (auto simp: printable_def form_ok_def binary_ops_def is_cmp_op_def)
  with assms False show ?thesis by (auto intro: reread_call reread_const reread_phi reread_unary reread_binary)
qed

subsection \<open>Bodies\<close>

text \<open>The code of a function, block by block.\<close>

definition body :: "func \<Rightarrow> instr list option list" where
  "body fn = List.map (map_option (\<lambda>bb. List.map (heap fn) (instrs bb))) (blocks fn)"

definition fresh_heap :: "func \<Rightarrow> bool" where
  "fresh_heap fn \<longleftrightarrow> (\<forall>bb. Some bb \<in> set (blocks fn) \<longrightarrow> (\<forall>a \<in> set (instrs bb). a < next_addr fn))"

lemma known_intern_all: "r \<in> set rs \<Longrightarrow> reg_str r \<in> set (intern_all rs ns)"
proof (induction rs arbitrary: ns)
  case (Cons q rs)
  then show ?case using intern_all_extends [of rs "intern q ns"] known_intern [of q ns] by auto
qed simp

lemma reread_cong:
  assumes "\<And>r. r \<in> set (instr_regs i) \<Longrightarrow> m r = m' r" "form_ok i"
  shows "reread info m l i = reread info m' l i"
proof (cases "dst i = 0")
  case True
  with assms(2) have "op i \<in> {OP_CALL, OP_BR, OP_CONDBR, OP_RET, OP_STORE}" by (cases "op i") (auto simp: form_ok_def)
  with True assms show ?thesis
    by (cases "n_src i") (auto simp: reread_def instr_regs_def form_ok_def Let_def)
next
  case False
  then have "m (dst i) = m' (dst i)" using assms(1) by (simp add: instr_regs_def)
  moreover have "List.map (\<lambda>(r, b). (m r, b)) (phi i) = List.map (\<lambda>(r, b). (m' r, b)) (phi i)" if "op i = OP_PHI"
  proof (rule map_cong [OF refl])
    fix x assume "x \<in> set (phi i)"
    with that have "m (fst x) = m' (fst x)" by (intro assms(1)) (simp add: instr_regs_def)
    then show "(case x of (r, b) \<Rightarrow> (m r, b)) = (case x of (r, b) \<Rightarrow> (m' r, b))" by (simp add: split_beta)
  qed
  ultimately show ?thesis using False assms by (cases "op i") (auto simp: reread_def instr_regs_def form_ok_def)
qed

lemma instr_token:
  assumes "printable info i"
  shows "kind (fst (next_token (print_ir_instr info i @ u) l)) \<notin> {TOK_RBRACE, TOK_EOF, TOK_LBRACKET, TOK_COMMA}"
    "\<not> is_label (fst (next_token (print_ir_instr info i @ u) l))"
    "is_reg_tok (fst (next_token (print_ir_instr info i @ u) l)) \<longleftrightarrow> dst i \<noteq> 0"
proof -
  have "fst (next_token (print_ir_instr info i @ u) l) \<in>
      (if dst i \<noteq> 0 then {plain_tok TOK_IDENT (reg_str (dst i)) l}
       else {plain_tok TOK_CALL ''call'' l, plain_tok TOK_JMP ''jmp'' l, plain_tok TOK_BR ''br'' l, plain_tok TOK_RET ''ret'' l, plain_tok TOK_STORE ''store'' l})"
  proof (cases "dst i = 0")
    case True
    with assms have "op i \<in> {OP_CALL, OP_BR, OP_CONDBR, OP_RET, OP_STORE}" by (cases "op i") (auto simp: printable_def form_ok_def)
    then show ?thesis using True word_chars
      by (auto simp: tok_look [symmetric, where c = "[]"] print_ir_instr_def print_effect_def keyword_def)
  next
    case False
    then have "dst i < 65536" using assms by (simp add: printable_def instr_regs_def)
    with False show ?thesis by (simp add: tok_look [symmetric, where c = "[]"] print_ir_instr_def print_def_def Let_def)
  qed
  then show "kind (fst (next_token (print_ir_instr info i @ u) l)) \<notin> {TOK_RBRACE, TOK_EOF, TOK_LBRACKET, TOK_COMMA}"
    "\<not> is_label (fst (next_token (print_ir_instr info i @ u) l))"
    "is_reg_tok (fst (next_token (print_ir_instr info i @ u) l)) \<longleftrightarrow> dst i \<noteq> 0"
    by (auto simp: is_label_def is_reg_tok_def first_is_def reg_str_def split: if_splits)
qed

lemma append_instr_keeps [simp]:
  "n_blocks (append_instr b i fn) = n_blocks fn" "func_name (append_instr b i fn) = func_name fn"
  "ret_type (append_instr b i fn) = ret_type fn"
  by (simp_all add: append_instr_def upd_blk_def)

lemma append_instr_body:
  assumes "fresh_heap fn" "b < n_blocks fn" "body fn ! b = Some js"
  shows "body (append_instr b i fn) = (body fn)[b := Some (js @ [i])]" "fresh_heap (append_instr b i fn)"
proof -
  obtain bb where bb: "blocks fn ! b = Some bb" "js = List.map (heap fn) (instrs bb)"
    using assms(2,3) by (auto simp: body_def)
  have f: "a < next_addr fn" if "blocks fn ! k = Some b'" "k < n_blocks fn" "a \<in> set (instrs b')" for k a b'
    using assms(1) that unfolding fresh_heap_def by (metis nth_mem)
  let ?bb = "bb\<lparr>instrs := instrs bb @ [next_addr fn], n_instrs := n_instrs bb + 1\<rparr>"
  have a: "blocks (append_instr b i fn) = (blocks fn)[b := Some ?bb]" "heap (append_instr b i fn) = (heap fn)(next_addr fn := i)"
    "next_addr (append_instr b i fn) = Suc (next_addr fn)"
    using bb by (simp_all add: append_instr_def upd_blk_def)
  show "body (append_instr b i fn) = (body fn)[b := Some (js @ [i])]"
  proof (rule nth_equalityI)
    fix k assume "k < length (body (append_instr b i fn))"
    then have k: "k < n_blocks fn" by (simp add: body_def a)
    show "body (append_instr b i fn) ! k = (body fn)[b := Some (js @ [i])] ! k"
    proof (cases "k = b")
      case True
      have "List.map ((heap fn)(next_addr fn := i)) (instrs bb) = js" using f [OF bb(1) assms(2)] bb(2) by auto
      with True k show ?thesis by (simp add: body_def a)
    next
      case False
      have "map_option (\<lambda>b'. List.map ((heap fn)(next_addr fn := i)) (instrs b')) (blocks fn ! k) =
          map_option (\<lambda>b'. List.map (heap fn) (instrs b')) (blocks fn ! k)"
        using f [OF _ k] by (cases "blocks fn ! k") auto
      with False k show ?thesis by (simp add: body_def a)
    qed
  qed (simp add: body_def a)
  show "fresh_heap (append_instr b i fn)"
    unfolding fresh_heap_def a
  proof (intro allI impI ballI)
    fix b' x assume "Some b' \<in> set ((blocks fn)[b := Some ?bb])" "x \<in> set (instrs b')"
    then consider "b' = ?bb" | "Some b' \<in> set (blocks fn)" using set_update_subset_insert by fastforce
    then show "x < Suc (next_addr fn)"
    proof cases
      case 1
      with \<open>x \<in> set (instrs b')\<close> f [OF bb(1) assms(2)] show ?thesis by (auto simp: less_Suc_eq)
    next
      case 2
      with assms(1) \<open>x \<in> set (instrs b')\<close> show ?thesis by (auto simp: fresh_heap_def less_Suc_eq)
    qed
  qed
qed

text \<open>The lines of a block; only its last instruction may be a return of nothing.\<close>

definition lines_ok :: "reg_info \<Rightarrow> instr list \<Rightarrow> bool" where
  "lines_ok info is \<longleftrightarrow> list_all (printable info) is \<and> list_all (\<lambda>i. \<not> (op i = OP_RET \<and> n_src i = 0)) (butlast is)"

definition same_code :: "reg_info \<Rightarrow> (regid \<Rightarrow> regid) \<Rightarrow> instr list \<Rightarrow> instr list \<Rightarrow> bool" where
  "same_code info m is js \<longleftrightarrow> list_all2 (\<lambda>i j. \<exists>l. j = reread info m l i) is js"

abbreviation code_regs :: "instr list \<Rightarrow> regid list" where "code_regs is \<equiv> concat (List.map instr_regs is)"

lemma parse_lines:
  assumes "lines_ok info is" "length (intern_all (code_regs is) (names c)) \<le> MAX_REGS_PER_FUNC"
    "\<And>l. kind (fst (next_token u l)) \<notin> {TOK_LBRACKET, TOK_COMMA} \<and> \<not> is_reg_tok (fst (next_token u l))"
    "fresh_heap fn" "b < n_blocks fn" "body fn ! b = Some js"
    "N = intern_all rs (intern_all (code_regs is) (names c))"
  shows "\<exists>l' c' fn' js'. parse_body (Some b) fn (look (concat (List.map (print_ir_instr info) is) @ u) l c) = parse_body (Some b) fn' (look u l' c') \<and>
      names c' = intern_all (code_regs is) (names c) \<and> fresh_heap fn' \<and> func_name fn' = func_name fn \<and> ret_type fn' = ret_type fn \<and>
      body fn' = (body fn)[b := Some (js @ js')] \<and> same_code info (number N) is js'"
  using assms
proof (induction "is" arbitrary: l c fn js)
  case Nil
  then show ?case by (intro exI [of _ l] exI [of _ c] exI [of _ fn] exI [of _ "[]"])
      (simp add: same_code_def, metis body_def length_map list_update_id)
next
  case (Cons i "is")
  let ?u = "concat (List.map (print_ir_instr info) is) @ u"
  have p: "printable info i" "lines_ok info is" using Cons.prems(1) by (auto simp: lines_ok_def split: if_splits)
  have "length (intern_all (instr_regs i) (names c)) \<le> MAX_REGS_PER_FUNC"
    using Cons.prems(2) length_intern_all [of "intern_all (instr_regs i) (names c)" "code_regs is"] by simp
  moreover have "ends_line i (fst (next_token ?u (Suc l)))"
  proof (cases "is")
    case Nil
    then show ?thesis using Cons.prems(3) [of "Suc l"] by (auto simp: ends_line_def)
  next
    case (Cons i' is')
    then have "printable info i'" "\<not> (op i = OP_RET \<and> n_src i = 0)" using Cons.prems(1) by (auto simp: lines_ok_def)
    with instr_token(1) [of info i' "concat (List.map (print_ir_instr info) is') @ u" "Suc l"] Cons show ?thesis
      by (auto simp: ends_line_def)
  qed
  ultimately obtain c1 where c1: "names c1 = intern_all (instr_regs i) (names c)"
      "parse_instr (look (print_ir_instr info i @ ?u) l c) = Some (reread info (number (names c1)) l i, look ?u (Suc l) c1)"
    using rereads_instr [OF p(1)] unfolding rereads_def by blast
  let ?j = "reread info (number (names c1)) l i"
  have N: "N = intern_all rs (intern_all (code_regs is) (names c1))" using Cons.prems(7) c1(1) by simp
  have j: "?j = reread info (number N) l i"
  proof (rule reread_cong)
    show "form_ok i" using p(1) by (simp add: printable_def)
    show "number (names c1) r = number N r" if "r \<in> set (instr_regs i)" for r
      using known_intern_all [OF that, of "names c"] number_intern_all [of r "names c1" "code_regs is @ rs"] unfolding N c1(1) by simp
  qed
  note ap = append_instr_body [OF Cons.prems(4-6), of ?j]
  have "length (body fn) = n_blocks fn" by (simp add: body_def)
  then have "body (append_instr b ?j fn) ! b = Some (js @ [?j])" using Cons.prems(5) by (simp add: ap)
  from Cons.IH [OF p(2) _ Cons.prems(3) ap(2) _ this N, of "Suc l"] Cons.prems(2,5) c1(1)
  obtain l' c' fn' js' where IH: "parse_body (Some b) (append_instr b ?j fn) (look ?u (Suc l) c1) = parse_body (Some b) fn' (look u l' c')"
      "names c' = intern_all (code_regs is) (names c1)" "fresh_heap fn'" "func_name fn' = func_name fn" "ret_type fn' = ret_type fn"
      "body fn' = (body (append_instr b ?j fn))[b := Some ((js @ [?j]) @ js')]" "same_code info (number N) is js'"
    by auto
  have "parse_body (Some b) fn (look (print_ir_instr info i @ ?u) l c) = parse_body (Some b) (append_instr b ?j fn) (look ?u (Suc l) c1)"
    using instr_token [OF p(1), of ?u l] c1(2) by (subst parse_body.simps) (simp add: tok_look)
  with IH c1(1) j ap(1) show ?case
    by (intro exI [of _ l'] exI [of _ c'] exI [of _ fn'] exI [of _ "?j # js'"]) (auto simp: same_code_def)
qed


definition block_text :: "reg_info \<Rightarrow> nat \<times> instr list \<Rightarrow> string" where
  "block_text info = (\<lambda>(k, is). (if k > 0 then nl else []) @ block_str k @ '':'' @ nl @ concat (List.map (print_ir_instr info) is))"

lemma put_block_body:
  assumes "fresh_heap fn" "n_blocks fn < MAX_BLOCKS"
  shows "\<exists>fn1. put_block (n_blocks fn) fn = Some fn1 \<and> fresh_heap fn1 \<and> body fn1 = body fn @ [Some []] \<and> n_blocks fn1 = Suc (n_blocks fn) \<and>
    func_name fn1 = func_name fn \<and> ret_type fn1 = ret_type fn"
  using assms by (auto simp: put_block_def fresh_heap_def body_def label_block_def calloc_block_def)

lemma look_block_text:
  "k < 65536 \<Longrightarrow> look (block_text info (k, is) @ u) l c =
    \<lparr>rest = CHR '':'' # CHR 0x0A # concat (List.map (print_ir_instr info) is) @ u, line = if k > 0 then Suc l else l,
     tok = plain_tok TOK_IDENT (block_str k) (if k > 0 then Suc l else l), ctx = c\<rparr>"
  by (simp add: block_text_def nl_def)

lemma parse_blocks:
  assumes "list_all (lines_ok info) css" "length (intern_all (code_regs (concat css)) (names c)) \<le> MAX_REGS_PER_FUNC"
    "fresh_heap fn" "n_blocks fn + length css \<le> MAX_BLOCKS"
    "N = intern_all (code_regs (concat css)) (names c)"
  shows "\<exists>l' c' fn' jss. parse_body cur fn (look (concat (List.map (block_text info) (enumerate (n_blocks fn) css)) @ CHR ''}'' # u) l c) =
        Some (fn', look (CHR ''}'' # u) l' c') \<and>
      names c' = N \<and> func_name fn' = func_name fn \<and> ret_type fn' = ret_type fn \<and>
      body fn' = body fn @ List.map Some jss \<and> list_all2 (same_code info (number N)) css jss"
  using assms
proof (induction css arbitrary: cur fn l c)
  case Nil
  then show ?case by (intro exI [of _ l] exI [of _ c] exI [of _ fn] exI [of _ "[]"]) (subst parse_body.simps, simp)
next
  case (Cons "is" css)
  let ?k = "n_blocks fn" and ?u = "concat (List.map (block_text info) (enumerate (Suc (n_blocks fn)) css)) @ CHR ''}'' # u"
  have k: "?k < 65536" "?k < MAX_BLOCKS" using Cons.prems(4) by (simp_all add: MAX_BLOCKS_def)
  obtain fn1 where fn1: "put_block ?k fn = Some fn1" "fresh_heap fn1" "body fn1 = body fn @ [Some []]" "n_blocks fn1 = Suc ?k"
      "func_name fn1 = func_name fn" "ret_type fn1 = ret_type fn" using put_block_body [OF Cons.prems(3) k(2)] by auto
  have lb: "length (body fn) = ?k" by (simp add: body_def)
  have next_tok: "kind (fst (next_token ?u l)) \<notin> {TOK_LBRACKET, TOK_COMMA} \<and> \<not> is_reg_tok (fst (next_token ?u l))" for l
  proof (cases css)
    case Nil
    then show ?thesis by (simp add: tok_look [symmetric, where c = "[]"] is_reg_tok_def)
  next
    case (Cons is' css')
    have "Suc ?k < 65536" using Cons.prems(4) Cons by (simp add: MAX_BLOCKS_def)
    then show ?thesis using Cons look_block_text [of "Suc ?k" info is']
      by (simp add: tok_look [symmetric, where c = "[]"] is_reg_tok_def block_str_def first_is_def)
  qed
  let ?l = "Suc (if ?k > 0 then Suc l else l)" and ?C = "intern_all (code_regs is) (names c)"
  have le: "length ?C \<le> MAX_REGS_PER_FUNC"
    using Cons.prems(2) length_intern_all [of ?C "code_regs (concat css)"] by simp
  have ok: "lines_ok info is" "list_all (lines_ok info) css" using Cons.prems(1) by auto
  have N: "N = intern_all (code_regs (concat css)) ?C" using Cons.prems(5) by simp
  have at_k: "body fn1 ! ?k = Some []" "?k < n_blocks fn1" using fn1 lb by (simp_all add: nth_append)
  obtain l' c1 fn2 js where ls: "parse_body (Some ?k) fn1 (look (concat (List.map (print_ir_instr info) is) @ ?u) ?l c) = parse_body (Some ?k) fn2 (look ?u l' c1)"
      "names c1 = ?C" "fresh_heap fn2" "func_name fn2 = func_name fn1" "ret_type fn2 = ret_type fn1" "body fn2 = (body fn1)[?k := Some js]"
      "same_code info (number N) is js"
    using parse_lines [OF ok(1) le next_tok fn1(2) at_k(2,1) N, of ?l] by auto
  have b2: "body fn2 = body fn @ [Some js]" using ls(6) fn1(3) lb by (metis list_update_length)
  then have "n_blocks fn2 = Suc ?k" by (metis body_def length_map length_append_singleton)
  with Cons.IH [OF ok(2) _ ls(3), of c1 "Some ?k" l'] Cons.prems(2,4) N ls(2)
  obtain l'' c' fn' jss where IH: "parse_body (Some ?k) fn2 (look ?u l' c1) = Some (fn', look (CHR ''}'' # u) l'' c')"
      "names c' = N" "func_name fn' = func_name fn2" "ret_type fn' = ret_type fn2"
      "body fn' = body fn2 @ List.map Some jss" "list_all2 (same_code info (number N)) css jss" by auto
  have "parse_body cur fn (look (block_text info (?k, is) @ ?u) l c) = parse_body (Some ?k) fn1 (look (concat (List.map (print_ir_instr info) is) @ ?u) ?l c)"
    using k fn1(1) look_block_text [OF k(1), of info "is" ?u l c]
    by (subst parse_body.simps) (simp add: is_label_def advance_look Let_def)
  with IH ls b2 fn1(5,6) show ?case
    by (intro exI [of _ l''] exI [of _ c'] exI [of _ fn'] exI [of _ "js # jss"]) simp
qed

subsection \<open>Functions\<close>

lemma body_upd_blk:
  assumes "\<And>bb. instrs (g bb) = instrs bb"
  shows "body (upd_blk b g fn) = body fn"
proof (rule nth_equalityI)
  fix k assume "k < length (body (upd_blk b g fn))"
  then have "k < n_blocks fn" by (simp add: body_def)
  then show "body (upd_blk b g fn) ! k = body fn ! k"
    by (cases "k = b") (simp_all add: body_def upd_blk_def option.map_comp o_def assms)
qed (simp add: body_def)

definition same_but_edges :: "func \<Rightarrow> func \<Rightarrow> bool" where
  "same_but_edges fn fn' \<longleftrightarrow> body fn' = body fn \<and> func_name fn' = func_name fn \<and> ret_type fn' = ret_type fn \<and> n_regs fn' = n_regs fn"

lemma same_but_edges_upd: "(\<And>bb. instrs (g bb) = instrs bb) \<Longrightarrow> same_but_edges fn (upd_blk b g fn)"
  using body_upd_blk by (simp add: same_but_edges_def upd_blk_def)

lemma same_but_edges_trans: "same_but_edges f g \<Longrightarrow> same_but_edges g h \<Longrightarrow> same_but_edges f h"
  by (simp add: same_but_edges_def)

lemma link_succs_same: "same_but_edges fn (link_succs bi ds fn)"
proof -
  have "same_but_edges fn (fold (\<lambda>d fn. case blk_at fn d of None \<Rightarrow> fn
       | Some _ \<Rightarrow> upd_blk d (\<lambda>b. b\<lparr>preds := preds b @ [bi]\<rparr>) fn) ds f)" if "same_but_edges fn f" for f
    using that
  proof (induction ds arbitrary: f)
    case (Cons d ds)
    have "same_but_edges f (case blk_at f d of None \<Rightarrow> f | Some _ \<Rightarrow> upd_blk d (\<lambda>b. b\<lparr>preds := preds b @ [bi]\<rparr>) f)"
      by (auto simp: same_but_edges_def [of f f] intro: same_but_edges_upd split: option.split)
    with Cons show ?case using same_but_edges_trans by (simp only: fold_simps)
  qed simp
  then show ?thesis by (simp add: link_succs_def same_but_edges_upd)
qed

lemma build_edges_same: "same_but_edges fn (build_edges fn)"
proof -
  have "same_but_edges fn (fn\<lparr>blocks := List.map (map_option clear_edges) (blocks fn)\<rparr>)"
    by (auto simp: same_but_edges_def body_def clear_edges_def option.map_comp o_def)
  then show ?thesis unfolding build_edges_def
    using link_succs_same same_but_edges_trans by (intro for_blk_invariant [where I = "same_but_edges fn"]) blast+
qed

lemma number_inj: "inj_on (number ns) {r. reg_str r \<in> set ns}"
proof (rule inj_onI)
  fix r q assume rq: "r \<in> {r. reg_str r \<in> set ns}" "q \<in> {r. reg_str r \<in> set ns}" "number ns r = number ns q"
  have at: "ns ! length (takeWhile (\<lambda>n. n \<noteq> reg_str p) ns) = reg_str p" if "reg_str p \<in> set ns" for p
    using that by (induction ns) auto
  have "length (takeWhile (\<lambda>n. n \<noteq> reg_str r) ns) = length (takeWhile (\<lambda>n. n \<noteq> reg_str q) ns)"
    using rq(3) by (simp only: number_def nat.inject)
  moreover have "reg_str r \<in> set ns" "reg_str q \<in> set ns" using rq(1,2) by simp_all
  ultimately have "reg_str r = reg_str q" using at by metis
  then show "r = q" using nat_str_inj by (simp add: reg_str_def)
qed

lemma parse_params_str:
  assumes "list_all (\<lambda>r. r < 65536 \<and> is_word (operand_type info ''i32'' r) \<and> keyword (operand_type info ''i32'' r) = TOK_IDENT) ps"
    "length (intern_all (ps @ rs) (names c)) \<le> MAX_REGS_PER_FUNC"
  shows "\<exists>c'. parse_params (look (commas (List.map (\<lambda>r. operand_type info ''i32'' r @ '' '' @ reg_str r) ps) @ CHR '')'' # u) l c) =
      Some (look (CHR '')'' # u) l c') \<and> names c' = intern_all ps (names c)"
  using assms
proof (induction ps arbitrary: c)
  case Nil
  then show ?case by (subst parse_params.simps) simp
next
  case (Cons a as)
  let ?ty = "operand_type info ''i32'' a"
  have ty: "is_word ?ty" "a < 65536" "keyword ?ty = TOK_IDENT" using Cons.prems by auto
  obtain c1 where c1: "get_or_create_reg c (reg_str a) (Some ?ty) True = Some (number (intern a (names c)) a, c1)"
      "names c1 = intern a (names c)"
    using get_or_create_reg_str [of "as @ rs" a c "Some ?ty" True] Cons.prems by auto
  obtain c2 where c2: "parse_params (look (commas (List.map (\<lambda>r. operand_type info ''i32'' r @ '' '' @ reg_str r) as) @ CHR '')'' # u) l c1) =
      Some (look (CHR '')'' # u) l c2)" "names c2 = intern_all as (names c1)"
    using Cons.IH [of c1] Cons.prems c1(2) by auto
  show ?case
  proof (cases as)
    case Nil
    with ty c1 c2 show ?thesis by (subst parse_params.simps) (simp add: reg_here_def advance_look)
  next
    case (Cons a' as')
    with ty c1 c2 show ?thesis by (subst parse_params.simps) (simp add: reg_here_def advance_look)
  qed
qed


text \<open>The functions the printer writes in the parser's language, and the registers in the order it writes them.\<close>

definition fn_name :: "func \<Rightarrow> string" where
  "fn_name fn = (if func_name fn \<noteq> [] then func_name fn else ''func'')"
definition fn_ret :: "func \<Rightarrow> string" where
  "fn_ret fn = (if ret_type fn \<noteq> [] then ret_type fn else ''i32'')"
definition fn_params :: "reg_info \<Rightarrow> func \<Rightarrow> regid list" where
  "fn_params info fn = filter (g_reg_is_param info) [1..<n_regs fn + 1]"
definition fn_code :: "func \<Rightarrow> instr list list" where
  "fn_code fn = List.map (\<lambda>b. List.map (heap fn) (instrs (the b))) (blocks fn)"
definition fn_regs :: "reg_info \<Rightarrow> func \<Rightarrow> regid list" where
  "fn_regs info fn = fn_params info fn @ code_regs (concat (fn_code fn))"

definition fn_printable :: "reg_info \<Rightarrow> func \<Rightarrow> bool" where
  "fn_printable info fn \<longleftrightarrow> is_word (CHR ''@'' # fn_name fn) \<and> is_word (fn_ret fn) \<and> n_blocks fn \<le> MAX_BLOCKS \<and>
     list_all (\<lambda>r. r < 65536 \<and> is_word (operand_type info ''i32'' r) \<and> keyword (operand_type info ''i32'' r) = TOK_IDENT) (fn_params info fn) \<and>
     list_all (\<lambda>k. case blocks fn ! k of None \<Rightarrow> False | Some bb \<Rightarrow> block_name bb = block_str k) [0..<n_blocks fn] \<and>
     list_all (lines_ok info) (fn_code fn) \<and>
     length (intern_all (fn_regs info fn) []) \<le> MAX_REGS_PER_FUNC"

lemma print_blocks:
  assumes "list_all (\<lambda>k. case blocks fn ! k of None \<Rightarrow> False | Some bb \<Rightarrow> block_name bb = block_str k) [0..<n_blocks fn]"
  shows "concat (List.map (\<lambda>bi. case blk_at fn bi of None \<Rightarrow> []
        | Some bb \<Rightarrow> (if bi > 0 then nl else []) @ print_block info fn bb) [0..<n_blocks fn]) =
    concat (List.map (block_text info) (enumerate 0 (fn_code fn)))"
proof -
  have "List.map (\<lambda>bi. case blk_at fn bi of None \<Rightarrow> [] | Some bb \<Rightarrow> (if bi > 0 then nl else []) @ print_block info fn bb) [0..<n_blocks fn] =
      List.map (block_text info) (enumerate 0 (fn_code fn))"
  proof (rule nth_equalityI)
    fix k assume k: "k < length (List.map (\<lambda>bi. case blk_at fn bi of None \<Rightarrow> [] | Some bb \<Rightarrow> (if bi > 0 then nl else []) @ print_block info fn bb) [0..<n_blocks fn])"
    then have "case blocks fn ! k of None \<Rightarrow> False | Some bb \<Rightarrow> block_name bb = block_str k"
      using assms by (simp add: list_all_iff)
    then obtain bb where "blocks fn ! k = Some bb" "block_name bb = block_str k"
      by (cases "blocks fn ! k") auto
    with k show "List.map (\<lambda>bi. case blk_at fn bi of None \<Rightarrow> [] | Some bb \<Rightarrow> (if bi > 0 then nl else []) @ print_block info fn bb) [0..<n_blocks fn] ! k =
        List.map (block_text info) (enumerate 0 (fn_code fn)) ! k"
      by (simp add: blk_at_def block_text_def print_block_def fn_code_def nth_enumerate_eq o_def)
  qed (simp add: fn_code_def)
  then show ?thesis by simp
qed

lemma parse_printed_func:
  assumes "fn_printable info fn"
  defines "N \<equiv> intern_all (fn_regs info fn) []"
  shows "\<exists>fn' info' jss. parse_ir_module (print_ir_function info fn) = Some [(fn', info')] \<and>
    func_name fn' = fn_name fn \<and> ret_type fn' = fn_ret fn \<and> g_fn_ret_type info' = fn_ret fn \<and> n_regs fn' = length N \<and>
    body fn' = List.map Some jss \<and> list_all2 (same_code info (number N)) (fn_code fn) jss"
proof -
  let ?ps = "fn_params info fn" and ?cs = "fn_code fn"
  let ?body = "concat (List.map (block_text info) (enumerate 0 ?cs)) @ CHR ''}'' # nl"
  let ?rest = "CHR '')'' # CHR '' '' # CHR ''-'' # CHR ''>'' # CHR '' '' # fn_ret fn @ CHR '' '' # CHR ''{'' # nl @ ?body"
  have ok: "is_word (CHR ''@'' # fn_name fn)" "is_word (fn_ret fn)"
    "list_all (\<lambda>r. r < 65536 \<and> is_word (operand_type info ''i32'' r) \<and> keyword (operand_type info ''i32'' r) = TOK_IDENT) ?ps"
    "list_all (lines_ok info) ?cs" "length (intern_all (?ps @ code_regs (concat ?cs)) []) \<le> MAX_REGS_PER_FUNC" "length ?cs \<le> MAX_BLOCKS"
    using assms(1) by (auto simp: fn_printable_def fn_regs_def fn_code_def)
  have pr: "print_ir_function info fn = ''func '' @ CHR ''@'' # fn_name fn @ CHR ''('' # params_str info fn @ ?rest"
    using print_blocks [of fn info] assms(1) by (simp add: print_ir_function_def fn_printable_def fn_name_def fn_ret_def)
  obtain c1 where c1: "parse_params (look (params_str info fn @ ?rest) 1 []) = Some (look ?rest 1 c1)" "names c1 = intern_all ?ps []"
    using parse_params_str [OF ok(3), of "code_regs (concat ?cs)" "[]" "'' -> '' @ fn_ret fn @ '' {'' @ nl @ ?body" 1] ok(5)
    by (auto simp: params_str_def fn_params_def)
  let ?f0 = "empty_func\<lparr>func_name := fn_name fn, ret_type := fn_ret fn\<rparr>"
  have N: "N = intern_all (code_regs (concat ?cs)) (names c1)" by (simp add: N_def fn_regs_def c1(2))
  have f0: "fresh_heap ?f0" "n_blocks ?f0 = 0" "body ?f0 = []" by (simp_all add: fresh_heap_def empty_func_def body_def)
  obtain l2 c2 fn2 jss where b: "parse_body None ?f0 (look ?body 2 c1) = Some (fn2, look (CHR ''}'' # nl) l2 c2)"
      "names c2 = N" "func_name fn2 = fn_name fn" "ret_type fn2 = fn_ret fn" "body fn2 = List.map Some jss" "list_all2 (same_code info (number N)) ?cs jss"
    using parse_blocks [OF ok(4) _ f0(1) _ N, of None nl 2] ok(5,6) c1(2) f0(2,3) by auto
  let ?fn = "build_edges (fn2\<lparr>n_regs := length c2\<rparr>)" and ?info = "reg_tables c2 (fn_ret fn)"
  have e1: "look (fn_ret fn @ CHR '' '' # v) l c = \<lparr>rest = CHR '' '' # v, line = l, tok = plain_tok (keyword (fn_ret fn)) (fn_ret fn) l, ctx = c\<rparr>" for v l c
    using ok(2) by simp
  have e2: "look (CHR ''@'' # fn_name fn @ CHR ''('' # v) l c =
      \<lparr>rest = CHR ''('' # v, line = l, tok = plain_tok TOK_IDENT (CHR ''@'' # fn_name fn) l, ctx = c\<rparr>" for v l c
    using look_word [OF ok(1), of "CHR ''(''" v l c] by (simp add: keyword_def)
  have F1: "parse_func (look (CHR ''@'' # fn_name fn @ CHR ''('' # params_str info fn @ ?rest) 1 []) = Some (?fn, ?info, look nl l2 c2)"
    using b(1) c1(1) by (simp add: parse_func_def e1 e2 first_is_def advance_look nl_def Let_def eval_nat_numeral)
  have F2: "look (print_ir_function info fn) 1 [] = \<lparr>rest = CHR '' '' # CHR ''@'' # fn_name fn @ CHR ''('' # params_str info fn @ ?rest, line = 1,
      tok = plain_tok TOK_FUNC ''func'' 1, ctx = []\<rparr>"
    using look_word [OF word_chars(12), of "CHR '' ''" "CHR ''@'' # fn_name fn @ CHR ''('' # params_str info fn @ ?rest" 1 "[]"]
    unfolding pr by (simp add: keyword_def)
  have F3: "look nl l2 c2 = \<lparr>rest = [], line = Suc l2, tok = plain_tok TOK_EOF [] (Suc l2), ctx = c2\<rparr>"
    by (simp add: nl_def) (simp add: look_def next_token_def token_at_def)
  have "parse_funcs [] (look (print_ir_function info fn) 1 []) = Some [(?fn, ?info)]"
  proof -
    have "parse_funcs [(?fn, ?info)] (look nl l2 c2) = Some [(?fn, ?info)]" by (subst parse_funcs.simps) (simp add: F3)
    then show ?thesis by (subst parse_funcs.simps) (simp add: F1 F2 advance_look MAX_FUNCS_PER_MOD_def del: One_nat_def)
  qed
  then have "parse_ir_module (print_ir_function info fn) = Some (share_ret_type [(?fn, ?info)])"
    by (simp add: parse_ir_module_def advance_look del: One_nat_def)
  moreover have "same_but_edges (fn2\<lparr>n_regs := length c2\<rparr>) ?fn" by (rule build_edges_same)
  moreover have "length c2 = length N" using b(2) by (metis length_map)
  ultimately show ?thesis using b(3-6)
    by (intro exI [of _ ?fn] exI [of _ ?info] exI [of _ jss]) (auto simp: share_ret_type_def same_but_edges_def body_def reg_tables_def)
qed

lemma number_bounds: "reg_str r \<in> set ns \<Longrightarrow> 1 \<le> number ns r \<and> number ns r \<le> length ns"
  by (induction ns) (auto simp: number_def)

text \<open>
  C1: Printing a function and reading the text gives the function back: the same name, return type and
  blocks, and block by block the same instructions, up to an injective renaming of the registers onto
  1, 2, ... and up to what the text does not say (\<open>reread\<close>: the line numbers, the size annotations, the
  signedness of a division). The function has to be one the language can express: no loads, no stack or
  address operations, nothing after a return of nothing, at most 4096 registers.
\<close>

theorem parse_print_roundtrip:
  assumes "fn_printable info fn"
  shows "\<exists>fn' info' m jss. parse_ir_module (print_ir_function info fn) = Some [(fn', info')] \<and>
    inj_on m (set (fn_regs info fn)) \<and> m ` set (fn_regs info fn) \<subseteq> {1..n_regs fn'} \<and>
    func_name fn' = fn_name fn \<and> ret_type fn' = fn_ret fn \<and> g_fn_ret_type info' = fn_ret fn \<and>
    body fn' = List.map Some jss \<and> list_all2 (same_code info m) (fn_code fn) jss"
proof -
  let ?N = "intern_all (fn_regs info fn) []"
  have k: "reg_str r \<in> set ?N" if "r \<in> set (fn_regs info fn)" for r using known_intern_all [OF that] .
  have "inj_on (number ?N) (set (fn_regs info fn))" using k by (intro inj_on_subset [OF number_inj]) auto
  moreover have "number ?N ` set (fn_regs info fn) \<subseteq> {1..length ?N}" using number_bounds [OF k] by auto
  ultimately show ?thesis using parse_printed_func [OF assms] by metis
qed

definition demo_text_fn :: func where
  "demo_text_fn = empty_func\<lparr>func_name := ''f'', ret_type := ''i64'', n_regs := 4, next_addr := 5,
     heap := (\<lambda>_. calloc_instr)(
       0 := calloc_instr\<lparr>op := OP_CONST, dst := 3, imm := -5\<rparr>,
       1 := calloc_instr\<lparr>op := OP_LT, dst := 2, src := (\<lambda>_. 0)(0 := 1, 1 := 3), n_src := 2\<rparr>,
       2 := calloc_instr\<lparr>op := OP_CONDBR, src := (\<lambda>_. 0)(0 := 2, 1 := 1, 2 := 0), n_src := 3\<rparr>,
       3 := calloc_instr\<lparr>op := OP_PHI, dst := 4, phi := [(3, 0)]\<rparr>,
       4 := calloc_instr\<lparr>op := OP_RET, src := (\<lambda>_. 0)(0 := 4), n_src := 1\<rparr>),
     blocks := [Some ((label_block 0)\<lparr>instrs := [0, 1, 2]\<rparr>), Some ((label_block 1)\<lparr>instrs := [3, 4]\<rparr>)]\<rparr>"

definition demo_text_info :: reg_info where
  "demo_text_info = \<lparr>g_reg_types = (\<lambda>r. if r = 1 then ''i64'' else []), g_reg_is_param = (\<lambda>r. r = 1), g_fn_ret_type = ''i64''\<rparr>"

lemma demo_params: "fn_params demo_text_info demo_text_fn = [1]"
  by (simp add: fn_params_def demo_text_info_def demo_text_fn_def upt_rec)

lemma demo_code: "fn_code demo_text_fn = [[calloc_instr\<lparr>op := OP_CONST, dst := 3, imm := -5\<rparr>,
       calloc_instr\<lparr>op := OP_LT, dst := 2, src := (\<lambda>_. 0)(0 := 1, 1 := 3), n_src := 2\<rparr>,
       calloc_instr\<lparr>op := OP_CONDBR, src := (\<lambda>_. 0)(0 := 2, 1 := 1, 2 := 0), n_src := 3\<rparr>],
     [calloc_instr\<lparr>op := OP_PHI, dst := 4, phi := [(3, 0)]\<rparr>, calloc_instr\<lparr>op := OP_RET, src := (\<lambda>_. 0)(0 := 4), n_src := 1\<rparr>]]"
  by (simp add: fn_code_def demo_text_fn_def label_block_def)

lemma demo_fn_regs: "fn_regs demo_text_info demo_text_fn = [1, 3, 2, 1, 3, 2, 4, 3, 4]"
  by (simp add: fn_regs_def demo_params demo_code instr_regs_def calloc_instr_def upt_rec)

lemma demo_printable: "fn_printable demo_text_info demo_text_fn"
proof -
  have "is_word (CHR ''@'' # fn_name demo_text_fn)" "is_word (fn_ret demo_text_fn)" "n_blocks demo_text_fn \<le> MAX_BLOCKS"
    by (simp_all add: fn_name_def fn_ret_def demo_text_fn_def is_word_def char_class MAX_BLOCKS_def)
  moreover have "is_word ''i64''" "keyword ''i64'' = TOK_IDENT" by (simp_all add: is_word_def char_class keyword_def)
  moreover have "list_all (\<lambda>k. case blocks demo_text_fn ! k of None \<Rightarrow> False | Some bb \<Rightarrow> block_name bb = block_str k) [0..<n_blocks demo_text_fn]"
    by (simp add: demo_text_fn_def label_block_def block_str_def upt_rec)
  moreover have "list_all (lines_ok demo_text_info) (fn_code demo_text_fn)"
    by (simp add: demo_code lines_ok_def printable_def form_ok_def instr_regs_def instr_blocks_def calloc_instr_def
        demo_text_info_def ty_ok_def is_word_def char_class upt_rec MAX_PHI_SOURCES_def)
  moreover have "length (intern_all (fn_regs demo_text_info demo_text_fn) []) \<le> MAX_REGS_PER_FUNC"
    by (simp add: demo_fn_regs intern_def reg_str_def nat_str.simps MAX_REGS_PER_FUNC_def)
  moreover have "operand_type demo_text_info ''i32'' 1 = ''i64''" by (simp add: operand_type_def demo_text_info_def)
  ultimately show ?thesis by (simp add: fn_printable_def demo_params)
qed

theorem parse_print_roundtrip_witness:
  "\<exists>fn' info' m jss. parse_ir_module (print_ir_function demo_text_info demo_text_fn) = Some [(fn', info')] \<and>
    inj_on m {1, 2, 3, 4} \<and> m ` {1, 2, 3, 4} \<subseteq> {1..n_regs fn'} \<and> func_name fn' = ''f'' \<and>
    body fn' = List.map Some jss \<and> list_all2 (same_code demo_text_info m) (fn_code demo_text_fn) jss"
proof -
  have "set (fn_regs demo_text_info demo_text_fn) = {1, 2, 3, 4}" by (auto simp: demo_fn_regs)
  moreover have "fn_name demo_text_fn = ''f''" by (simp add: fn_name_def demo_text_fn_def)
  ultimately show ?thesis using parse_print_roundtrip [OF demo_printable] by auto
qed

lemma char_digits: "char_of (49 :: nat) = CHR ''1''" "char_of (50 :: nat) = CHR ''2''" "char_of (51 :: nat) = CHR ''3''"
  by code_simp+

text \<open>
  C2: The text changes two operations. A line that negates a register is read as the bitwise complement,
  whose value is one less; and an unsigned division, which is printed \<^verbatim>\<open>udiv\<close>, is read back as a
  division that prints \<^verbatim>\<open>sdiv\<close>.
\<close>

theorem textual_ir_changes_operations:
  "map_option (op \<circ> fst) (parse_instr (look (''  %r2 = neg i64 %r1'' @ nl) 1 [])) = Some OP_BNOT \<and>
   (let i = calloc_instr\<lparr>op := OP_DIV, dst := 3, src := (\<lambda>_. 0)(0 := 1, 1 := 2), n_src := 2, sbt_has_cast := True\<rparr>;
       info = \<lparr>g_reg_types = (\<lambda>_. []), g_reg_is_param = (\<lambda>_. False), g_fn_ret_type = []\<rparr>
   in print_ir_instr info i = ''  %r3 = udiv i64 %r1, %r2'' @ nl \<and>
      (\<exists>j s. parse_instr (look (print_ir_instr info i @ ''}'') 1 []) = Some (j, s) \<and> op j = OP_DIV \<and> name_of_op j = ''sdiv''))"
proof
  let ?i = "calloc_instr\<lparr>op := OP_DIV, dst := 3, src := (\<lambda>_. 0)(0 := 1, 1 := 2), n_src := 2, sbt_has_cast := True\<rparr>"
    and ?info = "\<lparr>g_reg_types = (\<lambda>_. []), g_reg_is_param = (\<lambda>_. False), g_fn_ret_type = []\<rparr>"
  have r: "instr_regs ?i = [3, 1, 2]" by (simp add: instr_regs_def calloc_instr_def upt_rec)
  have p: "printable ?info ?i" unfolding printable_def r by (simp add: form_ok_def instr_blocks_def)
  have "length (intern_all (instr_regs ?i) (names [])) \<le> MAX_REGS_PER_FUNC"
    unfolding r by (simp add: intern_def reg_str_def nat_str.simps MAX_REGS_PER_FUNC_def)
  moreover have "ends_line ?i (fst (next_token ''}'' (Suc 1)))" by (simp add: tok_look [symmetric, where c = "[]"] ends_line_def)
  ultimately have "rereads ?info ?i ''}'' 1 []" by (rule rereads_instr [OF p])
  then obtain c' where c': "parse_instr (look (print_ir_instr ?info ?i @ ''}'') 1 []) = Some (reread ?info (number (names c')) 1 ?i, look ''}'' (Suc 1) c')"
    unfolding rereads_def by blast
  have o: "op (reread ?info m 1 ?i) = OP_DIV" "name_of_op (reread ?info m 1 ?i) = ''sdiv''" for m
    by (simp_all add: reread_def name_of_op_def calloc_instr_def set_src_def)
  have "print_ir_instr ?info ?i = ''  %r3 = udiv i64 %r1, %r2'' @ nl"
    by (simp add: name_of_op_def print_ir_instr_def print_def_def type_name_def reg_str_def nat_str.simps is_cmp_op_def calloc_instr_def char_digits)
  with c' o show "let i = ?i; info = ?info in print_ir_instr info i = ''  %r3 = udiv i64 %r1, %r2'' @ nl \<and>
      (\<exists>j s. parse_instr (look (print_ir_instr info i @ ''}'') 1 []) = Some (j, s) \<and> op j = OP_DIV \<and> name_of_op j = ''sdiv'')"
    unfolding Let_def by blast
  have a: "''  %r2 = neg i64 %r1'' @ nl = ''  '' @ reg_str 2 @ '' = '' @ ''neg'' @ CHR '' '' # ''i64'' @ CHR '' '' # reg_str 1 @ CHR 0x0A # []"
    by (simp add: reg_str_def nat_str.simps nl_def char_digits)
  have w: "is_word ''neg''" "is_word ''i64''" by (simp_all add: is_word_def char_class)
  obtain m c where g: "get_or_create_reg [] (reg_str 2) (Some ''i64'') False = Some (m, c)" "length c = 1"
    by (simp add: get_or_create_reg_def MAX_REGS_PER_FUNC_def)
  let ?n = "calloc_instr\<lparr>line_no := int 1, ir_type := type_of_name ''i64'', dst := m, op := OP_BNOT\<rparr>"
  have "length (intern_all [] (intern 1 (names c))) \<le> MAX_REGS_PER_FUNC" using g(2) by (simp add: intern_def MAX_REGS_PER_FUNC_def)
  moreover have "kind (fst (next_token [] (Suc 1))) \<noteq> TOK_COMMA" by (simp add: next_token_def token_at_def)
  ultimately obtain c' where "parse_operands ''i64'' ?n (look (reg_str 1 @ CHR 0x0A # []) 1 c) =
      Some ((set_src 0 (number (intern 1 (names c)) 1) ?n)\<lparr>n_src := 1\<rparr>, look [] (Suc 1) c')"
    using parse_operands1 [of 1 "[]" c "[]" 1 "''i64''" ?n] by auto
  then show "map_option (op \<circ> fst) (parse_instr (look (''  %r2 = neg i64 %r1'' @ nl) 1 [])) = Some OP_BNOT"
    unfolding a using parse_def_head [OF _ w(1) _ w(2) g(1), of "reg_str 1 @ CHR 0x0A # []" 1] by (simp add: op_of_name_def)
qed

end
