(* ===== verification/DeadCode.thy ===== *)
theory DeadCode
  imports PassWalk Graph_Search "HOL-Library.Sublist"
begin

text \<open>
  \<^verbatim>\<open>ssa_dce_pass\<close> of \<open>src/compiler_passes.c\<close>: the registers that critical instructions need, found by a
  worklist over the definition table, and the removal of the instructions that define no such register and
  of the code of unreachable blocks. \<open>entry\<close> is \<^verbatim>\<open>fn->entry\<close>.
\<close>

section \<open>Liveness\<close>

definition is_critical :: "instr \<Rightarrow> bool" where
  "is_critical i \<longleftrightarrow> (op i = OP_ALLOCA \<and> is_param i) \<or> op i \<in> {OP_STORE, OP_CALL, OP_RET, OP_BR, OP_CONDBR}"

abbreviation nonzero :: "regid list \<Rightarrow> regid list" where "nonzero \<equiv> filter (\<lambda>r. r \<noteq> 0)"

text \<open>The registers a critical instruction puts on the worklist.\<close>

definition seed_regs :: "instr \<Rightarrow> regid list" where
  "seed_regs i = nonzero (List.map (src i) [0..<(if op i = OP_BR then 0 else if op i = OP_CONDBR then 1 else n_src i)]) @
     (if op i = OP_CALL then nonzero (call_args i) else []) @
     (if op i = OP_PHI then nonzero (List.map fst (phi i)) else [])"

definition seeds :: "func \<Rightarrow> regid list" where
  "seeds fn = concat (List.map (\<lambda>(b, a). if is_critical (heap fn a) then seed_regs (heap fn a) else []) (reach_list fn))"

text \<open>
  The registers the definition of a live register puts there. An entry of a phi node counts only when its
  block exists and is reachable.
\<close>

definition live_edge :: "func \<Rightarrow> blockid \<Rightarrow> bool" where
  "live_edge fn b = (case blk_at fn b of None \<Rightarrow> False | Some blk \<Rightarrow> reachable blk)"

definition def_regs :: "func \<Rightarrow> instr \<Rightarrow> regid list" where
  "def_regs fn i = nonzero (List.map (src i)
       [0..<(if op i = OP_BR then 0 else if op i = OP_CONDBR \<or> op i = OP_COPY then 1 else n_src i)]) @
     (if op i = OP_CALL then nonzero (call_args i) else []) @
     (if op i = OP_PHI then List.map fst (filter (\<lambda>(r, b). live_edge fn b) (phi i)) else [])"

definition uses_of :: "func \<Rightarrow> regid \<Rightarrow> regid list" where
  "uses_of fn r = (case def_tab fn r of None \<Rightarrow> [] | Some a \<Rightarrow> def_regs fn (heap fn a))"

text \<open>
  The array \<^verbatim>\<open>live\<close> after the worklist is empty. The worklist is a ring of \<^verbatim>\<open>MAX_INSTRS\<close> places with
  assertions against overflow; a register enters it once, when it is marked, so it is the queue of
  \<^const>\<open>search\<close>.
\<close>

definition live_regs :: "func \<Rightarrow> regid \<Rightarrow> bool" where
  "live_regs fn = search_all (uses_of fn) MAX_INSTRS (\<lambda>_. True) (seeds fn)"

section \<open>The pass\<close>

text \<open>Every block exists and every register and block that may be looked up lies inside its table.\<close>

definition dce_in_bounds :: "func \<Rightarrow> bool" where
  "dce_in_bounds fn \<longleftrightarrow> list_all (\<lambda>b. b \<noteq> None) (blocks fn) \<and>
     list_all (\<lambda>a. let i = heap fn a in
        list_all (\<lambda>r. r < MAX_INSTRS) (dst i # seed_regs i @ def_regs fn i) \<and> list_all (\<lambda>(r, b). b < MAX_BLOCKS) (phi i))
       (all_addrs fn)"

definition doomed :: "(regid \<Rightarrow> bool) \<Rightarrow> instr \<Rightarrow> bool" where
  "doomed live i \<longleftrightarrow> \<not> is_critical i \<and> op i \<noteq> OP_NOP \<and> dst i \<noteq> 0 \<and> \<not> live (dst i)"

definition sweep_block :: "(regid \<Rightarrow> bool) \<Rightarrow> blockid \<Rightarrow> block \<Rightarrow> func \<times> nat \<Rightarrow> func \<times> nat" where
  "sweep_block live bi bb s =
     (let (fn, n) = fold (\<lambda>a (fn, n). if doomed live (heap fn a) then (upd_instr a (\<lambda>i. i\<lparr>dead := True\<rparr>) fn, n + 1) else (fn, n))
                      (instrs bb) s;
          keep = filter (\<lambda>a. \<not> dead (heap fn a)) (instrs bb)
      in (upd_blk bi (\<lambda>b. b\<lparr>instrs := keep, n_instrs := n_instrs b - (length (instrs bb) - length keep)\<rparr>) fn, n))"

definition drop_block :: "blockid \<Rightarrow> blockid \<Rightarrow> block \<Rightarrow> func \<times> nat \<Rightarrow> func \<times> nat" where
  "drop_block entry bi bb = (\<lambda>(fn, k). if \<not> reachable bb \<and> block_id bb \<noteq> entry
     then (upd_blk bi (\<lambda>b. b\<lparr>instrs := [], n_instrs := 0\<rparr>) fn, k + 1) else (fn, k))"

text \<open>The function, the instructions removed and the blocks emptied; \<open>None\<close> for an access outside a table.\<close>

definition ssa_dce_pass :: "blockid \<Rightarrow> func \<Rightarrow> (func \<times> nat \<times> nat) option" where
  "ssa_dce_pass entry fn = (if \<not> dce_in_bounds fn then None else
     let (fn1, removed) = for_blk (sweep_block (live_regs fn)) fst (n_blocks fn) (fn, 0);
         (fn2, emptied) = for_blk (drop_block entry) fst (n_blocks fn) (fn1, 0)
     in Some (fn2, removed, emptied))"

text \<open>The caller rebuilds the table first (\<^verbatim>\<open>run_all_passes\<close>).\<close>

definition run_dce :: "blockid \<Rightarrow> func \<Rightarrow> (func \<times> nat \<times> nat) option" where
  "run_dce entry fn = ssa_dce_pass entry (licm_build_def_block fn)"

section \<open>The registers found live\<close>

text \<open>The specification: what a critical instruction of a reachable block reads, and what the definition of a needed register reads.\<close>

inductive needed :: "func \<Rightarrow> regid \<Rightarrow> bool" for fn where
  by_critical: "(b, a) \<in> set (reach_list fn) \<Longrightarrow> is_critical (heap fn a) \<Longrightarrow> r \<in> set (seed_regs (heap fn a)) \<Longrightarrow> needed fn r"
| by_needed: "needed fn q \<Longrightarrow> def_tab fn q = Some a \<Longrightarrow> r \<in> set (def_regs fn (heap fn a)) \<Longrightarrow> needed fn r"

lemma set_seeds: "r \<in> set (seeds fn) \<longleftrightarrow> (\<exists>b a. (b, a) \<in> set (reach_list fn) \<and> is_critical (heap fn a) \<and> r \<in> set (seed_regs (heap fn a)))"
  by (fastforce simp: seeds_def split: if_splits)

lemma dce_bound:
  assumes "dce_in_bounds fn" "a \<in> set (all_addrs fn)"
  shows "dst (heap fn a) < MAX_INSTRS" "r \<in> set (seed_regs (heap fn a)) \<Longrightarrow> r < MAX_INSTRS" "r \<in> set (def_regs fn (heap fn a)) \<Longrightarrow> r < MAX_INSTRS"
  using assms by (auto simp: dce_in_bounds_def list_all_iff Let_def)

lemma live_regs_needed:
  assumes "dce_in_bounds fn" "table_ok fn"
  shows "live_regs fn r \<longleftrightarrow> needed fn r"
proof
  let ?R = "edge_rel (uses_of fn) MAX_INSTRS (\<lambda>_. True)"
  have edge: "(q, p) \<in> ?R \<longleftrightarrow> (\<exists>a. def_tab fn q = Some a \<and> p \<in> set (def_regs fn (heap fn a)))" for q p
    using dce_bound(3) [OF assms(1)] assms(2) by (cases "def_tab fn q") (auto simp: edge_rel_def uses_of_def table_ok_def)
  have live: "live_regs fn r \<longleftrightarrow> (\<exists>s \<in> set (seeds fn). s < MAX_INSTRS \<and> (s, r) \<in> ?R\<^sup>*)" for r
    unfolding live_regs_def search_all_correct by (auto simp: Image_iff)
  { assume "live_regs fn r"
    then obtain s where s: "s \<in> set (seeds fn)" "(s, r) \<in> ?R\<^sup>*" using live by blast
    from s(2) show "needed fn r"
    proof induction
      case base
      then show ?case using s(1) by (auto simp: set_seeds intro: by_critical)
    next
      case (step y z)
      then show ?case using edge by (auto intro: by_needed)
    qed }
  assume "needed fn r"
  then show "live_regs fn r"
  proof induction
    case (by_critical b a r)
    then have "r \<in> set (seeds fn)" "r < MAX_INSTRS"
      using set_seeds dce_bound(2) [OF assms(1) reach_list_all_addrs] by blast+
    then show ?case using live by blast
  next
    case (by_needed q a r)
    then have "(q, r) \<in> ?R" using edge by blast
    with by_needed.IH show ?case using live by (meson rtrancl_into_rtrancl)
  qed
qed

section \<open>What the pass leaves\<close>

lemma sweep_fold:
  assumes "distinct as"
  shows "fold (\<lambda>a (fn, n). if doomed live (heap fn a) then (upd_instr a (\<lambda>i. i\<lparr>dead := True\<rparr>) fn, n + 1) else (fn, n)) as (fn, n) =
    (fn\<lparr>heap := (\<lambda>a. if a \<in> set as \<and> doomed live (heap fn a) then (heap fn a)\<lparr>dead := True\<rparr> else heap fn a)\<rparr>,
     n + length (filter (\<lambda>a. doomed live (heap fn a)) as))"
  using assms
proof (induction as arbitrary: fn n)
  case (Cons a as)
  let ?f = "if doomed live (heap fn a) then upd_instr a (\<lambda>i. i\<lparr>dead := True\<rparr>) fn else fn"
  have h: "heap ?f c = heap fn c" if "c \<in> set as" for c using Cons.prems that by auto
  have "filter (\<lambda>c. doomed live (heap ?f c)) as = filter (\<lambda>c. doomed live (heap fn c)) as"
    using h by (intro filter_cong) auto
  moreover have "?f\<lparr>heap := (\<lambda>c. if c \<in> set as \<and> doomed live (heap ?f c) then (heap ?f c)\<lparr>dead := True\<rparr> else heap ?f c)\<rparr> =
      fn\<lparr>heap := (\<lambda>c. if c \<in> set (a # as) \<and> doomed live (heap fn c) then (heap fn c)\<lparr>dead := True\<rparr> else heap fn c)\<rparr>"
    using Cons.prems by (intro func.equality) (auto simp: upd_instr_def fun_eq_iff)
  ultimately show ?case
    using Cons.IH [of ?f "if doomed live (heap fn a) then n + 1 else n"] Cons.prems by (auto split: if_splits)
qed simp


definition trimmed :: "(regid \<Rightarrow> bool) \<Rightarrow> func \<Rightarrow> block \<Rightarrow> block" where
  "trimmed live fn bb = bb\<lparr>instrs := filter (\<lambda>a. \<not> doomed live (heap fn a)) (instrs bb),
     n_instrs := n_instrs bb - length (filter (\<lambda>a. doomed live (heap fn a)) (instrs bb))\<rparr>"

definition swept :: "(regid \<Rightarrow> bool) \<Rightarrow> func \<Rightarrow> nat \<Rightarrow> func" where
  "swept live fn k = fn\<lparr>blocks := List.map (\<lambda>b. if b < k then map_option (trimmed live fn) (blocks fn ! b) else blocks fn ! b) [0..<n_blocks fn],
     heap := (\<lambda>a. if a \<in> addrs_of (\<lambda>_ _. True) fn k \<and> doomed live (heap fn a) then (heap fn a)\<lparr>dead := True\<rparr> else heap fn a)\<rparr>"

definition dead_count :: "(regid \<Rightarrow> bool) \<Rightarrow> func \<Rightarrow> nat \<Rightarrow> nat" where
  "dead_count live fn k = length (filter (\<lambda>a. doomed live (heap fn a)) (concat (List.map blk_instrs (take k (blocks fn)))))"

lemma blk_at_swept: "blk_at (swept live fn k) b = (if b < k then map_option (trimmed live fn) (blk_at fn b) else blk_at fn b)"
  by (simp add: blk_at_def swept_def)

lemma addrs_of_Suc: "addrs_of (\<lambda>_ _. True) fn (Suc k) = addrs_of (\<lambda>_ _. True) fn k \<union> set (blk_instrs (blk_at fn k))"
  by (cases "blk_at fn k") (auto simp: addrs_of_def less_Suc_eq blk_instrs_def)

lemma sweep_blocks:
  assumes ok: "heap_ok fn" and fresh: "\<forall>a \<in> set (all_addrs fn). \<not> dead (heap fn a)" and k: "k \<le> n_blocks fn"
  shows "for_blk (sweep_block live) fst k (fn, 0) = (swept live fn k, dead_count live fn k)"
  using k
proof (induction k)
  case 0
  have "List.map ((!) (blocks fn)) [0..<n_blocks fn] = blocks fn" by (rule map_nth)
  then show ?case by (simp add: for_blk_def swept_def dead_count_def addrs_of_def)
next
  case (Suc k)
  let ?f = "swept live fn k" and ?d = "\<lambda>a. doomed live (heap fn a)"
  have kn: "k < n_blocks fn" "blk_at fn k = blocks fn ! k" using Suc.prems by (simp_all add: blk_at_def)
  have cnt: "dead_count live fn (Suc k) = dead_count live fn k + length (filter ?d (blk_instrs (blk_at fn k)))"
    using kn by (simp add: dead_count_def take_Suc_conv_app_nth)
  show ?case
  proof (cases "blk_at fn k")
    case None
    then have "swept live fn (Suc k) = ?f"
      using kn by (intro func.equality) (auto simp: swept_def addrs_of_Suc blk_instrs_def less_Suc_eq)
    with Suc None cnt show ?thesis by (simp add: for_blk_Suc blk_at_swept blk_instrs_def)
  next
    case (Some bb)
    have dj: "addrs_of (\<lambda>_ _. True) fn k \<inter> set (instrs bb) = {}"
      using heap_ok_disjoint [OF ok _ Some] by (fastforce simp: addrs_of_def)
    have di: "distinct (instrs bb)" using ok Some by (auto simp: heap_ok_def intro: distinct_blk)
    have h: "heap ?f a = heap fn a" if "a \<in> set (instrs bb)" for a using dj that by (auto simp: swept_def)
    have fd: "filter (\<lambda>a. doomed live (heap ?f a)) (instrs bb) = filter ?d (instrs bb)" using h by (intro filter_cong) auto
    let ?g = "?f\<lparr>heap := (\<lambda>a. if a \<in> set (instrs bb) \<and> doomed live (heap ?f a) then (heap ?f a)\<lparr>dead := True\<rparr> else heap ?f a)\<rparr>"
    have keep: "filter (\<lambda>a. \<not> dead (heap ?g a)) (instrs bb) = filter (\<lambda>a. \<not> ?d a) (instrs bb)"
      using h fresh Some by (intro filter_cong) (auto simp: set_all_addrs)
    have len: "length (instrs bb) - length (filter (\<lambda>a. \<not> ?d a) (instrs bb)) = length (filter ?d (instrs bb))"
      using sum_length_filter_compl [of ?d "instrs bb"] by simp
    have upd: "upd_blk k (\<lambda>b. b\<lparr>instrs := filter (\<lambda>a. \<not> ?d a) (instrs bb), n_instrs := n_instrs b - length (filter ?d (instrs bb))\<rparr>) ?g =
        swept live fn (Suc k)"
    proof (rule func.equality)
      have at: "blocks fn ! k = Some bb" using Some kn by simp
      show "blocks (upd_blk k (\<lambda>b. b\<lparr>instrs := filter (\<lambda>a. \<not> ?d a) (instrs bb), n_instrs := n_instrs b - length (filter ?d (instrs bb))\<rparr>) ?g) =
          blocks (swept live fn (Suc k))"
        using at by (intro nth_equalityI) (auto simp: upd_blk_def swept_def trimmed_def nth_list_update less_Suc_eq)
      show "heap (upd_blk k (\<lambda>b. b\<lparr>instrs := filter (\<lambda>a. \<not> ?d a) (instrs bb), n_instrs := n_instrs b - length (filter ?d (instrs bb))\<rparr>) ?g) =
          heap (swept live fn (Suc k))"
        using Some dj h by (auto simp: fun_eq_iff swept_def addrs_of_Suc blk_instrs_def)
    qed (simp_all add: upd_blk_def swept_def)
    have "for_blk (sweep_block live) fst (Suc k) (fn, 0) = sweep_block live k bb (?f, dead_count live fn k)"
      using Suc.IH kn(1) Some by (simp add: for_blk_Suc blk_at_swept)
    also have "\<dots> = (swept live fn (Suc k), dead_count live fn (Suc k))"
      unfolding sweep_block_def sweep_fold [OF di] Let_def prod.case fd keep len upd using Some cnt by (simp add: blk_instrs_def)
    finally show ?thesis .
  qed
qed

definition dropped :: "blockid \<Rightarrow> block \<Rightarrow> block" where
  "dropped entry bb = (if \<not> reachable bb \<and> block_id bb \<noteq> entry then bb\<lparr>instrs := [], n_instrs := 0\<rparr> else bb)"

lemma drop_blocks:
  assumes "k \<le> n_blocks fn"
  shows "fst (for_blk (drop_block entry) fst k (fn, 0)) =
    fn\<lparr>blocks := List.map (\<lambda>b. if b < k then map_option (dropped entry) (blocks fn ! b) else blocks fn ! b) [0..<n_blocks fn]\<rparr>"
  using assms
proof (induction k)
  case 0
  have "List.map ((!) (blocks fn)) [0..<n_blocks fn] = blocks fn" by (rule map_nth)
  then show ?case by (simp add: for_blk_def)
next
  case (Suc k)
  let ?F = "\<lambda>k. fn\<lparr>blocks := List.map (\<lambda>b. if b < k then map_option (dropped entry) (blocks fn ! b) else blocks fn ! b) [0..<n_blocks fn]\<rparr>"
  have IH: "fst (for_blk (drop_block entry) fst k (fn, 0)) = ?F k" using Suc by simp
  define m where "m = snd (for_blk (drop_block entry) fst k (fn, 0))"
  have r: "for_blk (drop_block entry) fst k (fn, 0) = (?F k, m)" using IH m_def by (simp add: prod_eq_iff)
  have at: "blk_at (?F k) k = blk_at fn k" using Suc.prems by (simp add: blk_at_def)
  show ?case
  proof (cases "blk_at fn k")
    case None
    then have "?F (Suc k) = ?F k" using Suc.prems by (intro func.equality) (auto simp: blk_at_def less_Suc_eq)
    with None r at show ?thesis by (simp add: for_blk_Suc)
  next
    case (Some bb)
    then have b: "blocks fn ! k = Some bb" using Suc.prems by (simp add: blk_at_def)
    have "fst (drop_block entry k bb (?F k, m)) = ?F (Suc k)"
    proof (rule func.equality)
      show "blocks (fst (drop_block entry k bb (?F k, m))) = blocks (?F (Suc k))"
        using b Suc.prems
        by (intro nth_equalityI) (auto simp: drop_block_def dropped_def upd_blk_def nth_list_update less_Suc_eq)
    qed (simp_all add: drop_block_def upd_blk_def)
    with Some r at show ?thesis by (simp add: for_blk_Suc)
  qed
qed

lemma all_addrs_take: "all_addrs fn = concat (List.map blk_instrs (take (n_blocks fn) (blocks fn)))"
  by (simp add: all_addrs_def)

lemma ssa_dce_result:
  assumes "heap_ok fn" "\<forall>a \<in> set (all_addrs fn). \<not> dead (heap fn a)" "ssa_dce_pass entry fn = Some (fn', n, k)"
  defines "live \<equiv> live_regs fn"
  shows "blk_at fn' b = map_option (\<lambda>bb. dropped entry (trimmed live fn bb)) (blk_at fn b)"
    "heap fn' a = (if a \<in> set (all_addrs fn) \<and> doomed live (heap fn a) then (heap fn a)\<lparr>dead := True\<rparr> else heap fn a)"
    "n = length (filter (\<lambda>a. doomed live (heap fn a)) (all_addrs fn))"
    "n_regs fn' = n_regs fn \<and> def_tab fn' = def_tab fn \<and> next_addr fn' = next_addr fn \<and> n_blocks fn' = n_blocks fn"
    "dce_in_bounds fn"
proof -
  let ?s = "swept live fn (n_blocks fn)"
  obtain m where r: "for_blk (drop_block entry) fst (n_blocks fn) (?s, 0) = (fn', m)" "n = dead_count live fn (n_blocks fn)" "dce_in_bounds fn"
    using assms(3) sweep_blocks [OF assms(1,2), of "n_blocks fn" live]
    by (auto simp: ssa_dce_pass_def live_def Let_def split: prod.splits if_splits)
  have nb: "n_blocks ?s = n_blocks fn" by (simp add: swept_def)
  have f: "fn' = ?s\<lparr>blocks := List.map (\<lambda>b. if b < n_blocks fn then map_option (dropped entry) (blocks ?s ! b) else blocks ?s ! b) [0..<n_blocks fn]\<rparr>"
    using drop_blocks [of "n_blocks fn" ?s entry] r(1) nb by simp
  have all: "addrs_of (\<lambda>_ _. True) fn (n_blocks fn) = set (all_addrs fn)"
    unfolding addrs_of_def using set_all_addrs [of _ fn] blk_at_Some_lt [of fn] by blast
  show "blk_at fn' b = map_option (\<lambda>bb. dropped entry (trimmed live fn bb)) (blk_at fn b)"
    by (simp add: f blk_at_def swept_def option.map_comp o_def)
  show "heap fn' a = (if a \<in> set (all_addrs fn) \<and> doomed live (heap fn a) then (heap fn a)\<lparr>dead := True\<rparr> else heap fn a)"
    by (simp add: f swept_def all)
  show "n = length (filter (\<lambda>a. doomed live (heap fn a)) (all_addrs fn))"
    by (simp add: r(2) dead_count_def all_addrs_take)
  show "n_regs fn' = n_regs fn \<and> def_tab fn' = def_tab fn \<and> next_addr fn' = next_addr fn \<and> n_blocks fn' = n_blocks fn"
    by (simp add: f swept_def)
  show "dce_in_bounds fn" by (rule r(3))
qed

section \<open>Runs\<close>

text \<open>
  The functions the theorem is about: no dead marks, a complete definition table, operand counts that fit
  the operations, no unnamed result except inline assembly, and reachable marks closed under branches.
\<close>

definition dce_instr_ok :: "instr \<Rightarrow> bool" where
  "dce_instr_ok i \<longleftrightarrow> (is_critical i \<or> op i = OP_NOP \<or> dst i \<noteq> 0 \<or> (op i = OP_ASM \<and> eff_regs i = [])) \<and>
     (op i = OP_BNOT \<longrightarrow> 1 \<le> n_src i) \<and> (is_binop (op i) \<longrightarrow> 2 \<le> n_src i) \<and> (op i \<noteq> OP_CALL \<longrightarrow> call_args i = [])"

definition branch_ok :: "func \<Rightarrow> instr \<Rightarrow> bool" where
  "branch_ok fn i \<longleftrightarrow> list_all (\<lambda>b. blk_at fn b = None \<or> live_edge fn b)
     (if op i = OP_BR then [src1 i] else if op i = OP_CONDBR then [src i 1, src i 2] else [])"

definition dce_fn_ok :: "func \<Rightarrow> bool" where
  "dce_fn_ok fn \<longleftrightarrow> heap_ok fn \<and> list_all (\<lambda>a. \<not> dead (heap fn a)) (all_addrs fn) \<and> live_edge fn 0 \<and>
     list_all (\<lambda>(b, a). dce_instr_ok (heap fn a) \<and> branch_ok fn (heap fn a)) (reach_list fn)"

definition table_full :: "func \<Rightarrow> bool" where
  "table_full fn \<longleftrightarrow> table_ok fn \<and> (\<forall>(b, a) \<in> set (reach_list fn). dst (heap fn a) \<noteq> 0 \<longrightarrow> def_tab fn (dst (heap fn a)) = Some a)"

definition agree :: "(regid \<Rightarrow> bool) \<Rightarrow> env \<Rightarrow> env \<Rightarrow> bool" where
  "agree live \<rho> \<rho>' \<longleftrightarrow> (\<forall>r. live r \<or> r = 0 \<longrightarrow> \<rho>' r = \<rho> r)"

abbreviation kept :: "(regid \<Rightarrow> bool) \<Rightarrow> func \<Rightarrow> addr list \<Rightarrow> addr list" where
  "kept live fn \<equiv> filter (\<lambda>a. \<not> doomed live (heap fn a))"

definition matches :: "(regid \<Rightarrow> bool) \<Rightarrow> func \<Rightarrow> config \<Rightarrow> config \<Rightarrow> bool" where
  "matches live fn c c' \<longleftrightarrow> (case c of Halted \<Rightarrow> c' = Halted
     | At b as \<rho> \<Rightarrow> \<exists>blk \<rho>'. blk_at fn b = Some blk \<and> reachable blk \<and> set as \<subseteq> set (body_addrs fn blk) \<and>
         c' = At b (kept live fn as) \<rho>' \<and> agree live \<rho> \<rho>')"

text \<open>\<open>fn'\<close> is \<open>fn\<close> without the instructions whose result \<open>live\<close> does not contain.\<close>

definition removes :: "(regid \<Rightarrow> bool) \<Rightarrow> func \<Rightarrow> func \<Rightarrow> bool" where
  "removes live fn fn' \<longleftrightarrow> (\<forall>a. op (heap fn' a) = op (heap fn a)) \<and>
     (\<forall>b a. (b, a) \<in> set (reach_list fn) \<longrightarrow> \<not> doomed live (heap fn a) \<longrightarrow> heap fn' a = heap fn a) \<and>
     (\<forall>b blk. blk_at fn b = Some blk \<longrightarrow> reachable blk \<longrightarrow> (\<exists>blk'. blk_at fn' b = Some blk' \<and> instrs blk' = kept live fn (instrs blk)))"

text \<open>The registers an instruction reads when it is executed; of a phi node, on the edges from reachable blocks.\<close>

definition run_reads :: "func \<Rightarrow> instr \<Rightarrow> regid list" where
  "run_reads fn i = (if is_pure (op i) then opnds i else if is_effect (op i) then eff_regs i
     else if op i = OP_CONDBR \<or> (op i = OP_RET \<and> n_src i > 0) then [src1 i]
     else if op i = OP_PHI then List.map fst (filter (\<lambda>(r, b). live_edge fn b) (phi i)) else [])"

lemma agree_set: "agree live \<rho> \<rho>' \<Longrightarrow> agree live (set_reg d v \<rho>) (set_reg d v \<rho>')"
  by (simp add: agree_def set_reg_def)

lemma agree_skip: "agree live \<rho> \<rho>' \<Longrightarrow> \<not> live d \<or> d = 0 \<Longrightarrow> agree live (set_reg d v \<rho>) \<rho>'"
  by (auto simp: agree_def set_reg_def)

lemma agree_eval: "agree live \<rho> \<rho>' \<Longrightarrow> \<forall>r \<in> set (opnds i). live r \<or> r = 0 \<Longrightarrow> eval i \<rho>' = eval i \<rho>"
proof -
  assume *: "agree live \<rho> \<rho>'" "\<forall>r \<in> set (opnds i). live r \<or> r = 0"
  then have e: "\<rho>' r = \<rho> r" if "r \<in> set (opnds i)" for r using that unfolding agree_def by blast
  then have "value_of i (\<lambda>r. the (\<rho>' r)) = value_of i (\<lambda>r. the (\<rho> r))" by (intro value_of_cong) simp
  moreover have "(\<forall>r \<in> set (opnds i). \<rho>' r \<noteq> None) \<longleftrightarrow> (\<forall>r \<in> set (opnds i). \<rho> r \<noteq> None)" using e by auto
  ultimately show ?thesis by (simp only: eval_def)
qed

lemma agree_read_all: "agree live \<rho> \<rho>' \<Longrightarrow> \<forall>r \<in> set rs. live r \<or> r = 0 \<Longrightarrow> read_all \<rho>' rs = read_all \<rho> rs"
  by (induction rs) (auto simp: agree_def split: option.split)

lemma pure_reads:
  assumes "is_pure (op i)" "dce_instr_ok i" "r \<in> set (opnds i)"
  shows "r = 0 \<or> r \<in> set (def_regs fn i)"
proof -
  have nb: "op i \<noteq> OP_BR" "op i \<noteq> OP_CONDBR" using assms(1) by auto
  consider "op i = OP_CONST" | "op i = OP_COPY" | "op i = OP_BNOT" | "is_binop (op i)" "op i \<noteq> OP_CONST" "op i \<noteq> OP_COPY" "op i \<noteq> OP_BNOT"
    using assms(1) by (auto simp: is_pure_def is_binop_def)
  then show ?thesis
  proof cases
    case 1
    with assms(3) show ?thesis by (simp add: opnds_def)
  next
    case 2
    with assms(3) show ?thesis by (simp add: opnds_def def_regs_def)
  next
    case 3
    with assms(2,3) show ?thesis by (force simp: opnds_def def_regs_def dce_instr_ok_def)
  next
    case 4
    then have "0 < n_src i" "1 < n_src i" "r = src i 0 \<or> r = src i 1" using assms(2,3) by (auto simp: opnds_def dce_instr_ok_def)
    then show ?thesis using nb 4 by (auto simp: def_regs_def)
  qed
qed

lemma effect_reads:
  assumes "is_effect (op i)" "dce_instr_ok i" "r \<in> set (eff_regs i)"
  shows "r = 0 \<or> (r \<in> set (def_regs fn i) \<and> r \<in> set (seed_regs i))"
proof -
  have nb: "op i \<noteq> OP_BR" "op i \<noteq> OP_CONDBR" "op i \<noteq> OP_COPY" using assms(1) by (auto simp: is_effect_def)
  show ?thesis
  proof (cases "op i = OP_CALL")
    case True
    with assms(3) show ?thesis by (auto simp: eff_regs_def def_regs_def seed_regs_def)
  next
    case False
    then have "call_args i = []" using assms(2) by (simp add: dce_instr_ok_def)
    with assms(3) nb show ?thesis by (auto simp: eff_regs_def def_regs_def seed_regs_def)
  qed
qed

text \<open>What an instruction that stays reads is live.\<close>

lemma live_by_critical:
  assumes "dce_in_bounds fn" "table_ok fn" "(b, a) \<in> set (reach_list fn)" "is_critical (heap fn a)" "r \<in> set (seed_regs (heap fn a))"
  shows "live_regs fn r"
  using assms live_regs_needed needed.by_critical by blast

lemma live_by_def:
  assumes "dce_in_bounds fn" "table_full fn" "(b, a) \<in> set (reach_list fn)" "live_regs fn (dst (heap fn a))"
    "dst (heap fn a) \<noteq> 0" "r \<in> set (def_regs fn (heap fn a))"
  shows "live_regs fn r"
  using assms live_regs_needed [of fn] needed.by_needed by (fastforce simp: table_full_def)

lemma kept_reads:
  assumes b: "dce_in_bounds fn" and t: "table_full fn" and a: "(b, a) \<in> set (reach_list fn)" and i: "dce_instr_ok (heap fn a)"
    and k: "\<not> doomed (live_regs fn) (heap fn a)"
  shows "is_pure (op (heap fn a)) \<Longrightarrow> r \<in> set (opnds (heap fn a)) \<Longrightarrow> live_regs fn r \<or> r = 0"
    "is_effect (op (heap fn a)) \<Longrightarrow> r \<in> set (eff_regs (heap fn a)) \<Longrightarrow> live_regs fn r \<or> r = 0"
    "op (heap fn a) = OP_CONDBR \<Longrightarrow> live_regs fn (src1 (heap fn a)) \<or> src1 (heap fn a) = 0"
    "op (heap fn a) = OP_RET \<Longrightarrow> n_src (heap fn a) > 0 \<Longrightarrow> live_regs fn (src1 (heap fn a)) \<or> src1 (heap fn a) = 0"
    "op (heap fn a) = OP_PHI \<Longrightarrow> (r, p) \<in> set (phi (heap fn a)) \<Longrightarrow> live_edge fn p \<Longrightarrow> live_regs fn r"
proof -
  let ?i = "heap fn a"
  have t': "table_ok fn" using t by (simp add: table_full_def)
  note crit = live_by_critical [OF b t' a] and def = live_by_def [OF b t a]
  have d: "\<not> is_critical ?i \<Longrightarrow> op ?i \<noteq> OP_NOP \<Longrightarrow> op ?i \<noteq> OP_ASM \<Longrightarrow> live_regs fn (dst ?i) \<and> dst ?i \<noteq> 0"
    using i k by (auto simp: dce_instr_ok_def doomed_def)
  { assume p: "is_pure (op ?i)" "r \<in> set (opnds ?i)"
    then have nc: "\<not> is_critical ?i" "op ?i \<noteq> OP_NOP" "op ?i \<noteq> OP_ASM" by (auto simp: is_critical_def is_pure_def is_binop_def)
    from pure_reads [OF p(1) i p(2)] def d [OF nc] show "live_regs fn r \<or> r = 0" by blast }
  { assume p: "is_effect (op ?i)" "r \<in> set (eff_regs ?i)"
    note rd = effect_reads [OF p(1) i p(2)]
    show "live_regs fn r \<or> r = 0"
    proof (cases "is_critical ?i \<or> (op ?i = OP_ASM \<and> dst ?i = 0)")
      case True
      with rd crit i p(2) show ?thesis by (auto simp: dce_instr_ok_def)
    next
      case False
      have "op ?i \<noteq> OP_NOP" using p(1) by (auto simp: is_effect_def)
      with False i k have "live_regs fn (dst ?i)" "dst ?i \<noteq> 0" by (auto simp: dce_instr_ok_def doomed_def)
      with rd def show ?thesis by blast
    qed }
  { assume "op ?i = OP_CONDBR"
    then show "live_regs fn (src1 ?i) \<or> src1 ?i = 0" using crit by (auto simp: is_critical_def seed_regs_def) }
  { assume "op ?i = OP_RET" "n_src ?i > 0"
    then show "live_regs fn (src1 ?i) \<or> src1 ?i = 0" using crit by (force simp: is_critical_def seed_regs_def) }
  { assume p: "op ?i = OP_PHI" "(r, p) \<in> set (phi ?i)" "live_edge fn p"
    then have "r \<in> set (def_regs fn ?i)" by (force simp: def_regs_def)
    with def d p show "live_regs fn r" by (auto simp: is_critical_def) }
qed

lemma kept_run_reads:
  assumes "dce_in_bounds fn" "table_full fn" "(b, a) \<in> set (reach_list fn)" "dce_instr_ok (heap fn a)"
    "\<not> doomed (live_regs fn) (heap fn a)" "r \<in> set (run_reads fn (heap fn a))"
  shows "live_regs fn r \<or> r = 0"
  using kept_reads [OF assms(1-5)] assms(6) by (auto simp: run_reads_def split: if_splits)

text \<open>What a caller can observe: stores, calls and the result.\<close>

definition visible :: "event \<Rightarrow> bool" where
  "visible e \<longleftrightarrow> (case e of Ret _ \<Rightarrow> True | Eff opc _ _ _ _ \<Rightarrow> opc = OP_STORE \<or> opc = OP_CALL)"

lemma step_consE:
  assumes "step fn (At b (a # as) \<rho>) e c"
  obtains
    (Pure) v where "e = None" "c = At b as (set_reg (dst (heap fn a)) v \<rho>)" "is_pure (op (heap fn a))" "eval (heap fn a) \<rho> = Some v"
  | (Nop) "e = None" "c = At b as \<rho>" "op (heap fn a) = OP_NOP"
  | (Effect) vs w where "e = Some (Eff (op (heap fn a)) (call_name (heap fn a)) (imm (heap fn a)) vs w)"
      "c = At b as (set_reg (dst (heap fn a)) w \<rho>)" "is_effect (op (heap fn a))" "read_all \<rho> (eff_regs (heap fn a)) = Some vs"
  | (Br) "e = None" "op (heap fn a) = OP_BR" "enter fn b (src1 (heap fn a)) \<rho> = Some c"
  | (CondBr) v where "e = None" "op (heap fn a) = OP_CONDBR" "\<rho> (src1 (heap fn a)) = Some v"
      "enter fn b (if v \<noteq> 0 then src (heap fn a) 1 else src (heap fn a) 2) \<rho> = Some c"
  | (Return) vs where "e = Some (Ret (if vs = [] then None else Some (hd vs)))" "c = Halted" "op (heap fn a) = OP_RET"
      "read_all \<rho> (if n_src (heap fn a) > 0 then [src1 (heap fn a)] else []) = Some vs"
  using assms by (elim stepE) (auto intro: that)

text \<open>
  What a liveness analysis owes to the removal of dead code: in the functions it accepts, an instruction
  that stays reads live registers only, and reachable blocks lead to reachable blocks. What it gets: every
  run has a run of the reduced function that does the same observable things.
\<close>

locale live_analysis =
  fixes live_of :: "func \<Rightarrow> regid \<Rightarrow> bool" and ok :: "func \<Rightarrow> bool"
  assumes reads_ok: "ok fn \<Longrightarrow> (b, a) \<in> set (reach_list fn) \<Longrightarrow> \<not> doomed (live_of fn) (heap fn a) \<Longrightarrow>
      r \<in> set (run_reads fn (heap fn a)) \<Longrightarrow> live_of fn r \<or> r = 0"
    and branch_ok: "ok fn \<Longrightarrow> (b, a) \<in> set (reach_list fn) \<Longrightarrow> branch_ok fn (heap fn a)"
    and entry_ok: "ok fn \<Longrightarrow> live_edge fn 0"
begin

lemma body_kept:
  assumes "removes live fn fn'" "blk_at fn b = Some blk" "reachable blk"
  shows "\<exists>blk'. blk_at fn' b = Some blk' \<and> instrs blk' = kept live fn (instrs blk) \<and> body_addrs fn' blk' = kept live fn (body_addrs fn blk)"
proof -
  obtain blk' where "blk_at fn' b = Some blk'" "instrs blk' = kept live fn (instrs blk)" using assms unfolding removes_def by blast
  moreover from this assms(1) have "body_addrs fn' blk' = kept live fn (body_addrs fn blk)"
    by (simp add: body_addrs_def removes_def filter_filter conj_commute)
  ultimately show ?thesis by blast
qed

lemma phis_kept:
  assumes f: "ok fn" "removes (live_of fn) fn fn'" and p: "live_edge fn p" and \<rho>: "agree (live_of fn) \<rho> \<rho>'"
    and "set as \<subseteq> {a. (b, a) \<in> set (reach_list fn)}" "agree (live_of fn) \<sigma> \<sigma>'" "run_phis (heap fn) \<rho> p as \<sigma> = Some \<tau>"
  shows "\<exists>\<tau>'. run_phis (heap fn') \<rho>' p (kept (live_of fn) fn as) \<sigma>' = Some \<tau>' \<and> agree (live_of fn) \<tau> \<tau>'"
  using assms(5-7)
proof (induction as arbitrary: \<sigma> \<sigma>')
  case (Cons a as)
  have a: "(b, a) \<in> set (reach_list fn)" using Cons.prems by simp
  have op_same: "op (heap fn' c) = op (heap fn c)" for c using f(2) by (simp add: removes_def)
  show ?case
  proof (cases "op (heap fn a) = OP_PHI")
    case False
    with Cons show ?thesis by (auto simp: op_same)
  next
    case True
    then obtain v where v: "phi_val \<rho> p (heap fn a) = Some v" "run_phis (heap fn) \<rho> p as (set_reg (dst (heap fn a)) v \<sigma>) = Some \<tau>"
      using Cons.prems by (auto split: option.splits)
    show ?thesis
    proof (cases "doomed (live_of fn) (heap fn a)")
      case d: True
      then have "agree (live_of fn) (set_reg (dst (heap fn a)) v \<sigma>) \<sigma>'"
        using Cons.prems(2) by (intro agree_skip) (auto simp: doomed_def)
      with Cons v d show ?thesis by simp
    next
      case d: False
      have h: "heap fn' a = heap fn a" using f(2) a d by (simp add: removes_def)
      obtain q where q: "map_of (List.map (\<lambda>(r, b). (b, r)) (phi (heap fn a))) p = Some q" "\<rho> q = Some v"
        using v(1) by (auto simp: phi_val_def split: option.splits)
      have "(q, p) \<in> set (phi (heap fn a))" using map_of_SomeD [OF q(1)] by auto
      then have "q \<in> set (run_reads fn (heap fn a))" using True p by (force simp: run_reads_def is_effect_def)
      then have "live_of fn q \<or> q = 0" using reads_ok [OF f(1) a d] by blast
      then have "phi_val \<rho>' p (heap fn a) = Some v" using q \<rho> by (auto simp: phi_val_def agree_def)
      moreover obtain \<tau>' where "run_phis (heap fn') \<rho>' p (kept (live_of fn) fn as) (set_reg (dst (heap fn a)) v \<sigma>') = Some \<tau>'" "agree (live_of fn) \<tau> \<tau>'"
        using Cons.IH [OF _ agree_set [OF Cons.prems(2)] v(2)] Cons.prems(1) by auto
      ultimately show ?thesis using d True by (simp add: h)
    qed
  qed
qed simp

lemma enter_kept:
  assumes f: "ok fn" "removes (live_of fn) fn fn'" and "live_edge fn p" "agree (live_of fn) \<rho> \<rho>'" "live_edge fn b \<or> blk_at fn b = None"
    "enter fn p b \<rho> = Some c"
  shows "\<exists>c'. enter fn' p b \<rho>' = Some c' \<and> matches (live_of fn) fn c c'"
proof -
  obtain blk \<tau> where c: "blk_at fn b = Some blk" "run_phis (heap fn) \<rho> p (instrs blk) \<rho> = Some \<tau>" "c = At b (body_addrs fn blk) \<tau>"
    using assms(6) by (auto simp: enter_def split: option.splits)
  have re: "reachable blk" using assms(5) c(1) by (simp add: live_edge_def)
  from body_kept [OF f(2) c(1) re] obtain blk' where
    b': "blk_at fn' b = Some blk'" "instrs blk' = kept (live_of fn) fn (instrs blk)" "body_addrs fn' blk' = kept (live_of fn) fn (body_addrs fn blk)" by blast
  have "set (instrs blk) \<subseteq> {a. (b, a) \<in> set (reach_list fn)}" using c(1) re by (auto simp: set_reach_list)
  from phis_kept [OF assms(1-4) this assms(4) c(2)] obtain \<tau>' where
    "run_phis (heap fn') \<rho>' p (instrs blk') \<rho>' = Some \<tau>'" "agree (live_of fn) \<tau> \<tau>'" unfolding b'(2) by blast
  with c b' re show ?thesis by (auto simp: enter_def matches_def)
qed

lemma step_kept:
  assumes f: "ok fn" "removes (live_of fn) fn fn'" and "step fn c e c1" "matches (live_of fn) fn c d"
  shows "\<exists>d1. matches (live_of fn) fn c1 d1 \<and> (step fn' d e d1 \<or> (d1 = d \<and> (case e of None \<Rightarrow> True | Some x \<Rightarrow> \<not> visible x)))"
proof -
  obtain b as0 \<rho> where cc: "c = At b as0 \<rho>" using assms(3) by (cases c) auto
  then obtain a as where as0: "as0 = a # as" using assms(3) by (cases as0) auto
  note c = cc [unfolded as0]
  let ?i = "heap fn a"
  obtain blk \<rho>' where m: "blk_at fn b = Some blk" "reachable blk" "set (a # as) \<subseteq> set (body_addrs fn blk)"
      "d = At b (kept (live_of fn) fn (a # as)) \<rho>'" "agree (live_of fn) \<rho> \<rho>'"
    using assms(4) by (auto simp: c matches_def)
  have le: "live_edge fn b" using m(1,2) by (simp add: live_edge_def)
  have a: "(b, a) \<in> set (reach_list fn)" using m(1-3) by (auto simp: set_reach_list body_addrs_def)
  have br: "branch_ok fn ?i" using branch_ok [OF f(1) a] .
  have go: "matches (live_of fn) fn (At b as \<sigma>) (At b (kept (live_of fn) fn as) \<sigma>')" if "agree (live_of fn) \<sigma> \<sigma>'" for \<sigma> \<sigma>'
    using m that by (auto simp: matches_def)
  show ?thesis
  proof (cases "doomed (live_of fn) ?i")
    case True
    have skip: "agree (live_of fn) (set_reg (dst ?i) v \<rho>) \<rho>'" for v
      using True m(5) by (intro agree_skip) (auto simp: doomed_def)
    from assms(3) [unfolded c] show ?thesis
    proof (cases rule: step_consE)
      case (Pure v)
      with True m(4) go [OF skip] show ?thesis by auto
    next
      case (Effect vs w)
      with True m(4) go [OF skip] show ?thesis by (auto simp: visible_def doomed_def is_critical_def)
    qed (use True in \<open>auto simp: doomed_def is_critical_def\<close>)
  next
    case False
    have h: "heap fn' a = ?i" using f(2) a False by (simp add: removes_def)
    have d: "d = At b (a # kept (live_of fn) fn as) \<rho>'" using m(4) False by simp
    have rd: "\<forall>r \<in> set (run_reads fn ?i). live_of fn r \<or> r = 0" using reads_ok [OF f(1) a False] by blast
    from assms(3) [unfolded c] show ?thesis
    proof (cases rule: step_consE)
      case (Pure v)
      then have "eval ?i \<rho>' = Some v" using agree_eval [OF m(5), of ?i] rd by (simp add: run_reads_def)
      then have "step fn' d e (At b (kept (live_of fn) fn as) (set_reg (dst ?i) v \<rho>'))"
        using Pure step.Pure [of fn' a \<rho>' v] by (simp add: d h)
      with Pure go [OF agree_set [OF m(5)]] show ?thesis by blast
    next
      case Nop
      then have "step fn' d e (At b (kept (live_of fn) fn as) \<rho>')" using step.Nop [of fn' a] by (simp add: d h)
      with Nop go [OF m(5)] show ?thesis by blast
    next
      case (Effect vs w)
      then have "read_all \<rho>' (eff_regs ?i) = Some vs"
        using agree_read_all [OF m(5), of "eff_regs ?i"] rd is_effect_not [of "op ?i"] by (simp add: run_reads_def)
      then have "step fn' d e (At b (kept (live_of fn) fn as) (set_reg (dst ?i) w \<rho>'))"
        using Effect step.Effect [of fn' a \<rho>' vs] by (simp add: d h)
      with Effect go [OF agree_set [OF m(5)]] show ?thesis by blast
    next
      case Br
      then have "live_edge fn (src1 ?i) \<or> blk_at fn (src1 ?i) = None" using br by (auto simp: branch_ok_def)
      from enter_kept [OF f le m(5) this Br(3)] obtain d1 where
        "enter fn' b (src1 ?i) \<rho>' = Some d1" "matches (live_of fn) fn c1 d1" by blast
      with Br step.Br [of fn' a b] show ?thesis by (metis d h)
    next
      case (CondBr v)
      let ?t = "if v \<noteq> 0 then src ?i 1 else src ?i 2"
      have "\<rho>' (src1 ?i) = Some v" using CondBr rd m(5) by (auto simp: agree_def run_reads_def is_effect_def)
      moreover have "live_edge fn ?t \<or> blk_at fn ?t = None" using br CondBr(2) by (auto simp: branch_ok_def)
      from enter_kept [OF f le m(5) this CondBr(4)] obtain d1 where "enter fn' b ?t \<rho>' = Some d1" "matches (live_of fn) fn c1 d1" by blast
      ultimately show ?thesis using CondBr step.CondBr [of fn' a \<rho>' v b] by (metis d h)
    next
      case (Return vs)
      have "read_all \<rho>' (if n_src ?i > 0 then [src1 ?i] else []) = Some vs"
        using agree_read_all [OF m(5), of "if n_src ?i > 0 then [src1 ?i] else []"] rd Return
        by (simp add: run_reads_def is_effect_def del: read_all.simps split del: if_split cong: if_cong)
      then have "step fn' d e Halted" unfolding d Return(1) by (intro step.Return) (simp_all only: h Return(3))
      with Return show ?thesis by (auto simp: matches_def)
    qed
  qed
qed

lemma run_kept:
  assumes f: "ok fn" "removes (live_of fn) fn fn'" and "run fn c es c1" "matches (live_of fn) fn c d"
  shows "\<exists>es' d1. run fn' d es' d1 \<and> matches (live_of fn) fn c1 d1 \<and> subseq es' es \<and> filter visible es' = filter visible es"
  using assms(3,4)
proof (induction arbitrary: d rule: run.induct)
  case (run_Nil c)
  then show ?case by (intro exI [of _ "[]"] exI [of _ d]) (auto intro: run.run_Nil)
next
  case (run_tau c c2 es c1)
  from step_kept [OF f run_tau(1,4)] obtain d1 where d1: "matches (live_of fn) fn c2 d1" "step fn' d None d1 \<or> d1 = d" by auto
  from run_tau.IH [OF d1(1)] obtain es' d2 where
    r: "run fn' d1 es' d2" "matches (live_of fn) fn c1 d2" "subseq es' es" "filter visible es' = filter visible es" by blast
  have "run fn' d es' d2" using d1(2) r(1) by (auto intro: run.run_tau)
  with r show ?case by blast
next
  case (run_event c e c2 es c1)
  from step_kept [OF f run_event(1,4)] obtain d1 where
    d1: "matches (live_of fn) fn c2 d1" "step fn' d (Some e) d1 \<or> (d1 = d \<and> \<not> visible e)" by auto
  from run_event.IH [OF d1(1)] obtain es' d2 where
    r: "run fn' d1 es' d2" "matches (live_of fn) fn c1 d2" "subseq es' es" "filter visible es' = filter visible es" by blast
  from d1(2) show ?case
  proof
    assume "step fn' d (Some e) d1"
    with r show ?thesis by (intro exI [of _ "e # es'"] exI [of _ d2]) (auto intro: run.run_event)
  next
    assume "d1 = d \<and> \<not> visible e"
    with r show ?thesis by (intro exI [of _ es'] exI [of _ d2]) auto
  qed
qed

lemma start_kept:
  assumes f: "ok fn" "removes (live_of fn) fn fn'" and "start fn \<rho> = Some c"
  shows "\<exists>d. start fn' \<rho> = Some d \<and> matches (live_of fn) fn c d"
proof -
  obtain blk where b: "blk_at fn 0 = Some blk" "c = At 0 (body_addrs fn blk) \<rho>" using assms(3) by (auto simp: start_def)
  have re: "reachable blk" using entry_ok [OF f(1)] b(1) by (simp add: live_edge_def)
  from body_kept [OF f(2) b(1) re] b re show ?thesis by (auto simp: start_def matches_def agree_def)
qed

text \<open>The two together, for a whole run.\<close>

lemma run_from_start:
  assumes f: "ok fn" "removes (live_of fn) fn fn'" and "start fn \<rho> = Some c" "run fn c es c1"
  shows "\<exists>d es' d1. start fn' \<rho> = Some d \<and> run fn' d es' d1 \<and> subseq es' es \<and> filter visible es' = filter visible es \<and>
    (c1 = Halted \<longrightarrow> d1 = Halted)"
proof -
  obtain d where d: "start fn' \<rho> = Some d" "matches (live_of fn) fn c d" using start_kept [OF f assms(3)] by blast
  from run_kept [OF f assms(4) d(2)] obtain es' d1 where
    r: "run fn' d es' d1" "matches (live_of fn) fn c1 d1" "subseq es' es" "filter visible es' = filter visible es" by blast
  have "c1 = Halted \<Longrightarrow> d1 = Halted" using r(2) by (simp add: matches_def)
  with d(1) r show ?thesis by blast
qed

end

text \<open>The analysis of the pass is one.\<close>

definition dce_ok :: "func \<Rightarrow> bool" where
  "dce_ok fn \<longleftrightarrow> dce_fn_ok fn \<and> table_full fn \<and> dce_in_bounds fn"

lemma dce_okD: "dce_ok fn \<Longrightarrow> (b, a) \<in> set (reach_list fn) \<Longrightarrow> dce_instr_ok (heap fn a) \<and> branch_ok fn (heap fn a)"
  by (auto simp: dce_ok_def dce_fn_ok_def list_all_iff)

interpretation dce: live_analysis live_regs dce_ok
proof unfold_locales
  fix fn b a r
  assume "dce_ok fn" "(b, a) \<in> set (reach_list fn)" "\<not> doomed (live_regs fn) (heap fn a)" "r \<in> set (run_reads fn (heap fn a))"
  then show "live_regs fn r \<or> r = 0" using kept_run_reads dce_okD by (auto simp: dce_ok_def)
next
  fix fn b a assume "dce_ok fn" "(b, a) \<in> set (reach_list fn)"
  then show "branch_ok fn (heap fn a)" using dce_okD by blast
qed (simp add: dce_ok_def dce_fn_ok_def)

lemma ssa_dce_removes:
  assumes "dce_ok fn" "ssa_dce_pass entry fn = Some (fn', n, k)"
  shows "removes (live_regs fn) fn fn'"
proof -
  have nd: "heap_ok fn" "\<forall>a \<in> set (all_addrs fn). \<not> dead (heap fn a)"
    using assms(1) by (auto simp: dce_ok_def dce_fn_ok_def list_all_iff)
  note R = ssa_dce_result [OF nd assms(2)]
  show ?thesis by (auto simp: removes_def R(1,2) dropped_def trimmed_def)
qed

lemma dce_fn_ok_licm [simp]: "dce_fn_ok (licm_build_def_block fn) = dce_fn_ok fn"
  by (simp add: dce_fn_ok_def branch_ok_def live_edge_def)

lemma table_full_licm:
  assumes "ssa_unique fn" "dce_in_bounds (licm_build_def_block fn)"
  shows "table_full (licm_build_def_block fn)"
proof -
  have "def_tab (licm_build_def_block fn) (dst (heap fn a)) = Some a" if "(b, a) \<in> set (reach_list fn)" "dst (heap fn a) \<noteq> 0" for b a
    using licm_def_tab_complete [OF assms(1) that(1) refl] dce_bound(1) [OF assms(2)] reach_list_all_addrs [OF that(1)] that(2) by simp
  then show ?thesis using licm_table_ok [of fn] by (auto simp: table_full_def)
qed

lemma run_dce_ok:
  assumes "ssa_unique fn" "dce_fn_ok fn" "run_dce entry fn = Some (fn', n, k)"
  shows "dce_ok (licm_build_def_block fn)"
proof -
  have "dce_in_bounds (licm_build_def_block fn)" using assms(3) by (simp add: run_dce_def ssa_dce_pass_def split: if_splits)
  then show ?thesis using assms by (simp add: dce_ok_def table_full_licm)
qed

text \<open>A machine looks at the blocks and the instructions of a function only.\<close>

lemma step_same_code:
  assumes "heap f = heap g" "blocks f = blocks g"
  shows "step f c e c1 \<Longrightarrow> step g c e c1"
proof -
  have "body_addrs f = body_addrs g" by (intro ext) (simp add: body_addrs_def assms(1))
  then have e: "enter f = enter g" by (intro ext) (simp only: enter_def assms(1) blk_at_blocks [OF assms(2)])
  show "step f c e c1 \<Longrightarrow> step g c e c1" by (erule step.cases; simp only: assms(1) e; intro step.intros; assumption?)
qed

lemma run_same_code:
  assumes "heap f = heap g" "blocks f = blocks g" "run f c es c1"
  shows "run g c es c1"
  using assms(3) by induction (auto intro: run.intros step_same_code [OF assms(1,2)])

text \<open>
  C8: Removing dead code preserves behaviour: for every run of a function there is one of the result that
  performs the same stores, calls and return in the same order, drops only other effects (unused loads and
  addresses), and has returned if the original has. The function is in SSA form, its reachable marks are
  closed under branches and its operand counts fit its operations.
\<close>

theorem ssa_dce_pass_sound:
  assumes "ssa_unique fn" "dce_fn_ok fn" "run_dce entry fn = Some (fn', n, k)" "start fn \<rho> = Some c" "run fn c es c1"
  shows "\<exists>d es' d1. start fn' \<rho> = Some d \<and> run fn' d es' d1 \<and> subseq es' es \<and> filter visible es' = filter visible es \<and>
    (c1 = Halted \<longrightarrow> d1 = Halted)"
proof (rule dce.run_from_start)
  let ?f = "licm_build_def_block fn"
  show ok: "dce_ok ?f" by (rule run_dce_ok [OF assms(1-3)])
  show "removes (live_regs ?f) ?f fn'" using ssa_dce_removes [OF ok] assms(3) by (simp add: run_dce_def)
  show "start ?f \<rho> = Some c" using assms(4) by (simp add: start_def body_addrs_def)
  show "run ?f c es c1" by (rule run_same_code [OF _ _ assms(5)]) simp_all
qed

lemma demo_dce_regs [simp]: "nonzero [] = []" by simp

definition demo_dce :: func where
  "demo_dce = mk_func [mk_block [0, 1, 2, 3, 4] [] [], (mk_block [5] [0] [])\<lparr>block_id := 1, reachable := False\<rparr>]
     [mk_const 1 5, mk_const 2 7, mk_instr OP_ADD 3 [1, 2], mk_instr OP_ADD 4 [1, 1], mk_instr OP_RET 0 [4], mk_instr OP_BR 0 [0]] 4"

lemma demo_dce_ok: "ssa_unique demo_dce" "dce_fn_ok demo_dce"
  by (simp_all add: demo_dce_def mk_defs ssa_unique_def all_addrs_def blk_instrs_def dce_fn_ok_def heap_ok_def live_edge_def blk_at_def
      reach_list_def upt_rec dce_instr_ok_def branch_ok_def is_critical_def is_binop_def)

lemma demo_dce_tab: "def_tab (licm_build_def_block demo_dce) = [1 \<mapsto> 0, 2 \<mapsto> 1, 3 \<mapsto> 2, 4 \<mapsto> 3]"
  by (simp add: licm_def_tab reach_list_def demo_dce_def mk_defs blk_at_def upt_rec MAX_INSTRS_def)

lemma demo_dce_uses: "uses_of (licm_build_def_block demo_dce) = (\<lambda>r. if r = 3 then [1, 2] else if r = 4 then [1, 1] else [])"
  unfolding uses_of_def demo_dce_tab
  by (auto simp: fun_eq_iff demo_dce_def mk_defs def_regs_def upt_rec)

lemma demo_dce_seeds: "seeds (licm_build_def_block demo_dce) = [4]"
  by (simp add: seeds_def reach_list_def demo_dce_def mk_defs blk_at_def upt_rec is_critical_def seed_regs_def)

lemma demo_dce_live: "live_regs (licm_build_def_block demo_dce) = (\<lambda>_. False)(4 := True, 1 := True)"
proof -
  have v: "visit MAX_INSTRS (\<lambda>_. True) s (vis, q) = (if vis s then (vis, q) else (vis(s := True), q @ [s]))" if "s < 5" for s vis q
    using that by (auto simp: visit_def MAX_INSTRS_def)
  let ?adj = "\<lambda>r :: regid. if r = 3 then [1, 2] else if r = 4 then [1, 1] else []"
  note w = v v [of 1, unfolded One_nat_def]
  have F: "fold (visit MAX_INSTRS (\<lambda>_. True)) [4] (\<lambda>_. False, []) = ((\<lambda>_. False)(4 := True), [4])" by (simp add: w)
  have "search ?adj MAX_INSTRS (\<lambda>_. True) (\<lambda>_. False) ((\<lambda>_. False)(4 := True)) [4] =
      search ?adj MAX_INSTRS (\<lambda>_. True) (\<lambda>_. False) ((\<lambda>_. False)(4 := True, 1 := True)) [1]"
    by (subst search.simps(2)) (simp add: w del: search.simps)
  also have "\<dots> = search ?adj MAX_INSTRS (\<lambda>_. True) (\<lambda>_. False) ((\<lambda>_. False)(4 := True, 1 := True)) []"
    by (subst search.simps(2)) (simp add: w del: search.simps)
  also have "\<dots> = ((\<lambda>_. False)(4 := True, 1 := True), False)" by (rule search.simps(1))
  finally have G: "search ?adj MAX_INSTRS (\<lambda>_. True) (\<lambda>_. False) ((\<lambda>_. False)(4 := True)) [4] = ((\<lambda>_. False)(4 := True, 1 := True), False)" .
  show ?thesis unfolding live_regs_def demo_dce_uses demo_dce_seeds search_all_def F prod.case G fst_conv ..
qed

lemma demo_dce_bounds: "dce_in_bounds (licm_build_def_block demo_dce)"
  by (simp add: dce_in_bounds_def all_addrs_def blk_instrs_def demo_dce_def mk_defs MAX_INSTRS_def MAX_BLOCKS_def seed_regs_def def_regs_def numeral_2_eq_2)

lemma demo_dce_runs: "run_dce 0 demo_dce \<noteq> None"
  by (simp add: run_dce_def ssa_dce_pass_def demo_dce_bounds split: prod.split)

lemma subseq_distinct: "subseq xs ys \<Longrightarrow> distinct ys \<Longrightarrow> distinct xs"
  using distinct_nthsI subseq_conv_nths by metis

lemma subseq_concat: "(\<And>x. x \<in> set xs \<Longrightarrow> subseq (f x) (g x)) \<Longrightarrow> subseq (concat (List.map f xs)) (concat (List.map g xs))"
  by (induction xs) (auto intro: list_emb_append_mono)

text \<open>
  C9: The removal is exact: of the entry and every reachable block it keeps, in order and unchanged, just the
  instructions that are critical, empty, without a result or whose result is needed (by a critical
  instruction, through definitions, and through phi entries of reachable blocks); the other blocks are
  emptied; the count is that of the unneeded instructions; lists and counters stay well formed.
\<close>

theorem ssa_dce_pass_exact:
  assumes "heap_ok fn" "counters_ok fn" "\<forall>a \<in> set (all_addrs fn). \<not> dead (heap fn a)" "run_dce entry fn = Some (fn', n, k)"
  defines "need \<equiv> needed (licm_build_def_block fn)"
  shows "heap_ok fn' \<and> counters_ok fn' \<and> n_blocks fn' = n_blocks fn \<and>
    n = length (filter (\<lambda>a. doomed need (heap fn a)) (all_addrs fn)) \<and>
    (\<forall>b blk. blk_at fn b = Some blk \<longrightarrow> (\<exists>blk'. blk_at fn' b = Some blk' \<and> succs blk' = succs blk \<and> preds blk' = preds blk \<and>
       instrs blk' = (if \<not> reachable blk \<and> block_id blk \<noteq> entry then []
         else filter (\<lambda>a. is_critical (heap fn a) \<or> op (heap fn a) = OP_NOP \<or> dst (heap fn a) = 0 \<or> need (dst (heap fn a))) (instrs blk)) \<and>
       (\<forall>a \<in> set (instrs blk'). heap fn' a = heap fn a)))"
proof -
  let ?f = "licm_build_def_block fn"
  have run: "ssa_dce_pass entry ?f = Some (fn', n, k)" using assms(4) by (simp add: run_dce_def)
  have ok: "heap_ok ?f" "\<forall>a \<in> set (all_addrs ?f). \<not> dead (heap ?f a)" using assms(1,3) by simp_all
  note R = ssa_dce_result [OF ok run, simplified]
  have live: "live_regs ?f = need" unfolding need_def using live_regs_needed [OF R(5) licm_table_ok] by blast
  have bl: "blocks fn' = List.map (map_option (\<lambda>bb. dropped entry (trimmed need ?f bb))) (blocks fn)"
  proof (rule nth_equalityI)
    fix i assume "i < length (blocks fn')"
    then show "blocks fn' ! i = List.map (map_option (\<lambda>bb. dropped entry (trimmed need ?f bb))) (blocks fn) ! i"
      using R(1) [of i] R(4) by (simp add: blk_at_def live)
  qed (simp add: R(4))
  have sub: "subseq (blk_instrs (map_option (\<lambda>bb. dropped entry (trimmed need ?f bb)) x)) (blk_instrs x)" for x
    by (cases x) (auto simp: blk_instrs_def dropped_def trimmed_def)
  have "subseq (all_addrs fn') (all_addrs fn)"
    unfolding all_addrs_def bl map_map o_def using sub by (rule subseq_concat)
  then have "heap_ok fn'" using assms(1) R(4) list_emb_set [of "(=)" "all_addrs fn'" "all_addrs fn"]
    unfolding heap_ok_def by (auto dest: subseq_distinct)
  moreover have "counters_ok fn'"
  proof (rule counters_okI)
    fix b blk assume "blk_at fn' b = Some blk"
    then obtain bb where "blk_at fn b = Some bb" "blk = dropped entry (trimmed need ?f bb)" using R(1) by (auto simp: live)
    then show "n_instrs blk = length (instrs blk)"
      using counters_ok_blk [OF assms(2)] sum_length_filter_compl [of "\<lambda>a. doomed need (heap fn a)" "instrs bb"]
      by (auto simp: dropped_def trimmed_def)
  qed
  moreover have "n = length (filter (\<lambda>a. doomed need (heap fn a)) (all_addrs fn))" using R(3) by (simp add: live)
  moreover have "\<exists>blk'. blk_at fn' b = Some blk' \<and> succs blk' = succs blk \<and> preds blk' = preds blk \<and>
       instrs blk' = (if \<not> reachable blk \<and> block_id blk \<noteq> entry then []
         else filter (\<lambda>a. is_critical (heap fn a) \<or> op (heap fn a) = OP_NOP \<or> dst (heap fn a) = 0 \<or> need (dst (heap fn a))) (instrs blk)) \<and>
       (\<forall>a \<in> set (instrs blk'). heap fn' a = heap fn a)" if "blk_at fn b = Some blk" for b blk
  proof -
    have "instrs (trimmed need ?f blk) = filter (\<lambda>a. is_critical (heap fn a) \<or> op (heap fn a) = OP_NOP \<or> dst (heap fn a) = 0 \<or> need (dst (heap fn a))) (instrs blk)"
      by (auto simp: trimmed_def doomed_def intro!: filter_cong)
    then show ?thesis using that R(1,2) by (auto simp: live dropped_def trimmed_def doomed_def)
  qed
  ultimately show ?thesis using R(4) by blast
qed

theorem ssa_dce_pass_exact_witness:
  "\<exists>fn' k. run_dce 0 demo_dce = Some (fn', 2, k) \<and> instrs (the (blk_at fn' 0)) = [0, 3, 4] \<and> instrs (the (blk_at fn' 1)) = []"
proof -
  obtain fn' n k where r: "run_dce 0 demo_dce = Some (fn', n, k)" using demo_dce_runs by (metis not_None_eq prod_cases3)
  have ok: "heap_ok demo_dce" "\<forall>a \<in> set (all_addrs demo_dce). \<not> dead (heap demo_dce a)"
    using demo_dce_ok(2) by (auto simp: dce_fn_ok_def list_all_iff)
  have c: "counters_ok demo_dce" by (simp add: counters_ok_def demo_dce_def mk_defs less_Suc_eq)
  have need: "needed (licm_build_def_block demo_dce) = (\<lambda>_. False)(4 := True, 1 := True)"
    using live_regs_needed [OF demo_dce_bounds licm_table_ok] unfolding demo_dce_live by blast
  note T = ssa_dce_pass_exact [OF ok(1) c ok(2) r, unfolded need]
  have "n = 2" using T by (simp add: demo_dce_def mk_defs all_addrs_def blk_instrs_def doomed_def is_critical_def)
  moreover have "instrs (the (blk_at fn' 0)) = [0, 3, 4]"
  proof -
    have "blk_at demo_dce 0 = Some (mk_block [0, 1, 2, 3, 4] [] [])" by (simp add: demo_dce_def mk_func_def blk_at_def)
    with T obtain blk' where "blk_at fn' 0 = Some blk'" "instrs blk' = filter (\<lambda>a. is_critical (heap demo_dce a) \<or> op (heap demo_dce a) = OP_NOP \<or>
        dst (heap demo_dce a) = 0 \<or> ((\<lambda>_. False)(4 := True, 1 := True)) (dst (heap demo_dce a))) [0, 1, 2, 3, 4]"
      by (fastforce simp: mk_block_def)
    then show ?thesis by (simp add: demo_dce_def mk_defs is_critical_def)
  qed
  moreover have "instrs (the (blk_at fn' 1)) = []"
  proof -
    have "blk_at demo_dce 1 = Some ((mk_block [5] [0] [])\<lparr>block_id := 1, reachable := False\<rparr>)" by (simp add: demo_dce_def mk_func_def blk_at_def)
    with T show ?thesis by fastforce
  qed
  ultimately show ?thesis using r by blast
qed

theorem ssa_dce_pass_sound_witness:
  "\<exists>fn' n k d. run_dce 0 demo_dce = Some (fn', n, k) \<and> start fn' (\<lambda>_. None) = Some d \<and> run fn' d [Ret (Some 10)] Halted"
proof -
  obtain fn' n k where r: "run_dce 0 demo_dce = Some (fn', n, k)" using demo_dce_runs by (metis not_None_eq prod_cases3)
  have s: "start demo_dce (\<lambda>_. None) = Some (At 0 [0, 1, 2, 3, 4] (\<lambda>_. None))"
    by (simp add: start_def demo_dce_def mk_defs blk_at_def body_addrs_def)
  have h: "heap demo_dce 0 = mk_const 1 5" "heap demo_dce 1 = mk_const 2 7" "heap demo_dce 2 = mk_instr OP_ADD 3 [1, 2]"
    "heap demo_dce 3 = mk_instr OP_ADD 4 [1, 1]" "heap demo_dce 4 = mk_instr OP_RET 0 [4]"
    by (simp_all add: demo_dce_def mk_func_def)
  have p: "run demo_dce (At 0 (a # as) \<rho>) es c"
    if "run demo_dce (At 0 as (set_reg d v \<rho>)) es c" "dst (heap demo_dce a) = d"
      "is_pure (op (heap demo_dce a))" "eval (heap demo_dce a) \<rho> = Some v" for a as \<rho> d v es c
    using that by (blast intro: run_tau step.Pure)
  let ?r1 = "set_reg 1 5 (\<lambda>_. None)" let ?r2 = "set_reg 2 7 ?r1" let ?r3 = "set_reg 3 12 ?r2" let ?r4 = "set_reg 4 10 ?r3"
  have "step demo_dce (At 0 [4] ?r4) (Some (Ret (Some 10))) Halted"
    using step.Return [of demo_dce 4 ?r4 "[10]" 0 "[]"] by (simp add: h mk_defs set_reg_def)
  then have "run demo_dce (At 0 [4] ?r4) [Ret (Some 10)] Halted" by (blast intro: run_event run_Nil)
  then have "run demo_dce (At 0 [3, 4] ?r3) [Ret (Some 10)] Halted"
    by (rule p [where v = 10]) (simp_all add: h mk_defs is_pure_def is_binop_def eval_def opnds_def value_of_def set_reg_def bin_val_def)
  then have "run demo_dce (At 0 [2, 3, 4] ?r2) [Ret (Some 10)] Halted"
    by (rule p [where v = 12]) (simp_all add: h mk_defs is_pure_def is_binop_def eval_def opnds_def value_of_def set_reg_def bin_val_def)
  then have "run demo_dce (At 0 [1, 2, 3, 4] ?r1) [Ret (Some 10)] Halted"
    by (rule p [where v = 7]) (simp_all add: h h [unfolded One_nat_def] mk_defs is_pure_def eval_def opnds_def value_of_def)
  then have "run demo_dce (At 0 [0, 1, 2, 3, 4] (\<lambda>_. None)) [Ret (Some 10)] Halted"
    by (rule p [where v = 5]) (simp_all add: h mk_defs is_pure_def eval_def opnds_def value_of_def)
  from ssa_dce_pass_sound [OF demo_dce_ok r s this] obtain d es' where
    d: "start fn' (\<lambda>_. None) = Some d" "run fn' d es' Halted" "subseq es' [Ret (Some 10)]" "filter visible es' = filter visible [Ret (Some 10)]" by auto
  have "es' = [Ret (Some 10)]"
  proof (cases es')
    case Nil
    with d(4) show ?thesis by (simp add: visible_def)
  next
    case (Cons e es)
    with d(3) show ?thesis by (auto split: if_splits)
  qed
  with d r show ?thesis by blast
qed

end
