(* ===== verification/RegAlloc.thy ===== *)
theory RegAlloc
  imports PassWalk "HOL-Library.Product_Lexorder" "HOL-Library.Multiset"
begin

text \<open>
  The register allocator of \<open>src/compiler_passes.c\<close>: graph colouring of live intervals, and the linear scan
  it falls back on. \<open>d\<close> and \<open>l\<close> are the arrays \<^verbatim>\<open>def_seq\<close> and \<^verbatim>\<open>last_use\<close>; -1 stands for no position, and as
  a physical register for the stack.
\<close>

section \<open>Live intervals\<close>

type_synonym positions = "regid \<Rightarrow> int"

definition N_PHYS_REGS :: nat where "N_PHYS_REGS = 7"

definition interval_end :: "positions \<Rightarrow> positions \<Rightarrow> regid \<Rightarrow> int" where
  "interval_end d l r = (if 0 \<le> l r then l r else d r)"

definition overlap :: "positions \<Rightarrow> positions \<Rightarrow> regid \<Rightarrow> regid \<Rightarrow> bool" where
  "overlap d l r q \<longleftrightarrow> \<not> (interval_end d l q < d r \<or> interval_end d l r < d q)"

definition is_alloca :: "func \<Rightarrow> regid \<Rightarrow> bool" where
  "is_alloca fn r = (case def_tab fn r of None \<Rightarrow> False | Some a \<Rightarrow> op (heap fn a) = OP_ALLOCA)"

lemma overlap_sym: "overlap d l r q = overlap d l q r"
  by (auto simp: overlap_def)

section \<open>Graph colouring\<close>

text \<open>Maximum cardinality search over the indices of \<open>vs\<close>: weights, marks, the order and the positions in it.\<close>

definition mcs_pick :: "nat list \<Rightarrow> bool list \<Rightarrow> nat option" where
  "mcs_pick weight selected = fst (fold (\<lambda>i (best, w).
     if \<not> selected ! i \<and> w < int (weight ! i) then (Some i, int (weight ! i)) else (best, w)) [0..<length weight] (None, -1))"

definition mcs_step :: "positions \<Rightarrow> positions \<Rightarrow> regid list \<Rightarrow> nat \<Rightarrow> nat list \<times> bool list \<times> nat list \<times> positions
    \<Rightarrow> (nat list \<times> bool list \<times> nat list \<times> positions) option" where
  "mcs_step d l vs k = (\<lambda>(weight, selected, peo, pos). case mcs_pick weight selected of None \<Rightarrow> None
     | Some b \<Rightarrow> let sel = selected[b := True]
         in Some (List.map (\<lambda>i. if \<not> sel ! i \<and> overlap d l (vs ! b) (vs ! i) then weight ! i + 1 else weight ! i) [0..<length weight],
              sel, peo @ [b], pos(vs ! b := int k)))"

definition mcs :: "positions \<Rightarrow> positions \<Rightarrow> regid list \<Rightarrow> (nat list \<times> positions) option" where
  "mcs d l vs = map_option (\<lambda>(weight, selected, peo, pos). (peo, pos))
     (fold_opt (mcs_step d l vs) [0..<length vs] (replicate (length vs) 0, replicate (length vs) False, [], \<lambda>_. -1))"

definition colour_used :: "positions \<Rightarrow> positions \<Rightarrow> regid list \<Rightarrow> positions \<Rightarrow> positions \<Rightarrow> nat \<Rightarrow> nat \<Rightarrow> bool" where
  "colour_used d l vs pos temp idx c \<longleftrightarrow> list_ex (\<lambda>j. j \<noteq> idx \<and> pos (vs ! j) > pos (vs ! idx) \<and>
     overlap d l (vs ! idx) (vs ! j) \<and> temp (vs ! j) = int c) [0..<length vs]"

definition colour_step :: "positions \<Rightarrow> positions \<Rightarrow> regid list \<Rightarrow> positions \<Rightarrow> nat \<Rightarrow> positions \<Rightarrow> positions option" where
  "colour_step d l vs pos idx temp =
     map_option (\<lambda>c. temp(vs ! idx := int c)) (find (\<lambda>c. \<not> colour_used d l vs pos temp idx c) [0..<N_PHYS_REGS])"

text \<open>\<open>None\<close>: too many registers, or none of the seven colours is free for one of them.\<close>

definition ir_asm_chordal_color :: "func \<Rightarrow> positions \<Rightarrow> positions \<Rightarrow> positions \<Rightarrow> positions option" where
  "ir_asm_chordal_color fn d l phys =
     (let vs = filter (\<lambda>r. 0 \<le> d r \<and> \<not> is_alloca fn r) [0..<MAX_INSTRS]
      in if vs = [] then Some phys
         else if 512 < length vs then None
         else case mcs d l vs of None \<Rightarrow> None
           | Some (peo, pos) \<Rightarrow> map_option (\<lambda>temp r. if r \<in> set vs then temp r else phys r)
               (fold_opt (colour_step d l vs pos) (rev peo) (\<lambda>_. -1)))"

section \<open>Linear scan\<close>

record interval =
  vreg :: regid
  istart :: int
  iend :: int
  phys_reg :: int
  idepth :: nat

definition vreg_depth :: "func \<Rightarrow> regid \<Rightarrow> nat" where
  "vreg_depth fn = fold (\<lambda>(b, a) t. let r = dst (heap fn a) in
     if 0 < r \<and> r < MAX_INSTRS then t(r := (case blk_at fn b of None \<Rightarrow> 0 | Some blk \<Rightarrow> loop_depth blk)) else t) (reach_list fn) (\<lambda>_. 0)"

text \<open>The order of \<^verbatim>\<open>live_interval_compare\<close>; the registers differ, so the order \<^verbatim>\<open>qsort\<close> leaves is determined.\<close>

definition live_interval_key :: "interval \<Rightarrow> int \<times> int \<times> nat" where
  "live_interval_key i = (istart i, iend i, vreg i)"

definition live_intervals :: "func \<Rightarrow> positions \<Rightarrow> positions \<Rightarrow> interval list" where
  "live_intervals fn d l = sort_key live_interval_key (List.map (\<lambda>r. \<lparr>vreg = r, istart = d r, iend = interval_end d l r,
     phys_reg = -1, idepth = vreg_depth fn r\<rparr>) (filter (\<lambda>r. 0 \<le> d r) [0..<MAX_INSTRS]))"

text \<open>
  The active intervals. The code keeps them at the front of the array of all intervals: there are never more
  of them than intervals already taken, so those still to come are not touched. An expired interval is
  replaced by the last one.
\<close>

function expire :: "int \<Rightarrow> nat \<Rightarrow> interval list \<Rightarrow> interval list" where
  "expire s j act = (if j < length act
     then if 0 \<le> phys_reg (act ! j) \<and> iend (act ! j) < s then expire s j (butlast (act[j := last act])) else expire s (j + 1) act
     else act)"
  by pat_completeness auto

termination by (relation "measure (\<lambda>(s, j, act). length act - j)") auto

declare expire.simps [simp del]

definition spill_choice :: "interval \<Rightarrow> interval list \<Rightarrow> nat option" where
  "spill_choice cur act = fst (fold (\<lambda>j (sj, max_end).
     if phys_reg (act ! j) < 0 \<or> iend (act ! j) \<le> iend cur then (sj, max_end)
     else case sj of None \<Rightarrow> (Some j, iend (act ! j))
       | Some s \<Rightarrow> if idepth (act ! j) > idepth (act ! s) \<or> (idepth (act ! j) = idepth (act ! s) \<and> iend (act ! j) \<le> max_end)
           then (sj, max_end) else (Some j, iend (act ! j))) [0..<length act] (None, iend cur))"

definition scan_interval :: "func \<Rightarrow> interval \<Rightarrow> interval list \<times> positions \<Rightarrow> interval list \<times> positions" where
  "scan_interval fn cur = (\<lambda>(act0, out).
     if is_alloca fn (vreg cur) then (act0, out)
     else let act = expire (istart cur) 0 act0
       in case find (\<lambda>p. int p \<notin> phys_reg ` set act) [0..<N_PHYS_REGS] of
         Some p \<Rightarrow> (act @ [cur\<lparr>phys_reg := int p\<rparr>], out(vreg cur := int p))
       | None \<Rightarrow> (case spill_choice cur act of
           Some j \<Rightarrow> let p = phys_reg (act ! j)
             in (act[j := cur\<lparr>phys_reg := p\<rparr>], out(vreg (act ! j) := -1, vreg cur := p))
         | None \<Rightarrow> (act, out(vreg cur := -1))))"

definition ir_asm_linear_scan :: "func \<Rightarrow> positions \<Rightarrow> positions \<Rightarrow> positions" where
  "ir_asm_linear_scan fn d l = snd (fold (scan_interval fn) (live_intervals fn d l) ([], \<lambda>_. -1))"

text \<open>\<open>spill\<close> is false when the environment sets \<^verbatim>\<open>ZCC_IR_SPILL\<close> to 0.\<close>

definition ir_asm_register_allocate :: "bool \<Rightarrow> func \<Rightarrow> positions \<Rightarrow> positions \<Rightarrow> positions" where
  "ir_asm_register_allocate spill fn d l = (case ir_asm_chordal_color fn d l (\<lambda>_. -1) of
     Some phys \<Rightarrow> phys
   | None \<Rightarrow> if spill then ir_asm_linear_scan fn d l else (\<lambda>_. -1))"

section \<open>The colouring is proper\<close>

definition proper :: "positions \<Rightarrow> positions \<Rightarrow> regid set \<Rightarrow> positions \<Rightarrow> bool" where
  "proper d l R phys \<longleftrightarrow> (\<forall>r. phys r = -1 \<or> (0 \<le> phys r \<and> phys r < int N_PHYS_REGS)) \<and>
     (\<forall>r \<in> R. \<forall>q \<in> R. r \<noteq> q \<longrightarrow> 0 \<le> phys r \<longrightarrow> phys r = phys q \<longrightarrow> \<not> overlap d l r q)"

lemma mcs_pick_free:
  assumes "i < length weight" "\<not> selected ! i"
  shows "\<exists>b. mcs_pick weight selected = Some b \<and> b < length weight \<and> \<not> selected ! b"
proof -
  define f where "f = (\<lambda>i (best :: nat option, w :: int). if \<not> selected ! i \<and> w < int (weight ! i) then (Some i, int (weight ! i)) else (best, w))"
  define I where "I = (\<lambda>k (best :: nat option, w :: int). case best of None \<Rightarrow> w = -1 \<and> (\<forall>i < k. selected ! i) | Some b \<Rightarrow> b < k \<and> \<not> selected ! b)"
  have "I k (fold f [0..<k] (None, -1))" for k
  proof (induction k)
    case (Suc k)
    obtain best w where r: "fold f [0..<k] (None, -1) = (best, w)" by fastforce
    then have "fold f [0..<Suc k] (None, -1) = f k (best, w)" by simp
    moreover have "I (Suc k) (f k (best, w))"
      using Suc unfolding r by (cases best) (auto simp: I_def f_def less_Suc_eq)
    ultimately show ?case by simp
  qed (simp add: I_def)
  then have inv: "I (length weight) (fold f [0..<length weight] (None, -1))" .
  obtain best w where r: "fold f [0..<length weight] (None, -1) = (best, w)" by fastforce
  then have "mcs_pick weight selected = best" by (simp add: mcs_pick_def f_def)
  with inv assms show ?thesis unfolding r by (cases best) (auto simp: I_def)
qed

definition mcs_inv :: "regid list \<Rightarrow> nat \<Rightarrow> nat list \<times> bool list \<times> nat list \<times> positions \<Rightarrow> bool" where
  "mcs_inv vs k = (\<lambda>(w, sel, peo, pos). length w = length vs \<and> length sel = length vs \<and> length peo = k \<and> distinct peo \<and>
     (\<forall>i < length vs. sel ! i \<longleftrightarrow> i \<in> set peo) \<and> set peo \<subseteq> {..<length vs} \<and> (\<forall>j < k. pos (vs ! (peo ! j)) = int j))"

lemma mcs_inv_step:
  assumes vs: "distinct vs" and k: "k < length vs" and inv: "mcs_inv vs k s"
  shows "\<exists>s'. mcs_step d l vs k s = Some s' \<and> mcs_inv vs (Suc k) s'"
proof -
  obtain w sel peo pos where s: "s = (w, sel, peo, pos)" by (cases s) auto
  have i: "length w = length vs" "length sel = length vs" "length peo = k" "distinct peo"
      "\<And>i. i < length vs \<Longrightarrow> sel ! i \<longleftrightarrow> i \<in> set peo" "set peo \<subseteq> {..<length vs}" "\<And>j. j < k \<Longrightarrow> pos (vs ! (peo ! j)) = int j"
    using inv by (simp_all add: s mcs_inv_def)
  have "card (set peo) < length vs" using i(3,4) k by (simp add: distinct_card)
  then have "set peo \<noteq> {..<length vs}" by (metis card_lessThan less_irrefl)
  then obtain j where "j < length vs" "\<not> sel ! j" using i(5,6) by blast
  then obtain b where b: "mcs_pick w sel = Some b" "b < length vs" "\<not> sel ! b" using mcs_pick_free [of j w sel] i(1) by auto
  then have nb: "b \<notin> set peo" using i(5) by blast
  have ne: "vs ! (peo ! j) \<noteq> vs ! b" if "j < k" for j
  proof -
    have "peo ! j \<in> set peo" using that i(3) by simp
    then have "peo ! j < length vs" "peo ! j \<noteq> b" using i(6) nb by auto
    then show ?thesis using vs b(2) by (simp add: nth_eq_iff_index_eq)
  qed
  have pos: "(pos(vs ! b := int k)) (vs ! ((peo @ [b]) ! j)) = int j" if "j < Suc k" for j
    using that ne i(3,7) by (cases "j = k") (auto simp: nth_append)
  have sel: "(sel[b := True]) ! j \<longleftrightarrow> j \<in> set (peo @ [b])" if "j < length vs" for j
    using that i(2) i(5) [of j] by (cases "j = b") auto
  have sub: "set (peo @ [b]) \<subseteq> {..<length vs}" using i(6) b(2) by auto
  show ?thesis
    unfolding s mcs_step_def mcs_inv_def prod.case b(1) option.case Let_def
    using i(1-4) b(2) nb pos sel sub by (simp del: fun_upd_apply set_append)
qed

lemma mcs_order:
  assumes "distinct vs"
  shows "\<exists>peo pos. mcs d l vs = Some (peo, pos) \<and> distinct peo \<and> set peo = {..<length vs} \<and>
    (\<forall>j < length peo. pos (vs ! (peo ! j)) = int j)"
proof -
  let ?s = "(replicate (length vs) 0, replicate (length vs) False, [], \<lambda>_. -1)"
  have "\<exists>s. fold_opt (mcs_step d l vs) [0..<k] ?s = Some s \<and> mcs_inv vs k s" if "k \<le> length vs" for k
    using that
  proof (induction k)
    case (Suc k)
    then obtain s where "fold_opt (mcs_step d l vs) [0..<k] ?s = Some s" "mcs_inv vs k s" by auto
    with mcs_inv_step [OF assms, of k s d l] Suc.prems show ?case by (auto simp: fold_opt_append)
  qed (simp add: mcs_inv_def)
  then obtain w sel peo pos where s: "fold_opt (mcs_step d l vs) [0..<length vs] ?s = Some (w, sel, peo, pos)"
    "mcs_inv vs (length vs) (w, sel, peo, pos)" by (metis order_refl prod_cases4)
  then have "set peo = {..<length vs}" by (simp add: mcs_inv_def card_subset_eq distinct_card)
  with s show ?thesis by (auto simp: mcs_def mcs_inv_def)
qed

lemma find_less: "find P [0..<n] = Some c \<Longrightarrow> c < n \<and> P c"
  by (auto simp: find_Some_iff)

definition colour_inv :: "positions \<Rightarrow> positions \<Rightarrow> regid list \<Rightarrow> nat set \<Rightarrow> positions \<Rightarrow> bool" where
  "colour_inv d l vs A t \<longleftrightarrow> (\<forall>r. t r = -1 \<or> (0 \<le> t r \<and> t r < int N_PHYS_REGS)) \<and>
     (\<forall>i \<in> A. \<forall>j \<in> A. i \<noteq> j \<longrightarrow> t (vs ! i) = t (vs ! j) \<longrightarrow> \<not> overlap d l (vs ! i) (vs ! j))"

lemma colour_run:
  assumes vs: "distinct vs" and run: "fold_opt (colour_step d l vs pos) todo t = Some temp"
    and idx: "A \<union> set todo \<subseteq> {..<length vs}" "distinct todo" "A \<inter> set todo = {}"
    and later: "\<forall>i \<in> A. \<forall>j \<in> set todo. pos (vs ! j) < pos (vs ! i)" "sorted_wrt (\<lambda>i j. pos (vs ! j) < pos (vs ! i)) todo"
    and inv: "colour_inv d l vs A t"
  shows "colour_inv d l vs (A \<union> set todo) temp"
  using run idx later inv
proof (induction todo arbitrary: A t)
  case (Cons b todo)
  obtain c where c: "find (\<lambda>c. \<not> colour_used d l vs pos t b c) [0..<N_PHYS_REGS] = Some c"
    and run: "fold_opt (colour_step d l vs pos) todo (t(vs ! b := int c)) = Some temp"
    using Cons.prems(1) colour_step_def [of d l vs pos b t]
    by (cases "find (\<lambda>c. \<not> colour_used d l vs pos t b c) [0..<N_PHYS_REGS]") auto
  note fc = find_less [OF c]
  have ne: "vs ! i \<noteq> vs ! b" if "i \<in> A" for i
  proof -
    have "i \<noteq> b" "i < length vs" "b < length vs" using that Cons.prems(2,4) by auto
    then show ?thesis using vs by (simp add: nth_eq_iff_index_eq)
  qed
  have free: "\<not> overlap d l (vs ! b) (vs ! i)" if "i \<in> A" "t (vs ! i) = int c" for i
  proof -
    have "i \<noteq> b" "i < length vs" "pos (vs ! b) < pos (vs ! i)" using that Cons.prems(2,4,5) by auto
    with fc that(2) show ?thesis by (auto simp: colour_used_def list_ex_iff)
  qed
  have "colour_inv d l vs (insert b A) (t(vs ! b := int c))"
    unfolding colour_inv_def
  proof (intro conjI allI ballI impI)
    show "(t(vs ! b := int c)) r = -1 \<or> (0 \<le> (t(vs ! b := int c)) r \<and> (t(vs ! b := int c)) r < int N_PHYS_REGS)" for r
      using Cons.prems(7) fc by (auto simp: colour_inv_def)
    fix i j assume ij: "i \<in> insert b A" "j \<in> insert b A" "i \<noteq> j" "(t(vs ! b := int c)) (vs ! i) = (t(vs ! b := int c)) (vs ! j)"
    then consider "i = b" "j \<in> A" | "j = b" "i \<in> A" | "i \<in> A" "j \<in> A" by auto
    then show "\<not> overlap d l (vs ! i) (vs ! j)"
    proof cases
      case 1
      then show ?thesis using free [of j] ne [of j] ij(4) by simp
    next
      case 2
      then show ?thesis using free [of i] ne [of i] ij(4) overlap_sym by simp
    next
      case 3
      then show ?thesis using Cons.prems(7) ij(3,4) ne [of i] ne [of j] unfolding colour_inv_def by simp
    qed
  qed
  from Cons.IH [OF run _ _ _ _ _ this] Cons.prems(2-6) show ?case by auto
qed simp

lemma colour_proper:
  assumes vs: "distinct vs" and peo: "distinct peo" "set peo = {..<length vs}" "\<forall>j < length peo. pos (vs ! (peo ! j)) = int j"
    and run: "fold_opt (colour_step d l vs pos) (rev peo) (\<lambda>_. -1) = Some temp"
  shows "proper d l (set vs) temp"
proof -
  have "sorted_wrt (\<lambda>i j. pos (vs ! i) < pos (vs ! j)) peo" using peo(3) by (auto simp: sorted_wrt_iff_nth_less)
  then have "sorted_wrt (\<lambda>i j. pos (vs ! j) < pos (vs ! i)) (rev peo)" by (simp add: sorted_wrt_rev)
  then have "colour_inv d l vs ({} \<union> set (rev peo)) temp"
    by (intro colour_run [OF vs run]) (use peo in \<open>auto simp: colour_inv_def\<close>)
  then have inv: "colour_inv d l vs {..<length vs} temp" using peo(2) by simp
  have "\<not> overlap d l r q" if "r \<in> set vs" "q \<in> set vs" "r \<noteq> q" "temp r = temp q" for r q
  proof -
    obtain i j where "i < length vs" "r = vs ! i" "j < length vs" "q = vs ! j" using \<open>r \<in> set vs\<close> \<open>q \<in> set vs\<close> by (auto simp: in_set_conv_nth)
    moreover have "i \<noteq> j" using calculation that(3) by auto
    ultimately show ?thesis using inv that(4) by (auto simp: colour_inv_def)
  qed
  moreover have "\<forall>r. temp r = -1 \<or> (0 \<le> temp r \<and> temp r < int N_PHYS_REGS)" using inv by (simp add: colour_inv_def)
  ultimately show ?thesis unfolding proper_def by (intro conjI ballI impI) auto
qed

definition candidates :: "func \<Rightarrow> positions \<Rightarrow> regid list" where
  "candidates fn d = filter (\<lambda>r. 0 \<le> d r \<and> \<not> is_alloca fn r) [0..<MAX_INSTRS]"

lemma chordal_proper:
  assumes "ir_asm_chordal_color fn d l (\<lambda>_. -1) = Some phys"
  shows "proper d l UNIV phys" "0 \<le> phys r \<Longrightarrow> r \<in> set (candidates fn d)"
proof -
  let ?vs = "candidates fn d"
  have run: "(if ?vs = [] then Some (\<lambda>_. -1) else if 512 < length ?vs then None
         else case mcs d l ?vs of None \<Rightarrow> None
           | Some (peo, pos) \<Rightarrow> map_option (\<lambda>temp r. if r \<in> set ?vs then temp r else -1)
               (fold_opt (colour_step d l ?vs pos) (rev peo) (\<lambda>_. -1))) = Some phys"
    using assms by (simp only: ir_asm_chordal_color_def candidates_def Let_def)
  have di: "distinct ?vs" by (simp add: candidates_def)
  have "proper d l UNIV phys \<and> (0 \<le> phys r \<longrightarrow> r \<in> set ?vs)"
  proof (cases "?vs = []")
    case True
    with run show ?thesis by (auto simp: proper_def)
  next
    case False
    then obtain peo pos temp where m: "mcs d l ?vs = Some (peo, pos)"
      "fold_opt (colour_step d l ?vs pos) (rev peo) (\<lambda>_. -1) = Some temp" "phys = (\<lambda>r. if r \<in> set ?vs then temp r else -1)"
    proof -
      obtain po where "mcs d l ?vs = Some po" using run False by (cases "mcs d l ?vs") (auto split: if_splits)
      moreover obtain peo pos where "po = (peo, pos)" by fastforce
      ultimately have m: "mcs d l ?vs = Some (peo, pos)" by simp
      then show thesis using run False that [of peo pos]
        by (cases "fold_opt (colour_step d l ?vs pos) (rev peo) (\<lambda>_. -1)") (auto split: if_splits)
    qed
    obtain peo' pos' where o: "mcs d l ?vs = Some (peo', pos')" "distinct peo'" "set peo' = {..<length ?vs}"
      "\<forall>j < length peo'. pos' (?vs ! (peo' ! j)) = int j" using mcs_order [OF di] by blast
    then have "proper d l (set ?vs) temp" using m by (intro colour_proper [OF di]) auto
    then show ?thesis unfolding m(3) proper_def by auto
  qed
  then show "proper d l UNIV phys" "0 \<le> phys r \<Longrightarrow> r \<in> set (candidates fn d)" by blast+
qed

section \<open>The linear scan is proper\<close>

lemma swap_remove:
  assumes "j < length xs"
  shows "take j (butlast (xs[j := last xs])) = take j xs" "mset (drop j (butlast (xs[j := last xs]))) = mset (drop (Suc j) xs)"
proof -
  obtain us a ys where xs: "xs = us @ a # ys" "length us = j" using assms by (metis id_take_nth_drop length_take min.absorb4)
  show "take j (butlast (xs[j := last xs])) = take j xs" "mset (drop j (butlast (xs[j := last xs]))) = mset (drop (Suc j) xs)"
    using xs by (cases ys rule: rev_cases; simp add: list_update_append butlast_append)+
qed

lemma mset_expire:
  "mset (expire s j act) = mset (take j act) + filter_mset (\<lambda>i. \<not> (0 \<le> phys_reg i \<and> iend i < s)) (mset (drop j act))"
proof (induction s j act rule: expire.induct)
  case (1 s j act)
  show ?case
  proof (cases "j < length act")
    case True
    then have d: "drop j act = act ! j # drop (Suc j) act" "take (Suc j) act = take j act @ [act ! j]"
      by (simp_all add: Cons_nth_drop_Suc take_Suc_conv_app_nth)
    show ?thesis
    proof (cases "0 \<le> phys_reg (act ! j) \<and> iend (act ! j) < s")
      case e: True
      have "expire s j act = expire s j (butlast (act[j := last act]))" using True e by (subst expire.simps) simp
      with 1(1) [OF True e] swap_remove [OF True] e show ?thesis by (simp add: d(1))
    next
      case False
      have "expire s j act = expire s (j + 1) act" using True False by (subst expire.simps) auto
      with 1(2) [OF True False] False show ?thesis by (simp add: d)
    qed
  qed (simp add: expire.simps)
qed

lemma expire_filter: "mset (expire s 0 act) = mset (filter (\<lambda>i. \<not> (0 \<le> phys_reg i \<and> iend i < s)) act)"
  by (simp add: mset_expire)

lemma set_expire: "set (expire s 0 act) = {i \<in> set act. \<not> (0 \<le> phys_reg i \<and> iend i < s)}"
  using mset_eq_setD [OF expire_filter [of s act]] by auto

lemma distinct_expire: "distinct (List.map f act) \<Longrightarrow> distinct (List.map f (expire s 0 act))"
proof -
  assume "distinct (List.map f act)"
  then have "distinct (List.map f (filter (\<lambda>i. \<not> (0 \<le> phys_reg i \<and> iend i < s)) act))" by (rule distinct_map_filter)
  moreover have "mset (List.map f (expire s 0 act)) = mset (List.map f (filter (\<lambda>i. \<not> (0 \<le> phys_reg i \<and> iend i < s)) act))"
    using expire_filter [of s act] by simp
  ultimately show ?thesis using mset_eq_imp_distinct_iff by blast
qed

lemma spill_choice_less: "spill_choice cur act = Some j \<Longrightarrow> j < length act"
proof -
  define f where "f = (\<lambda>j (sj, max_end).
     if phys_reg (act ! j) < 0 \<or> iend (act ! j) \<le> iend cur then (sj, max_end)
     else case sj of None \<Rightarrow> (Some j, iend (act ! j))
       | Some s \<Rightarrow> if idepth (act ! j) > idepth (act ! s) \<or> (idepth (act ! j) = idepth (act ! s) \<and> iend (act ! j) \<le> max_end)
           then (sj, max_end) else (Some j, iend (act ! j)))"
  have "\<forall>j. fst (fold f [0..<k] (None, iend cur)) = Some j \<longrightarrow> j < k" for k
  proof (induction k)
    case (Suc k)
    obtain sj m where r: "fold f [0..<k] (None, iend cur) = (sj, m)" by fastforce
    then have "fold f [0..<Suc k] (None, iend cur) = f k (sj, m)" by simp
    moreover have "fst (f k (sj, m)) = Some j \<longrightarrow> j < Suc k" for j
      using Suc unfolding r by (cases sj) (auto simp: f_def less_Suc_eq)
    ultimately show ?case by simp
  qed simp
  then show "spill_choice cur act = Some j \<Longrightarrow> j < length act" by (auto simp: spill_choice_def f_def)
qed

text \<open>
  After the intervals \<open>D\<close>, none of which starts after \<open>t\<close>: the active ones have registers of their own, and a
  register that has one of the seven but is no longer active ended before \<open>t\<close>.
\<close>

definition scan_inv :: "int \<Rightarrow> interval set \<Rightarrow> interval list \<times> positions \<Rightarrow> bool" where
  "scan_inv t D = (\<lambda>(act, out).
     (\<forall>a \<in> set act. 0 \<le> phys_reg a \<and> phys_reg a < int N_PHYS_REGS \<and> out (vreg a) = phys_reg a \<and>
        (\<exists>i \<in> D. vreg i = vreg a \<and> iend i = iend a)) \<and>
     distinct (List.map vreg act) \<and> distinct (List.map phys_reg act) \<and>
     (\<forall>r. out r = -1 \<or> (0 \<le> out r \<and> out r < int N_PHYS_REGS)) \<and>
     (\<forall>r. 0 \<le> out r \<longrightarrow> r \<in> vreg ` D) \<and>
     (\<forall>i \<in> D. 0 \<le> out (vreg i) \<longrightarrow> vreg i \<in> vreg ` set act \<or> iend i < t) \<and>
     (\<forall>i \<in> D. \<forall>k \<in> D. vreg i \<noteq> vreg k \<longrightarrow> 0 \<le> out (vreg i) \<longrightarrow> out (vreg i) = out (vreg k) \<longrightarrow>
        iend i < istart k \<or> iend k < istart i))"

lemma scan_invD:
  assumes "scan_inv t D (act, out)"
  shows "a \<in> set act \<Longrightarrow> 0 \<le> phys_reg a \<and> phys_reg a < int N_PHYS_REGS \<and> out (vreg a) = phys_reg a"
    "a \<in> set act \<Longrightarrow> \<exists>i \<in> D. vreg i = vreg a \<and> iend i = iend a"
    "distinct (List.map vreg act)" "distinct (List.map phys_reg act)" "out r = -1 \<or> (0 \<le> out r \<and> out r < int N_PHYS_REGS)"
    "0 \<le> out r \<Longrightarrow> r \<in> vreg ` D" "i \<in> D \<Longrightarrow> 0 \<le> out (vreg i) \<Longrightarrow> vreg i \<in> vreg ` set act \<or> iend i < t"
    "i \<in> D \<Longrightarrow> k \<in> D \<Longrightarrow> vreg i \<noteq> vreg k \<Longrightarrow> 0 \<le> out (vreg i) \<Longrightarrow> out (vreg i) = out (vreg k) \<Longrightarrow> iend i < istart k \<or> iend k < istart i"
  using assms by (simp_all add: scan_inv_def)

lemma scan_inv_expire:
  assumes inv: "scan_inv t D (act, out)" and t: "t \<le> s" and D: "inj_on vreg D"
  shows "scan_inv s D (expire s 0 act, out)"
proof -
  note d = scan_invD [OF inv]
  have out: "vreg i \<in> vreg ` set (expire s 0 act) \<or> iend i < s" if i: "i \<in> D" "0 \<le> out (vreg i)" for i
  proof (cases "iend i < s")
    case False
    then obtain a where a: "a \<in> set act" "vreg a = vreg i" using d(7) [OF i] t by force
    then obtain k where "k \<in> D" "vreg k = vreg a" "iend k = iend a" using d(2) by blast
    then have "iend a = iend i" using a(2) i(1) D by (metis inj_onD)
    then have "a \<in> set (expire s 0 act)" using a(1) False by (simp add: set_expire)
    then show ?thesis using a(2) by (metis image_eqI)
  qed simp
  show ?thesis
    unfolding scan_inv_def prod.case
  proof (intro conjI ballI allI impI)
    show "distinct (List.map vreg (expire s 0 act))" "distinct (List.map phys_reg (expire s 0 act))"
      using d(3,4) by (auto intro: distinct_expire)
  qed (use d out in \<open>auto simp: set_expire\<close>)
qed

text \<open>Giving the new interval a register that no active one has.\<close>

lemma scan_inv_give:
  assumes inv: "scan_inv s D (act, out)" and s: "\<forall>i \<in> D. istart i \<le> s" "istart cur = s" and new: "vreg cur \<notin> vreg ` D"
    and p: "0 \<le> p" "p < int N_PHYS_REGS" "\<forall>i \<in> set act. phys_reg i \<noteq> p"
  shows "scan_inv s (insert cur D) (cur\<lparr>phys_reg := p\<rparr> # act, out(vreg cur := p))"
proof -
  note d = scan_invD [OF inv]
  have free: "iend i < s" if i: "i \<in> D" "out (vreg i) = p" for i
  proof (rule ccontr)
    assume "\<not> iend i < s"
    then obtain a where "a \<in> set act" "vreg a = vreg i" using d(7) [OF i(1)] i(2) p(1) by auto
    then show False using d(1) [of a] i(2) p(3) by auto
  qed
  have ne: "vreg i \<noteq> vreg cur" if "i \<in> D" for i using new that by (auto simp: image_iff)
  have ac: "vreg a \<noteq> vreg cur" if "a \<in> set act" for a using d(2) [OF that] ne by auto
  then have acs: "vreg cur \<notin> vreg ` set act" by (metis imageE)
  show ?thesis
    unfolding scan_inv_def prod.case
  proof (intro conjI ballI allI impI)
    fix i k assume "i \<in> insert cur D" "k \<in> insert cur D" "vreg i \<noteq> vreg k" "0 \<le> (out(vreg cur := p)) (vreg i)"
      "(out(vreg cur := p)) (vreg i) = (out(vreg cur := p)) (vreg k)"
    then show "iend i < istart k \<or> iend k < istart i"
      using d(8) [of i k] free [of i] free [of k] ne [of i] ne [of k] s by (auto split: if_splits)
  next
    fix i assume "i \<in> insert cur D" "0 \<le> (out(vreg cur := p)) (vreg i)"
    then show "vreg i \<in> vreg ` set (cur\<lparr>phys_reg := p\<rparr> # act) \<or> iend i < s"
      using d(7) [of i] ne [of i] by (auto split: if_splits)
  next
    fix a assume "a \<in> set (cur\<lparr>phys_reg := p\<rparr> # act)"
    then show "0 \<le> phys_reg a" "phys_reg a < int N_PHYS_REGS" "(out(vreg cur := p)) (vreg a) = phys_reg a"
        "\<exists>i \<in> insert cur D. vreg i = vreg a \<and> iend i = iend a"
      using d(1,2) [of a] ac [of a] p(1,2) by auto
  next
    show "distinct (List.map vreg (cur\<lparr>phys_reg := p\<rparr> # act))" "distinct (List.map phys_reg (cur\<lparr>phys_reg := p\<rparr> # act))"
      using d(3,4) acs p(3) by auto
  qed (use d(5,6) p in \<open>auto split: if_splits\<close>)
qed

text \<open>Sending a register to the stack.\<close>

lemma scan_inv_evict:
  assumes inv: "scan_inv s D (a # act, out)"
  shows "scan_inv s D (act, out(vreg a := -1))"
proof -
  note d = scan_invD [OF inv]
  have ne: "vreg b \<noteq> vreg a" if "b \<in> set act" for b using d(3) that by (auto simp: image_iff)
  show ?thesis
    unfolding scan_inv_def prod.case
  proof (intro conjI ballI allI impI)
    fix i k assume "i \<in> D" "k \<in> D" "vreg i \<noteq> vreg k" "0 \<le> (out(vreg a := -1)) (vreg i)"
      "(out(vreg a := -1)) (vreg i) = (out(vreg a := -1)) (vreg k)"
    then show "iend i < istart k \<or> iend k < istart i" using d(8) [of i k] by (auto split: if_splits)
  next
    fix i assume "i \<in> D" "0 \<le> (out(vreg a := -1)) (vreg i)"
    then show "vreg i \<in> vreg ` set act \<or> iend i < s" using d(7) [of i] by (auto split: if_splits)
  next
    fix b assume "b \<in> set act"
    then show "0 \<le> phys_reg b" "phys_reg b < int N_PHYS_REGS" "(out(vreg a := -1)) (vreg b) = phys_reg b"
        "\<exists>i \<in> D. vreg i = vreg b \<and> iend i = iend b"
      using d(1,2) [of b] ne [of b] by auto
  qed (use d(3,4,5,6) in \<open>auto split: if_splits\<close>)
qed

lemma scan_inv_spilled:
  assumes inv: "scan_inv s D (act, out)" and new: "vreg cur \<notin> vreg ` D"
  shows "scan_inv s (insert cur D) (act, out(vreg cur := -1))" "scan_inv s (insert cur D) (act, out)"
proof -
  note d = scan_invD [OF inv]
  have o: "out (vreg cur) = -1" using d(5,6) [of "vreg cur"] new by auto
  then have eq: "out(vreg cur := -1) = out" by auto
  show "scan_inv s (insert cur D) (act, out)"
    unfolding scan_inv_def prod.case
  proof (intro conjI ballI allI impI)
    fix i k assume "i \<in> insert cur D" "k \<in> insert cur D" "vreg i \<noteq> vreg k" "0 \<le> out (vreg i)" "out (vreg i) = out (vreg k)"
    then show "iend i < istart k \<or> iend k < istart i" using d(8) [of i k] o by auto
  next
    fix i assume "i \<in> insert cur D" "0 \<le> out (vreg i)"
    then show "vreg i \<in> vreg ` set act \<or> iend i < s" using d(7) [of i] o by auto
  next
    fix b assume "b \<in> set act"
    then show "0 \<le> phys_reg b" "phys_reg b < int N_PHYS_REGS" "out (vreg b) = phys_reg b"
        "\<exists>i \<in> insert cur D. vreg i = vreg b \<and> iend i = iend b"
      using d(1,2) [of b] by auto
  qed (use d(3,4,5,6) in auto)
  then show "scan_inv s (insert cur D) (act, out(vreg cur := -1))" unfolding eq .
qed

lemma scan_inv_perm: "scan_inv s D (act, out) \<Longrightarrow> mset act = mset act' \<Longrightarrow> scan_inv s D (act', out)"
proof -
  assume inv: "scan_inv s D (act, out)" and m: "mset act = mset act'"
  have 1: "set act = set act'" using mset_eq_setD [OF m] .
  have 2: "distinct (List.map vreg act) = distinct (List.map vreg act')" "distinct (List.map phys_reg act) = distinct (List.map phys_reg act')"
    using m by (intro mset_eq_imp_distinct_iff; simp)+
  from inv show ?thesis unfolding scan_inv_def prod.case 1 2 .
qed

lemma scan_interval_inv:
  assumes inv: "scan_inv t D (act, out)" and t: "t \<le> istart cur" and D: "inj_on vreg D" "\<forall>i \<in> D. istart i \<le> istart cur"
    and new: "vreg cur \<notin> vreg ` D"
  shows "scan_inv (istart cur) (insert cur D) (scan_interval fn cur (act, out))"
proof -
  let ?s = "istart cur" and ?act = "expire (istart cur) 0 act"
  note e = scan_inv_expire [OF inv t D(1)]
  show ?thesis
  proof (cases "is_alloca fn (vreg cur)")
    case True
    have "scan_inv ?s D (act, out)" using inv t unfolding scan_inv_def by force
    from scan_inv_spilled(2) [OF this new] True show ?thesis by (simp add: scan_interval_def)
  next
    case na: False
    show ?thesis
    proof (cases "find (\<lambda>p. int p \<notin> phys_reg ` set ?act) [0..<N_PHYS_REGS]")
      case (Some p)
      note p = find_less [OF Some]
      have "scan_inv ?s (insert cur D) (cur\<lparr>phys_reg := int p\<rparr> # ?act, out(vreg cur := int p))"
        by (rule scan_inv_give [OF e D(2) refl new]) (use p in \<open>auto simp: image_iff\<close>)
      then have "scan_inv ?s (insert cur D) (?act @ [cur\<lparr>phys_reg := int p\<rparr>], out(vreg cur := int p))"
        by (rule scan_inv_perm) simp
      with na Some show ?thesis by (simp add: scan_interval_def Let_def)
    next
      case None
      show ?thesis
      proof (cases "spill_choice cur ?act")
        case None': None
        from scan_inv_spilled(1) [OF e new] na None None' show ?thesis by (simp add: scan_interval_def Let_def)
      next
        case (Some j)
        note j = spill_choice_less [OF Some]
        let ?a = "?act ! j" and ?rest = "take j ?act @ drop (Suc j) ?act"
        have m: "mset ?act = mset (?a # ?rest)" "mset (?act[j := x]) = mset (x # ?rest)" for x
          using j id_take_nth_drop [OF j] upd_conv_take_nth_drop [OF j, of x]
          by (metis mset.simps(2) mset_append union_mset_add_mset_right add_mset_add_single)+
        have a: "scan_inv ?s D (?a # ?rest, out)" by (rule scan_inv_perm [OF e m(1)])
        note d = scan_invD [OF a]
        have "scan_inv ?s (insert cur D) (cur\<lparr>phys_reg := phys_reg ?a\<rparr> # ?rest, (out(vreg ?a := -1))(vreg cur := phys_reg ?a))"
          by (rule scan_inv_give [OF scan_inv_evict [OF a] D(2) refl new]) (use d(1) [of ?a] d(4) in \<open>auto simp: image_iff\<close>)
        then have "scan_inv ?s (insert cur D) (?act[j := cur\<lparr>phys_reg := phys_reg ?a\<rparr>], out(vreg ?a := -1, vreg cur := phys_reg ?a))"
          by (rule scan_inv_perm) (use m(2) in simp)
        with na None Some show ?thesis by (simp add: scan_interval_def Let_def)
      qed
    qed
  qed
qed

lemma scan_all:
  assumes "scan_inv t D s" "inj_on vreg D" "sorted (List.map istart xs)" "\<forall>x \<in> set xs. t \<le> istart x \<and> (\<forall>i \<in> D. istart i \<le> istart x)"
    "distinct (List.map vreg xs)" "vreg ` D \<inter> vreg ` set xs = {}"
  shows "\<exists>t'. scan_inv t' (D \<union> set xs) (fold (scan_interval fn) xs s)"
  using assms
proof (induction xs arbitrary: t D s)
  case (Cons x xs)
  obtain act out where s: "s = (act, out)" by (cases s)
  have new: "vreg x \<notin> vreg ` D" using Cons.prems(6) by auto
  have "scan_inv (istart x) (insert x D) (scan_interval fn x s)"
    using scan_interval_inv [OF Cons.prems(1) [unfolded s] _ Cons.prems(2) _ new, of fn] Cons.prems(4) s by simp
  moreover have "inj_on vreg (insert x D)" using Cons.prems(2) new by (auto simp: inj_on_def image_iff)
  moreover have "\<forall>y \<in> set xs. istart x \<le> istart y \<and> (\<forall>i \<in> insert x D. istart i \<le> istart y)" using Cons.prems(3,4) by auto
  moreover have "vreg ` insert x D \<inter> vreg ` set xs = {}" using Cons.prems(5,6) by auto
  ultimately obtain t' where "scan_inv t' (insert x D \<union> set xs) (fold (scan_interval fn) xs (scan_interval fn x s))"
    using Cons.IH [of "istart x" "insert x D" "scan_interval fn x s"] Cons.prems(3,5) by auto
  then show ?case by auto
qed auto

lemma live_intervals_facts:
  "sorted (List.map istart (live_intervals fn d l))" "distinct (List.map vreg (live_intervals fn d l))"
  "i \<in> set (live_intervals fn d l) \<Longrightarrow> vreg i < MAX_INSTRS \<and> istart i = d (vreg i) \<and> iend i = interval_end d l (vreg i)"
  "r \<in> vreg ` set (live_intervals fn d l) \<longleftrightarrow> r < MAX_INSTRS \<and> 0 \<le> d r"
proof -
  have "sorted (List.map live_interval_key (live_intervals fn d l))" unfolding live_intervals_def by (rule sorted_sort_key)
  then have "sorted_wrt (\<lambda>x y. live_interval_key x \<le> live_interval_key y) (live_intervals fn d l)" by (simp add: sorted_map)
  then have "sorted_wrt (\<lambda>x y. istart x \<le> istart y) (live_intervals fn d l)"
    by (rule sorted_wrt_mono_rel [rotated]) (auto simp: live_interval_key_def)
  then show "sorted (List.map istart (live_intervals fn d l))" by (simp add: sorted_map)
  let ?raw = "List.map (\<lambda>r. \<lparr>vreg = r, istart = d r, iend = interval_end d l r,
     phys_reg = -1, idepth = vreg_depth fn r\<rparr>) (filter (\<lambda>r. 0 \<le> d r) [0..<MAX_INSTRS])"
  have "mset (List.map vreg (live_intervals fn d l)) = mset (List.map vreg ?raw)"
    unfolding live_intervals_def mset_map mset_sort by (rule refl)
  moreover have "distinct (List.map vreg ?raw)" by (simp add: comp_def)
  ultimately show "distinct (List.map vreg (live_intervals fn d l))" using mset_eq_imp_distinct_iff by blast
  show "i \<in> set (live_intervals fn d l) \<Longrightarrow> vreg i < MAX_INSTRS \<and> istart i = d (vreg i) \<and> iend i = interval_end d l (vreg i)"
    by (auto simp: live_intervals_def)
  show "r \<in> vreg ` set (live_intervals fn d l) \<longleftrightarrow> r < MAX_INSTRS \<and> 0 \<le> d r"
    by (force simp: live_intervals_def)
qed

lemma scan_alloca:
  "is_alloca fn r \<Longrightarrow> snd s r = -1 \<Longrightarrow> snd (fold (scan_interval fn) xs s) r = -1"
proof (induction xs arbitrary: s)
  case (Cons x xs)
  have "snd (scan_interval fn x s) r = -1"
    using Cons.prems by (cases s) (auto simp: scan_interval_def Let_def split: option.split)
  with Cons show ?case by simp
qed simp

lemma linear_scan_proper:
  "proper d l UNIV (ir_asm_linear_scan fn d l)" "0 \<le> ir_asm_linear_scan fn d l r \<Longrightarrow> r \<in> set (candidates fn d)"
proof -
  let ?L = "live_intervals fn d l"
  note F = live_intervals_facts [where fn = fn and d = d and l = l]
  obtain m where m: "\<forall>x \<in> set ?L. m \<le> istart x"
    using F(1) by (cases ?L) (auto intro: that)
  obtain t where t: "scan_inv t ({} \<union> set ?L) (fold (scan_interval fn) ?L ([], \<lambda>_. -1))"
    using scan_all [of m "{}" "([], \<lambda>_. -1)" ?L fn] F(1,2) m by (auto simp: scan_inv_def)
  obtain act out where r: "fold (scan_interval fn) ?L ([], \<lambda>_. -1) = (act, out)" by fastforce
  then have out: "ir_asm_linear_scan fn d l = out" by (simp add: ir_asm_linear_scan_def)
  note D = scan_invD [OF t [unfolded r Un_empty_left]]
  have "\<not> overlap d l r q" if "r \<noteq> q" "0 \<le> out r" "out r = out q" for r q
  proof -
    obtain i k where "i \<in> set ?L" "vreg i = r" "k \<in> set ?L" "vreg k = q" using D(6) [of r] D(6) [of q] \<open>0 \<le> out r\<close> \<open>out r = out q\<close> by auto
    then show ?thesis using D(8) [of i k] F(3) [of i] F(3) [of k] that by (auto simp: overlap_def)
  qed
  then show "proper d l UNIV (ir_asm_linear_scan fn d l)" unfolding out proper_def using D(5) by blast
  show "r \<in> set (candidates fn d)" if "0 \<le> ir_asm_linear_scan fn d l r"
  proof -
    have "r \<in> vreg ` set ?L" using D(6) that out by simp
    moreover have "\<not> is_alloca fn r"
      using scan_alloca [of fn r "([], \<lambda>_. -1)" ?L] that by (auto simp: ir_asm_linear_scan_def)
    ultimately show ?thesis using F(4) by (simp add: candidates_def)
  qed
qed

lemma register_allocate_proper:
  "proper d l UNIV (ir_asm_register_allocate spill fn d l)"
  "0 \<le> ir_asm_register_allocate spill fn d l r \<Longrightarrow> r \<in> set (candidates fn d)"
proof -
  have "proper d l UNIV (ir_asm_register_allocate spill fn d l) \<and>
      (0 \<le> ir_asm_register_allocate spill fn d l r \<longrightarrow> r \<in> set (candidates fn d))"
  proof (cases "ir_asm_chordal_color fn d l (\<lambda>_. -1)")
    case None
    then show ?thesis using linear_scan_proper [where d = d and l = l and fn = fn] by (auto simp: ir_asm_register_allocate_def proper_def)
  next
    case (Some phys)
    with chordal_proper [OF Some] show ?thesis by (simp add: ir_asm_register_allocate_def)
  qed
  then show "proper d l UNIV (ir_asm_register_allocate spill fn d l)"
    "0 \<le> ir_asm_register_allocate spill fn d l r \<Longrightarrow> r \<in> set (candidates fn d)" by blast+
qed

text \<open>
  C4: No two values with overlapping live intervals share a physical register. For all intervals, on the graph
  colouring as on the linear scan with its evictions (and with spilling switched off): the pairs of registers
  that meet in one physical register are exactly disjoint intervals, the physical registers are the seven of
  the pool or -1, and only registers that are defined and are no stack allocation get one.
\<close>

theorem register_allocate_disjoint:
  "let phys = ir_asm_register_allocate spill fn d l in
     {(r, q). r \<noteq> q \<and> 0 \<le> phys r \<and> phys r = phys q \<and> overlap d l r q} = {} \<and> range phys \<subseteq> {-1..6} \<and>
     {r. 0 \<le> phys r} \<subseteq> {r. r < MAX_INSTRS \<and> 0 \<le> d r \<and> \<not> is_alloca fn r}"
proof -
  define phys where "phys = ir_asm_register_allocate spill fn d l"
  have p: "proper d l UNIV phys" unfolding phys_def by (rule register_allocate_proper(1))
  have "phys r = -1 \<or> (0 \<le> phys r \<and> phys r < 7)" for r using p by (simp add: proper_def N_PHYS_REGS_def)
  then have "phys r \<in> {-1..6}" for r by (smt (verit) atLeastAtMost_iff)
  moreover have "r \<in> set (candidates fn d)" if "0 \<le> phys r" for r using that register_allocate_proper(2) by (simp add: phys_def)
  ultimately show ?thesis using p unfolding proper_def candidates_def Let_def phys_def [symmetric] by auto
qed

end
