(* ===== verification/Dom_Chains.thy ===== *)
theory Dom_Chains
  imports IR
begin

text \<open>
  The mathematics of the dominator computation of \<open>src/compiler_passes.c\<close> (Cooper, Harvey and Kennedy's
  iteration over an array of immediate dominators): paths and dominance, the chains of an array of parents,
  and what one round of the iteration does to the chains. The program itself is in \<open>Dominators\<close>.
\<close>


section \<open>Paths and dominance\<close>

inductive path :: "(nat \<times> nat) set \<Rightarrow> nat \<Rightarrow> nat list \<Rightarrow> nat \<Rightarrow> bool" for E e where
  start: "path E e [e] e"
| extend: "path E e xs p \<Longrightarrow> (p, b) \<in> E \<Longrightarrow> path E e (b # xs) b"

definition dominates :: "(nat \<times> nat) set \<Rightarrow> nat \<Rightarrow> nat \<Rightarrow> nat \<Rightarrow> bool" where
  "dominates E e d b \<longleftrightarrow> (\<forall>xs. path E e xs b \<longrightarrow> d \<in> set xs)"

lemma path_rtrancl: "(e, b) \<in> E\<^sup>* \<longleftrightarrow> (\<exists>xs. path E e xs b)"
proof
  assume "(e, b) \<in> E\<^sup>*"
  then show "\<exists>xs. path E e xs b" by induction (blast intro: path.intros)+
next
  assume "\<exists>xs. path E e xs b"
  then obtain xs where "path E e xs b" ..
  then show "(e, b) \<in> E\<^sup>*" by induction (auto intro: rtrancl_into_rtrancl)
qed

lemma dominates_pred: "dominates E e d b \<Longrightarrow> d \<noteq> b \<Longrightarrow> (p, b) \<in> E \<Longrightarrow> dominates E e d p"
  unfolding dominates_def using path.extend by fastforce

lemma dominates_entry: "dominates E e d e \<Longrightarrow> d = e"
  unfolding dominates_def using path.start by fastforce

text \<open>A block that a detour around \<open>z\<close> leads on to is dominated by \<open>z\<close> only if its start is.\<close>

lemma dominates_detour:
  assumes "(b, y) \<in> {(u, v). (u, v) \<in> E \<and> v \<noteq> z}\<^sup>*" "dominates E e z y"
  shows "dominates E e z b"
proof -
  have "\<exists>ys. path E e ys y \<and> (z \<in> set ys \<longrightarrow> z \<in> set xs)" if "path E e xs b" for xs
    using assms(1)
  proof induction
    case base
    then show ?case using that by blast
  next
    case (step u v)
    then obtain ys where "path E e ys u" "z \<in> set ys \<longrightarrow> z \<in> set xs" by blast
    with step show ?case by (intro exI [of _ "v # ys"]) (auto intro: path.extend)
  qed
  then show ?thesis using assms(2) unfolding dominates_def by blast
qed

section \<open>Chains of immediate dominators\<close>

text \<open>The blocks the walk from \<open>b\<close> along the array \<open>idom\<close> meets.\<close>

definition chain :: "(nat \<Rightarrow> nat) \<Rightarrow> nat \<Rightarrow> nat set" where
  "chain I b = {(I ^^ k) b |k. True}"

lemma chain_self [simp]: "b \<in> chain I b"
  unfolding chain_def by (auto intro: exI [of _ 0])

lemma chain_rec: "chain I b = insert b (chain I (I b))"
proof (intro equalityI subsetI)
  fix a assume "a \<in> chain I b"
  then obtain k where "a = (I ^^ k) b" by (auto simp: chain_def)
  then show "a \<in> insert b (chain I (I b))" by (cases k) (auto simp: chain_def funpow_swap1)
next
  fix a assume "a \<in> insert b (chain I (I b))"
  then show "a \<in> chain I b"
  proof
    assume "a \<in> chain I (I b)"
    then obtain k where "a = (I ^^ Suc k) b" by (auto simp: chain_def funpow_swap1)
    then show ?thesis unfolding chain_def by blast
  qed simp
qed

lemma chain_trans:
  assumes "a \<in> chain I b" "c \<in> chain I a"
  shows "c \<in> chain I b"
proof -
  obtain j k where "a = (I ^^ j) b" "c = (I ^^ k) a" using assms by (auto simp: chain_def)
  then have "c = (I ^^ (k + j)) b" by (simp add: funpow_add)
  then show ?thesis unfolding chain_def by blast
qed

lemma chain_sub: "a \<in> chain I b \<Longrightarrow> chain I a \<subseteq> chain I b"
  using chain_trans by blast

lemma chain_linear: "a \<in> chain I b \<Longrightarrow> c \<in> chain I b \<Longrightarrow> a \<in> chain I c \<or> c \<in> chain I a"
proof -
  assume "a \<in> chain I b" "c \<in> chain I b"
  then obtain j k where jk: "a = (I ^^ j) b" "c = (I ^^ k) b" by (auto simp: chain_def)
  have "(I ^^ k) b = (I ^^ (k - j)) ((I ^^ j) b)" if "j \<le> k"
    using that by (metis comp_apply funpow_add le_add_diff_inverse2)
  moreover have "(I ^^ j) b = (I ^^ (j - k)) ((I ^^ k) b)" if "k \<le> j"
    using that by (metis comp_apply funpow_add le_add_diff_inverse2)
  ultimately show ?thesis unfolding chain_def jk by (metis (mono_tags, lifting) mem_Collect_eq nle_le)
qed

lemma chain_root: "I e = e \<Longrightarrow> chain I e = {e}"
proof -
  assume "I e = e"
  then have "(I ^^ k) e = e" for k by (induction k) auto
  then show ?thesis by (auto simp: chain_def)
qed

text \<open>
  The array is a tree over the numbered blocks: the entry is its own parent, every other block that has a
  parent has one of a smaller number that has one itself.
\<close>

definition tree :: "nat \<Rightarrow> nat list \<Rightarrow> (nat \<Rightarrow> nat) \<Rightarrow> (nat \<Rightarrow> nat) \<Rightarrow> bool" where
  "tree e ord num I \<longleftrightarrow> I e = e \<and> inj_on num (set ord) \<and> (\<forall>b. I b \<noteq> NO_BLOCK \<longrightarrow> b \<in> set ord \<and>
     (b \<noteq> e \<longrightarrow> I (I b) \<noteq> NO_BLOCK \<and> num (I b) < num b))"

lemma tree_root: "tree e ord num I \<Longrightarrow> chain I e = {e}"
  by (simp add: tree_def chain_root)

lemma chain_tree:
  assumes "tree e ord num I" "I b \<noteq> NO_BLOCK" "a \<in> chain I b"
  shows "I a \<noteq> NO_BLOCK \<and> num a \<le> num b \<and> a \<in> set ord"
proof -
  obtain k where "a = (I ^^ k) b" using assms(3) by (auto simp: chain_def)
  moreover have "I ((I ^^ k) b) \<noteq> NO_BLOCK \<and> num ((I ^^ k) b) \<le> num b"
  proof (induction k)
    case (Suc k)
    then show ?case using assms(1) unfolding tree_def
      by (cases "(I ^^ k) b = e") (auto intro: less_imp_le le_trans)
  qed (use assms in simp)
  ultimately show ?thesis using assms(1) by (auto simp: tree_def)
qed

lemma chain_entry:
  assumes "tree e ord num I" "I b \<noteq> NO_BLOCK"
  shows "e \<in> chain I b"
  using assms(2)
proof (induction "num b" arbitrary: b rule: less_induct)
  case less
  show ?case
  proof (cases "b = e")
    case False
    then have "num (I b) < num b" "I (I b) \<noteq> NO_BLOCK" using less.prems assms(1) by (auto simp: tree_def)
    from less.hyps [OF this] show ?thesis using chain_rec by blast
  qed simp
qed

lemma chain_antisym:
  assumes "tree e ord num I" "I b \<noteq> NO_BLOCK" "a \<in> chain I b" "b \<in> chain I a"
  shows "a = b"
proof -
  note 1 = chain_tree [OF assms(1-3)]
  note 2 = chain_tree [OF assms(1) _ assms(4)]
  have "num a = num b" using 1 2 by fastforce
  moreover have "b \<in> set ord" using assms(1,2) by (simp add: tree_def)
  ultimately show ?thesis using assms(1) 1 unfolding tree_def inj_on_def by blast
qed

lemma chain_parent:
  assumes "tree e ord num I" "I b \<noteq> NO_BLOCK" "b \<noteq> e"
  shows "b \<notin> chain I (I b)"
  using chain_tree [OF assms(1), of "I b" b] assms by (auto simp: tree_def)

text \<open>Giving a block another parent cuts the chains through it.\<close>

lemma chain_upd_parent:
  assumes t: "tree e ord num I" and w: "I w \<noteq> NO_BLOCK" "num w < num b"
  shows "chain (I(b := w)) b = insert b (chain I w)"
proof -
  have "chain (I(b := w)) y = chain I y" if "I y \<noteq> NO_BLOCK" "num y < num b" for y
    using that
  proof (induction "num y" arbitrary: y rule: less_induct)
    case less
    show ?case
    proof (cases "y = e")
      case True
      have "(I(b := w)) e = e" using t less.prems True by (auto simp: tree_def)
      with True t show ?thesis by (simp add: chain_root tree_root)
    next
      case False
      then have "num (I y) < num y" "I (I y) \<noteq> NO_BLOCK" using t less.prems by (auto simp: tree_def)
      with less have "chain (I(b := w)) (I y) = chain I (I y)" by simp
      then show ?thesis using less.prems by (subst (1 2) chain_rec) auto
    qed
  qed
  from this [OF w] show ?thesis by (subst chain_rec) simp
qed

lemma chain_upd:
  assumes t: "tree e ord num I" and b: "b \<noteq> e" and w: "I w \<noteq> NO_BLOCK" "num w < num b" and y: "I y \<noteq> NO_BLOCK"
  shows "chain (I(b := w)) y = (if b \<in> chain I y then (chain I y - chain I b) \<union> insert b (chain I w) else chain I y)"
  using y
proof (induction "num y" arbitrary: y rule: less_induct)
  case less
  let ?J = "I(b := w)"
  show ?case
  proof (cases "y = b")
    case True
    then show ?thesis using chain_upd_parent [OF t w] by simp
  next
    case ne: False
    show ?thesis
    proof (cases "y = e")
      case True
      have "?J e = e" using t b by (auto simp: tree_def)
      with True t b show ?thesis by (simp add: chain_root tree_root)
    next
      case False
      then have p: "num (I y) < num y" "I (I y) \<noteq> NO_BLOCK" using t less.prems by (auto simp: tree_def)
      note IH = less.hyps [OF p]
      have r: "chain ?J y = insert y (chain ?J (I y))" "chain I y = insert y (chain I (I y))"
        using ne by (subst chain_rec; simp)+
      have "y \<notin> chain I b" if "b \<in> chain I (I y)"
        using chain_sub [OF that] chain_tree [OF t p(2)] p(1) by fastforce
      with IH ne show ?thesis unfolding r by auto
    qed
  qed
qed

section \<open>The rounds of the iteration\<close>

text \<open>
  \<open>ord\<close> lists the blocks in the order of the rounds, \<open>num\<close> is their position in it, and every block but the
  first has a predecessor before it.
\<close>

definition numbered :: "nat \<Rightarrow> nat list \<Rightarrow> (nat \<Rightarrow> nat) \<Rightarrow> (nat \<Rightarrow> nat list) \<Rightarrow> bool" where
  "numbered e ord num pre \<longleftrightarrow> ord \<noteq> [] \<and> hd ord = e \<and> distinct ord \<and> NO_BLOCK \<notin> set ord \<and>
     (\<forall>j < length ord. num (ord ! j) = j) \<and>
     (\<forall>b \<in> set ord - {e}. \<exists>t \<in> set (pre b) \<inter> set ord. num t < num b)"

definition edges :: "nat list \<Rightarrow> (nat \<Rightarrow> nat list) \<Rightarrow> (nat \<times> nat) set" where
  "edges ord pre = {(p, b). p \<in> set (pre b) \<and> p \<in> set ord \<and> b \<in> set ord}"

lemma numbered_facts:
  assumes "numbered e ord num pre"
  shows "e \<in> set ord" "num e = 0" "inj_on num (set ord)" "b \<in> set ord \<Longrightarrow> num b < length ord \<and> ord ! num b = b"
    "b \<in> set (take k ord) \<longleftrightarrow> b \<in> set ord \<and> num b < k"
proof -
  have n: "ord \<noteq> []" "hd ord = e" "\<And>j. j < length ord \<Longrightarrow> num (ord ! j) = j" using assms by (auto simp: numbered_def)
  show "e \<in> set ord" using n by auto
  show "num e = 0" using n(1,2) n(3) [of 0] by (simp add: hd_conv_nth)
  show "inj_on num (set ord)" by (rule inj_onI) (metis in_set_conv_nth n(3))
  show at: "num b < length ord \<and> ord ! num b = b" if "b \<in> set ord" for b using that n(3) by (metis in_set_conv_nth)
  show "b \<in> set (take k ord) \<longleftrightarrow> b \<in> set ord \<and> num b < k"
  proof
    assume "b \<in> set (take k ord)"
    then obtain j where "j < length ord" "j < k" "b = ord ! j" by (auto simp: in_set_conv_nth)
    with n(3) show "b \<in> set ord \<and> num b < k" by simp
  next
    assume "b \<in> set ord \<and> num b < k"
    with at have "num b < length (take k ord)" "take k ord ! num b = b" by auto
    then show "b \<in> set (take k ord)" by (metis nth_mem)
  qed
qed

text \<open>What a visit looks for: the meet of the chains of the predecessors that have a parent.\<close>

definition is_meet :: "(nat \<Rightarrow> nat) \<Rightarrow> nat set \<Rightarrow> nat \<Rightarrow> bool" where
  "is_meet I P w \<longleftrightarrow> I w \<noteq> NO_BLOCK \<and> chain I w = (\<Inter>p \<in> {p \<in> P. I p \<noteq> NO_BLOCK}. chain I p)"

lemma meet_below:
  assumes "tree e ord num I" "is_meet I P w" "t \<in> P" "I t \<noteq> NO_BLOCK"
  shows "chain I w \<subseteq> chain I t" "num w \<le> num t"
proof -
  show "chain I w \<subseteq> chain I t" using assms unfolding is_meet_def by auto
  then show "num w \<le> num t" using chain_tree [OF assms(1,4)] chain_self by blast
qed

lemma tree_upd:
  assumes "tree e ord num I" "b \<in> set ord" "b \<noteq> e" "I w \<noteq> NO_BLOCK" "num w < num b" "NO_BLOCK \<notin> set ord"
  shows "tree e ord num (I(b := w))"
proof -
  have t: "I e = e" "inj_on num (set ord)"
      "I x \<noteq> NO_BLOCK \<Longrightarrow> x \<in> set ord \<and> (x \<noteq> e \<longrightarrow> I (I x) \<noteq> NO_BLOCK \<and> num (I x) < num x)" for x
    using assms(1) unfolding tree_def by blast+
  have wn: "w \<noteq> b" "w \<noteq> NO_BLOCK" using assms(4-6) t(3) by auto
  have j: "(I(b := w)) x \<noteq> NO_BLOCK" if "I x \<noteq> NO_BLOCK" "w \<noteq> NO_BLOCK" for x using that by simp
  show ?thesis
    unfolding tree_def
  proof (intro conjI allI impI)
    fix x assume x: "(I(b := w)) x \<noteq> NO_BLOCK"
    show "x \<in> set ord" using x t(3) [of x] assms(2) by (cases "x = b") auto
    assume xe: "x \<noteq> e"
    show "num ((I(b := w)) x) < num x" using x xe t(3) [of x] assms(5) by (cases "x = b") auto
    show "(I(b := w)) ((I(b := w)) x) \<noteq> NO_BLOCK"
    proof (cases "x = b")
      case True
      then show ?thesis using wn(1) assms(4) by simp
    next
      case False
      then have "I (I x) \<noteq> NO_BLOCK" using x xe t(3) by simp
      then show ?thesis using False x j assms(3) t(1) wn by (cases "I x = b") auto
    qed
  qed (use t assms(3) in auto)
qed

text \<open>A meet keeps the blocks that dominate.\<close>

lemma dominates_meet:
  assumes I: "is_meet I P w" and P: "\<And>p. p \<in> P \<Longrightarrow> I p \<noteq> NO_BLOCK \<Longrightarrow> (p, b) \<in> E"
    and below: "\<And>p z. I p \<noteq> NO_BLOCK \<Longrightarrow> dominates E e z p \<Longrightarrow> z \<in> chain I p" and z: "dominates E e z b"
  shows "z \<in> insert b (chain I w)"
proof (cases "z = b")
  case False
  have "z \<in> chain I p" if "p \<in> P" "I p \<noteq> NO_BLOCK" for p
    using below [OF that(2) dominates_pred [OF z False P [OF that]]] .
  with I show ?thesis unfolding is_meet_def by blast
qed simp

section \<open>The first round\<close>

definition first_round :: "nat \<Rightarrow> nat list \<Rightarrow> (nat \<Rightarrow> nat) \<Rightarrow> (nat \<Rightarrow> nat list) \<Rightarrow> nat \<Rightarrow> (nat \<Rightarrow> nat) \<Rightarrow> bool" where
  "first_round e ord num pre r I \<longleftrightarrow> tree e ord num I \<and> (\<forall>b. I b \<noteq> NO_BLOCK \<longleftrightarrow> b \<in> set (take r ord)) \<and>
     (\<forall>b \<in> set (take r ord) - {e}. chain I (I b) = (\<Inter>p \<in> {p \<in> set (pre b) \<inter> set ord. num p < num b}. chain I p)) \<and>
     (\<forall>b \<in> set (take r ord). \<forall>z. dominates (edges ord pre) e z b \<longrightarrow> z \<in> chain I b)"

lemma first_round_start:
  assumes n: "numbered e ord num pre"
  shows "first_round e ord num pre 1 ((\<lambda>_. NO_BLOCK)(e := e))"
proof -
  note f = numbered_facts [OF n]
  have 1: "set (take 1 ord) = {e}"
  proof (cases ord)
    case (Cons a x)
    then show ?thesis using n by (simp add: numbered_def)
  qed (use n in \<open>simp add: numbered_def\<close>)
  have "e \<noteq> NO_BLOCK" using f(1) n by (auto simp: numbered_def)
  moreover have "z = e" if "dominates (edges ord pre) e z e" for z using dominates_entry [OF that] .
  ultimately show ?thesis using f unfolding first_round_def 1 by (auto simp: tree_def intro: chain_self)
qed

lemma first_round_step:
  assumes n: "numbered e ord num pre" and inv: "first_round e ord num pre r I" and r: "0 < r" "r < length ord"
    and w: "is_meet I (set (pre (ord ! r))) w"
  shows "first_round e ord num pre (Suc r) (I(ord ! r := w))"
proof -
  define b where "b = ord ! r"
  let ?J = "I(b := w)" and ?E = "edges ord pre"
  note f = numbered_facts [OF n]
  have b: "b \<in> set ord" "num b = r" using r n by (auto simp: b_def numbered_def)
  then have ne: "b \<noteq> e" using f(2) r by auto
  have t: "tree e ord num I" and as: "I x \<noteq> NO_BLOCK \<longleftrightarrow> x \<in> set ord \<and> num x < r" for x
    using inv f(5) by (auto simp: first_round_def)
  obtain p where p: "p \<in> set (pre b)" "p \<in> set ord" "num p < r" using n b ne by (auto simp: numbered_def)
  have w': "is_meet I (set (pre b)) w" using w by (simp add: b_def)
  then have iw: "I w \<noteq> NO_BLOCK" by (simp add: is_meet_def)
  have nw: "num w < num b" using meet_below(2) [OF t w' p(1)] as p b by auto
  have T: "tree e ord num ?J" by (rule tree_upd [OF t b(1) ne iw nw]) (use n in \<open>simp add: numbered_def\<close>)
  have ch: "chain ?J y = chain I y" if "I y \<noteq> NO_BLOCK" for y
  proof -
    have "b \<notin> chain I y" using chain_tree [OF t that, of b] as [of b] b by auto
    with chain_upd [OF t ne iw nw that] show ?thesis by simp
  qed
  have cb: "chain ?J b = insert b (chain I w)" by (rule chain_upd_parent [OF t iw nw])
  have pr: "{p \<in> set (pre b). I p \<noteq> NO_BLOCK} = {p \<in> set (pre b) \<inter> set ord. num p < num b}" using as b by auto
  have wm: "chain I w = (\<Inter>p \<in> {p \<in> set (pre b) \<inter> set ord. num p < num b}. chain I p)"
    using w' by (simp add: is_meet_def pr)
  have step: "set (take (Suc r) ord) = insert b (set (take r ord))" using r by (simp add: take_Suc_conv_app_nth b_def)
  have wn: "w \<noteq> b" using nw by auto
  show ?thesis
    unfolding first_round_def step b_def [symmetric]
  proof (intro conjI ballI allI impI)
    show "tree e ord num ?J" by (rule T)
    show "(?J x \<noteq> NO_BLOCK) = (x \<in> insert b (set (take r ord)))" for x
      using inv as [of w] iw n by (auto simp: first_round_def numbered_def)
    fix c assume c: "c \<in> insert b (set (take r ord)) - {e}"
    have sm: "chain ?J p = chain I p" if "p \<in> set (pre c) \<inter> set ord" "num p < num c" for p
      using ch [of p] as [of p] that c b f(5) by auto
    show "chain ?J (?J c) = (\<Inter>p \<in> {p \<in> set (pre c) \<inter> set ord. num p < num c}. chain ?J p)"
    proof (cases "c = b")
      case True
      then show ?thesis using sm ch [OF iw] wm by auto
    next
      case False
      then have ic: "I c \<noteq> NO_BLOCK" using c as f(5) by auto
      then have "I (I c) \<noteq> NO_BLOCK" using t c by (auto simp: tree_def)
      from ch [OF this] have "chain ?J (?J c) = chain I (I c)" using False by simp
      also have "\<dots> = (\<Inter>p \<in> {p \<in> set (pre c) \<inter> set ord. num p < num c}. chain I p)"
        using inv c False unfolding first_round_def by blast
      finally show ?thesis using sm by auto
    qed
  next
    fix c z assume c: "c \<in> insert b (set (take r ord))" and z: "dominates ?E e z c"
    have dm: "z \<in> chain I p" if "I p \<noteq> NO_BLOCK" "dominates ?E e z p" for p z
      using that inv by (simp add: first_round_def)
    show "z \<in> chain ?J c"
    proof (cases "c = b")
      case True
      have "z \<in> insert b (chain I w)"
        by (rule dominates_meet [OF w' _ dm]) (use z True as b in \<open>auto simp: edges_def\<close>)
      then show ?thesis using True cb by simp
    next
      case False
      then have "I c \<noteq> NO_BLOCK" using c as f(5) by auto
      with dm z ch show ?thesis by blast
    qed
  qed
qed

section \<open>The later rounds\<close>

text \<open>
  What every complete round leaves: all blocks have a parent, no parent is below a predecessor of smaller
  number, none is above the meet of all predecessors, and the chains hold all dominators.
\<close>

definition settled :: "nat \<Rightarrow> nat list \<Rightarrow> (nat \<Rightarrow> nat) \<Rightarrow> (nat \<Rightarrow> nat list) \<Rightarrow> (nat \<Rightarrow> nat) \<Rightarrow> bool" where
  "settled e ord num pre I \<longleftrightarrow> tree e ord num I \<and> (\<forall>b \<in> set ord. I b \<noteq> NO_BLOCK) \<and>
     (\<forall>b \<in> set ord - {e}. (\<forall>t \<in> set (pre b) \<inter> set ord. num t < num b \<longrightarrow> chain I (I b) \<subseteq> chain I t) \<and>
        (\<Inter>p \<in> set (pre b) \<inter> set ord. chain I p) \<subseteq> chain I (I b)) \<and>
     (\<forall>b \<in> set ord. \<forall>z. dominates (edges ord pre) e z b \<longrightarrow> z \<in> chain I b)"

lemma first_round_settled:
  assumes n: "numbered e ord num pre" and inv: "first_round e ord num pre (length ord) I"
  shows "settled e ord num pre I"
proof -
  have c: "chain I (I b) = (\<Inter>p \<in> {p \<in> set (pre b) \<inter> set ord. num p < num b}. chain I p)" if "b \<in> set ord - {e}" for b
    using inv that by (simp add: first_round_def)
  then have "chain I (I b) \<subseteq> chain I t" if "b \<in> set ord - {e}" "t \<in> set (pre b) \<inter> set ord" "num t < num b" for b t
    using that by blast
  moreover have "(\<Inter>p \<in> set (pre b) \<inter> set ord. chain I p) \<subseteq> chain I (I b)" if "b \<in> set ord - {e}" for b
    unfolding c [OF that] by blast
  ultimately show ?thesis using inv unfolding settled_def first_round_def by auto
qed

text \<open>Where \<open>b\<close> lies on the chain of \<open>y\<close>, the graph has a path from \<open>b\<close> to \<open>y\<close> through blocks of larger numbers.\<close>

lemma settled_path:
  assumes n: "numbered e ord num pre" and s: "settled e ord num pre I" and y: "y \<in> set ord" and b: "b \<in> chain I y"
  shows "(b, y) \<in> {(u, v). (u, v) \<in> edges ord pre \<and> num b \<le> num v}\<^sup>*"
  using y b
proof (induction "num y" arbitrary: y rule: less_induct)
  case less
  have t: "tree e ord num I" using s by (simp add: settled_def)
  have iy: "I y \<noteq> NO_BLOCK" using s less.prems(1) by (simp add: settled_def)
  show ?case
  proof (cases "b = y")
    case ne: False
    then have ye: "y \<noteq> e" using less.prems(2) tree_root [OF t] by auto
    then obtain p where p: "p \<in> set (pre y) \<inter> set ord" "num p < num y" using n less.prems(1) by (auto simp: numbered_def)
    have "b \<in> chain I (I y)" using less.prems(2) ne chain_rec [of I y] by auto
    moreover have "chain I (I y) \<subseteq> chain I p" using s less.prems(1) p ye unfolding settled_def by blast
    ultimately have "b \<in> chain I p" by blast
    moreover have "p \<in> set ord" using p(1) by blast
    ultimately have "(b, p) \<in> {(u, v). (u, v) \<in> edges ord pre \<and> num b \<le> num v}\<^sup>*"
      using less.hyps [OF p(2)] by blast
    moreover have "(p, y) \<in> edges ord pre" using p less.prems(1) by (simp add: edges_def)
    moreover have "num b \<le> num y" using chain_tree [OF t iy less.prems(2)] by simp
    ultimately show ?thesis by (auto intro: rtrancl_into_rtrancl)
  qed simp
qed

text \<open>
  In the middle of a round that started with \<open>S\<close>: the blocks before position \<open>r\<close> are visited, the others have
  their old parent. Chains only lose blocks, and a visited block that loses one from a chain of \<open>S\<close> loses
  it only with the blocks in between.
\<close>

definition later_round :: "nat \<Rightarrow> nat list \<Rightarrow> (nat \<Rightarrow> nat) \<Rightarrow> (nat \<Rightarrow> nat list) \<Rightarrow> (nat \<Rightarrow> nat) \<Rightarrow> nat \<Rightarrow> (nat \<Rightarrow> nat) \<Rightarrow> bool" where
  "later_round e ord num pre S r I \<longleftrightarrow> tree e ord num I \<and> (\<forall>b \<in> set ord. I b \<noteq> NO_BLOCK) \<and>
     (\<forall>y \<in> set ord. chain I y \<subseteq> chain S y) \<and>
     (\<forall>y \<in> set ord. r \<le> num y \<longrightarrow> I y = S y) \<and>
     (\<forall>t \<in> set ord. num t < r \<longrightarrow> (\<forall>i \<in> chain S t. chain I t \<inter> chain S i \<subseteq> chain I i)) \<and>
     (\<forall>b \<in> set ord - {e}. num b < r \<longrightarrow>
        (\<forall>t \<in> set (pre b) \<inter> set ord. num t < num b \<longrightarrow> chain I (I b) \<subseteq> chain I t) \<and>
        (\<Inter>p \<in> set (pre b) \<inter> set ord. chain I p) \<subseteq> chain I (I b)) \<and>
     (\<forall>b \<in> set ord. \<forall>z. dominates (edges ord pre) e z b \<longrightarrow> z \<in> chain I b)"

lemma later_round_start:
  assumes n: "numbered e ord num pre" and s: "settled e ord num pre S"
  shows "later_round e ord num pre S 1 S"
proof -
  note f = numbered_facts [OF n]
  have z: "t = e" if "t \<in> set ord" "num t < 1" for t using f(3) f(1) f(2) that by (auto simp: inj_on_def)
  have t: "tree e ord num S" using s by (simp add: settled_def)
  have "chain S t \<inter> chain S i \<subseteq> chain S i" for t i by blast
  then show ?thesis using s z unfolding later_round_def settled_def by auto
qed

lemma later_round_settled:
  assumes "numbered e ord num pre" "later_round e ord num pre S (length ord) I"
  shows "settled e ord num pre I"
  using assms(2) numbered_facts(4) [OF assms(1)] unfolding later_round_def settled_def by auto

lemma later_round_step:
  assumes n: "numbered e ord num pre" and s: "settled e ord num pre S" and inv: "later_round e ord num pre S r I"
    and r: "0 < r" "r < length ord" and w: "is_meet I (set (pre (ord ! r))) w"
  shows "later_round e ord num pre S (Suc r) (I(ord ! r := w)) \<and>
    (\<forall>y \<in> set ord. chain (I(ord ! r := w)) y \<subseteq> chain I y) \<and>
    (w \<noteq> I (ord ! r) \<longrightarrow> I (ord ! r) \<in> chain I (ord ! r) - chain (I(ord ! r := w)) (ord ! r))"
proof -
  define b where "b = ord ! r"
  let ?J = "I(b := w)" and ?E = "edges ord pre"
  note f = numbered_facts [OF n]
  have b: "b \<in> set ord" "num b = r" using r n by (auto simp: b_def numbered_def)
  then have ne: "b \<noteq> e" using f(2) r by auto
  have t: "tree e ord num I" and ts: "tree e ord num S" using inv s by (auto simp: later_round_def settled_def)
  have as: "I x \<noteq> NO_BLOCK \<longleftrightarrow> x \<in> set ord" for x
  proof
    show "x \<in> set ord" if "I x \<noteq> NO_BLOCK" using t that unfolding tree_def by blast
    show "I x \<noteq> NO_BLOCK" if "x \<in> set ord" using inv that unfolding later_round_def by blast
  qed
  have mono: "chain I y \<subseteq> chain S y" if "y \<in> set ord" for y using inv that by (simp add: later_round_def)
  have below: "chain I p \<inter> chain S i \<subseteq> chain I i" if "p \<in> set ord" "num p < r" "i \<in> chain S p" for p i
    using inv that by (simp add: later_round_def)
  have old: "I b = S b" using inv b by (simp add: later_round_def)
  have dm: "z \<in> chain I y" if "y \<in> set ord" "dominates ?E e z y" for y z using inv that by (simp add: later_round_def)
  obtain p where p: "p \<in> set (pre b)" "p \<in> set ord" "num p < r" using n b ne by (auto simp: numbered_def)
  have w': "is_meet I (set (pre b)) w" using w by (simp add: b_def)
  then have iw: "I w \<noteq> NO_BLOCK" and wc: "chain I w = (\<Inter>p \<in> set (pre b) \<inter> set ord. chain I p)"
    by (auto simp: is_meet_def as)
  have nw: "num w < num b" using meet_below(2) [OF t w' p(1)] as p b by auto
  have T: "tree e ord num ?J" by (rule tree_upd [OF t b(1) ne iw nw]) (use n in \<open>simp add: numbered_def\<close>)
  have sb: "S b \<in> chain S p" "S b \<in> set ord"
  proof -
    have "chain S (S b) \<subseteq> chain S p" using s p b ne unfolding settled_def by blast
    then show "S b \<in> chain S p" by auto
    then show "S b \<in> set ord" using chain_tree [OF ts _ \<open>S b \<in> chain S p\<close>] s p(2) by (simp add: settled_def)
  qed
  have lower: "chain I w \<subseteq> chain I (S b)"
  proof -
    have "chain I w \<subseteq> chain I p" using wc p by blast
    moreover have "chain I w \<subseteq> chain S (S b)"
    proof -
      have "chain I w \<subseteq> (\<Inter>p \<in> set (pre b) \<inter> set ord. chain S p)" using wc mono by blast
      also have "\<dots> \<subseteq> chain S (S b)" using s b ne unfolding settled_def by blast
      finally show ?thesis .
    qed
    ultimately show ?thesis using below [OF p(2,3) sb(1)] by blast
  qed
  have upd: "chain ?J y = (if b \<in> chain I y then (chain I y - chain I b) \<union> insert b (chain I w) else chain I y)"
    if "y \<in> set ord" for y using chain_upd [OF t ne iw nw] as that by blast
  have cb: "chain ?J b = insert b (chain I w)" by (rule chain_upd_parent [OF t iw nw])
  have cb0: "chain I b = insert b (chain I (S b))" using chain_rec [of I b] old by simp
  have shrink: "chain ?J y \<subseteq> chain I y" if "y \<in> set ord" for y
  proof (cases "b \<in> chain I y")
    case True
    then show ?thesis using upd [OF that] lower cb0 chain_sub [OF True] by auto
  qed (use upd [OF that] in simp)
  have keep: "chain ?J y = chain I y" if "y \<in> set ord" "num y < r" for y
    using upd [OF that(1)] chain_tree [OF t, of y b] as [of y] that b by auto
  have kw: "chain ?J w = chain I w" using keep as iw nw b by auto
  show ?thesis
    unfolding b_def [symmetric]
  proof (intro conjI)
    show "\<forall>y \<in> set ord. chain ?J y \<subseteq> chain I y" using shrink by blast
    show "w \<noteq> I b \<longrightarrow> I b \<in> chain I b - chain ?J b"
    proof
      assume nw: "w \<noteq> I b"
      have "w \<in> chain I (I b)" "I (I b) \<noteq> NO_BLOCK" using lower old chain_self [of w I] sb(2) as by auto
      with nw chain_antisym [OF t, of "I b" w] have "I b \<notin> chain I w" by blast
      moreover have "I b \<noteq> b" using t ne as b by (auto simp: tree_def)
      ultimately show "I b \<in> chain I b - chain ?J b" using cb cb0 old by auto
    qed
    show "later_round e ord num pre S (Suc r) ?J"
      unfolding later_round_def
    proof (intro conjI ballI allI impI)
      show "tree e ord num ?J" by (rule T)
      show "?J y \<noteq> NO_BLOCK" if "y \<in> set ord" for y using that as [of y] as [of w] iw n by (auto simp: numbered_def)
      show "chain ?J y \<subseteq> chain S y" if "y \<in> set ord" for y using shrink mono that by blast
      show "?J y = S y" if "y \<in> set ord" "Suc r \<le> num y" for y using inv that b by (auto simp: later_round_def)
      show "chain ?J y \<inter> chain S i \<subseteq> chain ?J i" if y: "y \<in> set ord" "num y < Suc r" "i \<in> chain S y" for y i
      proof (cases "y = b")
        case False
        then have "num y < r" using y b f(3) by (metis inj_onD less_SucE)
        moreover have "i \<in> set ord" "num i \<le> num y"
          using chain_tree [OF ts _ y(3)] s y(1) by (auto simp: settled_def)
        ultimately show ?thesis using keep [of y] keep [of i] below [of y i] y by auto
      next
        case yb: True
        show ?thesis
        proof (cases "i = b")
          case True
          then show ?thesis using yb by blast
        next
          case False
          then have i: "i \<in> chain S (S b)" using y(3) yb chain_rec [of S b] by auto
          then have si: "i \<in> chain S p" using chain_trans [OF sb(1)] by blast
          have io: "i \<in> set ord" "num i < r"
            using chain_tree [OF ts _ si] s p by (auto simp: settled_def)
          have "b \<notin> chain S i" using chain_tree [OF ts _, of i b] s io b by (auto simp: settled_def)
          then have "chain ?J b \<inter> chain S i \<subseteq> chain I w \<inter> chain S i" using cb by auto
          also have "\<dots> \<subseteq> chain I p \<inter> chain S i" using wc p by blast
          also have "\<dots> \<subseteq> chain I i" by (rule below [OF p(2,3) si])
          finally show ?thesis using yb keep [OF io] by simp
        qed
      qed
      fix c assume c: "c \<in> set ord - {e}" "num c < Suc r"
      have pc: "chain I (I c) \<subseteq> chain I t" if "c \<noteq> b" "t \<in> set (pre c) \<inter> set ord" "num t < num c" for t
        using inv c that b f(3) unfolding later_round_def by (metis Diff_iff inj_onD less_SucE)
      have ic: "?J c \<in> set ord" "num (?J c) < r" if "c \<noteq> b"
      proof -
        have "I c \<noteq> NO_BLOCK" using c as by blast
        then show "?J c \<in> set ord" using t c that as by (auto simp: tree_def)
        have "num c < r" using c b f(3) that by (metis Diff_iff inj_onD less_SucE)
        moreover have "num (I c) < num c" using t c as by (auto simp: tree_def)
        ultimately show "num (?J c) < r" using that by simp
      qed
      have kc: "chain ?J (?J c) = (if c = b then chain I w else chain I (I c))"
        using keep ic kw by auto
      show "chain ?J (?J c) \<subseteq> chain ?J t" if t: "t \<in> set (pre c) \<inter> set ord" "num t < num c" for t
      proof -
        have "num t < r" using t c by auto
        then show ?thesis using keep [of t] kc t wc pc by (cases "c = b") auto
      qed
      show "(\<Inter>p \<in> set (pre c) \<inter> set ord. chain ?J p) \<subseteq> chain ?J (?J c)"
      proof -
        have "(\<Inter>p \<in> set (pre c) \<inter> set ord. chain ?J p) \<subseteq> (\<Inter>p \<in> set (pre c) \<inter> set ord. chain I p)"
          using shrink by blast
        also have "\<dots> \<subseteq> chain ?J (?J c)"
        proof (cases "c = b")
          case False
          then have "num c < r" using c b f(3) by (metis Diff_iff inj_onD less_SucE)
          with inv c False show ?thesis unfolding kc later_round_def by auto
        qed (use kw wc in simp)
        finally show ?thesis .
      qed
    next
      fix y z assume y: "y \<in> set ord" and z: "dominates ?E e z y"
      have zi: "z \<in> chain I y" by (rule dm [OF y z])
      show "z \<in> chain ?J y"
      proof (cases "b \<in> chain I y \<and> z \<in> chain I b \<and> z \<noteq> b")
        case False
        then show ?thesis using upd [OF y] zi by auto
      next
        case True
        then have "z \<in> chain I (S b)" using cb0 by auto
        moreover have "I (S b) \<noteq> NO_BLOCK" "I b \<noteq> NO_BLOCK" using sb(2) b as by auto
        moreover from this have "num (I b) < num b" using t ne unfolding tree_def by blast
        ultimately have zb: "num z < num b" using chain_tree [OF t, of "S b" z] old by simp
        have "(b, y) \<in> {(u, v). (u, v) \<in> ?E \<and> num b \<le> num v}\<^sup>*"
          by (rule settled_path [OF n s y]) (use mono y True in blast)
        moreover have "{(u, v). (u, v) \<in> ?E \<and> num b \<le> num v} \<subseteq> {(u, v). (u, v) \<in> ?E \<and> v \<noteq> z}" using zb by auto
        ultimately have "(b, y) \<in> {(u, v). (u, v) \<in> ?E \<and> v \<noteq> z}\<^sup>*" using rtrancl_mono by blast
        from dominates_detour [OF this z] have zd: "dominates ?E e z b" .
        have "z \<in> insert b (chain I w)"
          by (rule dominates_meet [OF w' _ _ zd]) (use b as dm in \<open>auto simp: edges_def\<close>)
        with True upd [OF y] show ?thesis by auto
      qed
    qed
  qed
qed

section \<open>The result\<close>

text \<open>Where every parent is the meet of all predecessors, the chains are the dominators.\<close>

lemma chain_exact:
  assumes t: "tree e ord num I" and as: "\<forall>b \<in> set ord. I b \<noteq> NO_BLOCK"
    and fp: "\<forall>b \<in> set ord - {e}. chain I (I b) \<subseteq> (\<Inter>p \<in> set (pre b) \<inter> set ord. chain I p)"
    and dm: "\<forall>b \<in> set ord. \<forall>z. dominates (edges ord pre) e z b \<longrightarrow> z \<in> chain I b"
    and b: "b \<in> set ord"
  shows "z \<in> chain I b \<longleftrightarrow> dominates (edges ord pre) e z b"
proof
  have "z \<in> set xs" if "path (edges ord pre) e xs b" "z \<in> chain I b" for xs b z
    using that
  proof induction
    case start
    then show ?case using tree_root [OF t] by simp
  next
    case (extend xs p b)
    show ?case
    proof (cases "z = b \<or> b = e")
      case True
      then show ?thesis using extend.prems tree_root [OF t] by auto
    next
      case False
      have pb: "p \<in> set (pre b) \<inter> set ord" "b \<in> set ord - {e}" using extend.hyps False by (auto simp: edges_def)
      have "z \<in> chain I (I b)" using False extend.prems chain_rec [of I b] by auto
      with fp pb have "z \<in> chain I p" by blast
      with extend.IH show ?thesis by simp
    qed
  qed
  then show "z \<in> chain I b \<Longrightarrow> dominates (edges ord pre) e z b" by (auto simp: dominates_def)
qed (use dm b in blast)

definition weight :: "nat list \<Rightarrow> (nat \<Rightarrow> nat) \<Rightarrow> nat" where
  "weight ord I = (\<Sum>b \<in> set ord. card (chain I b))"

lemma weight_mono:
  assumes "tree e ord num I" "\<forall>b \<in> set ord. I b \<noteq> NO_BLOCK" "\<forall>y \<in> set ord. chain J y \<subseteq> chain I y"
  shows "weight ord J \<le> weight ord I" "b \<in> set ord \<Longrightarrow> z \<in> chain I b - chain J b \<Longrightarrow> weight ord J < weight ord I"
proof -
  have fin: "finite (chain I y)" if "y \<in> set ord" for y
    using chain_tree [OF assms(1)] assms(2) that by (meson List.finite_set finite_subset subsetI)
  then have le: "\<And>y. y \<in> set ord \<Longrightarrow> card (chain J y) \<le> card (chain I y)" using assms(3) card_mono by metis
  then show "weight ord J \<le> weight ord I" unfolding weight_def by (rule sum_mono)
  assume b: "b \<in> set ord" "z \<in> chain I b - chain J b"
  then have "card (chain J b) < card (chain I b)" using fin assms(3) by (intro psubset_card_mono) auto
  with b le show "weight ord J < weight ord I" unfolding weight_def by (intro sum_strict_mono_ex1) auto
qed

end
