(* ===== verification/Dominators.thy ===== *)
theory Dominators
  imports Dom_Chains CloneRemap
begin

text \<open>
  Reachability, reverse postorder, immediate dominators and dominance frontiers of
  \<open>src/compiler_passes.c\<close>. The static arrays are functions: \<open>num\<close> is \<^verbatim>\<open>licm_rpo_of\<close>, \<open>idom\<close> is
  \<^verbatim>\<open>licm_idom\<close>; \<open>ord\<close> is \<^verbatim>\<open>licm_rpo_arr\<close>. \<open>entry\<close> is \<^verbatim>\<open>fn->entry\<close>. \<open>None\<close> stands for a null block that is
  dereferenced and for a loop that does not end.
\<close>

section \<open>The program\<close>

definition compute_reachability :: "blockid \<Rightarrow> func \<Rightarrow> func option" where
  "compute_reachability entry fn =
     (if list_all (\<lambda>b. b \<noteq> None) (blocks fn) \<and> is_block fn entry
      then Some (set_reachable (fst (search_from (succs_at fn) (n_blocks fn) (\<lambda>_. True) (\<lambda>_. False) entry)) fn)
      else None)"

text \<open>
  The depth-first search keeps a stack of blocks with a mark: \<open>True\<close> once the successors are pushed. The first
  element is the top; a successor that finds the stack full is dropped.
\<close>

type_synonym dfs_stack = "(blockid \<times> bool) list"

definition push_succs :: "nat \<Rightarrow> (blockid \<Rightarrow> bool) \<Rightarrow> blockid list \<Rightarrow> dfs_stack \<Rightarrow> dfs_stack" where
  "push_succs n vis ss stk =
     fold (\<lambda>s stk. if s < n \<and> \<not> vis s \<and> length stk < MAX_BLOCKS then (s, False) # stk else stk) (rev ss) stk"

text \<open>The last argument is the array \<^verbatim>\<open>post\<close> read backwards, which is the reverse postorder.\<close>

function rpo_search :: "func \<Rightarrow> (blockid \<Rightarrow> bool) \<Rightarrow> dfs_stack \<Rightarrow> blockid list \<Rightarrow> blockid list option" where
  "rpo_search fn vis [] post = Some post"
| "rpo_search fn vis ((b, True) # stk) post = rpo_search fn vis stk (b # post)"
| "rpo_search fn vis ((b, False) # stk) post =
     (if vis b then rpo_search fn vis stk post
      else case blk_at fn b of None \<Rightarrow> None
        | Some blk \<Rightarrow> rpo_search fn (vis(b := True)) (push_succs (n_blocks fn) (vis(b := True)) (succs blk) ((b, True) # stk)) post)"
  by pat_completeness auto

termination
proof (relation "inv_image (less_than <*lex*> less_than) (\<lambda>(fn, vis, stk, post). (unvisited (n_blocks fn) vis, length stk))")
  fix fn :: func and vis :: "blockid \<Rightarrow> bool" and b stk post blk
  assume "\<not> vis b" "blk_at fn b = Some blk"
  then have "Suc (unvisited (n_blocks fn) (vis(b := True))) = unvisited (n_blocks fn) vis"
    using unvisited_mark blk_at_Some_lt by metis
  then show "((fn, vis(b := True), push_succs (n_blocks fn) (vis(b := True)) (succs blk) ((b, True) # stk), post),
      fn, vis, (b, False) # stk, post) \<in>
      inv_image (less_than <*lex*> less_than) (\<lambda>(fn, vis, stk, post). (unvisited (n_blocks fn) vis, length stk))" by simp
qed auto

definition rpo_index :: "blockid list \<Rightarrow> blockid \<Rightarrow> nat" where
  "rpo_index ord = fold (\<lambda>(i, b) t. t(b := i)) (enumerate 0 ord) (\<lambda>_. 4294967295)"

definition licm_compute_rpo :: "blockid \<Rightarrow> func \<Rightarrow> (blockid list \<times> (blockid \<Rightarrow> nat)) option" where
  "licm_compute_rpo entry fn = map_option (\<lambda>ord. (ord, rpo_index ord)) (rpo_search fn (\<lambda>_. False) [(entry, False)] [])"

text \<open>The two inner loops of \<^verbatim>\<open>licm_intersect\<close> move whichever block has the larger number.\<close>

partial_function (option) intersect_loop :: "(blockid \<Rightarrow> nat) \<Rightarrow> (blockid \<Rightarrow> blockid) \<Rightarrow> blockid \<Rightarrow> blockid \<Rightarrow> blockid option" where
  "intersect_loop num idom b1 b2 =
     (if num b1 = num b2 then Some b1
      else if num b1 > num b2
        then (if idom b1 = NO_BLOCK then Some NO_BLOCK else intersect_loop num idom (idom b1) b2)
        else (if idom b2 = NO_BLOCK then Some NO_BLOCK else intersect_loop num idom b1 (idom b2)))"

definition licm_intersect :: "(blockid \<Rightarrow> nat) \<Rightarrow> (blockid \<Rightarrow> blockid) \<Rightarrow> blockid \<Rightarrow> blockid \<Rightarrow> blockid option" where
  "licm_intersect num idom b1 b2 =
     (if b1 = NO_BLOCK then Some b2 else if b2 = NO_BLOCK then Some b1 else intersect_loop num idom b1 b2)"

fun meet_preds :: "nat \<Rightarrow> (blockid \<Rightarrow> nat) \<Rightarrow> (blockid \<Rightarrow> blockid) \<Rightarrow> blockid list \<Rightarrow> blockid \<Rightarrow> blockid option" where
  "meet_preds n num idom [] new = Some new"
| "meet_preds n num idom (p # ps) new =
     (if n \<le> p \<or> idom p = NO_BLOCK then meet_preds n num idom ps new
      else if new = NO_BLOCK then meet_preds n num idom ps p
      else case licm_intersect num idom p new of None \<Rightarrow> None | Some w \<Rightarrow> meet_preds n num idom ps w)"

definition dom_visit :: "func \<Rightarrow> (blockid \<Rightarrow> nat) \<Rightarrow> blockid \<Rightarrow> (blockid \<Rightarrow> blockid) \<times> bool \<Rightarrow> ((blockid \<Rightarrow> blockid) \<times> bool) option" where
  "dom_visit fn num b = (\<lambda>(idom, changed).
     case blk_at fn b of None \<Rightarrow> Some (idom, changed)
     | Some blk \<Rightarrow> if \<not> reachable blk then Some (idom, changed)
         else case meet_preds (n_blocks fn) num idom (preds blk) NO_BLOCK of None \<Rightarrow> None
           | Some w \<Rightarrow> if w \<noteq> NO_BLOCK \<and> idom b \<noteq> w then Some (idom(b := w), True) else Some (idom, changed))"

partial_function (option) dom_rounds :: "func \<Rightarrow> blockid list \<Rightarrow> (blockid \<Rightarrow> nat) \<Rightarrow> (blockid \<Rightarrow> blockid) \<Rightarrow> (blockid \<Rightarrow> blockid) option" where
  "dom_rounds fn ord num idom = (case fold_opt (dom_visit fn num) (tl ord) (idom, False) of None \<Rightarrow> None
     | Some r \<Rightarrow> if snd r then dom_rounds fn ord num (fst r) else Some (fst r))"

definition licm_compute_doms :: "blockid \<Rightarrow> func \<Rightarrow> blockid list \<Rightarrow> (blockid \<Rightarrow> nat) \<Rightarrow> (blockid \<Rightarrow> blockid) option" where
  "licm_compute_doms entry fn ord num = dom_rounds fn ord num ((\<lambda>_. NO_BLOCK)(entry := entry))"

fun dominates_within :: "nat \<Rightarrow> (blockid \<Rightarrow> blockid) \<Rightarrow> blockid \<Rightarrow> blockid \<Rightarrow> bool" where
  "dominates_within 0 idom d cur = False"
| "dominates_within (Suc k) idom d cur =
     (if cur = d then True
      else if idom cur = NO_BLOCK then False
      else if idom cur = cur then cur = d
      else dominates_within k idom d (idom cur))"

definition licm_dominates :: "(blockid \<Rightarrow> blockid) \<Rightarrow> blockid \<Rightarrow> blockid \<Rightarrow> bool" where
  "licm_dominates idom d b = dominates_within MAX_BLOCKS idom d b"

text \<open>The calls at the head of the passes that need dominators, after \<^verbatim>\<open>run_all_passes\<close> has marked the reachable blocks.\<close>

definition dominator_tree :: "blockid \<Rightarrow> func \<Rightarrow> (blockid \<Rightarrow> blockid) option" where
  "dominator_tree entry fn = (case licm_compute_rpo entry fn of None \<Rightarrow> None
     | Some (ord, num) \<Rightarrow> licm_compute_doms entry fn ord num)"

section \<open>Dominance frontiers\<close>

definition MAX_DF_PER_BLOCK :: nat where "MAX_DF_PER_BLOCK = 32"

definition df_add :: "blockid \<Rightarrow> blockid \<Rightarrow> (blockid \<Rightarrow> blockid list) \<Rightarrow> blockid \<Rightarrow> blockid list" where
  "df_add runner y df = (if y \<in> set (df runner) \<or> MAX_DF_PER_BLOCK \<le> length (df runner) then df
     else df(runner := df runner @ [y]))"

partial_function (option) df_run :: "(blockid \<Rightarrow> blockid) \<Rightarrow> blockid \<Rightarrow> blockid \<Rightarrow> (blockid \<Rightarrow> blockid list) \<Rightarrow> (blockid \<Rightarrow> blockid list) option" where
  "df_run idom y runner df = (if runner = idom y then Some df
     else if idom runner = NO_BLOCK then Some (df_add runner y df)
     else df_run idom y (idom runner) (df_add runner y df))"

definition df_block :: "func \<Rightarrow> (blockid \<Rightarrow> blockid) \<Rightarrow> blockid \<Rightarrow> (blockid \<Rightarrow> blockid list) \<Rightarrow> (blockid \<Rightarrow> blockid list) option" where
  "df_block fn idom y df = (case blk_at fn y of None \<Rightarrow> Some df
     | Some blk \<Rightarrow> if \<not> reachable blk \<or> idom y = NO_BLOCK then Some df
         else fold_opt (\<lambda>p df. if n_blocks fn \<le> p then Some df else df_run idom y p df) (preds blk) df)"

definition compute_dominance_frontiers :: "func \<Rightarrow> (blockid \<Rightarrow> blockid) \<Rightarrow> (blockid \<Rightarrow> blockid list) option" where
  "compute_dominance_frontiers fn idom = fold_opt (df_block fn idom) [0..<n_blocks fn] (\<lambda>_. [])"

section \<open>The reverse postorder\<close>

text \<open>The graph: all blocks exist, edge lists agree, and the edges fit the stack of the search.\<close>

definition graph_ok :: "blockid \<Rightarrow> func \<Rightarrow> bool" where
  "graph_ok entry fn \<longleftrightarrow> list_all (\<lambda>b. b \<noteq> None) (blocks fn) \<and> edges_ok fn \<and> is_block fn entry \<and>
     n_blocks fn \<le> MAX_BLOCKS \<and> (\<Sum>b < n_blocks fn. length (succs_at fn b)) < MAX_BLOCKS"

lemma push_succs_fits:
  "length stk + length ss \<le> MAX_BLOCKS \<Longrightarrow>
    push_succs n vis ss stk = List.map (\<lambda>s. (s, False)) (filter (\<lambda>s. s < n \<and> \<not> vis s) ss) @ stk"
proof (induction ss)
  case (Cons s ss)
  have "length (List.map (\<lambda>s. (s, False)) (filter (\<lambda>s. s < n \<and> \<not> vis s) ss) @ stk) < MAX_BLOCKS"
    unfolding length_append length_map
    using Cons.prems length_filter_le [of "\<lambda>s. s < n \<and> \<not> vis s" ss] length_Cons [of s ss] by linarith
  moreover have "push_succs n vis (s # ss) stk = (let t = push_succs n vis ss stk in
      if s < n \<and> \<not> vis s \<and> length t < MAX_BLOCKS then (s, False) # t else t)"
    by (simp add: push_succs_def Let_def)
  ultimately show ?case using Cons by (simp add: Let_def)
qed (simp add: push_succs_def)

text \<open>On the stack every block but the lowest has an expanded predecessor below it; in the order, before it.\<close>

fun stack_ok :: "blockid \<Rightarrow> func \<Rightarrow> dfs_stack \<Rightarrow> bool" where
  "stack_ok e fn [] = True"
| "stack_ok e fn ((b, f) # stk) = ((if stk = [] then b = e else \<exists>u. (u, True) \<in> set stk \<and> (u, b) \<in> cfg_edges fn) \<and> stack_ok e fn stk)"

fun order_ok :: "blockid \<Rightarrow> func \<Rightarrow> blockid set \<Rightarrow> blockid list \<Rightarrow> bool" where
  "order_ok e fn A [] = True"
| "order_ok e fn A (b # ord) = ((b = e \<or> (\<exists>u \<in> A. (u, b) \<in> cfg_edges fn)) \<and> order_ok e fn (insert b A) ord)"

abbreviation expanded :: "dfs_stack \<Rightarrow> blockid list" where "expanded stk \<equiv> List.map fst (filter snd stk)"

definition search_ok :: "blockid \<Rightarrow> func \<Rightarrow> (blockid \<Rightarrow> bool) \<Rightarrow> dfs_stack \<Rightarrow> blockid list \<Rightarrow> bool" where
  "search_ok e fn vis stk post \<longleftrightarrow> (\<forall>b. vis b \<longleftrightarrow> b \<in> set (expanded stk) \<union> set post) \<and> distinct (expanded stk @ post) \<and>
     stack_ok e fn stk \<and> order_ok e fn (set (expanded stk)) post \<and>
     (if stk = [] then post \<noteq> [] \<and> hd post = e
      else last stk = (e, True) \<or> (stk = [(e, False)] \<and> vis = (\<lambda>_. False))) \<and>
     (\<forall>b. vis b \<longrightarrow> (\<forall>s \<in> set (succs_at fn b). vis s \<or> (s, False) \<in> set stk)) \<and>
     (\<forall>b f. (b, f) \<in> set stk \<longrightarrow> is_block fn b \<and> (e, b) \<in> (cfg_edges fn)\<^sup>*) \<and>
     (\<forall>b. vis b \<longrightarrow> is_block fn b \<and> (e, b) \<in> (cfg_edges fn)\<^sup>*) \<and>
     length stk \<le> Suc (\<Sum>b \<in> {b. vis b}. length (succs_at fn b))"

lemma order_ok_mono: "order_ok e fn A ord \<Longrightarrow> A \<subseteq> B \<Longrightarrow> order_ok e fn B ord"
proof (induction ord arbitrary: A B)
  case (Cons b ord)
  have "order_ok e fn (insert b B) ord" by (rule Cons.IH [of "insert b A"]) (use Cons.prems in auto)
  then show ?case using Cons.prems by auto
qed simp

lemma stack_ok_last: "stack_ok e fn stk \<Longrightarrow> stk \<noteq> [] \<Longrightarrow> fst (last stk) = e"
  by (induction stk) (auto split: if_splits)

lemma succs_edge: "edges_ok fn \<Longrightarrow> s \<in> set (succs_at fn b) \<Longrightarrow> (b, s) \<in> cfg_edges fn \<and> s < n_blocks fn \<and> is_block fn s"
proof (cases "blk_at fn b")
  case (Some blk)
  assume "edges_ok fn" "s \<in> set (succs_at fn b)"
  then obtain sb where "blk_at fn s = Some sb" using Some unfolding edges_ok_def by (auto simp: succs_at_def) metis
  then show ?thesis
    using \<open>s \<in> set (succs_at fn b)\<close> blk_at_Some_lt [of fn s sb] by (auto simp: cfg_edges_def is_block_def)
qed (simp add: succs_at_def)

lemma stack_ok_push:
  assumes "\<And>s. s \<in> set ss \<Longrightarrow> (b, s) \<in> cfg_edges fn" "stack_ok e fn ((b, True) # stk)"
  shows "stack_ok e fn (List.map (\<lambda>s. (s, False)) ss @ (b, True) # stk)"
  using assms
proof (induction ss)
  case (Cons s ss)
  have "(b, s) \<in> cfg_edges fn" using Cons.prems(1) by simp
  then have "\<exists>u. (u, True) \<in> set (List.map (\<lambda>s. (s, False)) ss @ (b, True) # stk) \<and> (u, s) \<in> cfg_edges fn" by auto
  then show ?case using Cons by auto
qed simp

lemma expanded_push [simp]: "expanded (List.map (\<lambda>s. (s, False)) ss @ stk) = expanded stk"
  by (induction ss) auto

lemma search_okD:
  assumes "search_ok e fn vis stk post"
  shows "\<And>b. vis b \<longleftrightarrow> b \<in> set (expanded stk) \<or> b \<in> set post" "distinct (expanded stk @ post)" "stack_ok e fn stk"
    "order_ok e fn (set (expanded stk)) post"
    "if stk = [] then post \<noteq> [] \<and> hd post = e else last stk = (e, True) \<or> (stk = [(e, False)] \<and> vis = (\<lambda>_. False))"
    "\<And>b s. vis b \<Longrightarrow> s \<in> set (succs_at fn b) \<Longrightarrow> vis s \<or> (s, False) \<in> set stk"
    "\<And>b f. (b, f) \<in> set stk \<Longrightarrow> is_block fn b \<and> (e, b) \<in> (cfg_edges fn)\<^sup>*"
    "\<And>b. vis b \<Longrightarrow> is_block fn b \<and> (e, b) \<in> (cfg_edges fn)\<^sup>*"
    "length stk \<le> Suc (\<Sum>b \<in> {b. vis b}. length (succs_at fn b))"
  using assms unfolding search_ok_def by blast+

lemma search_okI:
  assumes "\<And>b. vis b \<longleftrightarrow> b \<in> set (expanded stk) \<or> b \<in> set post" "distinct (expanded stk @ post)" "stack_ok e fn stk"
    "order_ok e fn (set (expanded stk)) post"
    "if stk = [] then post \<noteq> [] \<and> hd post = e else last stk = (e, True) \<or> (stk = [(e, False)] \<and> vis = (\<lambda>_. False))"
    "\<And>b s. vis b \<Longrightarrow> s \<in> set (succs_at fn b) \<Longrightarrow> vis s \<or> (s, False) \<in> set stk"
    "\<And>b f. (b, f) \<in> set stk \<Longrightarrow> is_block fn b \<and> (e, b) \<in> (cfg_edges fn)\<^sup>*"
    "\<And>b. vis b \<Longrightarrow> is_block fn b \<and> (e, b) \<in> (cfg_edges fn)\<^sup>*"
    "length stk \<le> Suc (\<Sum>b \<in> {b. vis b}. length (succs_at fn b))"
  shows "search_ok e fn vis stk post"
  unfolding search_ok_def
  by (intro conjI) (use assms in blast)+

lemma search_ok_pop_done:
  assumes s: "search_ok e fn vis ((b, True) # stk) post"
  shows "search_ok e fn vis stk (b # post)"
proof (rule search_okI)
  note d = search_okD [OF s]
  show "order_ok e fn (set (expanded stk)) (b # post)"
    using d(3,4) by (auto split: if_splits simp: image_iff)
  show "if stk = [] then b # post \<noteq> [] \<and> hd (b # post) = e
      else last stk = (e, True) \<or> (stk = [(e, False)] \<and> vis = (\<lambda>_. False))"
    using d(5) by (auto split: if_splits)
  show "length stk \<le> Suc (\<Sum>b \<in> {b. vis b}. length (succs_at fn b))" using d(9) by simp
  show "vis c \<longleftrightarrow> c \<in> set (expanded stk) \<or> c \<in> set (b # post)" for c using d(1) [of c] by auto
  show "distinct (expanded stk @ b # post)" using d(2) by simp
  show "stack_ok e fn stk" using d(3) by simp
  show "vis c \<Longrightarrow> t \<in> set (succs_at fn c) \<Longrightarrow> vis t \<or> (t, False) \<in> set stk" for c t using d(6) [of c t] by simp
  show "(c, f) \<in> set stk \<Longrightarrow> is_block fn c \<and> (e, c) \<in> (cfg_edges fn)\<^sup>*" for c f using d(7) [of c f] by simp
  show "vis c \<Longrightarrow> is_block fn c \<and> (e, c) \<in> (cfg_edges fn)\<^sup>*" for c by (rule d(8))
qed

lemma search_ok_pop_seen:
  assumes s: "search_ok e fn vis ((b, False) # stk) post" and b: "vis b"
  shows "search_ok e fn vis stk post"
proof (rule search_okI)
  note d = search_okD [OF s]
  show "if stk = [] then post \<noteq> [] \<and> hd post = e else last stk = (e, True) \<or> (stk = [(e, False)] \<and> vis = (\<lambda>_. False))"
    using d(5) b by (auto split: if_splits)
  show "order_ok e fn (set (expanded stk)) post" using d(4) by simp
  show "length stk \<le> Suc (\<Sum>b \<in> {b. vis b}. length (succs_at fn b))" using d(9) by simp
  show "vis c \<longleftrightarrow> c \<in> set (expanded stk) \<or> c \<in> set post" for c using d(1) [of c] by simp
  show "distinct (expanded stk @ post)" using d(2) by simp
  show "stack_ok e fn stk" using d(3) by simp
  show "vis c \<Longrightarrow> t \<in> set (succs_at fn c) \<Longrightarrow> vis t \<or> (t, False) \<in> set stk" for c t using d(6) [of c t] b by auto
  show "(c, f) \<in> set stk \<Longrightarrow> is_block fn c \<and> (e, c) \<in> (cfg_edges fn)\<^sup>*" for c f using d(7) [of c f] by simp
  show "vis c \<Longrightarrow> is_block fn c \<and> (e, c) \<in> (cfg_edges fn)\<^sup>*" for c by (rule d(8))
qed

lemma search_ok_expand:
  assumes g: "graph_ok e fn" and s: "search_ok e fn vis ((b, False) # stk) post" and b: "\<not> vis b" "blk_at fn b = Some blk"
  shows "search_ok e fn (vis(b := True)) (push_succs (n_blocks fn) (vis(b := True)) (succs blk) ((b, True) # stk)) post"
proof -
  let ?v = "vis(b := True)"
  let ?ss = "filter (\<lambda>s. s < n_blocks fn \<and> \<not> ?v s) (succs blk)"
  let ?stk = "List.map (\<lambda>s. (s, False)) ?ss @ (b, True) # stk"
  have sb: "succs_at fn b = succs blk" by (simp add: succs_at_def b)
  have eo: "edges_ok fn" using g by (simp add: graph_ok_def)
  have vs: "{c. ?v c} = insert b {c. vis c}" by auto
  note d = search_okD [OF s]
  have "{c. vis c} \<subseteq> set (expanded ((b, False) # stk)) \<union> set post" using d(1) by blast
  then have fin: "finite {c. vis c}" by (rule finite_subset) simp
  have sum: "(\<Sum>c \<in> {c. ?v c}. length (succs_at fn c)) = length (succs blk) + (\<Sum>c \<in> {c. vis c}. length (succs_at fn c))"
    unfolding vs using fin b(1) by (subst sum.insert) (auto simp: sb)
  have bk: "is_block fn b" "(e, b) \<in> (cfg_edges fn)\<^sup>*" using d(7) by auto
  have "c < n_blocks fn" if "?v c" for c
  proof -
    have "is_block fn c" using that bk d(8) [of c] by (cases "c = b") auto
    then show ?thesis by (auto simp: is_block_def dest: blk_at_Some_lt)
  qed
  then have "(\<Sum>c \<in> {c. ?v c}. length (succs_at fn c)) \<le> (\<Sum>c < n_blocks fn. length (succs_at fn c))"
    by (intro sum_mono2) auto
  with g sum d(9) have fit: "length ((b, True) # stk) + length (succs blk) \<le> MAX_BLOCKS" by (simp add: graph_ok_def)
  have eq: "push_succs (n_blocks fn) ?v (succs blk) ((b, True) # stk) = ?stk" by (rule push_succs_fits [OF fit])
  have ed: "(b, c) \<in> cfg_edges fn" "c < n_blocks fn" "is_block fn c" if "c \<in> set (succs blk)" for c
    using succs_edge [OF eo, of c b] that sb by auto
  have ex: "expanded ?stk = b # expanded stk" by simp
  show ?thesis
    unfolding eq
  proof (rule search_okI)
    show "?v c \<longleftrightarrow> c \<in> set (expanded ?stk) \<or> c \<in> set post" for c unfolding ex using d(1) [of c] by simp
    show "distinct (expanded ?stk @ post)" unfolding ex using d(1) [of b] d(2) b(1) by simp
    show "stack_ok e fn ?stk"
    proof (rule stack_ok_push)
      show "(b, c) \<in> cfg_edges fn" if "c \<in> set ?ss" for c using that ed by auto
      show "stack_ok e fn ((b, True) # stk)" using d(3) by simp
    qed
    show "order_ok e fn (set (expanded ?stk)) post" unfolding ex by (rule order_ok_mono [OF d(4)]) auto
    show "if ?stk = [] then post \<noteq> [] \<and> hd post = e else last ?stk = (e, True) \<or> (?stk = [(e, False)] \<and> ?v = (\<lambda>_. False))"
      using d(5) by (auto split: if_splits)
    show "?v t \<or> (t, False) \<in> set ?stk" if "?v c" "t \<in> set (succs_at fn c)" for c t
    proof (cases "c = b")
      case True
      then have "t \<in> set (succs blk)" using that sb by simp
      then show ?thesis using ed by auto
    next
      case False
      then show ?thesis using d(6) [of c t] that by auto
    qed
    show "is_block fn c \<and> (e, c) \<in> (cfg_edges fn)\<^sup>*" if "(c, f) \<in> set ?stk" for c f
    proof (cases "c \<in> set ?ss")
      case True
      then show ?thesis using ed bk by (auto intro: rtrancl_into_rtrancl)
    next
      case False
      then show ?thesis using that d(7) [of c f] bk by auto
    qed
    show "is_block fn c \<and> (e, c) \<in> (cfg_edges fn)\<^sup>*" if "?v c" for c using that d(8) [of c] bk by (cases "c = b") auto
    show "length ?stk \<le> Suc (\<Sum>c \<in> {c. ?v c}. length (succs_at fn c))"
      using d(9) sum length_filter_le [of "\<lambda>s. s < n_blocks fn \<and> \<not> ?v s" "succs blk"] by (simp del: length_filter_le)
  qed
qed

lemma rpo_search_ok:
  assumes "graph_ok e fn" "search_ok e fn vis stk post"
  shows "\<exists>ord vis'. rpo_search fn vis stk post = Some ord \<and> search_ok e fn vis' [] ord"
  using assms
proof (induction fn vis stk post rule: rpo_search.induct)
  case (2 fn vis b stk post)
  then show ?case using search_ok_pop_done by auto
next
  case (3 fn vis b stk post)
  show ?case
  proof (cases "vis b")
    case True
    then show ?thesis using 3(1,3,4) search_ok_pop_seen by auto
  next
    case False
    have "is_block fn b" using search_okD(7) [OF 3(4)] by auto
    then obtain blk where b: "blk_at fn b = Some blk" by (auto simp: is_block_def)
    from 3(2) [OF False b 3(3) search_ok_expand [OF 3(3,4) False b]] False b show ?thesis by (simp del: fun_upd_apply)
  qed
qed auto

lemma search_ok_start: "is_block fn e \<Longrightarrow> search_ok e fn (\<lambda>_. False) [(e, False)] []"
  by (rule search_okI) auto

lemma rpo_index_nth: "distinct ord \<Longrightarrow> j < length ord \<Longrightarrow> rpo_index ord (ord ! j) = j"
proof -
  have "fold (\<lambda>(i, b) t. t(b := i)) (enumerate k ord) t (ord ! j) = k + j" if "distinct ord" "j < length ord" for k t
    using that
  proof (induction ord arbitrary: k t j)
    case (Cons a ord)
    have keep: "fold (\<lambda>(i, b) t. t(b := i)) (enumerate k ord) t a = t a" if "a \<notin> set ord" for k t
      using that by (induction ord arbitrary: k t) auto
    have step: "fold (\<lambda>(i, b) t. t(b := i)) (enumerate k (a # ord)) t = fold (\<lambda>(i, b) t. t(b := i)) (enumerate (Suc k) ord) (t(a := k))"
      by simp
    show ?case
    proof (cases j)
      case 0
      have "a \<notin> set ord" using Cons.prems by simp
      from keep [OF this] show ?thesis unfolding step 0 nth_Cons_0 by simp
    next
      case (Suc i)
      have "distinct ord" "i < length ord" using Cons.prems Suc by simp_all
      then show ?thesis unfolding step Suc nth_Cons_Suc by (subst Cons.IH) auto
    qed
  qed simp
  from this [of 0] show "distinct ord \<Longrightarrow> j < length ord \<Longrightarrow> rpo_index ord (ord ! j) = j" by (simp add: rpo_index_def)
qed

lemma order_ok_nth:
  "order_ok e fn A ord \<Longrightarrow> j < length ord \<Longrightarrow> ord ! j = e \<or> (\<exists>u \<in> A \<union> set (take j ord). (u, ord ! j) \<in> cfg_edges fn)"
proof (induction ord arbitrary: A j)
  case (Cons b ord)
  show ?case
  proof (cases j)
    case (Suc k)
    then have "ord ! k = e \<or> (\<exists>u \<in> insert b A \<union> set (take k ord). (u, ord ! k) \<in> cfg_edges fn)"
      using Cons.IH [of "insert b A" k] Cons.prems by simp
    with Suc show ?thesis by auto
  qed (use Cons.prems in auto)
qed simp

definition preds_at :: "func \<Rightarrow> blockid \<Rightarrow> blockid list" where
  "preds_at fn b = (case blk_at fn b of None \<Rightarrow> [] | Some blk \<Rightarrow> preds blk)"

lemma preds_edge: "edges_ok fn \<Longrightarrow> p \<in> set (preds_at fn b) \<longleftrightarrow> (p, b) \<in> cfg_edges fn"
proof
  assume e: "edges_ok fn" and p: "p \<in> set (preds_at fn b)"
  then obtain blk where b: "blk_at fn b = Some blk" "p \<in> set (preds blk)" by (cases "blk_at fn b") (auto simp: preds_at_def)
  with e obtain pb where "blk_at fn p = Some pb" "b \<in> set (succs pb)" unfolding edges_ok_def by blast
  with b show "(p, b) \<in> cfg_edges fn" by (simp add: cfg_edges_def succs_at_def is_block_def)
next
  assume e: "edges_ok fn" and "(p, b) \<in> cfg_edges fn"
  then obtain pb where b: "blk_at fn p = Some pb" "b \<in> set (succs pb)"
    by (cases "blk_at fn p") (auto simp: cfg_edges_def succs_at_def)
  with e obtain blk where "blk_at fn b = Some blk" "p \<in> set (preds blk)" unfolding edges_ok_def by blast
  then show "p \<in> set (preds_at fn b)" by (simp add: preds_at_def)
qed

abbreviation reached :: "blockid \<Rightarrow> func \<Rightarrow> blockid set" where
  "reached e fn \<equiv> {b. (e, b) \<in> (cfg_edges fn)\<^sup>*}"

lemma licm_compute_rpo_spec:
  assumes g: "graph_ok e fn"
  shows "\<exists>ord. licm_compute_rpo e fn = Some (ord, rpo_index ord) \<and> numbered e ord (rpo_index ord) (preds_at fn) \<and>
    set ord = reached e fn \<and> (\<forall>b \<in> set ord. is_block fn b)"
proof -
  have eb: "is_block fn e" and eo: "edges_ok fn" and nb: "n_blocks fn \<le> MAX_BLOCKS" using g by (auto simp: graph_ok_def)
  obtain ord vis where r: "rpo_search fn (\<lambda>_. False) [(e, False)] [] = Some ord" and s: "search_ok e fn vis [] ord"
    using rpo_search_ok [OF g search_ok_start [OF eb]] by blast
  note d = search_okD [OF s]
  have v: "vis b \<longleftrightarrow> b \<in> set ord" for b using d(1) [of b] by simp
  have bl: "is_block fn b" if "b \<in> set ord" for b using d(8) v that by blast
  have di: "distinct ord" using d(2) by simp
  have "b \<in> set ord" if "(e, b) \<in> (cfg_edges fn)\<^sup>*" for b
    using that
  proof induction
    case base
    then show ?case using d(5) by (metis hd_in_set)
  next
    case (step y z)
    then have "z \<in> set (succs_at fn y)" by (simp add: cfg_edges_def)
    from d(6) [OF _ this] v step.IH show ?case by simp
  qed
  then have so: "set ord = reached e fn" using d(8) v by blast
  have "numbered e ord (rpo_index ord) (preds_at fn)"
    unfolding numbered_def
  proof (intro conjI allI impI ballI)
    show "ord \<noteq> []" "hd ord = e" using d(5) by auto
    show "NO_BLOCK \<notin> set ord"
      using bl nb by (fastforce simp: is_block_def NO_BLOCK_def MAX_BLOCKS_def dest: blk_at_Some_lt)
    show "rpo_index ord (ord ! j) = j" if "j < length ord" for j using rpo_index_nth [OF di that] .
    fix b assume b: "b \<in> set ord - {e}"
    then obtain j where j: "j < length ord" "b = ord ! j" by (auto simp: in_set_conv_nth)
    then obtain u where u: "u \<in> set (take j ord)" "(u, b) \<in> cfg_edges fn"
      using order_ok_nth [OF d(4) j(1)] b by auto
    then obtain i where i: "i < j" "u = ord ! i" by (auto simp: in_set_conv_nth)
    have "u \<in> set (preds_at fn b) \<inter> set ord" using u preds_edge [OF eo] by (auto dest: in_set_takeD)
    moreover have "rpo_index ord u < rpo_index ord b" using i j rpo_index_nth [OF di] by simp
    ultimately show "\<exists>t \<in> set (preds_at fn b) \<inter> set ord. rpo_index ord t < rpo_index ord b" by blast
  qed (use di in simp)
  with r so bl show ?thesis by (auto simp: licm_compute_rpo_def)
qed

text \<open>Paths from the entry do not leave the order.\<close>

lemma path_edges:
  assumes "edges_ok fn" "set ord = reached e fn"
  shows "path (edges ord (preds_at fn)) e xs b \<longleftrightarrow> path (cfg_edges fn) e xs b"
proof
  show "path (edges ord (preds_at fn)) e xs b \<Longrightarrow> path (cfg_edges fn) e xs b"
    by (induction rule: path.induct) (auto simp: edges_def preds_edge [OF assms(1)] intro: path.intros)
  assume "path (cfg_edges fn) e xs b"
  then show "path (edges ord (preds_at fn)) e xs b"
  proof induction
    case (extend xs p b)
    have "(e, p) \<in> (cfg_edges fn)\<^sup>*" using extend.hyps(1) path_rtrancl by blast
    with extend.hyps(2) assms preds_edge [OF assms(1)] have "(p, b) \<in> edges ord (preds_at fn)"
      by (auto simp: edges_def intro: rtrancl_into_rtrancl)
    with extend.IH show ?case by (rule path.extend)
  qed (rule path.start)
qed

lemma dominates_edges:
  "edges_ok fn \<Longrightarrow> set ord = reached e fn \<Longrightarrow> dominates (edges ord (preds_at fn)) e = dominates (cfg_edges fn) e"
  by (intro ext) (simp add: dominates_def path_edges)

section \<open>The meet of two chains\<close>

lemma intersect_loop_meet:
  assumes t: "tree e ord num I" and n: "NO_BLOCK \<notin> set ord" and b: "I b1 \<noteq> NO_BLOCK" "I b2 \<noteq> NO_BLOCK"
    and e: "num e = 0"
  shows "\<exists>w. intersect_loop num I b1 b2 = Some w \<and> I w \<noteq> NO_BLOCK \<and> chain I w = chain I b1 \<inter> chain I b2"
  using b
proof (induction "num b1 + num b2" arbitrary: b1 b2 rule: less_induct)
  case less
  have o: "b1 \<in> set ord" "b2 \<in> set ord" using t less.prems by (auto simp: tree_def)
  have up: "I b \<noteq> NO_BLOCK" "I (I b) \<noteq> NO_BLOCK" "num (I b) < num b" "chain I b = insert b (chain I (I b))"
    "b \<notin> chain I c" if "I b \<noteq> NO_BLOCK" "num c < num b" "I c \<noteq> NO_BLOCK" for b c
  proof -
    have "b \<noteq> e" using that(2) e by auto
    then show "I b \<noteq> NO_BLOCK" "I (I b) \<noteq> NO_BLOCK" "num (I b) < num b" using t that(1) by (auto simp: tree_def)
    show "chain I b = insert b (chain I (I b))" by (rule chain_rec)
    show "b \<notin> chain I c" using chain_tree [OF t that(3), of b] that(2) by auto
  qed
  consider "num b1 = num b2" | "num b2 < num b1" | "num b1 < num b2" by linarith
  then show ?case
  proof cases
    case 1
    then have "b1 = b2" using t o unfolding tree_def by (meson inj_onD)
    then show ?thesis using less.prems by (subst intersect_loop.simps) simp
  next
    case 2
    note u = up [OF less.prems(1) 2 less.prems(2)]
    have "num (I b1) + num b2 < num b1 + num b2" using u by simp
    from less.hyps [OF this u(2) less.prems(2)] 2 u show ?thesis by (subst intersect_loop.simps) auto
  next
    case 3
    note u = up [OF less.prems(2) 3 less.prems(1)]
    have "num b1 + num (I b2) < num b1 + num b2" using u by simp
    from less.hyps [OF this less.prems(1) u(2)] 3 u show ?thesis by (subst intersect_loop.simps) auto
  qed
qed

lemma meet_preds_meet:
  assumes t: "tree e ord num I" and n: "NO_BLOCK \<notin> set ord" and e: "num e = 0" and ps: "\<forall>p \<in> set ps. p < n"
    and new: "new \<noteq> NO_BLOCK \<Longrightarrow> I new \<noteq> NO_BLOCK"
  shows "\<exists>w. meet_preds n num I ps new = Some w \<and>
    (if new = NO_BLOCK \<and> (\<forall>p \<in> set ps. I p = NO_BLOCK) then w = NO_BLOCK
     else w \<noteq> NO_BLOCK \<and> I w \<noteq> NO_BLOCK \<and>
       chain I w = (\<Inter>p \<in> {p \<in> set ps. I p \<noteq> NO_BLOCK}. chain I p) \<inter> (if new = NO_BLOCK then UNIV else chain I new))"
  using ps new
proof (induction ps arbitrary: new)
  case (Cons p ps)
  have no: "b \<noteq> NO_BLOCK" if "I b \<noteq> NO_BLOCK" for b using that t n by (auto simp: tree_def)
  have q: "\<forall>p \<in> set ps. p < n" "\<not> n \<le> p" using Cons.prems(1) by auto
  define P where "P = {q \<in> set ps. I q \<noteq> NO_BLOCK}"
  show ?case
  proof (cases "I p = NO_BLOCK")
    case True
    then have r: "{q \<in> set (p # ps). I q \<noteq> NO_BLOCK} = {q \<in> set ps. I q \<noteq> NO_BLOCK}"
        "(\<forall>q \<in> set (p # ps). I q = NO_BLOCK) \<longleftrightarrow> (\<forall>q \<in> set ps. I q = NO_BLOCK)"
        "meet_preds n num I (p # ps) new = meet_preds n num I ps new" by auto
    show ?thesis unfolding r by (rule Cons.IH [OF q(1) Cons.prems(2)])
  next
    case ip: False
    have st: "{q \<in> set (p # ps). I q \<noteq> NO_BLOCK} = insert p P" "(\<forall>q \<in> set (p # ps). I q = NO_BLOCK) \<longleftrightarrow> False"
      using ip by (auto simp: P_def)
    have IH: "\<exists>w. meet_preds n num I ps c = Some w \<and> w \<noteq> NO_BLOCK \<and> I w \<noteq> NO_BLOCK \<and> chain I w = (\<Inter>p \<in> P. chain I p) \<inter> chain I c"
      if "I c \<noteq> NO_BLOCK" for c
      using Cons.IH [OF q(1), of c, unfolded P_def [symmetric]] that no [OF that] by simp
    show ?thesis
    proof (cases "new = NO_BLOCK")
      case True
      obtain w where "meet_preds n num I ps p = Some w" "w \<noteq> NO_BLOCK" "I w \<noteq> NO_BLOCK"
        "chain I w = (\<Inter>p \<in> P. chain I p) \<inter> chain I p" using IH [OF ip] by blast
      then show ?thesis unfolding st using True ip q(2) by auto
    next
      case False
      then obtain w where w: "intersect_loop num I p new = Some w" "I w \<noteq> NO_BLOCK" "chain I w = chain I p \<inter> chain I new"
        using intersect_loop_meet [OF t n ip Cons.prems(2) e] by blast
      obtain v where "meet_preds n num I ps w = Some v" "v \<noteq> NO_BLOCK" "I v \<noteq> NO_BLOCK"
        "chain I v = (\<Inter>p \<in> P. chain I p) \<inter> chain I w" using IH [OF w(2)] by blast
      then show ?thesis unfolding st using w(1,3) False ip q(2) no [OF ip] by (auto simp: licm_intersect_def)
    qed
  qed
qed auto

section \<open>The rounds\<close>

definition marks_ok :: "blockid \<Rightarrow> func \<Rightarrow> bool" where
  "marks_ok e fn \<longleftrightarrow> (\<forall>b blk. blk_at fn b = Some blk \<longrightarrow> (reachable blk \<longleftrightarrow> b \<in> reached e fn))"

text \<open>The setting of the rounds: the order the search gave for a function with correct marks.\<close>

definition rounds_ok :: "blockid \<Rightarrow> func \<Rightarrow> blockid list \<Rightarrow> (blockid \<Rightarrow> nat) \<Rightarrow> bool" where
  "rounds_ok e fn ord num \<longleftrightarrow> numbered e ord num (preds_at fn) \<and> edges_ok fn \<and> marks_ok e fn \<and>
     set ord = reached e fn \<and> (\<forall>b \<in> set ord. is_block fn b)"

lemma dom_visit_meet:
  assumes g: "rounds_ok e fn ord num" and t: "tree e ord num I" and b: "b \<in> set ord"
    and p: "p \<in> set (preds_at fn b)" "I p \<noteq> NO_BLOCK"
  shows "\<exists>w. is_meet I (set (preds_at fn b)) w \<and> dom_visit fn num b (I, ch) = Some (I(b := w), ch \<or> I b \<noteq> w)"
proof -
  note n = g [unfolded rounds_ok_def]
  have nb: "NO_BLOCK \<notin> set ord" using n unfolding numbered_def by blast
  obtain blk where k: "blk_at fn b = Some blk" using n b by (auto simp: is_block_def)
  have r: "reachable blk" using n b k unfolding marks_ok_def by blast
  have pr: "preds_at fn b = preds blk" by (simp add: preds_at_def k)
  have lt: "\<forall>p \<in> set (preds blk). p < n_blocks fn"
    using n k blk_at_Some_lt unfolding edges_ok_def by blast
  have e0: "num e = 0" using n numbered_facts(2) by blast
  obtain w where w: "meet_preds (n_blocks fn) num I (preds blk) NO_BLOCK = Some w"
    "w \<noteq> NO_BLOCK" "is_meet I (set (preds blk)) w"
    using meet_preds_meet [OF t nb e0 lt, of NO_BLOCK] p pr by (auto simp: is_meet_def split: if_splits)
  have "I(b := w) = I" if "I b = w" using that by auto
  with w k r have "dom_visit fn num b (I, ch) = Some (I(b := w), ch \<or> I b \<noteq> w)" by (auto simp: dom_visit_def)
  with w(3) pr show ?thesis by auto
qed

lemma back_pred:
  assumes "numbered e ord num pre" "0 < r" "r < length ord"
  obtains p where "p \<in> set (pre (ord ! r))" "p \<in> set ord" "num p < r" "ord ! r \<in> set ord" "ord ! r \<noteq> e"
proof -
  have n: "num (ord ! r) = r" "ord ! r \<in> set ord" using assms by (auto simp: numbered_def)
  then have "ord ! r \<noteq> e" using numbered_facts(2) [OF assms(1)] assms(2) by auto
  with n assms(1) show thesis unfolding numbered_def by (metis DiffI Int_iff empty_iff insert_iff that)
qed

lemma first_round_runs:
  assumes g: "rounds_ok e fn ord num"
    and inv: "first_round e ord num (preds_at fn) r I" and r: "0 < r" "r \<le> length ord"
  shows "\<exists>I' ch'. fold_opt (dom_visit fn num) (drop r ord) (I, ch) = Some (I', ch') \<and> settled e ord num (preds_at fn) I' \<and>
    (ch \<or> r < length ord \<longrightarrow> ch')"
  using inv r
proof (induction "length ord - r" arbitrary: r I ch)
  case 0
  then have "r = length ord" by simp
  with 0 first_round_settled g show ?case by (auto simp: rounds_ok_def)
next
  case (Suc k)
  have n: "numbered e ord num (preds_at fn)" using g by (simp add: rounds_ok_def)
  have r: "r < length ord" using Suc.hyps(2) by simp
  obtain p where p: "p \<in> set (preds_at fn (ord ! r))" "p \<in> set ord" "num p < r" "ord ! r \<in> set ord"
    using back_pred [OF n Suc.prems(2) r] by metis
  have "tree e ord num I" "I p \<noteq> NO_BLOCK"
    using Suc.prems(1) p numbered_facts(5) [OF n] by (auto simp: first_round_def)
  from dom_visit_meet [OF g this(1) p(4,1) this(2)] obtain w where
    w: "is_meet I (set (preds_at fn (ord ! r))) w" "dom_visit fn num (ord ! r) (I, ch) = Some (I(ord ! r := w), ch \<or> I (ord ! r) \<noteq> w)"
    by blast
  have d: "drop r ord = ord ! r # drop (Suc r) ord" using r by (simp add: Cons_nth_drop_Suc)
  have "k = length ord - Suc r" "Suc r \<le> length ord" using Suc.hyps(2) by auto
  note IH = Suc.hyps(1) [OF this(1) first_round_step [OF n Suc.prems(1,2) r w(1)] _ this(2), of "ch \<or> I (ord ! r) \<noteq> w"]
  have new: "I x \<noteq> NO_BLOCK \<longleftrightarrow> x \<in> set ord \<and> num x < r" for x
    using Suc.prems(1) numbered_facts(5) [OF n] by (simp add: first_round_def)
  have "I (ord ! r) = NO_BLOCK" using new [of "ord ! r"] n r by (auto simp: numbered_def)
  moreover have "w \<noteq> NO_BLOCK" using new [of w] w(1) n by (auto simp: is_meet_def numbered_def)
  ultimately show ?case unfolding d fold_opt.simps w(2) using IH by auto
qed

text \<open>A later round ends, never makes the chains longer, and either makes them shorter or has found all parents right.\<close>

lemma later_round_runs:
  assumes g: "rounds_ok e fn ord num" and s: "settled e ord num (preds_at fn) S"
    and inv: "later_round e ord num (preds_at fn) S r I" and r: "0 < r" "r \<le> length ord"
  shows "\<exists>I' ch'. fold_opt (dom_visit fn num) (drop r ord) (I, ch) = Some (I', ch') \<and> settled e ord num (preds_at fn) I' \<and>
    weight ord I' \<le> weight ord I \<and>
    (if ch' then ch \<or> weight ord I' < weight ord I
     else I' = I \<and> \<not> ch \<and> (\<forall>b \<in> set (drop r ord). is_meet I (set (preds_at fn b)) (I b)))"
  using inv r
proof (induction "length ord - r" arbitrary: r I ch)
  case 0
  then have "r = length ord" by simp
  with 0 later_round_settled g show ?case by (auto simp: rounds_ok_def)
next
  case (Suc k)
  have n: "numbered e ord num (preds_at fn)" using g by (simp add: rounds_ok_def)
  have r: "r < length ord" using Suc.hyps(2) by simp
  let ?b = "ord ! r"
  obtain p where p: "p \<in> set (preds_at fn ?b)" "p \<in> set ord" "num p < r" "?b \<in> set ord"
    using back_pred [OF n Suc.prems(2) r] by metis
  have t: "tree e ord num I" and as: "\<forall>b \<in> set ord. I b \<noteq> NO_BLOCK" using Suc.prems(1) by (auto simp: later_round_def)
  from dom_visit_meet [OF g t p(4,1)] as p(2) obtain w where
    w: "is_meet I (set (preds_at fn ?b)) w" "dom_visit fn num ?b (I, ch) = Some (I(?b := w), ch \<or> I ?b \<noteq> w)"
    by blast
  let ?J = "I(?b := w)"
  note st = later_round_step [OF n s Suc.prems(1,2) r w(1)]
  have W: "weight ord ?J \<le> weight ord I" "w \<noteq> I ?b \<Longrightarrow> weight ord ?J < weight ord I"
  proof -
    have sub: "\<forall>y \<in> set ord. chain ?J y \<subseteq> chain I y" using st by blast
    show "weight ord ?J \<le> weight ord I" by (rule weight_mono(1) [OF t as sub])
    show "weight ord ?J < weight ord I" if "w \<noteq> I ?b"
      by (rule weight_mono(2) [OF t as sub p(4)]) (use st that in blast)
  qed
  have d: "drop r ord = ?b # drop (Suc r) ord" using r by (simp add: Cons_nth_drop_Suc)
  have "k = length ord - Suc r" "Suc r \<le> length ord" using Suc.hyps(2) by auto
  from Suc.hyps(1) [OF this(1) conjunct1 [OF st] _ this(2), of "ch \<or> I ?b \<noteq> w"] obtain I' ch' where
    run: "fold_opt (dom_visit fn num) (drop (Suc r) ord) (?J, ch \<or> I ?b \<noteq> w) = Some (I', ch')"
      "settled e ord num (preds_at fn) I'" "weight ord I' \<le> weight ord ?J"
      and fin: "if ch' then (ch \<or> I ?b \<noteq> w) \<or> weight ord I' < weight ord ?J
        else I' = ?J \<and> \<not> (ch \<or> I ?b \<noteq> w) \<and> (\<forall>b \<in> set (drop (Suc r) ord). is_meet ?J (set (preds_at fn b)) (?J b))"
    by blast
  have same: "?J = I" if "I ?b = w" using that by auto
  have "if ch' then ch \<or> weight ord I' < weight ord I
     else I' = I \<and> \<not> ch \<and> (\<forall>b \<in> set (drop r ord). is_meet I (set (preds_at fn b)) (I b))"
  proof (cases ch')
    case True
    with fin W run(3) show ?thesis by (auto dest: less_le_trans)
  next
    case False
    then have "I ?b = w" using fin by simp
    with fin False same w(1) show ?thesis unfolding d by auto
  qed
  then show ?case unfolding d fold_opt.simps w(2) using run W(1) d by (auto intro: le_trans simp del: fun_upd_apply)
qed

definition dom_fixpoint :: "blockid \<Rightarrow> func \<Rightarrow> blockid list \<Rightarrow> (blockid \<Rightarrow> nat) \<Rightarrow> (blockid \<Rightarrow> blockid) \<Rightarrow> bool" where
  "dom_fixpoint e fn ord num I \<longleftrightarrow> settled e ord num (preds_at fn) I \<and>
     (\<forall>b \<in> set (tl ord). is_meet I (set (preds_at fn b)) (I b))"

lemma dom_rounds_end:
  assumes g: "rounds_ok e fn ord num" and s: "settled e ord num (preds_at fn) S"
  shows "\<exists>I. dom_rounds fn ord num S = Some I \<and> dom_fixpoint e fn ord num I"
  using s
proof (induction "weight ord S" arbitrary: S rule: less_induct)
  case less
  have n: "numbered e ord num (preds_at fn)" using g by (simp add: rounds_ok_def)
  then have l: "1 \<le> length ord" by (cases ord) (auto simp: numbered_def)
  have d: "drop 1 ord = tl ord" by (simp add: drop_Suc)
  note R = later_round_runs [OF g less.prems later_round_start [OF n less.prems] zero_less_one l, of False, unfolded d simp_thms]
  then obtain I' ch' where run: "fold_opt (dom_visit fn num) (tl ord) (S, False) = Some (I', ch')"
      "settled e ord num (preds_at fn) I'"
      and fin: "if ch' then weight ord I' < weight ord S
        else I' = S \<and> (\<forall>b \<in> set (tl ord). is_meet S (set (preds_at fn b)) (S b))"
    by blast
  show ?case
  proof (cases ch')
    case True
    with fin less.hyps [OF _ run(2)] run(1) show ?thesis by (subst dom_rounds.simps) simp
  next
    case False
    with fin run show ?thesis by (subst dom_rounds.simps) (simp add: dom_fixpoint_def)
  qed
qed

lemma dominator_tree_fixpoint:
  assumes "graph_ok e fn" "marks_ok e fn"
  shows "\<exists>ord num I. dominator_tree e fn = Some I \<and> rounds_ok e fn ord num \<and> dom_fixpoint e fn ord num I"
proof -
  obtain ord where r: "licm_compute_rpo e fn = Some (ord, rpo_index ord)" "numbered e ord (rpo_index ord) (preds_at fn)"
      "set ord = reached e fn" "\<forall>b \<in> set ord. is_block fn b"
    using licm_compute_rpo_spec [OF assms(1)] by blast
  have g: "rounds_ok e fn ord (rpo_index ord)" using r assms by (simp add: rounds_ok_def graph_ok_def)
  have l: "1 \<le> length ord" using r(2) by (cases ord) (auto simp: numbered_def)
  obtain I1 ch where f: "fold_opt (dom_visit fn (rpo_index ord)) (tl ord) ((\<lambda>_. NO_BLOCK)(e := e), False) = Some (I1, ch)"
      "settled e ord (rpo_index ord) (preds_at fn) I1" "1 < length ord \<longrightarrow> ch"
    using first_round_runs [OF g first_round_start [OF r(2)] _ l, of False] by (auto simp: drop_Suc simp del: fun_upd_apply)
  obtain I where i: "dom_rounds fn ord (rpo_index ord) I1 = Some I" "dom_fixpoint e fn ord (rpo_index ord) I"
    using dom_rounds_end [OF g f(2)] by blast
  show ?thesis
  proof (cases ch)
    case True
    then have "dominator_tree e fn = Some I"
      unfolding dominator_tree_def r(1) option.case prod.case licm_compute_doms_def
      by (subst dom_rounds.simps) (simp add: f i del: fun_upd_apply)
    with g i show ?thesis by blast
  next
    case False
    then have "tl ord = []" using f(3) l by (cases ord) auto
    then have "dom_fixpoint e fn ord (rpo_index ord) I1" using f(2) by (simp add: dom_fixpoint_def)
    moreover have "dominator_tree e fn = Some I1"
      unfolding dominator_tree_def r(1) option.case prod.case licm_compute_doms_def
      by (subst dom_rounds.simps) (simp add: f(1) False del: fun_upd_apply)
    ultimately show ?thesis using g by blast
  qed
qed

section \<open>Dominators\<close>

lemma fixpoint_facts:
  assumes g: "rounds_ok e fn ord num" and f: "dom_fixpoint e fn ord num I"
  shows "tree e ord num I" "I b \<noteq> NO_BLOCK \<longleftrightarrow> b \<in> reached e fn"
    "b \<in> reached e fn \<Longrightarrow> z \<in> chain I b \<longleftrightarrow> dominates (cfg_edges fn) e z b"
    "b \<in> reached e fn \<Longrightarrow> b \<noteq> e \<Longrightarrow> chain I (I b) = (\<Inter>p \<in> {p \<in> reached e fn. (p, b) \<in> cfg_edges fn}. chain I p)"
proof -
  note n = g [unfolded rounds_ok_def]
  have s: "settled e ord num (preds_at fn) I" using f by (simp add: dom_fixpoint_def)
  show t: "tree e ord num I" using s by (simp add: settled_def)
  show as: "I b \<noteq> NO_BLOCK \<longleftrightarrow> b \<in> reached e fn" for b
    using s t n unfolding settled_def tree_def by blast
  have tl: "set (tl ord) = set ord - {e}" using n unfolding numbered_def by (cases ord) auto
  have m: "chain I (I b) = (\<Inter>p \<in> {p \<in> set (preds_at fn b). I p \<noteq> NO_BLOCK}. chain I p)" if "b \<in> set ord - {e}" for b
    using f that tl by (auto simp: dom_fixpoint_def is_meet_def)
  have eq: "{p \<in> set (preds_at fn b). I p \<noteq> NO_BLOCK} = set (preds_at fn b) \<inter> set ord"
    "{p \<in> set (preds_at fn b). I p \<noteq> NO_BLOCK} = {p \<in> reached e fn. (p, b) \<in> cfg_edges fn}" for b
    using as n preds_edge [of fn _ b] by auto
  show "chain I (I b) = (\<Inter>p \<in> {p \<in> reached e fn. (p, b) \<in> cfg_edges fn}. chain I p)"
    if "b \<in> reached e fn" "b \<noteq> e" for b
    using m [of b] eq(2) [of b] that n by auto
  show "z \<in> chain I b \<longleftrightarrow> dominates (cfg_edges fn) e z b" if "b \<in> reached e fn" for b z
  proof -
    have "\<forall>b \<in> set ord - {e}. chain I (I b) \<subseteq> (\<Inter>p \<in> set (preds_at fn b) \<inter> set ord. chain I p)"
      using m eq(1) by auto
    moreover have "\<forall>b \<in> set ord. I b \<noteq> NO_BLOCK"
      "\<forall>b \<in> set ord. \<forall>z. dominates (edges ord (preds_at fn)) e z b \<longrightarrow> z \<in> chain I b"
      using s by (auto simp: settled_def)
    ultimately show ?thesis
      using chain_exact [OF t _ _ _, of "preds_at fn" b z] dominates_edges [of fn ord e] that n by auto
  qed
qed

lemma dominates_within_chain:
  assumes t: "tree e ord num I" and b: "I b \<noteq> NO_BLOCK" "num b < k"
  shows "dominates_within k I d b \<longleftrightarrow> d \<in> chain I b"
  using b
proof (induction k arbitrary: b)
  case (Suc k)
  show ?case
  proof (cases "b = e")
    case True
    then show ?thesis using tree_root [OF t] t Suc.prems by (auto simp: tree_def)
  next
    case False
    then have p: "I (I b) \<noteq> NO_BLOCK" "num (I b) < num b" using t Suc.prems(1) unfolding tree_def by blast+
    then have "num (I b) < k" "I b \<noteq> b" using Suc.prems(2) by auto
    then show ?thesis using Suc.IH [OF p(1)] Suc.prems(1) chain_rec [of I b] by auto
  qed
qed simp

lemma licm_dominates_chain:
  assumes g: "graph_ok e fn" "rounds_ok e fn ord num" and f: "dom_fixpoint e fn ord num I"
  shows "licm_dominates I d b \<longleftrightarrow> (if b \<in> reached e fn then d \<in> chain I b else d = b)"
proof (cases "b \<in> reached e fn")
  case True
  note n = g(2) [unfolded rounds_ok_def]
  have "set ord \<subseteq> {..<n_blocks fn}" using n by (auto simp: is_block_def dest: blk_at_Some_lt)
  then have "card (set ord) \<le> n_blocks fn" using card_mono [of "{..<n_blocks fn}"] by simp
  moreover have "distinct ord" using n by (simp add: numbered_def)
  ultimately have "length ord \<le> MAX_BLOCKS" using g(1) by (simp add: distinct_card graph_ok_def)
  then have "num b < MAX_BLOCKS" using numbered_facts(4) [of e ord num "preds_at fn" b] n True by auto
  with dominates_within_chain [OF fixpoint_facts(1) [OF g(2) f]] fixpoint_facts(2) [OF g(2) f, of b] True
  show ?thesis by (simp add: licm_dominates_def)
next
  case False
  then have "I b = NO_BLOCK" using fixpoint_facts(2) [OF g(2) f, of b] by blast
  moreover have "MAX_BLOCKS = Suc (MAX_BLOCKS - 1)" by (simp add: MAX_BLOCKS_def)
  ultimately show ?thesis using False unfolding licm_dominates_def by (metis dominates_within.simps(2))
qed

lemma reachability_marks:
  assumes g: "graph_ok e fn"
  obtains fn1 where "compute_reachability e fn = Some fn1" "graph_ok e fn1" "marks_ok e fn1" "cfg_edges fn1 = cfg_edges fn"
    "n_blocks fn1 = n_blocks fn" "preds_at fn1 = preds_at fn" "heap fn1 = heap fn"
proof -
  obtain vis found where r: "search_from (succs_at fn) (n_blocks fn) (\<lambda>_. True) (\<lambda>_. False) e = (vis, found)" by fastforce
  define fn1 where "fn1 = set_reachable vis fn"
  have eo: "edges_ok fn" using g by (simp add: graph_ok_def)
  have "edge_rel (succs_at fn) (n_blocks fn) (\<lambda>_. True) = cfg_edges fn"
    using succs_edge [OF eo] by (auto simp: edge_rel_def cfg_edges_def)
  moreover have "\<not> found" using search_never_found [of "succs_at fn" "n_blocks fn" "\<lambda>_. True" e] r by simp
  ultimately have v: "vis b \<longleftrightarrow> b \<in> reached e fn" for b using search_from_correct(2) [OF r] by simp
  have at: "blk_at fn1 b = map_option (\<lambda>bb. bb\<lparr>reachable := vis b\<rparr>) (blk_at fn b)" for b
    by (simp add: fn1_def blk_at_set_reachable)
  have k: "succs_at fn1 = succs_at fn" "preds_at fn1 = preds_at fn" "is_block fn1 = is_block fn" "n_blocks fn1 = n_blocks fn"
    "list_all (\<lambda>b. b \<noteq> None) (blocks fn1) = list_all (\<lambda>b. b \<noteq> None) (blocks fn)" "heap fn1 = heap fn"
    using at by (auto simp: fun_eq_iff succs_at_def preds_at_def is_block_def fn1_def set_reachable_def
        list_all_length nth_enumerate_eq split: option.split)
  have c: "cfg_edges fn1 = cfg_edges fn" by (simp add: cfg_edges_def k)
  have "edges_ok fn1" using eo unfolding edges_ok_def at by fastforce
  with g have "graph_ok e fn1" unfolding graph_ok_def k by blast
  moreover have "marks_ok e fn1" using at v by (auto simp: marks_ok_def c)
  moreover have "compute_reachability e fn = Some fn1" using g r by (simp add: compute_reachability_def graph_ok_def fn1_def)
  ultimately show thesis using that c k by blast
qed

text \<open>
  C6: The dominator computation ends and is exact: on a graph whose edge lists agree and fit the stack of the
  search, marking the reachable blocks, numbering them and the rounds of the iteration return, the
  query holds for a reachable block just if every path from the entry to it passes the other block, and the
  parent of a block is its immediate dominator.
\<close>

theorem dominator_tree_exact:
  assumes "graph_ok entry fn"
  shows "\<exists>fn1 idom. compute_reachability entry fn = Some fn1 \<and> dominator_tree entry fn1 = Some idom \<and>
    (\<forall>b d. licm_dominates idom d b \<longleftrightarrow>
       (if (entry, b) \<in> (cfg_edges fn)\<^sup>* then dominates (cfg_edges fn) entry d b else d = b)) \<and>
    (\<forall>b. (entry, b) \<in> (cfg_edges fn)\<^sup>* \<longrightarrow> b \<noteq> entry \<longrightarrow> idom b \<noteq> b \<and> dominates (cfg_edges fn) entry (idom b) b \<and>
       (\<forall>d. dominates (cfg_edges fn) entry d b \<longrightarrow> d \<noteq> b \<longrightarrow> dominates (cfg_edges fn) entry d (idom b)))"
proof -
  obtain fn1 where 1: "compute_reachability entry fn = Some fn1" "graph_ok entry fn1" "marks_ok entry fn1" "cfg_edges fn1 = cfg_edges fn"
    using reachability_marks [OF assms] by metis
  obtain ord num I where 2: "dominator_tree entry fn1 = Some I" "rounds_ok entry fn1 ord num" "dom_fixpoint entry fn1 ord num I"
    using dominator_tree_fixpoint [OF 1(2,3)] by blast
  note f = fixpoint_facts [OF 2(2,3), unfolded 1(4)]
  have d: "licm_dominates I d b \<longleftrightarrow> (if (entry, b) \<in> (cfg_edges fn)\<^sup>* then dominates (cfg_edges fn) entry d b else d = b)" for b d
    using licm_dominates_chain [OF 1(2) 2(2,3), of d b] f(3) by (auto simp: 1(4))
  have i: "I b \<noteq> b \<and> dominates (cfg_edges fn) entry (I b) b \<and>
      (\<forall>d. dominates (cfg_edges fn) entry d b \<longrightarrow> d \<noteq> b \<longrightarrow> dominates (cfg_edges fn) entry d (I b))"
    if b: "b \<in> reached entry fn" "b \<noteq> entry" for b
  proof -
    have p: "I (I b) \<noteq> NO_BLOCK" "num (I b) < num b" using f(1,2) b unfolding tree_def by blast+
    then have "I b \<in> reached entry fn" using f(2) by blast
    with f(3) b(1) chain_rec [of I b] p(2) show ?thesis by auto
  qed
  show ?thesis using 1(1) 2(1) d i by blast
qed

text \<open>A diamond: the block where the arms meet is dominated by the fork, by no arm.\<close>

definition demo_diamond :: func where
  "demo_diamond = mk_func [mk_block [] [1, 2] [], (mk_block [] [3] [0])\<lparr>block_id := 1\<rparr>, (mk_block [] [3] [0])\<lparr>block_id := 2\<rparr>,
     (mk_block [] [] [1, 2])\<lparr>block_id := 3\<rparr>] [] 1"

lemma demo_diamond_blk: "blk_at demo_diamond b = (if b = 0 then Some (mk_block [] [1, 2] [])
    else if b = 1 then Some ((mk_block [] [3] [0])\<lparr>block_id := 1\<rparr>) else if b = 2 then Some ((mk_block [] [3] [0])\<lparr>block_id := 2\<rparr>)
    else if b = 3 then Some ((mk_block [] [] [1, 2])\<lparr>block_id := 3\<rparr>) else None)"
  by (auto simp: demo_diamond_def blk_at_def mk_func_def nth_Cons' numeral_3_eq_3 numeral_2_eq_2)

lemma demo_diamond_ok: "graph_ok 0 demo_diamond"
proof -
  have "edges_ok demo_diamond" by (auto simp: edges_ok_def demo_diamond_blk mk_block_def calloc_block_def split: if_splits)
  moreover have "n_blocks demo_diamond = 4" "list_all (\<lambda>b. b \<noteq> None) (blocks demo_diamond)"
    by (simp_all add: demo_diamond_def mk_func_def)
  moreover have "(\<Sum>b < (4 :: nat). length (succs_at demo_diamond b)) = 4"
    by (simp add: eval_nat_numeral succs_at_def demo_diamond_blk mk_block_def calloc_block_def)
  ultimately show ?thesis by (simp add: graph_ok_def is_block_def demo_diamond_blk MAX_BLOCKS_def)
qed

lemma path_entry_in: "path E e xs b \<Longrightarrow> e \<in> set xs"
  by (induction rule: path.induct) auto

theorem dominator_tree_exact_witness:
  "\<exists>fn1 idom. compute_reachability 0 demo_diamond = Some fn1 \<and> dominator_tree 0 fn1 = Some idom \<and>
     licm_dominates idom 0 3 \<and> \<not> licm_dominates idom 1 3 \<and> \<not> licm_dominates idom 2 3"
proof -
  let ?E = "cfg_edges demo_diamond"
  have e: "(0, 1) \<in> ?E" "(0, 2) \<in> ?E" "(1, 3) \<in> ?E" "(2, 3) \<in> ?E"
    by (simp_all add: cfg_edges_def succs_at_def is_block_def demo_diamond_blk mk_block_def calloc_block_def)
  have r: "(0, 3) \<in> ?E\<^sup>*" using e by (meson rtrancl.simps)
  have p: "path ?E 0 [3, 1, 0] 3" "path ?E 0 [3, 2, 0] 3" using e by (meson path.intros)+
  have "dominates ?E 0 0 3" by (auto simp: dominates_def dest: path_entry_in)
  moreover have "\<not> dominates ?E 0 1 3" "\<not> dominates ?E 0 2 3" using p by (fastforce simp: dominates_def)+
  ultimately show ?thesis using dominator_tree_exact [OF demo_diamond_ok] r by metis
qed

section \<open>Dominance frontiers\<close>

definition df_put :: "blockid \<Rightarrow> blockid list \<Rightarrow> blockid list" where
  "df_put y l = (if y \<in> set l \<or> MAX_DF_PER_BLOCK \<le> length l then l else l @ [y])"

lemma df_add_put: "df_add r y df = df(r := df_put y (df r))"
  by (auto simp: df_add_def df_put_def)

lemma df_put_idem [simp]: "df_put y (df_put y l) = df_put y l"
  by (auto simp: df_put_def)

lemma df_run_reached:
  assumes t: "tree e ord num I" and p: "I p \<noteq> NO_BLOCK" and y: "I y \<in> chain I p"
  shows "df_run I y p df = Some (\<lambda>b. if b \<in> chain I p - chain I (I y) then df_put y (df b) else df b)"
  using p y
proof (induction "num p" arbitrary: p df rule: less_induct)
  case less
  show ?case
  proof (cases "p = I y")
    case True
    then show ?thesis by (subst df_run.simps) simp
  next
    case False
    then have pe: "p \<noteq> e" using less.prems tree_root [OF t] by auto
    then have u: "I (I p) \<noteq> NO_BLOCK" "num (I p) < num p" "p \<notin> chain I (I p)"
      using t less.prems(1) chain_parent [OF t less.prems(1)] unfolding tree_def by blast+
    have y': "I y \<in> chain I (I p)" using less.prems(2) False chain_rec [of I p] by auto
    have ny: "p \<notin> chain I (I y)" using chain_sub [OF y'] u(3) by blast
    have "df_run I y p df = df_run I y (I p) (df_add p y df)"
      using False less.prems(1) by (subst df_run.simps) simp
    also have "\<dots> = Some (\<lambda>b. if b \<in> chain I (I p) - chain I (I y) then df_put y (df_add p y df b) else df_add p y df b)"
      by (rule less.hyps [OF u(2,1) y'])
    also have "\<dots> = Some (\<lambda>b. if b \<in> chain I p - chain I (I y) then df_put y (df b) else df b)"
      using u(3) ny by (subst (2) chain_rec) (auto simp: df_add_put fun_eq_iff)
    finally show ?thesis .
  qed
qed

lemma df_run_unreached:
  assumes "I p = NO_BLOCK" "I y \<noteq> p"
  shows "df_run I y p df = Some (df_add p y df)"
  using assms by (subst df_run.simps) simp

text \<open>What one block adds to the frontiers of the reached blocks.\<close>

definition in_frontier :: "blockid \<Rightarrow> func \<Rightarrow> (blockid \<Rightarrow> blockid) \<Rightarrow> blockid \<Rightarrow> blockid \<Rightarrow> bool" where
  "in_frontier e fn I b y \<longleftrightarrow> (\<exists>p \<in> reached e fn. (p, y) \<in> cfg_edges fn \<and> b \<in> chain I p) \<and> b \<notin> chain I (I y)"

lemma df_block_spec:
  assumes g: "rounds_ok e fn ord num" and f: "dom_fixpoint e fn ord num I" and ent: "preds_at fn e = []"
  shows "\<exists>df'. df_block fn I y df = Some df' \<and>
    (\<forall>b \<in> reached e fn. df' b = (if y \<in> reached e fn \<and> in_frontier e fn I b y then df_put y (df b) else df b))"
proof (cases "y \<in> reached e fn")
  case y: True
  note n = g [unfolded rounds_ok_def] and F = fixpoint_facts [OF g f]
  obtain blk where k: "blk_at fn y = Some blk" using n y by (auto simp: is_block_def)
  have r: "reachable blk" using n y k unfolding marks_ok_def by blast
  have pr: "preds_at fn y = preds blk" by (simp add: preds_at_def k)
  have iy: "I y \<noteq> NO_BLOCK" using F(2) y by blast
  have lt: "p < n_blocks fn" if "p \<in> set (preds blk)" for p
    using n k that blk_at_Some_lt unfolding edges_ok_def by blast
  have ed: "(p, y) \<in> cfg_edges fn \<longleftrightarrow> p \<in> set (preds blk)" for p using preds_edge [of fn p y] n pr by simp
  have run: "\<exists>df'. fold_opt (\<lambda>p df. if n_blocks fn \<le> p then Some df else df_run I y p df) ps df = Some df' \<and>
      (\<forall>b \<in> reached e fn. df' b = (if (\<exists>p \<in> set ps \<inter> reached e fn. b \<in> chain I p) \<and> b \<notin> chain I (I y)
        then df_put y (df b) else df b))" if "set ps \<subseteq> set (preds blk)" for ps df
    using that
  proof (induction ps arbitrary: df)
    case (Cons p ps)
    have pb: "p \<in> set (preds blk)" "\<not> n_blocks fn \<le> p" using Cons.prems lt by (auto simp: not_le)
    then have ye: "y \<noteq> e" using pr ent by auto
    obtain df1 where d: "df_run I y p df = Some df1"
      "\<forall>b \<in> reached e fn. df1 b = (if p \<in> reached e fn \<and> b \<in> chain I p \<and> b \<notin> chain I (I y) then df_put y (df b) else df b)"
    proof (cases "p \<in> reached e fn")
      case True
      then have "I p \<noteq> NO_BLOCK" "I y \<in> chain I p" using F(2) F(4) [OF y ye] ed pb chain_self [of "I y" I] by blast+
      from df_run_reached [OF F(1) this] True show thesis by (intro that) auto
    next
      case False
      then have "I p = NO_BLOCK" "I y \<noteq> p" using F(1,2) y ye iy unfolding tree_def by metis+
      from df_run_unreached [OF this] False show thesis by (intro that) (auto simp: df_add_put)
    qed
    have "set ps \<subseteq> set (preds blk)" using Cons.prems by simp
    from Cons.IH [OF this, of df1] obtain df2 where
      "fold_opt (\<lambda>p df. if n_blocks fn \<le> p then Some df else df_run I y p df) ps df1 = Some df2"
      "\<forall>b \<in> reached e fn. df2 b = (if (\<exists>p \<in> set ps \<inter> reached e fn. b \<in> chain I p) \<and> b \<notin> chain I (I y) then df_put y (df1 b) else df1 b)"
      by blast
    with d pb(2) show ?case by (intro exI [of _ df2]) auto
  qed simp
  have "df_block fn I y df = fold_opt (\<lambda>p df. if n_blocks fn \<le> p then Some df else df_run I y p df) (preds blk) df"
    using k r iy by (simp add: df_block_def)
  moreover have "in_frontier e fn I b y \<longleftrightarrow> (\<exists>p \<in> set (preds blk) \<inter> reached e fn. b \<in> chain I p) \<and> b \<notin> chain I (I y)" for b
    unfolding in_frontier_def ed by blast
  ultimately show ?thesis using run [OF order_refl, of df] y by simp
next
  case False
  then have "reachable blk = False" if "blk_at fn y = Some blk" for blk
    using g that unfolding rounds_ok_def marks_ok_def by blast
  then have "df_block fn I y df = Some df" by (auto simp: df_block_def split: option.split)
  with False show ?thesis by auto
qed

lemma frontiers_spec:
  assumes g: "rounds_ok e fn ord num" and f: "dom_fixpoint e fn ord num I" and ent: "preds_at fn e = []"
  shows "\<exists>df. compute_dominance_frontiers fn I = Some df \<and>
    (\<forall>b \<in> reached e fn. df b = take MAX_DF_PER_BLOCK (filter (\<lambda>y. y \<in> reached e fn \<and> in_frontier e fn I b y) [0..<n_blocks fn]))"
proof -
  have "\<exists>df. fold_opt (df_block fn I) [0..<k] (\<lambda>_. []) = Some df \<and>
    (\<forall>b \<in> reached e fn. df b = take MAX_DF_PER_BLOCK (filter (\<lambda>y. y \<in> reached e fn \<and> in_frontier e fn I b y) [0..<k]))" for k
  proof (induction k)
    case (Suc k)
    then obtain df where d: "fold_opt (df_block fn I) [0..<k] (\<lambda>_. []) = Some df"
      "\<forall>b \<in> reached e fn. df b = take MAX_DF_PER_BLOCK (filter (\<lambda>y. y \<in> reached e fn \<and> in_frontier e fn I b y) [0..<k])" by blast
    obtain df' where d': "df_block fn I k df = Some df'"
      "\<forall>b \<in> reached e fn. df' b = (if k \<in> reached e fn \<and> in_frontier e fn I b k then df_put k (df b) else df b)"
      using df_block_spec [OF assms, of k df] by blast
    have put: "df_put k (take MAX_DF_PER_BLOCK (filter P [0..<k])) = take MAX_DF_PER_BLOCK (filter P [0..<k] @ [k])" for P
      by (auto simp: df_put_def dest: in_set_takeD)
    show ?case using d d' put by (auto simp: fold_opt_append)
  qed simp
  then show ?thesis by (simp add: compute_dominance_frontiers_def)
qed

text \<open>
  C7: The dominance frontiers are exact: for an entry without predecessors the list of a reachable block holds,
  in the order of the block numbers, the reachable blocks that have a predecessor the block dominates and
  that it does not strictly dominate itself, cut after 32 blocks.
\<close>

theorem dominance_frontiers_exact:
  assumes "graph_ok entry fn" "preds_at fn entry = []"
  defines "E \<equiv> cfg_edges fn"
  shows "\<exists>fn1 idom df. compute_reachability entry fn = Some fn1 \<and> dominator_tree entry fn1 = Some idom \<and>
    compute_dominance_frontiers fn1 idom = Some df \<and>
    (\<forall>b. (entry, b) \<in> E\<^sup>* \<longrightarrow> df b = take MAX_DF_PER_BLOCK (filter (\<lambda>y. (entry, y) \<in> E\<^sup>* \<and>
       (\<exists>p. (entry, p) \<in> E\<^sup>* \<and> (p, y) \<in> E \<and> dominates E entry b p) \<and> \<not> (dominates E entry b y \<and> b \<noteq> y)) [0..<n_blocks fn]))"
proof -
  obtain fn1 where 1: "compute_reachability entry fn = Some fn1" "graph_ok entry fn1" "marks_ok entry fn1" "cfg_edges fn1 = cfg_edges fn"
      "n_blocks fn1 = n_blocks fn" "preds_at fn1 = preds_at fn"
    using reachability_marks [OF assms(1)] by metis
  obtain ord num I where 2: "dominator_tree entry fn1 = Some I" "rounds_ok entry fn1 ord num" "dom_fixpoint entry fn1 ord num I"
    using dominator_tree_fixpoint [OF 1(2,3)] by blast
  note F = fixpoint_facts [OF 2(2,3), unfolded 1(4) E_def [symmetric]]
  have pe: "preds_at fn1 entry = []" using assms(2) 1(6) by simp
  obtain df where df: "compute_dominance_frontiers fn1 I = Some df"
    "\<And>b. b \<in> reached entry fn1 \<Longrightarrow> df b = take MAX_DF_PER_BLOCK (filter (\<lambda>y. y \<in> reached entry fn1 \<and> in_frontier entry fn1 I b y) [0..<n_blocks fn])"
    using frontiers_spec [OF 2(2,3) pe, unfolded 1(5)] by blast
  have eo: "edges_ok fn" using assms(1) by (simp add: graph_ok_def)
  have eq: "in_frontier entry fn1 I b y \<longleftrightarrow> (\<exists>p. (entry, p) \<in> E\<^sup>* \<and> (p, y) \<in> E \<and> dominates E entry b p) \<and>
      \<not> (dominates E entry b y \<and> b \<noteq> y)" if y: "(entry, y) \<in> E\<^sup>*" for b y
  proof (cases "y = entry")
    case True
    then have "(p, y) \<notin> E" for p using preds_edge [OF eo, of p entry] assms(2) by (simp add: E_def)
    then show ?thesis by (simp add: in_frontier_def 1(4) E_def)
  next
    case False
    have iy: "I y \<noteq> NO_BLOCK" using F(2) y by blast
    have "y \<notin> chain I (I y)" by (rule chain_parent [OF F(1) iy False])
    then have "b \<notin> chain I (I y) \<longleftrightarrow> \<not> (dominates E entry b y \<and> b \<noteq> y)"
      using F(3) [of y b] y chain_rec [of I y] by auto
    moreover have "b \<in> chain I p \<longleftrightarrow> dominates E entry b p" if "(entry, p) \<in> E\<^sup>*" for p
      using F(3) [of p b] that by simp
    then have "(\<exists>p \<in> reached entry fn1. (p, y) \<in> cfg_edges fn1 \<and> b \<in> chain I p) \<longleftrightarrow>
        (\<exists>p. (entry, p) \<in> E\<^sup>* \<and> (p, y) \<in> E \<and> dominates E entry b p)"
      unfolding 1(4) E_def [symmetric] by auto
    ultimately show ?thesis unfolding in_frontier_def by simp
  qed
  have "df b = take MAX_DF_PER_BLOCK (filter (\<lambda>y. (entry, y) \<in> E\<^sup>* \<and>
       (\<exists>p. (entry, p) \<in> E\<^sup>* \<and> (p, y) \<in> E \<and> dominates E entry b p) \<and> \<not> (dominates E entry b y \<and> b \<noteq> y)) [0..<n_blocks fn])"
    if b: "(entry, b) \<in> E\<^sup>*" for b
    using df(2) [of b] b eq by (simp add: 1(4) E_def cong: conj_cong)
  then show ?thesis using 1(1) 2(1) df(1) by blast
qed


lemma demo_diamond_edges: "cfg_edges demo_diamond = {(0, 1), (0, 2), (1, 3), (2, 3)}"
  by (auto simp: cfg_edges_def succs_at_def is_block_def demo_diamond_blk mk_block_def calloc_block_def split: if_splits)

theorem dominance_frontiers_exact_witness:
  "\<exists>fn1 idom df. compute_reachability 0 demo_diamond = Some fn1 \<and> dominator_tree 0 fn1 = Some idom \<and>
     compute_dominance_frontiers fn1 idom = Some df \<and> df 1 = [3]"
proof -
  let ?E = "cfg_edges demo_diamond"
  have r: "(0, 1) \<in> ?E\<^sup>*" "(0, 2) \<in> ?E\<^sup>*" "(0, 3) \<in> ?E\<^sup>*" "(0, 0) \<in> ?E\<^sup>*"
    unfolding demo_diamond_edges by (auto intro: rtrancl_into_rtrancl)
  have p: "path ?E 0 [3, 2, 0] 3" "path ?E 0 [2, 0] 2" "path ?E 0 [0] 0"
    unfolding demo_diamond_edges by (auto intro!: path.intros)
  have d: "\<not> dominates ?E 0 1 3" "\<not> dominates ?E 0 1 2" "\<not> dominates ?E 0 1 0"
    using p by (fastforce simp: dominates_def)+
  have s: "dominates ?E 0 1 1" unfolding dominates_def by (auto elim: path.cases)
  let ?P = "\<lambda>y. (0, y) \<in> ?E\<^sup>* \<and> (\<exists>p. (0, p) \<in> ?E\<^sup>* \<and> (p, y) \<in> ?E \<and> dominates ?E 0 1 p) \<and> \<not> (dominates ?E 0 1 y \<and> 1 \<noteq> y)"
  have im: "(q, 0) \<notin> ?E" "(q, 1) \<in> ?E \<longleftrightarrow> q = 0" "(q, 2) \<in> ?E \<longleftrightarrow> q = 0" "(1, 3) \<in> ?E" for q
    unfolding demo_diamond_edges by auto
  have "\<not> ?P 0" "\<not> ?P 1" "\<not> ?P 2" using im(1-3) d(3) by auto
  moreover have "?P 3" using im(4) d(1) r s by blast
  moreover have "n_blocks demo_diamond = 4" by (simp add: demo_diamond_def mk_func_def)
  moreover have "[0..<4] = [0, 1, 2, 3 :: nat]" by (simp add: upt_rec)
  ultimately have F: "take MAX_DF_PER_BLOCK (filter ?P [0..<n_blocks demo_diamond]) = [3]"
    by (simp add: MAX_DF_PER_BLOCK_def del: One_nat_def)
  have pre: "preds_at demo_diamond 0 = []" by (simp add: preds_at_def demo_diamond_blk mk_block_def calloc_block_def)
  obtain fn1 idom df where "compute_reachability 0 demo_diamond = Some fn1" "dominator_tree 0 fn1 = Some idom"
      "compute_dominance_frontiers fn1 idom = Some df"
      and B: "df b = take MAX_DF_PER_BLOCK (filter (\<lambda>y. (0, y) \<in> ?E\<^sup>* \<and>
       (\<exists>p. (0, p) \<in> ?E\<^sup>* \<and> (p, y) \<in> ?E \<and> dominates ?E 0 b p) \<and> \<not> (dominates ?E 0 b y \<and> b \<noteq> y)) [0..<n_blocks demo_diamond])"
      if "(0, b) \<in> ?E\<^sup>*" for b
    using dominance_frontiers_exact [OF demo_diamond_ok pre] by blast
  moreover have "df 1 = [3]" using trans [OF B [OF r(1)] F] .
  ultimately show ?thesis by blast
qed

end
