(* ===== verification/LiveRanges.thy ===== *)
theory LiveRanges
  imports RegAlloc Dominators
begin

text \<open>
  The live intervals of the register allocator of \<open>src/compiler_passes.c\<close>: the order of the blocks, the
  numbering of the instructions with the three repairs of the intervals, and what they are worth: where the
  intervals cover the live ranges, two registers that are live at the same time never share a place.
\<close>

section \<open>The order of the blocks\<close>

text \<open>The queue of the breadth-first search of \<^verbatim>\<open>ir_asm_emit_function_body\<close>, from its head.\<close>

function bfs_order :: "func \<Rightarrow> (blockid \<Rightarrow> bool) \<Rightarrow> blockid list \<Rightarrow> blockid list" where
  "bfs_order fn vis [] = []"
| "bfs_order fn vis (b # q) = b # (case fold (visit (n_blocks fn) (\<lambda>_. True)) (succs_at fn b) (vis, q) of
     (vis', q') \<Rightarrow> bfs_order fn vis' q')"
  by pat_completeness auto

termination
proof (relation "measure (\<lambda>(fn, vis, q). unvisited (n_blocks fn) vis + length q)")
  fix fn :: func and vis vis' :: "blockid \<Rightarrow> bool" and b q q'
  assume "(vis', q') = fold (visit (n_blocks fn) (\<lambda>_. True)) (succs_at fn b) (vis, q)"
  then have "unvisited (n_blocks fn) vis' + length q' = unvisited (n_blocks fn) vis + length q" by (intro visit_fold_size) simp
  then show "((fn, vis', q'), fn, vis, b # q) \<in> measure (\<lambda>(fn, vis, q). unvisited (n_blocks fn) vis + length q)" by simp
qed simp

definition alloc_order :: "blockid \<Rightarrow> func \<Rightarrow> blockid list" where
  "alloc_order entry fn = bfs_order fn ((\<lambda>_. False)(entry := True)) [entry]"

section \<open>Numbering\<close>

record numbering =
  lscan_seq :: "addr \<Rightarrow> int"
  def_seq :: positions
  last_use :: positions
  first_use :: positions

text \<open>The operands the numbering records as used.\<close>

definition recorded :: "instr \<Rightarrow> regid list" where
  "recorded i = filter (\<lambda>r. 0 < r \<and> r < MAX_INSTRS)
     (if op i = OP_CONDBR then List.map (src i) [0..<min 1 (n_src i)]
      else if op i = OP_BR then []
      else if op i = OP_RET then List.map (src i) [0..<min 1 (n_src i)]
      else if op i = OP_STORE then List.map (src i) [0..<min 2 (n_src i)]
      else if op i = OP_PHI then List.map fst (phi i)
      else if op i = OP_CALL then call_args i
      else List.map (src i) [0..<n_src i])"

definition record_use :: "int \<Rightarrow> regid \<Rightarrow> numbering \<Rightarrow> numbering" where
  "record_use s r N = N\<lparr>first_use := (if first_use N r < 0 then (first_use N)(r := s) else first_use N),
     last_use := (last_use N)(r := s)\<rparr>"

definition numbers_def :: "instr \<Rightarrow> bool" where
  "numbers_def i \<longleftrightarrow> dst i \<noteq> 0 \<and> op i \<notin> {OP_BR, OP_CONDBR, OP_STORE}"

text \<open>The next number is \<open>s\<close>. The definition is recorded without a look at the size of the table.\<close>

definition number_instr :: "func \<Rightarrow> addr \<Rightarrow> numbering \<times> int \<Rightarrow> (numbering \<times> int) option" where
  "number_instr fn a = (\<lambda>(N, s). let i = heap fn a in
     if op i = OP_NOP then Some (N, s)
     else let N' = fold (record_use s) (recorded i) (N\<lparr>lscan_seq := (lscan_seq N)(a := s)\<rparr>)
       in if \<not> numbers_def i then Some (N', s + 1)
          else if dst i < MAX_INSTRS then Some (N'\<lparr>def_seq := (def_seq N')(dst i := s)\<rparr>, s + 1) else None)"

definition layout :: "func \<Rightarrow> blockid list \<Rightarrow> addr list" where
  "layout fn order = concat (List.map (\<lambda>b. blk_instrs (blk_at fn b)) order)"

definition no_numbers :: "(addr \<Rightarrow> int) \<Rightarrow> numbering" where
  "no_numbers seq0 = \<lparr>lscan_seq = seq0, def_seq = (\<lambda>_. -1), last_use = (\<lambda>_. -1), first_use = (\<lambda>_. -1)\<rparr>"

definition last_seq :: "int \<Rightarrow> int" where
  "last_seq s = (if 0 < s then s - 1 else 0)"

text \<open>Sources of phi nodes that are defined after them (first repair).\<close>

definition phi_fix :: "func \<Rightarrow> blockid list \<Rightarrow> int \<Rightarrow> numbering \<Rightarrow> numbering" where
  "phi_fix fn order s = fold (\<lambda>b. fold (\<lambda>a. fold (\<lambda>(r, p) N.
       if r = 0 \<or> MAX_INSTRS \<le> r then N
       else if 0 \<le> def_seq N r \<and> (last_use N r < 0 \<or> last_use N r < def_seq N r)
         then N\<lparr>last_use := (last_use N)(r := last_seq s)\<rparr> else N) (phi (heap fn a)))
     (takeWhile (\<lambda>a. op (heap fn a) = OP_PHI) (blk_instrs (blk_at fn b)))) order"

text \<open>Values that are live across the head of a loop (second repair): a block with a predecessor later in the order.\<close>

definition is_loop_head :: "func \<Rightarrow> blockid list \<Rightarrow> nat \<Rightarrow> bool" where
  "is_loop_head fn order bi \<longleftrightarrow>
     list_ex (\<lambda>p. list_ex (\<lambda>k. order ! k = p) [bi + 1..<length order]) (preds_at fn (order ! bi))"

definition head_seq :: "func \<Rightarrow> numbering \<Rightarrow> blockid \<Rightarrow> int" where
  "head_seq fn N b = (case blk_instrs (blk_at fn b) of [] \<Rightarrow> -1 | a # _ \<Rightarrow> lscan_seq N a)"

definition loop_fix :: "func \<Rightarrow> blockid list \<Rightarrow> int \<Rightarrow> numbering \<Rightarrow> numbering" where
  "loop_fix fn order s = fold (\<lambda>bi N.
     let h = head_seq fn N (order ! bi) in
     if is_loop_head fn order bi \<and> 0 \<le> h
     then N\<lparr>last_use := (\<lambda>r. if r < MAX_INSTRS \<and> 0 \<le> def_seq N r \<and> def_seq N r < h \<and> h \<le> last_use N r
        then last_seq s else last_use N r)\<rparr>
     else N) [0..<length order]"

text \<open>Uses that are numbered before the definition (third repair).\<close>

definition order_fix :: "int \<Rightarrow> numbering \<Rightarrow> numbering" where
  "order_fix s N = (let
     early = (\<lambda>r. r < MAX_INSTRS \<and> 0 \<le> def_seq N r \<and> 0 \<le> last_use N r \<and> last_use N r < def_seq N r);
     first = (\<lambda>r. r < MAX_INSTRS \<and> 0 \<le> def_seq N r \<and> 0 \<le> first_use N r \<and> first_use N r < def_seq N r)
   in N\<lparr>def_seq := (\<lambda>r. if early r then last_use N r else if first r then first_use N r else def_seq N r),
        last_use := (\<lambda>r. if early r \<or> first r then last_seq s else last_use N r)\<rparr>)"

text \<open>\<open>seq0\<close> are the numbers the instructions had before; \<open>None\<close> is the write of a definition outside the table.\<close>

definition ir_asm_number_and_liveness :: "func \<Rightarrow> blockid list \<Rightarrow> (addr \<Rightarrow> int) \<Rightarrow> numbering option" where
  "ir_asm_number_and_liveness fn order seq0 = map_option (\<lambda>(N, s). order_fix s (loop_fix fn order s (phi_fix fn order s N)))
     (fold_opt (number_instr fn) (layout fn order) (no_numbers seq0, 0))"

text \<open>\<^verbatim>\<open>ir_asm_emit_function_body\<close>: numbers and registers over the breadth-first order.\<close>

definition allocate_registers :: "bool \<Rightarrow> blockid \<Rightarrow> func \<Rightarrow> (addr \<Rightarrow> int) \<Rightarrow> positions option" where
  "allocate_registers spill entry fn seq0 = map_option (\<lambda>N. ir_asm_register_allocate spill fn (def_seq N) (last_use N))
     (ir_asm_number_and_liveness fn (alloc_order entry fn) seq0)"

text \<open>Where a virtual register lives.\<close>

datatype location = Phys int | Stack int

definition ir_asm_vreg_location :: "int \<Rightarrow> positions \<Rightarrow> regid \<Rightarrow> location" where
  "ir_asm_vreg_location slot_base phys r =
     (if r = 0 \<or> MAX_INSTRS \<le> r \<or> phys r < 0 then Stack (slot_base - 8 * int (r + 1)) else Phys (phys r))"

section \<open>The order has dominators first\<close>

lemma visit_fold_queue:
  assumes "fold (visit n ok) ss (vis, q) = (vis', q')" "distinct q" "\<forall>x \<in> set q. vis x"
  shows "distinct q' \<and> (\<forall>x \<in> set q'. vis' x)"
  using assms
proof (induction ss arbitrary: vis q)
  case (Cons s ss)
  obtain v1 q1 where v: "visit n ok s (vis, q) = (v1, q1)" by fastforce
  then have "distinct q1 \<and> (\<forall>x \<in> set q1. v1 x)" using Cons.prems(2,3) by (auto simp: visit_def split: if_splits)
  with Cons.IH [of v1 q1] Cons.prems(1) v show ?case by simp
qed simp

lemma bfs_order_facts:
  assumes "edges_ok fn" "distinct q" "\<forall>x \<in> set q. vis x" "\<forall>x \<in> set q. x = e \<or> (\<exists>u \<in> A. (u, x) \<in> cfg_edges fn)"
  shows "distinct (bfs_order fn vis q) \<and> set q \<subseteq> set (bfs_order fn vis q) \<and> set (bfs_order fn vis q) \<subseteq> set q \<union> {x. \<not> vis x} \<and>
    (\<forall>b \<in> set (bfs_order fn vis q). \<forall>s \<in> set (succs_at fn b). vis s \<or> s \<in> set (bfs_order fn vis q)) \<and>
    order_ok e fn A (bfs_order fn vis q)"
  using assms
proof (induction fn vis q arbitrary: A rule: bfs_order.induct)
  case (2 fn vis b q)
  obtain vis' q' where r: "fold (visit (n_blocks fn) (\<lambda>_. True)) (succs_at fn b) (vis, q) = (vis', q')" by fastforce
  note V = visit_fold [OF r]
  have q': "distinct q' \<and> (\<forall>x \<in> set q'. vis' x)" by (rule visit_fold_queue [OF r]) (use 2 in auto)
  have "\<forall>x \<in> set q'. x = e \<or> (\<exists>u \<in> insert b A. (u, x) \<in> cfg_edges fn)"
  proof
    fix x assume "x \<in> set q'"
    then have "x \<in> set q \<or> x \<in> set (succs_at fn b)" using V(1) [of x] V(2) [of x] by auto
    then show "x = e \<or> (\<exists>u \<in> insert b A. (u, x) \<in> cfg_edges fn)" using 2(5) succs_edge [OF 2(2), of x b] by auto
  qed
  with 2(1) [OF r [symmetric] 2(2)] q' have IH:
    "distinct (bfs_order fn vis' q')" "set q' \<subseteq> set (bfs_order fn vis' q')" "set (bfs_order fn vis' q') \<subseteq> set q' \<union> {x. \<not> vis' x}"
    "\<forall>b \<in> set (bfs_order fn vis' q'). \<forall>s \<in> set (succs_at fn b). vis' s \<or> s \<in> set (bfs_order fn vis' q')"
    "order_ok e fn (insert b A) (bfs_order fn vis' q')" by blast+
  have eq: "bfs_order fn vis (b # q) = b # bfs_order fn vis' q'" by (simp add: r)
  have qq: "x \<in> set q' \<longleftrightarrow> x \<in> set q \<or> (vis' x \<and> \<not> vis x)" for x by (rule V(2))
  have nb: "b \<notin> set (bfs_order fn vis' q')" using IH(3) qq [of b] V(1) [of b] 2(3,4) by auto
  have v': "vis' x \<Longrightarrow> vis x \<or> x \<in> set (bfs_order fn vis' q')" for x using qq [of x] IH(2) by auto
  have lt: "s < n_blocks fn" if "s \<in> set (succs_at fn c)" for s c using succs_edge [OF 2(2) that] by simp
  show ?case
    unfolding eq
  proof (intro conjI ballI)
    show "distinct (b # bfs_order fn vis' q')" using IH(1) nb by simp
    show "set (b # q) \<subseteq> set (b # bfs_order fn vis' q')" using IH(2) qq by auto
    show "set (b # bfs_order fn vis' q') \<subseteq> set (b # q) \<union> {x. \<not> vis x}" using IH(3) qq V(1) by auto
    show "order_ok e fn A (b # bfs_order fn vis' q')" using IH(5) 2(5) by simp
    fix c s assume c: "c \<in> set (b # bfs_order fn vis' q')" and s: "s \<in> set (succs_at fn c)"
    show "vis s \<or> s \<in> set (b # bfs_order fn vis' q')"
    proof (cases "c = b")
      case True
      then have "vis' s" using V(1) [of s] s lt [OF s] by simp
      then show ?thesis using v' by auto
    next
      case False
      then show ?thesis using IH(4) c s v' by auto
    qed
  qed
qed simp

lemma order_ok_pred:
  assumes "order_ok e fn {} ord" "j < length ord" "ord ! j \<noteq> e"
  obtains i where "i < j" "(ord ! i, ord ! j) \<in> cfg_edges fn"
proof -
  obtain u where "u \<in> set (take j ord)" "(u, ord ! j) \<in> cfg_edges fn" using order_ok_nth [OF assms(1,2)] assms(3) by auto
  with assms(2) that show thesis by (auto simp: in_set_conv_nth)
qed

lemma order_ok_path:
  assumes "order_ok e fn {} ord" "j < length ord"
  shows "\<exists>xs. path (cfg_edges fn) e (ord ! j # xs) (ord ! j) \<and> set xs \<subseteq> set (take j ord)"
  using assms(2)
proof (induction j rule: less_induct)
  case (less j)
  show ?case
  proof (cases "ord ! j = e")
    case True
    then show ?thesis using path.start [of "cfg_edges fn" e] by (intro exI [of _ "[]"]) simp
  next
    case False
    obtain i where i: "i < j" "(ord ! i, ord ! j) \<in> cfg_edges fn" using order_ok_pred [OF assms(1) less.prems False] .
    then obtain xs where xs: "path (cfg_edges fn) e (ord ! i # xs) (ord ! i)" "set xs \<subseteq> set (take i ord)"
      using less.IH [of i] less.prems by auto
    have "ord ! i \<in> set (take j ord)" using i(1) less.prems by (auto simp: in_set_conv_nth)
    moreover have "set (take i ord) \<subseteq> set (take j ord)" using i(1) set_take_subset_set_take [of i j ord] by simp
    ultimately show ?thesis using path.extend [OF xs(1) i(2)] xs(2) by (intro exI [of _ "ord ! i # xs"]) auto
  qed
qed

lemma alloc_order_facts:
  assumes "edges_ok fn" "is_block fn e"
  shows "distinct (alloc_order e fn)" "set (alloc_order e fn) = reached e fn"
    "j < length (alloc_order e fn) \<Longrightarrow> dominates (cfg_edges fn) e z (alloc_order e fn ! j) \<Longrightarrow> z \<noteq> alloc_order e fn ! j \<Longrightarrow>
      z \<in> set (take j (alloc_order e fn))"
proof -
  let ?o = "alloc_order e fn"
  have "distinct (bfs_order fn ((\<lambda>_. False)(e := True)) [e]) \<and> set [e] \<subseteq> set (bfs_order fn ((\<lambda>_. False)(e := True)) [e]) \<and>
    set (bfs_order fn ((\<lambda>_. False)(e := True)) [e]) \<subseteq> set [e] \<union> {x. \<not> ((\<lambda>_. False)(e := True)) x} \<and>
    (\<forall>b \<in> set (bfs_order fn ((\<lambda>_. False)(e := True)) [e]). \<forall>s \<in> set (succs_at fn b).
       ((\<lambda>_. False)(e := True)) s \<or> s \<in> set (bfs_order fn ((\<lambda>_. False)(e := True)) [e])) \<and>
    order_ok e fn {} (bfs_order fn ((\<lambda>_. False)(e := True)) [e])"
    by (rule bfs_order_facts [OF assms(1)]) auto
  then have f: "distinct ?o" "e \<in> set ?o" "order_ok e fn {} ?o" and cl: "\<And>b s. b \<in> set ?o \<Longrightarrow> s \<in> set (succs_at fn b) \<Longrightarrow> s \<in> set ?o"
    unfolding alloc_order_def by (auto split: if_splits)
  show "distinct ?o" by (rule f(1))
  have "b \<in> reached e fn" if b: "b \<in> set ?o" for b
  proof -
    obtain j where "j < length ?o" "b = ?o ! j" using b by (auto simp: in_set_conv_nth)
    with order_ok_path [OF f(3)] path_rtrancl [of e b "cfg_edges fn"] show ?thesis by auto
  qed
  moreover have "b \<in> set ?o" if "(e, b) \<in> (cfg_edges fn)\<^sup>*" for b
    using that by induction (auto simp: f(2) cfg_edges_def intro: cl)
  ultimately show "set ?o = reached e fn" by auto
  assume "j < length ?o" "dominates (cfg_edges fn) e z (?o ! j)" "z \<noteq> ?o ! j"
  with order_ok_path [OF f(3), of j] show "z \<in> set (take j ?o)" unfolding dominates_def by force
qed

section \<open>What the numbering records\<close>

abbreviation instr_at :: "func \<Rightarrow> addr list \<Rightarrow> nat \<Rightarrow> instr" where
  "instr_at fn L j \<equiv> heap fn (L ! j)"

definition number_inv :: "func \<Rightarrow> addr list \<Rightarrow> nat \<Rightarrow> numbering \<Rightarrow> bool" where
  "number_inv fn L k N \<longleftrightarrow> (\<forall>j < k. lscan_seq N (L ! j) = int j) \<and>
     (\<forall>r. def_seq N r = -1 \<or> (\<exists>j < k. def_seq N r = int j \<and> numbers_def (instr_at fn L j) \<and> dst (instr_at fn L j) = r \<and> r < MAX_INSTRS)) \<and>
     (\<forall>j < k. numbers_def (instr_at fn L j) \<longrightarrow> def_seq N (dst (instr_at fn L j)) = int j) \<and>
     (\<forall>j < k. \<forall>r \<in> set (recorded (instr_at fn L j)). 0 \<le> first_use N r \<and> first_use N r \<le> int j \<and> int j \<le> last_use N r) \<and>
     (\<forall>r. -1 \<le> last_use N r \<and> last_use N r < int k \<and> (0 \<le> last_use N r \<longrightarrow> r < MAX_INSTRS) \<and> first_use N r < int k)"

lemma record_uses:
  assumes "0 \<le> s"
  shows "lscan_seq (fold (record_use s) rs N) = lscan_seq N" "def_seq (fold (record_use s) rs N) = def_seq N"
    "last_use (fold (record_use s) rs N) = (\<lambda>r. if r \<in> set rs then s else last_use N r)"
    "first_use (fold (record_use s) rs N) = (\<lambda>r. if r \<in> set rs \<and> first_use N r < 0 then s else first_use N r)"
proof -
  have "lscan_seq (fold (record_use s) rs N) = lscan_seq N \<and> def_seq (fold (record_use s) rs N) = def_seq N \<and>
    last_use (fold (record_use s) rs N) = (\<lambda>r. if r \<in> set rs then s else last_use N r) \<and>
    first_use (fold (record_use s) rs N) = (\<lambda>r. if r \<in> set rs \<and> first_use N r < 0 then s else first_use N r)"
    using assms by (induction rs arbitrary: N) (auto simp: record_use_def fun_eq_iff)
  then show "lscan_seq (fold (record_use s) rs N) = lscan_seq N" "def_seq (fold (record_use s) rs N) = def_seq N"
    "last_use (fold (record_use s) rs N) = (\<lambda>r. if r \<in> set rs then s else last_use N r)"
    "first_use (fold (record_use s) rs N) = (\<lambda>r. if r \<in> set rs \<and> first_use N r < 0 then s else first_use N r)" by blast+
qed

definition defs_unique :: "func \<Rightarrow> addr list \<Rightarrow> bool" where
  "defs_unique fn L \<longleftrightarrow> distinct L \<and> (\<forall>a \<in> set L. op (heap fn a) \<noteq> OP_NOP) \<and>
     (\<forall>a \<in> set L. \<forall>b \<in> set L. numbers_def (heap fn a) \<longrightarrow> numbers_def (heap fn b) \<longrightarrow> dst (heap fn a) = dst (heap fn b) \<longrightarrow> a = b)"

lemma number_step:
  assumes u: "defs_unique fn L" and k: "k < length L" and inv: "number_inv fn L k N"
    and run: "number_instr fn (L ! k) (N, int k) = Some (N', s')"
  shows "s' = int (Suc k) \<and> number_inv fn L (Suc k) N'"
proof -
  let ?i = "instr_at fn L k"
  have ne: "L ! j \<noteq> L ! k" if "j < k" for j using u k that by (simp add: defs_unique_def nth_eq_iff_index_eq)
  have nn: "op ?i \<noteq> OP_NOP" using u k by (simp add: defs_unique_def)
  have du: "dst (instr_at fn L j) \<noteq> dst ?i" if "j < k" "numbers_def (instr_at fn L j)" "numbers_def ?i" for j
    using u k that ne [OF that(1)] unfolding defs_unique_def by (metis less_trans nth_mem)
  define M where "M = fold (record_use (int k)) (recorded ?i) (N\<lparr>lscan_seq := (lscan_seq N)(L ! k := int k)\<rparr>)"
  note R = record_uses [of "int k" "recorded ?i" "N\<lparr>lscan_seq := (lscan_seq N)(L ! k := int k)\<rparr>", folded M_def, simplified]
  have N': "s' = int k + 1" "N' = M\<lparr>def_seq := (if numbers_def ?i then (def_seq N)(dst ?i := int k) else def_seq N)\<rparr>"
    "numbers_def ?i \<Longrightarrow> dst ?i < MAX_INSTRS"
    using run nn R(2) by (auto simp: number_instr_def Let_def M_def [symmetric] split: if_splits)
  have f: "lscan_seq N' = (lscan_seq N)(L ! k := int k)" "first_use N' = first_use M" "last_use N' = last_use M"
    "def_seq N' = (if numbers_def ?i then (def_seq N)(dst ?i := int k) else def_seq N)"
    using N'(2) R by simp_all
  note i = inv [unfolded number_inv_def]
  have rec: "r < MAX_INSTRS" if "r \<in> set (recorded ?i)" for r using that by (auto simp: recorded_def)
  have "number_inv fn L (Suc k) N'"
    unfolding number_inv_def f
  proof (intro conjI allI impI ballI)
    show "((lscan_seq N)(L ! k := int k)) (L ! j) = int j" if "j < Suc k" for j
      using i that ne [of j] by (cases "j = k") auto
    show "(if numbers_def ?i then (def_seq N)(dst ?i := int k) else def_seq N) r = -1 \<or>
        (\<exists>j < Suc k. (if numbers_def ?i then (def_seq N)(dst ?i := int k) else def_seq N) r = int j \<and>
          numbers_def (instr_at fn L j) \<and> dst (instr_at fn L j) = r \<and> r < MAX_INSTRS)" for r
    proof (cases "numbers_def ?i \<and> r = dst ?i")
      case True
      then show ?thesis using N'(3) by (intro disjI2 exI [of _ k]) auto
    next
      case False
      then have "(if numbers_def ?i then (def_seq N)(dst ?i := int k) else def_seq N) r = def_seq N r" by auto
      then show ?thesis using i by (auto intro: less_SucI)
    qed
    show "(if numbers_def ?i then (def_seq N)(dst ?i := int k) else def_seq N) (dst (instr_at fn L j)) = int j"
      if "j < Suc k" "numbers_def (instr_at fn L j)" for j
      using i that du [of j] by (cases "j = k") auto
    fix j r assume j: "j < Suc k" "r \<in> set (recorded (instr_at fn L j))"
    have old: "0 \<le> first_use N r \<and> first_use N r \<le> int j \<and> int j \<le> last_use N r \<and> last_use N r < int k" if "j < k"
      using i that j(2) by blast
    show "0 \<le> first_use M r" using R(4) old j by (cases "j = k") auto
    show "first_use M r \<le> int j"
    proof (cases "j = k")
      case True
      moreover have "first_use N r < int k" using i by blast
      ultimately show ?thesis using R(4) by auto
    qed (use R(4) old j in auto)
    show "int j \<le> last_use M r" using R(3) old j by (cases "j = k") auto
  next
    fix r
    have o: "-1 \<le> last_use N r" "last_use N r < int k" "0 \<le> last_use N r \<longrightarrow> r < MAX_INSTRS" "first_use N r < int k"
      using i by blast+
    show "-1 \<le> last_use M r" "last_use M r < int (Suc k)" "0 \<le> last_use M r \<Longrightarrow> r < MAX_INSTRS" "first_use M r < int (Suc k)"
      using o R(3,4) rec by (auto split: if_splits)
  qed
  with N'(1) show ?thesis by simp
qed

lemma fold_opt_skip:
  assumes "\<And>x s. \<not> P x \<Longrightarrow> f x s = Some s"
  shows "fold_opt f xs s = fold_opt f (filter P xs) s"
  using assms by (induction xs arbitrary: s) (auto split: option.split)

lemma number_all:
  assumes u: "defs_unique fn L" and run: "fold_opt (number_instr fn) L (no_numbers seq0, 0) = Some (N, s)"
  shows "s = int (length L) \<and> number_inv fn L (length L) N"
proof -
  have "\<exists>N. fold_opt (number_instr fn) (take k L) (no_numbers seq0, 0) = Some (N, int k) \<and> number_inv fn L k N"
    if "k \<le> length L" for k
    using that
  proof (induction k)
    case 0
    show ?case by (auto simp: number_inv_def no_numbers_def)
  next
    case (Suc k)
    then obtain N1 where n: "fold_opt (number_instr fn) (take k L) (no_numbers seq0, 0) = Some (N1, int k)" "number_inv fn L k N1" by auto
    have sp: "L = take k L @ L ! k # drop (Suc k) L" using Suc.prems by (simp add: id_take_nth_drop)
    have tk: "take (Suc k) L = take k L @ [L ! k]" using Suc.prems by (simp add: take_Suc_conv_app_nth)
    have "number_instr fn (L ! k) (N1, int k) \<noteq> None"
    proof
      assume "number_instr fn (L ! k) (N1, int k) = None"
      then have "fold_opt (number_instr fn) (take k L @ L ! k # drop (Suc k) L) (no_numbers seq0, 0) = None"
        by (simp only: fold_opt_append n(1) option.case fold_opt.simps)
      with run sp show False by simp
    qed
    then obtain N2 s2 where r: "number_instr fn (L ! k) (N1, int k) = Some (N2, s2)" by auto
    from number_step [OF u _ n(2) r] Suc.prems r n(1) show ?case by (simp add: tk fold_opt_append)
  qed
  from this [of "length L"] run show ?thesis by auto
qed

section \<open>What the repairs do\<close>

text \<open>A repair moves last uses to the end, and nothing else.\<close>

definition repaired :: "int \<Rightarrow> numbering \<Rightarrow> numbering \<Rightarrow> bool" where
  "repaired m N M \<longleftrightarrow> lscan_seq M = lscan_seq N \<and> def_seq M = def_seq N \<and> first_use M = first_use N \<and>
     (\<forall>r. last_use M r = last_use N r \<or> last_use M r = m)"

lemma repaired_refl [simp]: "repaired m N N"
  by (simp add: repaired_def)

lemma repaired_trans: "repaired m A B \<Longrightarrow> repaired m B C \<Longrightarrow> repaired m A C"
  unfolding repaired_def by metis

lemma repaired_fold:
  assumes "\<And>x N. repaired m N (f x N)"
  shows "repaired m N (fold f xs N)"
  by (rule fold_invariant [where I = "repaired m N"]) (auto intro: repaired_trans assms)

lemma phi_fix_repaired: "repaired (last_seq s) N (phi_fix fn order s N)"
  unfolding phi_fix_def by (intro repaired_fold) (auto simp: repaired_def split: prod.split)

definition loop_step :: "func \<Rightarrow> blockid list \<Rightarrow> int \<Rightarrow> nat \<Rightarrow> numbering \<Rightarrow> numbering" where
  "loop_step fn order s bi N = (let h = head_seq fn N (order ! bi) in
     if is_loop_head fn order bi \<and> 0 \<le> h
     then N\<lparr>last_use := (\<lambda>r. if r < MAX_INSTRS \<and> 0 \<le> def_seq N r \<and> def_seq N r < h \<and> h \<le> last_use N r
        then last_seq s else last_use N r)\<rparr>
     else N)"

lemma loop_step_repaired: "repaired (last_seq s) N (loop_step fn order s bi N)"
  by (auto simp: repaired_def loop_step_def Let_def)

lemma head_seq_repaired: "repaired m N M \<Longrightarrow> head_seq fn M = head_seq fn N"
  by (auto simp: repaired_def head_seq_def fun_eq_iff split: list.split)

lemma loop_fix_ends:
  "repaired (last_seq s) N (loop_fix fn order s N)"
  "bi < length order \<Longrightarrow> is_loop_head fn order bi \<Longrightarrow> 0 \<le> head_seq fn N (order ! bi) \<Longrightarrow> r < MAX_INSTRS \<Longrightarrow> 0 \<le> def_seq N r \<Longrightarrow>
    def_seq N r < head_seq fn N (order ! bi) \<Longrightarrow> head_seq fn N (order ! bi) \<le> last_use N r \<Longrightarrow>
    last_use (loop_fix fn order s N) r = last_seq s"
proof -
  have eq: "loop_fix fn order s N = fold (loop_step fn order s) [0..<length order] N" for N
    unfolding loop_fix_def loop_step_def by (rule refl)
  show "repaired (last_seq s) N (loop_fix fn order s N)" unfolding eq by (intro repaired_fold loop_step_repaired)
  assume b: "bi < length order" "is_loop_head fn order bi" "0 \<le> head_seq fn N (order ! bi)" and
    r: "r < MAX_INSTRS" "0 \<le> def_seq N r" "def_seq N r < head_seq fn N (order ! bi)" "head_seq fn N (order ! bi) \<le> last_use N r"
  have sp: "[0..<length order] = [0..<bi] @ bi # [Suc bi..<length order]"
    using b(1) upt_add_eq_append [of 0 bi "length order - bi"] by (simp add: upt_conv_Cons)
  let ?A = "fold (loop_step fn order s) [0..<bi] N"
  let ?B = "loop_step fn order s bi ?A"
  have A: "repaired (last_seq s) N ?A" by (intro repaired_fold loop_step_repaired)
  have h: "head_seq fn ?A = head_seq fn N" by (rule head_seq_repaired [OF A])
  have "last_use ?A r = last_use N r \<or> last_use ?A r = last_seq s" "def_seq ?A = def_seq N" using A by (auto simp: repaired_def)
  then have B: "last_use ?B r = last_seq s" using b r by (auto simp: loop_step_def Let_def h)
  have "repaired (last_seq s) ?B (fold (loop_step fn order s) [Suc bi..<length order] ?B)" by (intro repaired_fold loop_step_repaired)
  then have "last_use (fold (loop_step fn order s) [Suc bi..<length order] ?B) r = last_seq s"
    using B unfolding repaired_def by metis
  then show "last_use (loop_fix fn order s N) r = last_seq s" unfolding eq sp by simp
qed

text \<open>The final interval of a register that is defined at \<open>d\<close>.\<close>

lemma final_interval:
  fixes order :: "blockid list"
  assumes N: "number_inv fn L (length L) N" and d: "def_seq N r = int d" "d < length L"
  defines "s \<equiv> int (length L)"
  defines "F \<equiv> order_fix s (loop_fix fn order s (phi_fix fn order s N))"
  defines "e \<equiv> interval_end (def_seq F) (last_use F) r"
  shows "0 \<le> def_seq F r \<and> def_seq F r \<le> int d" "int d \<le> e" "last_use N r \<le> e"
    "0 \<le> first_use N r \<Longrightarrow> first_use N r < int d \<Longrightarrow> e = s - 1"
    "bi < length order \<Longrightarrow> is_loop_head fn order bi \<Longrightarrow> int d < head_seq fn N (order ! bi) \<Longrightarrow>
      head_seq fn N (order ! bi) \<le> e \<Longrightarrow> e = s - 1"
proof -
  let ?M = "loop_fix fn order s (phi_fix fn order s N)"
  have m: "last_seq s = s - 1" "0 \<le> s - 1" "int d \<le> s - 1" using d(2) by (auto simp: last_seq_def s_def)
  have R1: "repaired (s - 1) N (phi_fix fn order s N)" using phi_fix_repaired [of s N fn order] m(1) by simp
  have R: "repaired (s - 1) N ?M"
    using repaired_trans [OF R1] loop_fix_ends(1) [of s "phi_fix fn order s N" fn order] m(1) by simp
  have M: "def_seq ?M = def_seq N" "first_use ?M = first_use N" "last_use ?M r = last_use N r \<or> last_use ?M r = s - 1"
    using R by (auto simp: repaired_def)
  have raw: "last_use N r < s" "r < MAX_INSTRS" "-1 \<le> last_use N r"
  proof -
    show "last_use N r < s" "-1 \<le> last_use N r" using N by (auto simp: number_inv_def s_def)
    have "def_seq N r = -1 \<or> r < MAX_INSTRS" using N unfolding number_inv_def by blast
    then show "r < MAX_INSTRS" using d(1) by auto
  qed
  have f: "def_seq F r = (if 0 \<le> last_use ?M r \<and> last_use ?M r < int d then last_use ?M r
      else if 0 \<le> first_use N r \<and> first_use N r < int d then first_use N r else int d)"
    "last_use F r = (if (0 \<le> last_use ?M r \<and> last_use ?M r < int d) \<or> (0 \<le> first_use N r \<and> first_use N r < int d) then s - 1 else last_use ?M r)"
    using raw(2) m(1) by (auto simp: F_def order_fix_def Let_def M(1,2) d(1))
  show "0 \<le> def_seq F r \<and> def_seq F r \<le> int d" using f(1) by auto
  show "int d \<le> e" "last_use N r \<le> e" using f m(2,3) M(3) raw by (auto simp: e_def interval_end_def)
  show "0 \<le> first_use N r \<Longrightarrow> first_use N r < int d \<Longrightarrow> e = s - 1" using f m(2) by (auto simp: e_def interval_end_def)
  assume b: "bi < length order" "is_loop_head fn order bi" "int d < head_seq fn N (order ! bi)" "head_seq fn N (order ! bi) \<le> e"
  have "head_seq fn (phi_fix fn order s N) = head_seq fn N" by (rule head_seq_repaired [OF R1])
  moreover have P: "def_seq (phi_fix fn order s N) = def_seq N"
    "last_use (phi_fix fn order s N) r = last_use N r \<or> last_use (phi_fix fn order s N) r = s - 1"
    using R1 by (auto simp: repaired_def)
  ultimately have "last_use ?M r = s - 1" if "head_seq fn N (order ! bi) \<le> last_use N r"
    using loop_fix_ends(2) [of bi order fn "phi_fix fn order s N" r s] b that raw(1,2) d(1) m(1) by auto
  then show "e = s - 1" using b(3,4) f M(3) m by (auto simp: e_def interval_end_def split: if_splits)
qed

section \<open>Live ranges\<close>

text \<open>The code of a block: what is numbered.\<close>

definition code_of :: "func \<Rightarrow> blockid \<Rightarrow> addr list" where
  "code_of fn b = filter (\<lambda>a. op (heap fn a) \<noteq> OP_NOP) (blk_instrs (blk_at fn b))"

abbreviation code_at :: "func \<Rightarrow> blockid \<Rightarrow> nat \<Rightarrow> instr" where
  "code_at fn b k \<equiv> heap fn (code_of fn b ! k)"

text \<open>The registers an instruction that is no phi node reads.\<close>

definition reads :: "instr \<Rightarrow> regid list" where
  "reads i = filter (\<lambda>r. r \<noteq> 0) (List.map (src i) [0..<(if op i = OP_BR then 0 else if op i = OP_CONDBR then 1 else n_src i)] @
     (if op i = OP_CALL then call_args i else []))"

text \<open>
  \<open>v\<close> is live before the instruction at position \<open>k\<close> of block \<open>b\<close> (at its end, for the length of the code).
  Phi nodes act on the edges: their sources are read at the end of the predecessor, where the code
  generator puts the copies, and their results are written there.
\<close>

inductive live_at :: "func \<Rightarrow> regid \<Rightarrow> blockid \<Rightarrow> nat \<Rightarrow> bool" for fn v where
  used: "k < length (code_of fn b) \<Longrightarrow> op (code_at fn b k) \<noteq> OP_PHI \<Longrightarrow> v \<in> set (reads (code_at fn b k)) \<Longrightarrow> live_at fn v b k"
| pass: "k < length (code_of fn b) \<Longrightarrow> op (code_at fn b k) = OP_PHI \<or> dst (code_at fn b k) \<noteq> v \<Longrightarrow>
    live_at fn v b (Suc k) \<Longrightarrow> live_at fn v b k"
| edge: "t \<in> set (succs_at fn b) \<Longrightarrow> \<forall>a \<in> set (code_of fn t). op (heap fn a) = OP_PHI \<longrightarrow> dst (heap fn a) \<noteq> v \<Longrightarrow>
    live_at fn v t 0 \<Longrightarrow> live_at fn v b (length (code_of fn b))"
| phi_source: "t \<in> set (succs_at fn b) \<Longrightarrow> k < length (code_of fn t) \<Longrightarrow> op (code_at fn t k) = OP_PHI \<Longrightarrow>
    (v, b) \<in> set (phi (code_at fn t k)) \<Longrightarrow> v \<noteq> 0 \<Longrightarrow> live_at fn v b (length (code_of fn b))"

definition defined_in :: "func \<Rightarrow> blockid \<Rightarrow> nat \<Rightarrow> regid \<Rightarrow> bool" where
  "defined_in fn b k v \<longleftrightarrow> k < length (code_of fn b) \<and> numbers_def (code_at fn b k) \<and> dst (code_at fn b k) = v"

text \<open>
  \<open>v\<close> has its definition before position \<open>k\<close> of block \<open>b\<close>: it is a result of the block's phi nodes, or defined
  before in the block or in a block that dominates it. In strict SSA every use has.
\<close>

definition def_before :: "blockid \<Rightarrow> func \<Rightarrow> regid \<Rightarrow> blockid \<Rightarrow> nat \<Rightarrow> bool" where
  "def_before e fn v b k \<longleftrightarrow> (\<exists>j. defined_in fn b j v \<and> (op (code_at fn b j) = OP_PHI \<or> j < k)) \<or>
     (\<exists>c \<in> reached e fn. c \<noteq> b \<and> dominates (cfg_edges fn) e c b \<and> (\<exists>j. defined_in fn c j v))"

definition strict_ssa :: "blockid \<Rightarrow> func \<Rightarrow> bool" where
  "strict_ssa e fn \<longleftrightarrow> (\<forall>b \<in> reached e fn.
     (\<forall>k < length (code_of fn b). op (code_at fn b k) \<noteq> OP_PHI \<longrightarrow> (\<forall>v \<in> set (reads (code_at fn b k)). def_before e fn v b k)) \<and>
     (\<forall>t \<in> set (succs_at fn b). \<forall>k < length (code_of fn t). op (code_at fn t k) = OP_PHI \<longrightarrow>
        (\<forall>v. (v, b) \<in> set (phi (code_at fn t k)) \<longrightarrow> v \<noteq> 0 \<longrightarrow> def_before e fn v b (length (code_of fn b)))))"

definition alloc_instr_ok :: "instr \<Rightarrow> bool" where
  "alloc_instr_ok i \<longleftrightarrow> (if op i = OP_PHI then dst i \<noteq> 0 \<and> (\<forall>(r, p) \<in> set (phi i). r < MAX_INSTRS) else set (reads i) \<subseteq> set (recorded i))"

definition alloc_block_ok :: "func \<Rightarrow> blockid \<Rightarrow> bool" where
  "alloc_block_ok fn b \<longleftrightarrow> code_of fn b \<noteq> [] \<and> hd (code_of fn b) = hd (blk_instrs (blk_at fn b)) \<and>
     (\<forall>a \<in> set (code_of fn b). alloc_instr_ok (heap fn a)) \<and>
     (\<forall>k < length (code_of fn b). \<forall>j < k. op (code_at fn b k) = OP_PHI \<longrightarrow> op (code_at fn b j) = OP_PHI)"

definition alloc_fn_ok :: "blockid \<Rightarrow> func \<Rightarrow> bool" where
  "alloc_fn_ok e fn \<longleftrightarrow> edges_ok fn \<and> is_block fn e \<and> heap_ok fn \<and> ssa_unique fn \<and>
     (\<forall>b \<in> reached e fn. alloc_block_ok fn b) \<and> strict_ssa e fn"

text \<open>
  What the repairs miss: a block that is its own successor, and a phi node that takes the result of an
  earlier phi node of its block (or its own) around the loop.
\<close>

definition repairs_suffice :: "blockid \<Rightarrow> func \<Rightarrow> bool" where
  "repairs_suffice e fn \<longleftrightarrow> (\<forall>b \<in> reached e fn. b \<notin> set (succs_at fn b) \<and>
     (\<forall>k < length (code_of fn b). \<forall>j \<le> k. op (code_at fn b k) = OP_PHI \<longrightarrow> op (code_at fn b j) = OP_PHI \<longrightarrow>
        dst (code_at fn b j) \<notin> fst ` set (phi (code_at fn b k))))"

text \<open>What holds of uses holds of live registers.\<close>

lemma strict_live:
  assumes s: "strict_ssa e fn" and eo: "edges_ok fn" and l: "live_at fn v b k" "b \<in> reached e fn"
  shows "def_before e fn v b k"
  using l
proof induction
  case (used k b)
  with s show ?case unfolding strict_ssa_def by blast
next
  case (pass k b)
  note IH = pass.IH [OF pass.prems]
  have "op (code_at fn b j) = OP_PHI \<or> j < k" if "defined_in fn b j v" "op (code_at fn b j) = OP_PHI \<or> j < Suc k" for j
    using that pass.hyps(2) by (cases "j = k") (auto simp: defined_in_def)
  with IH show ?case unfolding def_before_def by blast
next
  case (edge t b)
  have bt: "(b, t) \<in> cfg_edges fn" using succs_edge [OF eo edge.hyps(1)] by simp
  with edge.prems have "t \<in> reached e fn" by (auto intro: rtrancl_into_rtrancl)
  note IH = edge.IH [OF this]
  have "\<not> (defined_in fn t j v \<and> op (code_at fn t j) = OP_PHI)" for j using edge.hyps(2) by (auto simp: defined_in_def)
  with IH obtain c j where c: "c \<in> reached e fn" "c \<noteq> t" "dominates (cfg_edges fn) e c t" "defined_in fn c j v"
    unfolding def_before_def by blast
  have dom: "dominates (cfg_edges fn) e c b" by (rule dominates_pred [OF c(3,2) bt])
  show ?case
  proof (cases "c = b")
    case True
    then have "j < length (code_of fn b)" using c(4) by (simp add: defined_in_def)
    with True c(4) show ?thesis unfolding def_before_def by blast
  next
    case False
    with c dom show ?thesis unfolding def_before_def by blast
  qed
next
  case (phi_source t b k)
  with s show ?case unfolding strict_ssa_def by blast
qed

section \<open>Positions\<close>

definition offset :: "func \<Rightarrow> blockid list \<Rightarrow> nat \<Rightarrow> nat" where
  "offset fn order j = length (concat (List.map (code_of fn) (take j order)))"

definition numbered_code :: "func \<Rightarrow> blockid list \<Rightarrow> addr list" where
  "numbered_code fn order = concat (List.map (code_of fn) order)"

lemma filter_layout: "filter (\<lambda>a. op (heap fn a) \<noteq> OP_NOP) (layout fn order) = numbered_code fn order"
  by (induction order) (auto simp: layout_def numbered_code_def code_of_def)

lemma offset_nth:
  assumes "j < length order" "k < length (code_of fn (order ! j))"
  shows "offset fn order j + k < length (numbered_code fn order)"
    "numbered_code fn order ! (offset fn order j + k) = code_of fn (order ! j) ! k"
proof -
  have "order = take j order @ order ! j # drop (Suc j) order" using assms(1) by (simp add: id_take_nth_drop)
  then have "numbered_code fn order = concat (List.map (code_of fn) (take j order)) @ code_of fn (order ! j) @
      concat (List.map (code_of fn) (drop (Suc j) order))"
    unfolding numbered_code_def by (metis concat.simps(2) concat_append list.simps(9) map_append)
  with assms(2) show "offset fn order j + k < length (numbered_code fn order)"
    "numbered_code fn order ! (offset fn order j + k) = code_of fn (order ! j) ! k"
    by (auto simp: offset_def nth_append)
qed

lemma offset_less: "i < j \<Longrightarrow> j \<le> length order \<Longrightarrow> offset fn order i + length (code_of fn (order ! i)) \<le> offset fn order j"
proof (induction j)
  case (Suc j)
  have s: "offset fn order (Suc j) = offset fn order j + length (code_of fn (order ! j))"
    using Suc.prems(2) by (simp add: offset_def take_Suc_conv_app_nth)
  show ?case
  proof (cases "i = j")
    case False
    then show ?thesis using Suc s by simp
  qed (use s in simp)
qed simp

lemma offset_cover:
  "d < length (numbered_code fn order) \<Longrightarrow> \<exists>j < length order. \<exists>k < length (code_of fn (order ! j)). d = offset fn order j + k"
proof (induction order arbitrary: d)
  case (Cons b order)
  show ?case
  proof (cases "d < length (code_of fn b)")
    case True
    then show ?thesis by (intro exI [of _ 0]) (auto simp: offset_def)
  next
    case False
    then have "d - length (code_of fn b) < length (numbered_code fn order)" using Cons.prems by (auto simp: numbered_code_def)
    from Cons.IH [OF this] obtain j k where "j < length order" "k < length (code_of fn (order ! j))"
      "d - length (code_of fn b) = offset fn order j + k" by blast
    with False show ?thesis by (intro exI [of _ "Suc j"]) (auto simp: offset_def)
  qed
qed (simp add: numbered_code_def)

section \<open>The intervals cover the live ranges\<close>

text \<open>The numbering of a function, its final form, and the end of the interval of a register.\<close>

definition numbers :: "blockid \<Rightarrow> func \<Rightarrow> numbering \<Rightarrow> numbering \<Rightarrow> bool" where
  "numbers e fn N F \<longleftrightarrow> (let order = alloc_order e fn; L = numbered_code fn order; s = int (length L) in
     number_inv fn L (length L) N \<and> F = order_fix s (loop_fix fn order s (phi_fix fn order s N)))"

abbreviation end_of :: "numbering \<Rightarrow> regid \<Rightarrow> int" where
  "end_of F v \<equiv> interval_end (def_seq F) (last_use F) v"

lemma code_in_all: "a \<in> set (code_of fn b) \<Longrightarrow> a \<in> set (all_addrs fn)"
  by (cases "blk_at fn b") (auto simp: code_of_def blk_instrs_def set_all_addrs)

lemma blk_instrs_disjoint:
  assumes "heap_ok fn" "a \<in> set (blk_instrs (blk_at fn b))" "a \<in> set (blk_instrs (blk_at fn c))"
  shows "b = c"
proof -
  obtain x y where "blk_at fn b = Some x" "blk_at fn c = Some y" "a \<in> set (instrs x)" "a \<in> set (instrs y)"
    using assms(2,3) by (cases "blk_at fn b"; cases "blk_at fn c") (auto simp: blk_instrs_def)
  with heap_ok_disjoint [OF assms(1)] show ?thesis by (metis disjoint_iff linorder_neqE_nat)
qed

lemma distinct_concat_map:
  assumes "distinct xs" "\<And>x. x \<in> set xs \<Longrightarrow> distinct (f x)"
    "\<And>x y. x \<in> set xs \<Longrightarrow> y \<in> set xs \<Longrightarrow> x \<noteq> y \<Longrightarrow> set (f x) \<inter> set (f y) = {}"
  shows "distinct (concat (List.map f xs))"
  using assms
proof (induction xs)
  case (Cons x xs)
  have "set (f x) \<inter> set (concat (List.map f xs)) = {}" using Cons.prems(1,3) by fastforce
  with Cons show ?case by simp
qed simp

lemma code_of_sub: "set (code_of fn b) \<subseteq> set (blk_instrs (blk_at fn b))"
  by (auto simp: code_of_def)

lemma alloc_defs_unique:
  assumes "alloc_fn_ok e fn"
  shows "defs_unique fn (numbered_code fn (alloc_order e fn))"
proof -
  have ok: "heap_ok fn" "ssa_unique fn" "edges_ok fn" "is_block fn e" using assms by (auto simp: alloc_fn_ok_def)
  have "distinct (numbered_code fn (alloc_order e fn))"
    unfolding numbered_code_def
  proof (rule distinct_concat_map)
    show "distinct (alloc_order e fn)" by (rule alloc_order_facts(1) [OF ok(3,4)])
    show "distinct (code_of fn b)" for b
      using ok(1) by (cases "blk_at fn b") (auto simp: code_of_def blk_instrs_def heap_ok_def intro: distinct_filter distinct_blk)
    show "set (code_of fn b) \<inter> set (code_of fn c) = {}" if "b \<noteq> c" for b c
      using blk_instrs_disjoint [OF ok(1), of _ b c] code_of_sub [of fn b] code_of_sub [of fn c] that by blast
  qed
  moreover have "a \<in> set (all_addrs fn)" "op (heap fn a) \<noteq> OP_NOP" if "a \<in> set (numbered_code fn (alloc_order e fn))" for a
    using that code_in_all by (auto simp: numbered_code_def code_of_def)
  ultimately show ?thesis using ok(2) unfolding defs_unique_def ssa_unique_def numbers_def_def by blast
qed

lemma numbers_exist:
  assumes ok: "alloc_fn_ok e fn" and run: "ir_asm_number_and_liveness fn (alloc_order e fn) seq0 = Some F"
  obtains N where "numbers e fn N F"
proof -
  let ?o = "alloc_order e fn"
  let ?L = "numbered_code fn ?o"
  have "fold_opt (number_instr fn) (layout fn ?o) (no_numbers seq0, 0) = fold_opt (number_instr fn) ?L (no_numbers seq0, 0)"
    unfolding filter_layout [symmetric] by (rule fold_opt_skip) (auto simp: number_instr_def split: prod.split)
  then obtain N s where r: "fold_opt (number_instr fn) ?L (no_numbers seq0, 0) = Some (N, s)"
    "F = order_fix s (loop_fix fn ?o s (phi_fix fn ?o s N))"
    using run by (auto simp: ir_asm_number_and_liveness_def)
  from number_all [OF alloc_defs_unique [OF ok] r(1)] r(2) have "numbers e fn N F" by (simp add: numbers_def Let_def)
  then show thesis by (rule that)
qed

text \<open>A definition and its number.\<close>

lemma def_number:
  assumes ok: "alloc_fn_ok e fn" and n: "numbers e fn N F" and d: "defined_in fn b k v" "b \<in> reached e fn"
  obtains j where "j < length (alloc_order e fn)" "alloc_order e fn ! j = b"
    "def_seq N v = int (offset fn (alloc_order e fn) j + k)" "offset fn (alloc_order e fn) j + k < length (numbered_code fn (alloc_order e fn))"
proof -
  let ?o = "alloc_order e fn"
  have g: "edges_ok fn" "is_block fn e" using ok by (auto simp: alloc_fn_ok_def)
  obtain j where j: "j < length ?o" "?o ! j = b" using d(2) alloc_order_facts(2) [OF g] by (metis in_set_conv_nth)
  have k: "k < length (code_of fn (?o ! j))" using d(1) j by (simp add: defined_in_def)
  note p = offset_nth [OF j(1) k]
  have "numbers_def (instr_at fn (numbered_code fn ?o) (offset fn ?o j + k))" "dst (instr_at fn (numbered_code fn ?o) (offset fn ?o j + k)) = v"
    using d(1) p(2) j(2) by (simp_all add: defined_in_def)
  with n p(1) have "def_seq N v = int (offset fn ?o j + k)" unfolding numbers_def Let_def number_inv_def by blast
  with j p(1) that show thesis by blast
qed

lemma recorded_number:
  assumes ok: "alloc_fn_ok e fn" and n: "numbers e fn N F" and b: "j < length (alloc_order e fn)" "k < length (code_of fn (alloc_order e fn ! j))"
    and v: "v \<in> set (recorded (code_at fn (alloc_order e fn ! j) k))"
  shows "0 \<le> first_use N v" "first_use N v \<le> int (offset fn (alloc_order e fn) j + k)" "int (offset fn (alloc_order e fn) j + k) \<le> last_use N v"
proof -
  note p = offset_nth [OF b]
  have "v \<in> set (recorded (instr_at fn (numbered_code fn (alloc_order e fn)) (offset fn (alloc_order e fn) j + k)))"
    using v p(2) by simp
  with n p(1) show "0 \<le> first_use N v" "first_use N v \<le> int (offset fn (alloc_order e fn) j + k)"
    "int (offset fn (alloc_order e fn) j + k) \<le> last_use N v"
    unfolding numbers_def Let_def number_inv_def by blast+
qed

text \<open>An edge back to a block makes it the head of a loop.\<close>

lemma back_edge_head:
  assumes ok: "alloc_fn_ok e fn" and n: "numbers e fn N F" and i: "i < length (alloc_order e fn)" "j < i"
    and t: "alloc_order e fn ! j \<in> set (succs_at fn (alloc_order e fn ! i))"
  shows "is_loop_head fn (alloc_order e fn) j" "head_seq fn N (alloc_order e fn ! j) = int (offset fn (alloc_order e fn) j)"
proof -
  let ?o = "alloc_order e fn" and ?t = "alloc_order e fn ! j"
  have g: "edges_ok fn" "is_block fn e" using ok by (auto simp: alloc_fn_ok_def)
  have "?o ! i \<in> set (preds_at fn ?t)" using preds_edge [OF g(1)] succs_edge [OF g(1) t] by blast
  then show "is_loop_head fn ?o j" unfolding is_loop_head_def list_ex_iff using i by (intro bexI [of _ "?o ! i"] bexI [of _ i]) auto
  have "?t \<in> reached e fn" using alloc_order_facts(2) [OF g] i by (metis less_trans nth_mem)
  then have a: "code_of fn ?t \<noteq> []" "hd (code_of fn ?t) = hd (blk_instrs (blk_at fn ?t))"
    using ok by (auto simp: alloc_fn_ok_def alloc_block_ok_def)
  then have "blk_instrs (blk_at fn ?t) \<noteq> []" using code_of_sub [of fn ?t] by auto
  then have h: "head_seq fn N ?t = lscan_seq N (code_of fn ?t ! 0)" using a by (auto simp: head_seq_def hd_conv_nth neq_Nil_conv)
  have "j < length ?o" "0 < length (code_of fn ?t)" using i a(1) by auto
  note p = offset_nth [OF this]
  with n have "lscan_seq N (numbered_code fn ?o ! (offset fn ?o j + 0)) = int (offset fn ?o j + 0)"
    unfolding numbers_def Let_def number_inv_def by blast
  then show "head_seq fn N ?t = int (offset fn ?o j)" using h p(2) by simp
qed

lemma final_numbers:
  assumes n: "numbers e fn N F" and d: "def_seq N v = int d" "d < length (numbered_code fn (alloc_order e fn))"
  shows "0 \<le> def_seq F v \<and> def_seq F v \<le> int d" "int d \<le> end_of F v" "last_use N v \<le> end_of F v"
    "0 \<le> first_use N v \<Longrightarrow> first_use N v < int d \<Longrightarrow> end_of F v = int (length (numbered_code fn (alloc_order e fn))) - 1"
    "bi < length (alloc_order e fn) \<Longrightarrow> is_loop_head fn (alloc_order e fn) bi \<Longrightarrow> int d < head_seq fn N (alloc_order e fn ! bi) \<Longrightarrow>
      head_seq fn N (alloc_order e fn ! bi) \<le> end_of F v \<Longrightarrow> end_of F v = int (length (numbered_code fn (alloc_order e fn))) - 1"
proof -
  let ?o = "alloc_order e fn"
  let ?L = "numbered_code fn ?o"
  have N: "number_inv fn ?L (length ?L) N"
    and F: "F = order_fix (int (length ?L)) (loop_fix fn ?o (int (length ?L)) (phi_fix fn ?o (int (length ?L)) N))"
    using n by (simp_all add: numbers_def Let_def)
  note i = final_interval [OF N d, where order = ?o, folded F]
  show "0 \<le> def_seq F v \<and> def_seq F v \<le> int d" "int d \<le> end_of F v" "last_use N v \<le> end_of F v"
    "0 \<le> first_use N v \<Longrightarrow> first_use N v < int d \<Longrightarrow> end_of F v = int (length ?L) - 1"
    "bi < length ?o \<Longrightarrow> is_loop_head fn ?o bi \<Longrightarrow> int d < head_seq fn N (?o ! bi) \<Longrightarrow>
      head_seq fn N (?o ! bi) \<le> end_of F v \<Longrightarrow> end_of F v = int (length ?L) - 1"
    using i by blast+
qed

lemma before_head:
  assumes ok: "alloc_fn_ok e fn" and n: "numbers e fn N F" and d: "def_seq N v = int d"
    and c: "c \<in> reached e fn" "c \<noteq> t" "dominates (cfg_edges fn) e c t" "defined_in fn c k v"
    and t: "j < length (alloc_order e fn)" "alloc_order e fn ! j = t"
  shows "d < offset fn (alloc_order e fn) j"
proof -
  let ?o = "alloc_order e fn"
  have g: "edges_ok fn" "is_block fn e" using ok by (auto simp: alloc_fn_ok_def)
  obtain i where i: "i < length ?o" "?o ! i = c" "def_seq N v = int (offset fn ?o i + k)" by (rule def_number [OF ok n c(4,1)])
  have "c \<in> set (take j ?o)" using alloc_order_facts(3) [OF g t(1)] t(2) c(2,3) by blast
  then obtain i' where "i' < j" "?o ! i' = c" using t(1) by (auto simp: in_set_conv_nth)
  then have "i' = i" using i(1,2) t(1) nth_eq_iff_index_eq [OF alloc_order_facts(1) [OF g], of i' i] by simp
  then have "offset fn ?o i + length (code_of fn c) \<le> offset fn ?o j" using offset_less [of i j ?o fn] \<open>i' < j\<close> t(1) i(2) by simp
  moreover have "k < length (code_of fn c)" using c(4) by (simp add: defined_in_def)
  ultimately show ?thesis using i(3) d by simp
qed

text \<open>
  The position of a definition relative to a point where the register is live: in a block before, or in the
  same block as a phi node or as an earlier instruction.
\<close>

lemma live_after_def:
  assumes ok: "alloc_fn_ok e fn" and n: "numbers e fn N F" and l: "live_at fn v b k" and b: "j < length (alloc_order e fn)" "alloc_order e fn ! j = b"
  obtains d where "def_seq N v = int d" "d < length (numbered_code fn (alloc_order e fn))"
    "d < offset fn (alloc_order e fn) j \<or> (\<exists>i. defined_in fn b i v \<and> d = offset fn (alloc_order e fn) j + i \<and> (op (code_at fn b i) = OP_PHI \<or> i < k))"
proof -
  let ?o = "alloc_order e fn"
  have g: "edges_ok fn" "is_block fn e" using ok by (auto simp: alloc_fn_ok_def)
  have br: "b \<in> reached e fn" using alloc_order_facts(2) [OF g] b by (metis nth_mem)
  consider i where "defined_in fn b i v" "op (code_at fn b i) = OP_PHI \<or> i < k"
    | c i where "c \<in> reached e fn" "c \<noteq> b" "dominates (cfg_edges fn) e c b" "defined_in fn c i v"
    using strict_live [OF _ g(1) l br] ok unfolding alloc_fn_ok_def def_before_def by blast
  then show thesis
  proof cases
    case 1
    obtain j' where j': "j' < length ?o" "?o ! j' = b" "def_seq N v = int (offset fn ?o j' + i)"
      "offset fn ?o j' + i < length (numbered_code fn ?o)" by (rule def_number [OF ok n 1(1) br])
    then have "j' = j" using b nth_eq_iff_index_eq [OF alloc_order_facts(1) [OF g], of j' j] by simp
    with j' 1 show thesis by (intro that [of "offset fn ?o j + i"]) auto
  next
    case 2
    obtain j' where j': "def_seq N v = int (offset fn ?o j' + i)" "offset fn ?o j' + i < length (numbered_code fn ?o)"
      by (rule def_number [OF ok n 2(4,1)])
    from before_head [OF ok n j'(1) 2 b] j' show thesis by (intro that [of "offset fn ?o j' + i"]) auto
  qed
qed

lemma live_covered:
  assumes ok: "alloc_fn_ok e fn" and suff: "repairs_suffice e fn" and n: "numbers e fn N F"
    and d: "def_seq N v = int d" "d < length (numbered_code fn (alloc_order e fn))"
    and l: "live_at fn v b k" and b: "j < length (alloc_order e fn)" "alloc_order e fn ! j = b"
  shows "(k < length (code_of fn b) \<longrightarrow> d \<le> offset fn (alloc_order e fn) j + k \<longrightarrow> int (offset fn (alloc_order e fn) j + k) \<le> end_of F v) \<and>
    (k = length (code_of fn b) \<longrightarrow> d < offset fn (alloc_order e fn) j + k \<longrightarrow> int (offset fn (alloc_order e fn) j + k) - 1 \<le> end_of F v)"
  using l b
proof (induction arbitrary: j)
  let ?o = "alloc_order e fn"
  let ?off = "offset fn ?o" and ?len = "length (numbered_code fn ?o)"
  have g: "edges_ok fn" "is_block fn e" using ok by (auto simp: alloc_fn_ok_def)
  have bo: "alloc_block_ok fn (?o ! j)" "?o ! j \<in> reached e fn" if "j < length ?o" for j
    using ok that alloc_order_facts(2) [OF g] nth_mem by (auto simp: alloc_fn_ok_def)
  note fin = final_numbers [OF n d]
  have le: "?off j + length (code_of fn (?o ! j)) \<le> ?len" if "j < length ?o" for j
    using offset_less [of j "length ?o" ?o fn] that by (simp add: offset_def numbered_code_def)
  have all: "int (?off j + k) - 1 \<le> end_of F v" if "end_of F v = int ?len - 1" "j < length ?o" "k \<le> length (code_of fn (?o ! j))" for j k
    using that le [of j] by simp
  {
    case (used k b)
    have i: "op (code_at fn b k) \<noteq> OP_PHI" "alloc_instr_ok (code_at fn b k)"
      using used bo(1) [of j] by (auto simp: alloc_block_ok_def)
    then have "v \<in> set (recorded (code_at fn b k))" using used.hyps by (auto simp: alloc_instr_ok_def)
    then have "int (?off j + k) \<le> last_use N v"
      using recorded_number(3) [OF ok n, of j k v] used by simp
    then show ?case using fin(3) used.hyps(1) by auto
  next
    case (pass k b)
    note IH = pass.IH [OF pass.prems]
    have "int (?off j + k) \<le> end_of F v" if "d \<le> ?off j + k"
      using IH pass.hyps(1) that by (cases "Suc k = length (code_of fn b)") auto
    then show ?case using pass.hyps(1) by simp
  next
    case (edge t b)
    have b: "?o ! j = b" "j < length ?o" using edge.prems by auto
    have tr: "t \<in> reached e fn" using bo(2) [OF b(2)] succs_edge [OF g(1) edge.hyps(1)] b(1) by (auto intro: rtrancl_into_rtrancl)
    then obtain i where i: "i < length ?o" "?o ! i = t" using alloc_order_facts(2) [OF g] by (metis in_set_conv_nth)
    have lt: "0 < length (code_of fn t)" using bo(1) [OF i(1)] i(2) by (simp add: alloc_block_ok_def)
    have dt: "d < ?off i"
    proof -
      obtain d' where "def_seq N v = int d'" "d' < ?off i \<or> (\<exists>h. defined_in fn t h v \<and> d' = ?off i + h \<and> (op (code_at fn t h) = OP_PHI \<or> h < 0))"
        by (rule live_after_def [OF ok n edge.hyps(3) i])
      moreover have "\<not> (defined_in fn t h v \<and> op (code_at fn t h) = OP_PHI)" for h
        using edge.hyps(2) by (auto simp: defined_in_def)
      ultimately show ?thesis using d(1) by auto
    qed
    have h: "int (?off i) \<le> end_of F v" using edge.IH [OF i] lt dt by auto
    have "b \<noteq> t" using suff bo(2) [OF b(2)] edge.hyps(1) b(1) by (auto simp: repairs_suffice_def)
    then consider "j < i" | "i < j" using b i by (metis linorder_neqE_nat)
    then show ?case
    proof cases
      case 1
      then have "?off j + length (code_of fn b) \<le> ?off i" using offset_less [of j i ?o fn] i b by simp
      with h show ?thesis by simp
    next
      case 2
      have "?o ! i \<in> set (succs_at fn (?o ! j))" using edge.hyps(1) i b by simp
      note bh = back_edge_head [OF ok n b(2) 2 this]
      have "end_of F v = int ?len - 1" using fin(5) [OF i(1) bh(1)] bh(2) dt h by simp
      from all [OF this b(2), of "length (code_of fn b)"] b(1) show ?thesis by simp
    qed
  next
    case (phi_source t b q)
    have b: "?o ! j = b" "j < length ?o" using phi_source.prems by auto
    have tr: "t \<in> reached e fn" using bo(2) [OF b(2)] succs_edge [OF g(1) phi_source.hyps(1)] b(1) by (auto intro: rtrancl_into_rtrancl)
    then obtain i where i: "i < length ?o" "?o ! i = t" using alloc_order_facts(2) [OF g] by (metis in_set_conv_nth)
    have blk: "alloc_block_ok fn t" using bo(1) [OF i(1)] i(2) by simp
    then have "alloc_instr_ok (code_at fn t q)" using phi_source.hyps(2) by (simp add: alloc_block_ok_def)
    then have "v < MAX_INSTRS" using phi_source.hyps(3,4) by (auto simp: alloc_instr_ok_def)
    then have "v \<in> set (recorded (code_at fn t q))" using phi_source.hyps(3,4,5) by (force simp: recorded_def)
    then have u: "0 \<le> first_use N v" "first_use N v \<le> int (?off i + q)" "int (?off i + q) \<le> last_use N v"
      using recorded_number [OF ok n i(1), of q v] phi_source.hyps(2) i(2) by auto
    have "b \<noteq> t" using suff bo(2) [OF b(2)] phi_source.hyps(1) b(1) by (auto simp: repairs_suffice_def)
    then consider "j < i" | "i < j" using b i by (metis linorder_neqE_nat)
    then show ?case
    proof cases
      case 1
      then have "?off j + length (code_of fn b) \<le> ?off i" using offset_less [of j i ?o fn] i b by simp
      with u fin(3) show ?thesis by simp
    next
      case 2
      have "?o ! i \<in> set (succs_at fn (?o ! j))" using phi_source.hyps(1) i b by simp
      note bh = back_edge_head [OF ok n b(2) 2 this]
      consider "?off i + q < d" | "d < ?off i" | "?off i \<le> d" "d \<le> ?off i + q" by linarith
      then have "end_of F v = int ?len - 1"
      proof cases
        case 1
        then show ?thesis using fin(4) u by simp
      next
        case 2
        then show ?thesis using fin(5) [OF i(1) bh(1)] bh(2) u fin(3) by simp
      next
        case 3
        define h where "h = d - ?off i"
        have hq: "h \<le> q" "d = ?off i + h" "h < length (code_of fn t)" using 3 phi_source.hyps(2) by (auto simp: h_def)
        have N: "number_inv fn (numbered_code fn ?o) ?len N" using n by (simp add: numbers_def Let_def)
        have "def_seq N v = -1 \<or> (\<exists>j < ?len. def_seq N v = int j \<and> numbers_def (instr_at fn (numbered_code fn ?o) j) \<and>
            dst (instr_at fn (numbered_code fn ?o) j) = v \<and> v < MAX_INSTRS)" using N unfolding number_inv_def by blast
        then have "dst (instr_at fn (numbered_code fn ?o) d) = v" using d(1) by auto
        then have "dst (code_at fn t h) = v" using offset_nth(2) [OF i(1), of h fn] hq i(2) by simp
        moreover have "op (code_at fn t h) = OP_PHI"
          using blk hq(1) phi_source.hyps(2,3) unfolding alloc_block_ok_def by (cases "h = q") auto
        ultimately have "dst (code_at fn t h) \<notin> fst ` set (phi (code_at fn t q))"
          using suff tr phi_source.hyps(2,3) hq(1) unfolding repairs_suffice_def by blast
        with \<open>dst (code_at fn t h) = v\<close> phi_source.hyps(4) show ?thesis by force
      qed
      from all [OF this b(2), of "length (code_of fn b)"] b(1) show ?thesis by simp
    qed
  }
qed

section \<open>No two live registers share a place\<close>

lemma live_through_phis:
  assumes "live_at fn v b j" "j \<le> k" "k \<le> length (code_of fn b)" "\<forall>i < k. op (code_at fn b i) = OP_PHI"
  shows "live_at fn v b k"
  using assms
proof (induction "k - j" arbitrary: j)
  case (Suc m)
  then have j: "j < k" "j < length (code_of fn b)" "op (code_at fn b j) = OP_PHI" by auto
  from Suc.prems(1) have "live_at fn v b (Suc j)" using j by (cases rule: live_at.cases) auto
  from Suc.hyps(1) [OF _ this] Suc.hyps(2) Suc.prems j show ?case by simp
qed simp

text \<open>Two registers meet where one is defined and the other is live.\<close>

lemma live_def_overlap:
  assumes ok: "alloc_fn_ok e fn" and suff: "repairs_suffice e fn" and n: "numbers e fn N F"
    and j: "j < length (alloc_order e fn)" "alloc_order e fn ! j = b" and x: "defined_in fn b k x"
    and v: "live_at fn v b k" "def_seq N v = int d" "d < length (numbered_code fn (alloc_order e fn))" "d \<le> offset fn (alloc_order e fn) j + k"
  shows "overlap (def_seq F) (last_use F) x v"
proof -
  let ?o = "alloc_order e fn"
  have g: "edges_ok fn" "is_block fn e" using ok by (auto simp: alloc_fn_ok_def)
  have br: "b \<in> reached e fn" using alloc_order_facts(2) [OF g] j by (metis nth_mem)
  obtain i where i: "i < length ?o" "?o ! i = b" "def_seq N x = int (offset fn ?o i + k)"
    "offset fn ?o i + k < length (numbered_code fn ?o)" by (rule def_number [OF ok n x br])
  then have "i = j" using j nth_eq_iff_index_eq [OF alloc_order_facts(1) [OF g], of i j] by simp
  note fx = final_numbers(1,2) [OF n i(3,4), unfolded this]
  have "k < length (code_of fn b)" using x by (simp add: defined_in_def)
  then have "int (offset fn ?o j + k) \<le> end_of F v" using live_covered [OF ok suff n v(2,3,1) j] v(4) by simp
  moreover have "def_seq F v \<le> int (offset fn ?o j + k)" using final_numbers(1) [OF n v(2,3)] v(4) by simp
  ultimately show ?thesis using fx by (auto simp: overlap_def)
qed

lemma location_differs:
  assumes p: "proper d l UNIV phys" and o: "overlap d l x v" and ne: "x \<noteq> v"
  shows "ir_asm_vreg_location slot phys x \<noteq> ir_asm_vreg_location slot phys v"
proof -
  have "phys x \<noteq> phys v" if "0 \<le> phys x" using p o ne that unfolding proper_def by blast
  then show ?thesis using ne by (auto simp: ir_asm_vreg_location_def)
qed

definition is_phi :: "func \<Rightarrow> blockid \<Rightarrow> nat \<Rightarrow> bool" where
  "is_phi fn b k \<longleftrightarrow> op (code_at fn b k) = OP_PHI"

lemma body_overlap:
  assumes ok: "alloc_fn_ok e fn" and suff: "repairs_suffice e fn" and n: "numbers e fn N F" and b: "b \<in> reached e fn"
    and x: "defined_in fn b k x" "\<not> is_phi fn b k" and v: "live_at fn v b (Suc k)" "x \<noteq> v"
  shows "overlap (def_seq F) (last_use F) x v"
proof -
  let ?o = "alloc_order e fn"
  have g: "edges_ok fn" "is_block fn e" using ok by (auto simp: alloc_fn_ok_def)
  obtain j where j: "j < length ?o" "?o ! j = b" using b alloc_order_facts(2) [OF g] by (metis in_set_conv_nth)
  have k: "k < length (code_of fn b)" "dst (code_at fn b k) = x" using x(1) by (auto simp: defined_in_def)
  have l: "live_at fn v b k" by (rule live_at.pass [OF k(1) _ v(1)]) (use k(2) v(2) in simp)
  obtain d where d: "def_seq N v = int d" "d < length (numbered_code fn ?o)"
    "d < offset fn ?o j \<or> (\<exists>i. defined_in fn b i v \<and> d = offset fn ?o j + i \<and> (op (code_at fn b i) = OP_PHI \<or> i < Suc k))"
    by (rule live_after_def [OF ok n v(1) j])
  have "i \<le> k" if "defined_in fn b i v" "op (code_at fn b i) = OP_PHI" for i
  proof (rule ccontr)
    assume "\<not> i \<le> k"
    then have "op (code_at fn b k) = OP_PHI"
      using ok b that unfolding alloc_fn_ok_def alloc_block_ok_def defined_in_def by (meson not_le)
    with x(2) show False by (simp add: is_phi_def)
  qed
  with d(3) have "d \<le> offset fn ?o j + k" by auto
  from live_def_overlap [OF ok suff n j x(1) l d(1,2) this] show ?thesis .
qed

lemma phi_overlap:
  assumes ok: "alloc_fn_ok e fn" and suff: "repairs_suffice e fn" and n: "numbers e fn N F" and t: "t \<in> reached e fn"
    and x: "defined_in fn t k x" "is_phi fn t k" and v: "live_at fn v t 0" "x \<noteq> v"
    and live: "(\<exists>i. defined_in fn t i v \<and> is_phi fn t i) \<Longrightarrow> live_at fn x t 0"
  shows "overlap (def_seq F) (last_use F) x v"
proof -
  let ?o = "alloc_order e fn"
  have g: "edges_ok fn" "is_block fn e" using ok by (auto simp: alloc_fn_ok_def)
  obtain j where j: "j < length ?o" "?o ! j = t" using t alloc_order_facts(2) [OF g] by (metis in_set_conv_nth)
  have through: "live_at fn y t i" if "live_at fn y t 0" "i < length (code_of fn t)" "is_phi fn t i" for y i
  proof (rule live_through_phis [OF that(1)])
    show "\<forall>h < i. op (code_at fn t h) = OP_PHI"
      using ok t that(2,3) unfolding alloc_fn_ok_def alloc_block_ok_def is_phi_def by blast
  qed (use that(2) in auto)
  have k: "k < length (code_of fn t)" using x(1) by (simp add: defined_in_def)
  obtain d where d: "def_seq N v = int d" "d < length (numbered_code fn ?o)"
    "d < offset fn ?o j \<or> (\<exists>i. defined_in fn t i v \<and> d = offset fn ?o j + i \<and> (op (code_at fn t i) = OP_PHI \<or> i < 0))"
    by (rule live_after_def [OF ok n v(1) j])
  show ?thesis
  proof (cases "d \<le> offset fn ?o j + k")
    case True
    from live_def_overlap [OF ok suff n j x(1) through [OF v(1) k x(2)] d(1,2) True] show ?thesis .
  next
    case False
    then obtain i where i: "defined_in fn t i v" "k < i" "is_phi fn t i" using d(3) by (auto simp: is_phi_def)
    then have "live_at fn x t i" using through live by (auto simp: defined_in_def)
    moreover obtain j' where j': "j' < length ?o" "?o ! j' = t" "def_seq N x = int (offset fn ?o j' + k)"
      "offset fn ?o j' + k < length (numbered_code fn ?o)" by (rule def_number [OF ok n x(1) t])
    moreover have "j' = j" using j j' nth_eq_iff_index_eq [OF alloc_order_facts(1) [OF g], of j' j] by simp
    ultimately have "overlap (def_seq F) (last_use F) v x"
      using live_def_overlap [OF ok suff n j i(1), of x "offset fn ?o j + k"] i(2) by simp
    then show ?thesis by (simp add: overlap_sym)
  qed
qed

text \<open>
  C3: Register allocation is safe. On a function in strict SSA form whose loops have more than one block and whose
  phi nodes do not take the result of an earlier phi node of their block, the registers and stack slots that
  numbering, repairs and the allocator give keep apart: the result of an instruction is never put where a
  register lives that is read later, and the results of the phi nodes of a block are neither put there nor
  on each other (unless one of them is never read).
\<close>

theorem register_allocation_safe:
  assumes "alloc_fn_ok entry fn" "repairs_suffice entry fn" "allocate_registers spill entry fn seq0 = Some phys"
    and "b \<in> reached entry fn" "defined_in fn b k x" "x \<noteq> v"
  shows "(\<not> is_phi fn b k \<longrightarrow> live_at fn v b (Suc k) \<longrightarrow>
      ir_asm_vreg_location slot phys x \<noteq> ir_asm_vreg_location slot phys v) \<and>
    (is_phi fn b k \<longrightarrow> live_at fn v b 0 \<longrightarrow> (\<forall>i. defined_in fn b i v \<longrightarrow> is_phi fn b i \<longrightarrow> live_at fn x b 0) \<longrightarrow>
      ir_asm_vreg_location slot phys x \<noteq> ir_asm_vreg_location slot phys v)"
proof -
  obtain F where F: "ir_asm_number_and_liveness fn (alloc_order entry fn) seq0 = Some F"
    "phys = ir_asm_register_allocate spill fn (def_seq F) (last_use F)" using assms(3) by (auto simp: allocate_registers_def)
  obtain N where n: "numbers entry fn N F" by (rule numbers_exist [OF assms(1) F(1)])
  have p: "proper (def_seq F) (last_use F) UNIV phys" unfolding F(2) by (rule register_allocate_proper(1))
  note B = location_differs [OF p body_overlap [OF assms(1,2) n assms(4,5)]]
  note P = location_differs [OF p phi_overlap [OF assms(1,2) n assms(4,5)]]
  show ?thesis using B P assms(6) by blast
qed

section \<open>A loop of one block\<close>

text \<open>The loop reads register 1 in every round; the second addition is numbered after that use.\<close>

definition demo_self :: func where
  "demo_self = mk_func [mk_block [0, 1] [1] [], (mk_block [2, 3, 4] [1, 2] [0, 1])\<lparr>block_id := 1\<rparr>, (mk_block [5] [] [1])\<lparr>block_id := 2\<rparr>]
     [mk_const 1 5, mk_instr OP_BR 0 [1], mk_instr OP_ADD 2 [1, 1], mk_instr OP_ADD 3 [2, 2], mk_instr OP_CONDBR 0 [3, 1, 2], mk_instr OP_RET 0 [3]] 4"

lemma demo_self_blk: "blk_at demo_self b = (if b = 0 then Some (mk_block [0, 1] [1] [])
    else if b = 1 then Some ((mk_block [2, 3, 4] [1, 2] [0, 1])\<lparr>block_id := 1\<rparr>)
    else if b = 2 then Some ((mk_block [5] [] [1])\<lparr>block_id := 2\<rparr>) else None)"
  by (auto simp: demo_self_def blk_at_def mk_func_def nth_Cons' numeral_2_eq_2)

lemma demo_self_heap:
  "heap demo_self 0 = mk_const 1 5" "heap demo_self (Suc 0) = mk_instr OP_BR 0 [1]" "heap demo_self 2 = mk_instr OP_ADD 2 [1, 1]"
  "heap demo_self 3 = mk_instr OP_ADD 3 [2, 2]" "heap demo_self 4 = mk_instr OP_CONDBR 0 [3, 1, 2]" "heap demo_self 5 = mk_instr OP_RET 0 [3]"
  "n_blocks demo_self = 3" "def_tab demo_self = (\<lambda>_. None)" "all_addrs demo_self = [0, 1, 2, 3, 4, 5]"
  by (simp_all add: demo_self_def mk_func_def all_addrs_def blk_instrs_def mk_block_def calloc_block_def)

lemma demo_self_code: "code_of demo_self 0 = [0, 1]" "code_of demo_self (Suc 0) = [2, 3, 4]" "code_of demo_self 2 = [5]"
  by (simp_all add: code_of_def blk_instrs_def demo_self_blk demo_self_heap mk_block_def calloc_block_def mk_instr_def mk_const_def calloc_instr_def)

lemma demo_self_succs: "succs_at demo_self b = (if b = 0 then [1] else if b = 1 then [1, 2] else [])"
  by (auto simp: succs_at_def demo_self_blk mk_block_def calloc_block_def)

lemma demo_self_order: "alloc_order 0 demo_self = [0, 1, 2]"
proof -
  have v: "fold (visit 3 (\<lambda>_. True)) [1] ((\<lambda>_. False)(0 := True), []) = ((\<lambda>_. False)(0 := True, 1 := True), [1])"
    "fold (visit 3 (\<lambda>_. True)) [1, 2] ((\<lambda>_. False)(0 := True, 1 := True), []) = ((\<lambda>_. False)(0 := True, 1 := True, 2 := True), [2])"
    by (simp_all add: visit_def)
  have s: "succs_at demo_self 0 = [1]" "succs_at demo_self 1 = [1, 2]" "succs_at demo_self 2 = []" by (simp_all add: demo_self_succs)
  show ?thesis
    by (simp only: alloc_order_def bfs_order.simps(2) s demo_self_heap v prod.case) (simp add: bfs_order.simps(2) s)
qed

lemma demo_self_layout: "layout demo_self [0, 1, 2] = [0, 1, 2, 3, 4, 5]"
  by (simp add: layout_def blk_instrs_def demo_self_blk mk_block_def calloc_block_def)

lemma demo_self_rec:
  "recorded (heap demo_self 0) = []" "recorded (heap demo_self (Suc 0)) = []" "recorded (heap demo_self 2) = [1, 1]"
  "recorded (heap demo_self 3) = [2, 2]" "recorded (heap demo_self 4) = [3]" "recorded (heap demo_self 5) = [3]"
  by (simp_all add: recorded_def demo_self_heap mk_instr_def mk_const_def calloc_instr_def MAX_INSTRS_def)

lemma demo_self_ops:
  "op (heap demo_self 0) = OP_CONST" "op (heap demo_self (Suc 0)) = OP_BR" "op (heap demo_self 2) = OP_ADD"
  "op (heap demo_self 3) = OP_ADD" "op (heap demo_self 4) = OP_CONDBR" "op (heap demo_self 5) = OP_RET"
  "dst (heap demo_self 0) = 1" "dst (heap demo_self (Suc 0)) = 0" "dst (heap demo_self 2) = 2"
  "dst (heap demo_self 3) = 3" "dst (heap demo_self 4) = 0" "dst (heap demo_self 5) = 0"
  by (simp_all add: demo_self_heap mk_instr_def mk_const_def calloc_instr_def)

definition self_numbers :: numbering where
  "self_numbers = \<lparr>lscan_seq = (\<lambda>_. 0)(0 := 0, 1 := 1, 2 := 2, 3 := 3, 4 := 4, 5 := 5),
     def_seq = (\<lambda>_. -1)(1 := 0, 2 := 2, 3 := 3), last_use = (\<lambda>_. -1)(1 := 2, 2 := 3, 3 := 5), first_use = (\<lambda>_. -1)(1 := 2, 2 := 3, 3 := 4)\<rparr>"

lemma demo_self_numbered: "fold_opt (number_instr demo_self) [0, 1, 2, 3, 4, 5] (no_numbers (\<lambda>_. 0), 0) = Some (self_numbers, 6)"
  by (simp add: number_instr_def demo_self_ops demo_self_rec numbers_def_def record_use_def no_numbers_def self_numbers_def MAX_INSTRS_def
      Let_def fun_eq_iff)


lemma demo_self_preds: "preds_at demo_self b = (if b = 1 then [0, 1] else if b = 2 then [1] else [])"
  by (auto simp: preds_at_def demo_self_blk mk_block_def calloc_block_def)

lemma demo_self_phi_fix: "phi_fix demo_self [0, 1, 2] s N = N"
  by (simp add: phi_fix_def blk_instrs_def demo_self_blk mk_block_def calloc_block_def demo_self_ops)

lemma demo_self_no_head: "i < 3 \<Longrightarrow> \<not> is_loop_head demo_self [0, 1, 2] i"
  by (auto simp: is_loop_head_def demo_self_preds less_Suc_eq numeral_3_eq_3)

lemma demo_self_loop_fix: "loop_fix demo_self [0, 1, 2] s N = N"
  unfolding loop_fix_def
proof (rule fold_id)
  fix i N assume "i \<in> set [0..<length [0, 1, 2 :: nat]]"
  then have "\<not> is_loop_head demo_self [0, 1, 2] i" using demo_self_no_head [of i] by auto
  then show "(let h = head_seq demo_self N ([0, 1, 2] ! i) in if is_loop_head demo_self [0, 1, 2] i \<and> 0 \<le> h
     then N\<lparr>last_use := (\<lambda>r. if r < MAX_INSTRS \<and> 0 \<le> def_seq N r \<and> def_seq N r < h \<and> h \<le> last_use N r then last_seq s else last_use N r)\<rparr>
     else N) = N" by (simp only: Let_def simp_thms if_False)
qed

lemma demo_self_order_fix: "order_fix s self_numbers = self_numbers"
  by (auto simp: order_fix_def self_numbers_def fun_eq_iff)

lemma demo_self_live: "ir_asm_number_and_liveness demo_self (alloc_order 0 demo_self) (\<lambda>_. 0) = Some self_numbers"
  by (simp only: ir_asm_number_and_liveness_def demo_self_order demo_self_layout demo_self_numbered demo_self_phi_fix demo_self_loop_fix
      demo_self_order_fix option.map prod.case)

lemma upt_filter_list:
  assumes "sorted xs" "distinct xs" "\<And>r. P r \<longleftrightarrow> r \<in> set xs" "\<forall>r \<in> set xs. r < n"
  shows "filter P [0..<n] = (xs :: nat list)"
proof (rule sorted_distinct_set_unique)
  show "set (filter P [0..<n]) = set xs" using assms(3,4) by auto
qed (use assms(1,2) in \<open>simp_all add: sorted_wrt_filter\<close>)

lemma demo_self_cands: "filter (\<lambda>r. 0 \<le> def_seq self_numbers r \<and> \<not> is_alloca demo_self r) [0..<MAX_INSTRS] = [1, 2, 3]"
  by (rule upt_filter_list) (auto simp: self_numbers_def is_alloca_def demo_self_heap MAX_INSTRS_def)

lemma demo_self_mcs: "mcs (def_seq self_numbers) (last_use self_numbers) [1, 2, 3]
    = Some ([0, 1, 2], (\<lambda>_. -1)(1 := 0, 2 := 1, 3 := 2))"
  by (simp add: mcs_def mcs_step_def mcs_pick_def overlap_def interval_end_def self_numbers_def Let_def numeral_2_eq_2 numeral_3_eq_3)


definition self_regs :: positions where
  "self_regs = (\<lambda>_. -1)(1 := 0, 2 := 1, 3 := 0)"

lemma demo_self_colour: "fold_opt (colour_step (def_seq self_numbers) (last_use self_numbers) [1, 2, 3] ((\<lambda>_. -1)(1 := 0, 2 := 1, 3 := 2)))
    [2, 1, 0] (\<lambda>_. -1) = Some self_regs"
  by (simp add: colour_step_def colour_used_def overlap_def interval_end_def self_numbers_def self_regs_def N_PHYS_REGS_def
      numeral_2_eq_2 numeral_3_eq_3 upt_rec fun_upd_twist)

lemma demo_self_allocated: "allocate_registers spill 0 demo_self (\<lambda>_. 0) = Some self_regs"
proof -
  have "ir_asm_chordal_color demo_self (def_seq self_numbers) (last_use self_numbers) (\<lambda>_. -1) = Some self_regs"
    unfolding ir_asm_chordal_color_def demo_self_cands demo_self_mcs Let_def using demo_self_colour
    by (auto simp: self_regs_def fun_eq_iff)
  then show ?thesis by (simp add: allocate_registers_def demo_self_live ir_asm_register_allocate_def)
qed

lemma reached_within: "e \<in> S \<Longrightarrow> (\<And>b s. b \<in> S \<Longrightarrow> s \<in> set (succs_at fn b) \<Longrightarrow> s \<in> S) \<Longrightarrow> reached e fn \<subseteq> S"
proof
  fix b assume S: "e \<in> S" "\<And>b s. b \<in> S \<Longrightarrow> s \<in> set (succs_at fn b) \<Longrightarrow> s \<in> S" and "b \<in> reached e fn"
  then have "(e, b) \<in> (cfg_edges fn)\<^sup>*" by simp
  then show "b \<in> S" by induction (use S in \<open>auto simp: cfg_edges_def\<close>)
qed

lemma dominates_self_entry: "dominates E e e b" "dominates E e b b"
proof -
  have "e \<in> set xs \<and> b \<in> set xs" if "path E e xs b" for xs using that by induction auto
  then show "dominates E e e b" "dominates E e b b" by (simp_all add: dominates_def)
qed

lemma dominates_below: "(\<And>p. (p, b) \<in> E \<Longrightarrow> dominates E e d p) \<Longrightarrow> b \<noteq> e \<Longrightarrow> dominates E e d b"
  by (fastforce simp: dominates_def elim: path.cases)

lemma strict_ssaI:
  assumes "reached e fn \<subseteq> S"
    and "\<And>b. b \<in> S \<Longrightarrow> \<forall>k < length (code_of fn b). op (code_at fn b k) \<noteq> OP_PHI \<longrightarrow> (\<forall>v \<in> set (reads (code_at fn b k)). def_before e fn v b k)"
    and "\<And>b t k v. b \<in> S \<Longrightarrow> t \<in> set (succs_at fn b) \<Longrightarrow> k < length (code_of fn t) \<Longrightarrow> op (code_at fn t k) = OP_PHI \<Longrightarrow>
      (v, b) \<in> set (phi (code_at fn t k)) \<Longrightarrow> v \<noteq> 0 \<Longrightarrow> def_before e fn v b (length (code_of fn b))"
  shows "strict_ssa e fn"
  using assms unfolding strict_ssa_def by (metis subsetD)

lemma demo_self_edges: "cfg_edges demo_self = {(0, 1), (1, 1), (1, 2)}"
  by (auto simp: cfg_edges_def demo_self_succs is_block_def demo_self_blk split: if_splits)

lemma demo_self_reads:
  "reads (heap demo_self 0) = []" "reads (heap demo_self (Suc 0)) = []" "reads (heap demo_self 2) = [1, 1]"
  "reads (heap demo_self 3) = [2, 2]" "reads (heap demo_self 4) = [3]" "reads (heap demo_self 5) = [3]"
  by (simp_all add: reads_def demo_self_heap mk_instr_def mk_const_def calloc_instr_def)

lemma demo_self_defined: "defined_in demo_self 0 0 1" "defined_in demo_self 1 0 2" "defined_in demo_self 1 1 3"
  by (simp_all add: defined_in_def demo_self_code numbers_def_def demo_self_ops)

lemma demo_self_reached: "reached 0 demo_self \<subseteq> {0, 1, 2}" "0 \<in> reached 0 demo_self" "1 \<in> reached 0 demo_self"
proof -
  show "reached 0 demo_self \<subseteq> {0, 1, 2}" by (rule reached_within) (auto simp: demo_self_succs split: if_splits)
  show "0 \<in> reached 0 demo_self" "1 \<in> reached 0 demo_self" by (auto simp: demo_self_edges)
qed

lemma demo_self_strict: "strict_ssa 0 demo_self"
proof -
  have d: "def_before 0 demo_self 1 1 0" "def_before 0 demo_self 2 1 1" "def_before 0 demo_self 3 1 2" "def_before 0 demo_self 3 2 0"
  proof -
    have "dominates (cfg_edges demo_self) 0 1 2"
      by (rule dominates_below) (use dominates_self_entry(2) in \<open>auto simp: demo_self_edges\<close>)
    then show "def_before 0 demo_self 3 2 0" unfolding def_before_def using demo_self_defined(3) demo_self_reached(3) by force
    show "def_before 0 demo_self 1 1 0" unfolding def_before_def using demo_self_defined(1) demo_self_reached(2) dominates_self_entry(1) by force
  qed (use demo_self_defined in \<open>force simp: def_before_def\<close>)+
  show ?thesis
  proof (rule strict_ssaI [OF demo_self_reached(1)])
    show "\<forall>k < length (code_of demo_self b). op (code_at demo_self b k) \<noteq> OP_PHI \<longrightarrow> (\<forall>v \<in> set (reads (code_at demo_self b k)). def_before 0 demo_self v b k)"
      if b: "b \<in> {0, 1, 2}" for b
      using b d by (auto simp: demo_self_code demo_self_ops demo_self_reads less_Suc_eq) (simp add: numeral_2_eq_2)
    fix b t k assume "t \<in> set (succs_at demo_self b)" "k < length (code_of demo_self t)" "op (code_at demo_self t k) = OP_PHI"
    then show "def_before 0 demo_self v b (length (code_of demo_self b))" for v
      by (auto simp: demo_self_succs demo_self_code demo_self_ops less_Suc_eq split: if_splits)
  qed
qed

lemma demo_self_ok: "alloc_fn_ok 0 demo_self"
proof -
  have "edges_ok demo_self" by (auto simp: edges_ok_def demo_self_blk mk_block_def calloc_block_def split: if_splits)
  moreover have "heap_ok demo_self" by (simp add: heap_ok_def demo_self_heap) (simp add: demo_self_def mk_func_def)
  moreover have "ssa_unique demo_self" by (simp add: ssa_unique_def demo_self_heap(9) demo_self_ops)
  moreover have "alloc_block_ok demo_self b" if "b \<in> {0, 1, 2}" for b
    using that by (auto simp: alloc_block_ok_def demo_self_code blk_instrs_def demo_self_blk mk_block_def calloc_block_def demo_self_ops
        alloc_instr_ok_def demo_self_reads demo_self_rec less_Suc_eq)
  ultimately show ?thesis using demo_self_reached(1) demo_self_strict by (auto simp: alloc_fn_ok_def is_block_def demo_self_blk)
qed

text \<open>
  C5: A loop of one block is not recognised as a loop. On a function in strict SSA form whose loop is a single
  block, the result of an instruction is put in the physical register of a value that the next round reads:
  the only condition of the safety theorem that fails is the one on blocks that are their own successor.
\<close>

theorem self_loop_register_lost:
  "alloc_fn_ok 0 demo_self \<and> (\<exists>phys. allocate_registers spill 0 demo_self (\<lambda>_. 0) = Some phys \<and>
     1 \<in> reached 0 demo_self \<and> defined_in demo_self 1 1 3 \<and> \<not> is_phi demo_self 1 1 \<and> live_at demo_self 1 1 2 \<and>
     ir_asm_vreg_location slot phys 3 = ir_asm_vreg_location slot phys 1)"
proof (intro conjI exI)
  show "alloc_fn_ok 0 demo_self" by (rule demo_self_ok)
  show "allocate_registers spill 0 demo_self (\<lambda>_. 0) = Some self_regs" by (rule demo_self_allocated)
  show "1 \<in> reached 0 demo_self" by (rule demo_self_reached(3))
  show "defined_in demo_self 1 1 3" by (rule demo_self_defined(3))
  show "\<not> is_phi demo_self 1 1" by (simp add: is_phi_def demo_self_code demo_self_ops)
  have "live_at demo_self 1 1 0" by (rule live_at.used) (simp_all add: demo_self_code demo_self_ops demo_self_reads)
  then have "live_at demo_self 1 1 (length (code_of demo_self 1))"
    by (rule live_at.edge [of 1, rotated 2]) (simp_all add: demo_self_succs demo_self_code demo_self_ops)
  then have "live_at demo_self 1 1 (Suc 2)" by (simp add: demo_self_code numeral_3_eq_3)
  then show "live_at demo_self 1 1 2" by (rule live_at.pass [rotated 2]) (simp_all add: demo_self_code demo_self_ops)
  show "ir_asm_vreg_location slot self_regs 3 = ir_asm_vreg_location slot self_regs 1"
    by (simp add: ir_asm_vreg_location_def self_regs_def MAX_INSTRS_def)
qed

section \<open>The same loop in two blocks\<close>

text \<open>Entry, head with a phi node, latch, exit; register 1 is read in every round.\<close>

definition demo_split :: func where
  "demo_split = mk_func [mk_block [0, 1] [1] [], (mk_block [2, 3, 4] [2] [0, 2])\<lparr>block_id := 1\<rparr>,
      (mk_block [5, 6] [1, 3] [1])\<lparr>block_id := 2\<rparr>, (mk_block [7] [] [2])\<lparr>block_id := 3\<rparr>]
     [mk_const 1 5, mk_instr OP_BR 0 [1], mk_phi 4 [(1, 0), (3, 2)], mk_instr OP_ADD 2 [4, 1], mk_instr OP_BR 0 [2],
      mk_instr OP_ADD 3 [2, 2], mk_instr OP_CONDBR 0 [3, 1, 3], mk_instr OP_RET 0 [3]] 5"

lemma demo_split_blk: "blk_at demo_split b = (if b = 0 then Some (mk_block [0, 1] [1] [])
    else if b = 1 then Some ((mk_block [2, 3, 4] [2] [0, 2])\<lparr>block_id := 1\<rparr>)
    else if b = 2 then Some ((mk_block [5, 6] [1, 3] [1])\<lparr>block_id := 2\<rparr>)
    else if b = 3 then Some ((mk_block [7] [] [2])\<lparr>block_id := 3\<rparr>) else None)"
  by (auto simp: demo_split_def blk_at_def mk_func_def nth_Cons' numeral_2_eq_2 numeral_3_eq_3)

lemma demo_split_heap:
  "heap demo_split 0 = mk_const 1 5" "heap demo_split (Suc 0) = mk_instr OP_BR 0 [1]" "heap demo_split 2 = mk_phi 4 [(1, 0), (3, 2)]"
  "heap demo_split 3 = mk_instr OP_ADD 2 [4, 1]" "heap demo_split 4 = mk_instr OP_BR 0 [2]" "heap demo_split 5 = mk_instr OP_ADD 3 [2, 2]"
  "heap demo_split 6 = mk_instr OP_CONDBR 0 [3, 1, 3]" "heap demo_split 7 = mk_instr OP_RET 0 [3]"
  "all_addrs demo_split = [0, 1, 2, 3, 4, 5, 6, 7]" "next_addr demo_split = 8"
  by (simp_all add: demo_split_def mk_func_def all_addrs_def blk_instrs_def mk_block_def calloc_block_def)

lemma demo_split_ops:
  "op (heap demo_split 0) = OP_CONST" "op (heap demo_split (Suc 0)) = OP_BR" "op (heap demo_split 2) = OP_PHI"
  "op (heap demo_split 3) = OP_ADD" "op (heap demo_split 4) = OP_BR" "op (heap demo_split 5) = OP_ADD"
  "op (heap demo_split 6) = OP_CONDBR" "op (heap demo_split 7) = OP_RET"
  "dst (heap demo_split 0) = 1" "dst (heap demo_split (Suc 0)) = 0" "dst (heap demo_split 2) = 4"
  "dst (heap demo_split 3) = 2" "dst (heap demo_split 4) = 0" "dst (heap demo_split 5) = 3"
  "dst (heap demo_split 6) = 0" "dst (heap demo_split 7) = 0" "phi (heap demo_split 2) = [(1, 0), (3, 2)]"
  by (simp_all add: demo_split_heap mk_instr_def mk_const_def mk_phi_def calloc_instr_def)

lemma demo_split_code: "code_of demo_split 0 = [0, 1]" "code_of demo_split (Suc 0) = [2, 3, 4]" "code_of demo_split 2 = [5, 6]" "code_of demo_split 3 = [7]"
  by (simp_all add: code_of_def blk_instrs_def demo_split_blk demo_split_ops mk_block_def calloc_block_def)

lemma demo_split_reads:
  "reads (heap demo_split 0) = []" "reads (heap demo_split (Suc 0)) = []" "reads (heap demo_split 3) = [4, 1]"
  "reads (heap demo_split 4) = []" "reads (heap demo_split 5) = [2, 2]" "reads (heap demo_split 6) = [3]" "reads (heap demo_split 7) = [3]"
  by (simp_all add: reads_def demo_split_heap mk_instr_def mk_const_def calloc_instr_def)

lemma demo_split_rec:
  "recorded (heap demo_split 3) = [4, 1]"  "recorded (heap demo_split 5) = [2, 2]" "recorded (heap demo_split 6) = [3]" "recorded (heap demo_split 7) = [3]"
  by (simp_all add: recorded_def demo_split_heap mk_instr_def mk_const_def calloc_instr_def MAX_INSTRS_def)

lemma demo_split_succs: "succs_at demo_split b = (if b = 0 then [1] else if b = 1 then [2] else if b = 2 then [1, 3] else [])"
  by (auto simp: succs_at_def demo_split_blk mk_block_def calloc_block_def)

lemma demo_split_edges: "cfg_edges demo_split = {(0, 1), (1, 2), (2, 1), (2, 3)}"
  by (auto simp: cfg_edges_def demo_split_succs is_block_def demo_split_blk split: if_splits)

lemma demo_split_defined: "defined_in demo_split 0 0 1" "defined_in demo_split 1 0 4" "defined_in demo_split 1 1 2" "defined_in demo_split 2 0 3"
  by (simp_all add: defined_in_def demo_split_code numbers_def_def demo_split_ops)

lemma demo_split_reached: "reached 0 demo_split \<subseteq> {0, 1, 2, 3}" "{0, 1, 2} \<subseteq> reached 0 demo_split"
proof -
  show "reached 0 demo_split \<subseteq> {0, 1, 2, 3}" by (rule reached_within) (auto simp: demo_split_succs split: if_splits)
  have e: "(0, 1) \<in> cfg_edges demo_split" "(1, 2) \<in> cfg_edges demo_split" by (auto simp: demo_split_edges)
  then have "(0, 2) \<in> (cfg_edges demo_split)\<^sup>*" by (meson rtrancl.simps)
  with e show "{0, 1, 2} \<subseteq> reached 0 demo_split" by auto
qed

lemma demo_split_strict: "strict_ssa 0 demo_split"
proof -
  let ?E = "cfg_edges demo_split"
  have d1: "dominates ?E 0 1 2" by (rule dominates_below) (use dominates_self_entry(2) in \<open>auto simp: demo_split_edges\<close>)
  have d2: "dominates ?E 0 2 3" by (rule dominates_below) (use dominates_self_entry(2) in \<open>auto simp: demo_split_edges\<close>)
  have r: "0 \<in> reached 0 demo_split" "1 \<in> reached 0 demo_split" "2 \<in> reached 0 demo_split" using demo_split_reached(2) by blast+
  have d: "def_before 0 demo_split 1 0 2" "def_before 0 demo_split 4 1 1" "def_before 0 demo_split 3 2 1" "def_before 0 demo_split 3 2 2"
    using demo_split_defined by (force simp: def_before_def)+
  have d': "def_before 0 demo_split 1 1 1" unfolding def_before_def using demo_split_defined(1) r(1) dominates_self_entry(1) by force
  have d'': "def_before 0 demo_split 2 2 0" unfolding def_before_def using demo_split_defined(3) r(2) d1 by force
  have d''': "def_before 0 demo_split 3 3 0" unfolding def_before_def using demo_split_defined(4) r(3) d2 by force
  show ?thesis
  proof (rule strict_ssaI [OF demo_split_reached(1)])
    show "\<forall>k < length (code_of demo_split b). op (code_at demo_split b k) \<noteq> OP_PHI \<longrightarrow>
        (\<forall>v \<in> set (reads (code_at demo_split b k)). def_before 0 demo_split v b k)" if b: "b \<in> {0, 1, 2, 3}" for b
      using b d d' d'' d''' by (auto simp: demo_split_code demo_split_ops demo_split_reads less_Suc_eq)
    fix b t k v assume "t \<in> set (succs_at demo_split b)" "k < length (code_of demo_split t)" "op (code_at demo_split t k) = OP_PHI"
      "(v, b) \<in> set (phi (code_at demo_split t k))"
    then show "def_before 0 demo_split v b (length (code_of demo_split b))"
      using d by (auto simp: demo_split_succs demo_split_code demo_split_ops less_Suc_eq split: if_splits) (simp_all add: numeral_2_eq_2)
  qed
qed


lemma demo_split_ok: "alloc_fn_ok 0 demo_split"
proof -
  have "edges_ok demo_split" by (auto simp: edges_ok_def demo_split_blk mk_block_def calloc_block_def split: if_splits)
  moreover have "heap_ok demo_split" by (simp add: heap_ok_def demo_split_heap)
  moreover have "ssa_unique demo_split" by (simp add: ssa_unique_def demo_split_heap(9) demo_split_ops)
  moreover have "alloc_block_ok demo_split b" if "b \<in> {0, 1, 2, 3}" for b
    using that by (auto simp: alloc_block_ok_def demo_split_code blk_instrs_def demo_split_blk mk_block_def calloc_block_def demo_split_ops
        alloc_instr_ok_def demo_split_reads demo_split_rec MAX_INSTRS_def less_Suc_eq)
  ultimately show ?thesis using demo_split_reached(1) demo_split_strict by (auto simp: alloc_fn_ok_def is_block_def demo_split_blk)
qed

lemma demo_split_phi: "b \<in> {0, 1, 2, 3} \<Longrightarrow> k < length (code_of demo_split b) \<Longrightarrow> op (code_at demo_split b k) = OP_PHI \<Longrightarrow> b = 1 \<and> k = 0"
  by (auto simp: demo_split_code demo_split_ops less_Suc_eq)

lemma demo_split_repairs: "repairs_suffice 0 demo_split"
  unfolding repairs_suffice_def
proof (intro ballI conjI allI impI)
  fix b assume "b \<in> reached 0 demo_split"
  then have b: "b \<in> {0, 1, 2, 3}" using demo_split_reached(1) by blast
  show "b \<notin> set (succs_at demo_split b)" by (simp add: demo_split_succs)
  fix k j assume "k < length (code_of demo_split b)" "j \<le> k" "op (code_at demo_split b k) = OP_PHI"
  with demo_split_phi [OF b, of k] have "b = 1" "k = 0" "j = 0" by auto
  then show "dst (code_at demo_split b j) \<notin> fst ` set (phi (code_at demo_split b k))"
    by (simp add: demo_split_code demo_split_ops)
qed

lemma numbering_returns:
  "\<forall>a \<in> set L. dst (heap fn a) < MAX_INSTRS \<Longrightarrow> \<exists>st. fold_opt (number_instr fn) L (N, s) = Some st"
proof (induction L arbitrary: N s)
  case (Cons a L)
  have "number_instr fn a (N, s) \<noteq> None" using Cons.prems by (simp add: number_instr_def Let_def)
  then obtain N1 s1 where "number_instr fn a (N, s) = Some (N1, s1)" by fastforce
  with Cons show ?case by simp
qed simp

lemma allocation_returns:
  assumes "\<forall>a \<in> set (layout fn (alloc_order e fn)). dst (heap fn a) < MAX_INSTRS"
  obtains phys where "allocate_registers spill e fn seq0 = Some phys"
proof -
  obtain N s where "fold_opt (number_instr fn) (layout fn (alloc_order e fn)) (no_numbers seq0, 0) = Some (N, s)"
    using numbering_returns [OF assms, of "no_numbers seq0" 0] by auto
  with that show thesis by (simp add: allocate_registers_def ir_asm_number_and_liveness_def)
qed

lemma demo_split_live: "live_at demo_split 1 2 1" "live_at demo_split 1 1 0"
proof -
  have u: "live_at demo_split 1 1 1" by (rule live_at.used) (simp_all add: demo_split_code demo_split_ops demo_split_reads)
  then show h: "live_at demo_split 1 1 0" by (intro live_at.pass [where k = 0]) (simp_all add: demo_split_code demo_split_ops)
  have "live_at demo_split 1 2 (length (code_of demo_split 2))"
    by (rule live_at.edge [of 1, rotated 2]) (use h in \<open>simp_all add: demo_split_succs demo_split_code demo_split_ops\<close>)
  then have "live_at demo_split 1 2 (Suc 1)" by (simp add: demo_split_code)
  then show "live_at demo_split 1 2 1" by (rule live_at.pass [rotated 2]) (simp_all add: demo_split_code demo_split_ops)
qed

lemma demo_split_allocated: obtains phys where "allocate_registers spill 0 demo_split seq0 = Some phys"
proof (rule allocation_returns)
  show "\<forall>a \<in> set (layout demo_split (alloc_order 0 demo_split)). dst (heap demo_split a) < MAX_INSTRS"
  proof
    fix a assume "a \<in> set (layout demo_split (alloc_order 0 demo_split))"
    then obtain b where "a \<in> set (blk_instrs (blk_at demo_split b))" by (auto simp: layout_def)
    then have "a \<in> {0, 1, 2, 3, 4, 5, 6, 7}" by (auto simp: demo_split_blk blk_instrs_def mk_block_def calloc_block_def split: if_splits)
    then show "dst (heap demo_split a) < MAX_INSTRS" by (auto simp: demo_split_ops MAX_INSTRS_def)
  qed
qed

theorem register_allocation_safe_witness:
  "\<exists>phys. allocate_registers True 0 demo_split (\<lambda>_. 0) = Some phys \<and>
     ir_asm_vreg_location 0 phys 3 \<noteq> ir_asm_vreg_location 0 phys 1 \<and> ir_asm_vreg_location 0 phys 4 \<noteq> ir_asm_vreg_location 0 phys 1"
proof -
  obtain phys where a: "allocate_registers True 0 demo_split (\<lambda>_. 0) = Some phys" by (rule demo_split_allocated)
  note T = register_allocation_safe [OF demo_split_ok demo_split_repairs a]
  have r: "1 \<in> reached 0 demo_split" "2 \<in> reached 0 demo_split" using demo_split_reached(2) by blast+
  have "\<not> is_phi demo_split 2 0" by (simp add: is_phi_def demo_split_code demo_split_ops)
  then have 3: "ir_asm_vreg_location 0 phys 3 \<noteq> ir_asm_vreg_location 0 phys 1"
    using T [OF r(2) demo_split_defined(4), of 1] demo_split_live(1) by simp
  have p: "is_phi demo_split 1 0" by (simp add: is_phi_def demo_split_code demo_split_ops)
  have "\<not> is_phi demo_split 1 i \<or> \<not> defined_in demo_split 1 i 1" for i
    using demo_split_phi [of 1 i] demo_split_defined(2) by (auto simp: is_phi_def defined_in_def)
  moreover have "(4 :: nat) \<noteq> 1" by simp
  ultimately have "ir_asm_vreg_location 0 phys 4 \<noteq> ir_asm_vreg_location 0 phys 1"
    using T [OF r(1) demo_split_defined(2), of 1 0] demo_split_live(2) p by blast
  with a 3 show ?thesis by blast
qed

end
