(* ===== verification/X86.thy ===== *)
theory X86
  imports LiveRanges IR_Machine
begin

text \<open>
  The part of the x86-64 instruction set that the emitter of \<open>src/compiler_passes.c\<close> writes for integer
  instructions, as data instead of text, with its machine. The scratch registers are apart from the places of the
  allocator; the words that \<^verbatim>\<open>pushq\<close> writes are below the frame.
\<close>

section \<open>Instructions\<close>

datatype scratch = RAX | RCX | RDX

datatype operand = Place location | Scr scratch | Imm int64

datatype alu = X_ADD | X_SUB | X_IMUL | X_AND | X_OR | X_XOR

datatype shifter = X_SHL | X_SHR | X_SAR

datatype cond = C_E | C_NE | C_L | C_G | C_GE | C_LE

text \<open>The labels of safe division carry the address of their instruction, where the code counts them.\<close>

datatype label = Block_label blockid | False_label blockid | Func_end | Div_ok addr | Div_end addr

text \<open>
  \<open>IDIVQ\<close>, \<open>DIVQ\<close> and their 32-bit forms divide by \<open>RCX\<close>, shifts and comparisons are on \<open>RAX\<close>; a shift without a
  count takes it from \<open>RCX\<close>. \<open>EFFECT\<close> is the text of a memory access, a call and the like as one unit, with the
  places of its operands and of its result; \<open>OTHER\<close> is text the model does not look into.
\<close>

datatype x86 =
    MOVQ operand operand | MOVL operand scratch | MOVSLQ operand scratch
  | ALUQ alu operand scratch | ALUL alu operand scratch | NOTQ scratch | NOTL scratch
  | SHIFTQ shifter "nat option" | SHIFTL shifter "nat option"
  | CQO | CLTD | IDIVQ | IDIVL | DIVQ | DIVL
  | CMPQ operand | CMPL operand | TESTQ scratch | TESTL scratch | SETCC cond | MOVZB
  | PUSHQ operand | POPQ operand
  | JMP label | JZ label | JNE label | LABEL label
  | EFFECT opcode string int64 "location option list" "location option" | OTHER opcode

section \<open>The machine\<close>

text \<open>The flags are kept from a comparison to the next instruction that changes them: equal, and less (signed).\<close>

record machine =
  place :: "location \<Rightarrow> int64"
  scr :: "scratch \<Rightarrow> int64"
  stk :: "int64 list"
  flags :: "(bool \<times> bool) option"

definition value_in :: "operand \<Rightarrow> machine \<Rightarrow> int64" where
  "value_in x m = (case x of Place l \<Rightarrow> place m l | Scr s \<Rightarrow> scr m s | Imm k \<Rightarrow> k)"

definition put :: "operand \<Rightarrow> int64 \<Rightarrow> machine \<Rightarrow> machine" where
  "put x v m = (case x of Place l \<Rightarrow> m\<lparr>place := (place m)(l := v)\<rparr> | Scr s \<Rightarrow> m\<lparr>scr := (scr m)(s := v)\<rparr> | Imm k \<Rightarrow> m)"

definition lower :: "int64 \<Rightarrow> 32 word" where "lower x = ucast x"

definition alu_val :: "alu \<Rightarrow> 'a :: len word \<Rightarrow> 'a word \<Rightarrow> 'a word" where
  "alu_val f a b = (case f of X_ADD \<Rightarrow> a + b | X_SUB \<Rightarrow> a - b | X_IMUL \<Rightarrow> a * b | X_AND \<Rightarrow> a AND b | X_OR \<Rightarrow> a OR b | X_XOR \<Rightarrow> a XOR b)"

definition shift_val :: "shifter \<Rightarrow> nat \<Rightarrow> 'a :: len word \<Rightarrow> 'a word" where
  "shift_val f n a = (case f of X_SHL \<Rightarrow> push_bit n a | X_SHR \<Rightarrow> drop_bit n a | X_SAR \<Rightarrow> signed_drop_bit n a)"

text \<open>Quotient and remainder of the dividend in \<open>RDX:RAX\<close>; a zero divisor and a quotient that does not fit trap.\<close>

definition idiv_val :: "'a :: len word \<Rightarrow> 'a word \<Rightarrow> 'a word \<Rightarrow> ('a word \<times> 'a word) option" where
  "idiv_val hi lo b = (let n = sint hi * 2 ^ LENGTH('a) + uint lo; q = n sdiv sint b
     in if b = 0 \<or> q < - (2 ^ (LENGTH('a) - 1)) \<or> 2 ^ (LENGTH('a) - 1) \<le> q then None
        else Some (word_of_int q, word_of_int (n smod sint b)))"

definition div_val :: "'a :: len word \<Rightarrow> 'a word \<Rightarrow> 'a word \<Rightarrow> ('a word \<times> 'a word) option" where
  "div_val hi lo b = (let n = uint hi * 2 ^ LENGTH('a) + uint lo; q = n div uint b
     in if b = 0 \<or> 2 ^ LENGTH('a) \<le> q then None else Some (word_of_int q, word_of_int (n mod uint b)))"

definition holds_in :: "cond \<Rightarrow> bool \<times> bool \<Rightarrow> bool" where
  "holds_in c f = (case c of C_E \<Rightarrow> fst f | C_NE \<Rightarrow> \<not> fst f | C_L \<Rightarrow> snd f | C_G \<Rightarrow> \<not> fst f \<and> \<not> snd f
     | C_GE \<Rightarrow> \<not> snd f | C_LE \<Rightarrow> fst f \<or> snd f)"

text \<open>The instructions that go on to the next one; \<open>None\<close> is a trap, or an instruction of another kind.\<close>

fun exec_ins :: "x86 \<Rightarrow> machine \<Rightarrow> machine option" where
  "exec_ins (MOVQ x y) m = Some (put y (value_in x m) m)"
| "exec_ins (MOVL x s) m = Some (put (Scr s) (ucast (lower (value_in x m))) m)"
| "exec_ins (MOVSLQ x s) m = Some (put (Scr s) (scast (lower (value_in x m))) m)"
| "exec_ins (ALUQ f x s) m = Some ((put (Scr s) (alu_val f (scr m s) (value_in x m)) m)\<lparr>flags := None\<rparr>)"
| "exec_ins (ALUL f x s) m = Some ((put (Scr s) (ucast (alu_val f (lower (scr m s)) (lower (value_in x m)))) m)\<lparr>flags := None\<rparr>)"
| "exec_ins (NOTQ s) m = Some (put (Scr s) (NOT (scr m s)) m)"
| "exec_ins (NOTL s) m = Some (put (Scr s) (ucast (NOT (lower (scr m s)))) m)"
| "exec_ins (SHIFTQ f n) m = Some ((put (Scr RAX) (shift_val f (case n of Some k \<Rightarrow> k | None \<Rightarrow> unat (scr m RCX AND 63)) (scr m RAX)) m)\<lparr>flags := None\<rparr>)"
| "exec_ins (SHIFTL f n) m = Some ((put (Scr RAX) (ucast (shift_val f (case n of Some k \<Rightarrow> k | None \<Rightarrow> unat (scr m RCX AND 31)) (lower (scr m RAX)))) m)\<lparr>flags := None\<rparr>)"
| "exec_ins CQO m = Some (put (Scr RDX) (if scr m RAX <s 0 then -1 else 0) m)"
| "exec_ins CLTD m = Some (put (Scr RDX) (if lower (scr m RAX) <s 0 then 4294967295 else 0) m)"
| "exec_ins IDIVQ m = map_option (\<lambda>(q, r). (put (Scr RDX) r (put (Scr RAX) q m))\<lparr>flags := None\<rparr>) (idiv_val (scr m RDX) (scr m RAX) (scr m RCX))"
| "exec_ins DIVQ m = map_option (\<lambda>(q, r). (put (Scr RDX) r (put (Scr RAX) q m))\<lparr>flags := None\<rparr>) (div_val (scr m RDX) (scr m RAX) (scr m RCX))"
| "exec_ins IDIVL m = map_option (\<lambda>(q, r). (put (Scr RDX) (ucast r) (put (Scr RAX) (ucast q) m))\<lparr>flags := None\<rparr>)
     (idiv_val (lower (scr m RDX)) (lower (scr m RAX)) (lower (scr m RCX)))"
| "exec_ins DIVL m = map_option (\<lambda>(q, r). (put (Scr RDX) (ucast r) (put (Scr RAX) (ucast q) m))\<lparr>flags := None\<rparr>)
     (div_val (lower (scr m RDX)) (lower (scr m RAX)) (lower (scr m RCX)))"
| "exec_ins (CMPQ x) m = Some (m\<lparr>flags := Some (scr m RAX = value_in x m, scr m RAX <s value_in x m)\<rparr>)"
| "exec_ins (CMPL x) m = Some (m\<lparr>flags := Some (lower (scr m RAX) = lower (value_in x m), lower (scr m RAX) <s lower (value_in x m))\<rparr>)"
| "exec_ins (TESTQ s) m = Some (m\<lparr>flags := Some (scr m s = 0, scr m s <s 0)\<rparr>)"
| "exec_ins (TESTL s) m = Some (m\<lparr>flags := Some (lower (scr m s) = 0, lower (scr m s) <s 0)\<rparr>)"
| "exec_ins (SETCC c) m = map_option (\<lambda>f. put (Scr RAX) ((scr m RAX AND NOT 255) OR c_bool (holds_in c f)) m) (flags m)"
| "exec_ins MOVZB m = Some (put (Scr RAX) (scr m RAX AND 255) m)"
| "exec_ins (PUSHQ x) m = Some (m\<lparr>stk := value_in x m # stk m\<rparr>)"
| "exec_ins (POPQ x) m = (case stk m of [] \<Rightarrow> None | v # vs \<Rightarrow> Some (put x v (m\<lparr>stk := vs\<rparr>)))"
| "exec_ins (LABEL l) m = Some m"
| "exec_ins _ m = None"

text \<open>The code from a label on.\<close>

definition target :: "x86 list \<Rightarrow> label \<Rightarrow> x86 list" where
  "target P l = dropWhile (\<lambda>i. i \<noteq> LABEL l) P"

definition place_or_0 :: "machine \<Rightarrow> location option \<Rightarrow> int64" where
  "place_or_0 m x = (case x of None \<Rightarrow> 0 | Some l \<Rightarrow> place m l)"

text \<open>
  A configuration is the code still to run and the machine. The environment chooses the result of an effect,
  which writes the place of its result and no other place.
\<close>

inductive xstep :: "x86 list \<Rightarrow> x86 list \<times> machine \<Rightarrow> event option \<Rightarrow> x86 list \<times> machine \<Rightarrow> bool" for P where
  next_ins: "exec_ins i m = Some m' \<Longrightarrow> xstep P (i # is, m) None (is, m')"
| jump: "xstep P (JMP l # is, m) None (target P l, m)"
| jump_if_zero: "flags m = Some f \<Longrightarrow> xstep P (JZ l # is, m) None (if fst f then target P l else is, m)"
| jump_if_not_zero: "flags m = Some f \<Longrightarrow> xstep P (JNE l # is, m) None (if fst f then is else target P l, m)"
| effect: "xstep P (EFFECT opc name k xs d # is, m) (Some (Eff opc name k (List.map (place_or_0 m) xs) w))
    (is, case d of None \<Rightarrow> m\<lparr>scr := scr', flags := None\<rparr> | Some l \<Rightarrow> put (Place l) w (m\<lparr>scr := scr', flags := None\<rparr>))"

inductive xrun :: "x86 list \<Rightarrow> x86 list \<times> machine \<Rightarrow> event list \<Rightarrow> x86 list \<times> machine \<Rightarrow> bool" for P where
  xrun_Nil: "xrun P c [] c"
| xrun_Cons: "xstep P c e c1 \<Longrightarrow> xrun P c1 es c' \<Longrightarrow> xrun P c (ev e @ es) c'"

lemma xrun_append: "xrun P c es c1 \<Longrightarrow> xrun P c1 fs c2 \<Longrightarrow> xrun P c (es @ fs) c2"
  by (induction rule: xrun.induct) (auto intro: xrun_Cons)

text \<open>Straight-line code.\<close>

fun exec :: "x86 list \<Rightarrow> machine \<Rightarrow> machine option" where
  "exec [] m = Some m"
| "exec (i # is) m = (case exec_ins i m of None \<Rightarrow> None | Some m' \<Rightarrow> exec is m')"

lemma exec_append: "exec (xs @ ys) m = (case exec xs m of None \<Rightarrow> None | Some m' \<Rightarrow> exec ys m')"
  by (induction xs arbitrary: m) (auto split: option.split)

lemma exec_xrun: "exec xs m = Some m' \<Longrightarrow> xrun P (xs @ is, m) [] (is, m')"
proof (induction xs arbitrary: m)
  case (Cons i xs)
  then obtain m1 where "exec_ins i m = Some m1" "exec xs m1 = Some m'" by (auto split: option.splits)
  with Cons.IH [of m1] xrun_Cons [OF xstep.next_ins, of i m m1 P "xs @ is" "[]"] show ?case by (simp add: ev_def)
qed (simp add: xrun_Nil)

end
