(* ===== verification/EmitAsm.thy ===== *)
theory EmitAsm
  imports X86
begin

text \<open>
  The emission of x86-64 code from the IR, \<open>src/compiler_passes.c\<close>: the places of registers, the lowering of one
  instruction, the copies for phi nodes on an edge, blocks and functions. What the functions print is a list
  of instructions here; directives for the debugger are left out.
\<close>

section \<open>Loads and stores of registers\<close>

text \<open>The fields of \<^verbatim>\<open>IRAsmCtx\<close> the emission reads; \<open>safe_div\<close> is set by the environment variable \<^verbatim>\<open>ZCC_SAFE_DIV\<close>.\<close>

record emit_ctx =
  slot_base :: int
  phys_of :: positions
  ret_size :: int
  body_only :: bool
  csave_base :: int
  safe_div :: bool

abbreviation loc :: "emit_ctx \<Rightarrow> regid \<Rightarrow> location" where
  "loc C r \<equiv> ir_asm_vreg_location (slot_base C) (phys_of C) r"

definition load_to_rax :: "emit_ctx \<Rightarrow> regid \<Rightarrow> x86 list" where
  "load_to_rax C r = [MOVQ (Place (loc C r)) (Scr RAX)]"

definition load_to_rax_typed :: "emit_ctx \<Rightarrow> regid \<Rightarrow> irtype \<Rightarrow> x86 list" where
  "load_to_rax_typed C r t = (case loc C r of
     Phys p \<Rightarrow> MOVQ (Place (Phys p)) (Scr RAX) #
       (if t = IR_TY_I32 then [MOVSLQ (Scr RAX) RAX] else if t = IR_TY_U32 then [MOVL (Scr RAX) RAX] else [])
   | Stack s \<Rightarrow> [if t = IR_TY_I32 then MOVSLQ (Place (Stack s)) RAX else if t = IR_TY_U32 then MOVL (Place (Stack s)) RAX
       else MOVQ (Place (Stack s)) (Scr RAX)])"

definition store_rax_to :: "emit_ctx \<Rightarrow> regid \<Rightarrow> x86 list" where
  "store_rax_to C r = [MOVQ (Scr RAX) (Place (loc C r))]"

definition load_to_rdx :: "emit_ctx \<Rightarrow> regid \<Rightarrow> x86 list" where
  "load_to_rdx C r = [MOVQ (Place (loc C r)) (Scr RDX)]"

definition load_to_rcx :: "emit_ctx \<Rightarrow> regid \<Rightarrow> x86 list" where
  "load_to_rcx C r = [MOVQ (Place (loc C r)) (Scr RCX)]"

definition load_to_rcx_typed :: "emit_ctx \<Rightarrow> regid \<Rightarrow> irtype \<Rightarrow> x86 list" where
  "load_to_rcx_typed C r t = [if is32 t then MOVL (Place (loc C r)) RCX else MOVQ (Place (loc C r)) (Scr RCX)]"

section \<open>Phi nodes\<close>

definition phi_source :: "blockid \<Rightarrow> instr \<Rightarrow> regid option" where
  "phi_source b i = map_option fst (find (\<lambda>(r, p). p = b) (phi i))"

text \<open>Destination and source of the phi nodes of a block that have an entry for the edge.\<close>

definition edge_phis :: "func \<Rightarrow> blockid \<Rightarrow> blockid \<Rightarrow> (regid \<times> regid) list" where
  "edge_phis fn b t = List.map_filter (\<lambda>a. let i = heap fn a in
     if op i = OP_PHI then map_option (Pair (dst i)) (phi_source b i) else None) (blk_instrs (blk_at fn t))"

definition ir_asm_emit_phi_edge_copy :: "emit_ctx \<Rightarrow> func \<Rightarrow> blockid \<Rightarrow> blockid \<Rightarrow> x86 list" where
  "ir_asm_emit_phi_edge_copy C fn b t = (case edge_phis fn b t of
     [] \<Rightarrow> []
   | [(d, s)] \<Rightarrow> load_to_rax C s @ store_rax_to C d
   | ps \<Rightarrow> concat (List.map (\<lambda>(d, s). load_to_rax C s @ [PUSHQ (Scr RAX)]) ps) @
       concat (List.map (\<lambda>(d, s). POPQ (Scr RAX) # store_rax_to C d) (rev ps)))"

section \<open>Instructions\<close>

definition lower_const :: "emit_ctx \<Rightarrow> instr \<Rightarrow> x86 list" where
  "lower_const C i = (let l = loc C (dst i); k = imm i in
     case l of Phys p \<Rightarrow> [MOVQ (Imm k) (Place l)]
     | Stack s \<Rightarrow> if - 2147483648 \<le> sint k \<and> sint k \<le> 2147483647 then [MOVQ (Imm k) (Place l)]
         else [MOVQ (Imm k) (Scr RAX), MOVQ (Scr RAX) (Place l)])"

text \<open>Addition, subtraction and the bitwise operations.\<close>

definition lower_alu :: "emit_ctx \<Rightarrow> alu \<Rightarrow> instr \<Rightarrow> x86 list" where
  "lower_alu C f i = load_to_rax_typed C (src1 i) (ir_type i) @
     (if is32 (ir_type i) then [MOVQ (Place (loc C (src2 i))) (Scr RCX), ALUL f (Scr RCX) RAX]
      else [ALUQ f (Place (loc C (src2 i))) RAX]) @ store_rax_to C (dst i)"

definition lower_mul :: "emit_ctx \<Rightarrow> instr \<Rightarrow> x86 list" where
  "lower_mul C i = load_to_rax_typed C (src1 i) (ir_type i) @
     [MOVQ (Place (loc C (src2 i))) (Scr RCX), if is32 (ir_type i) then ALUL X_IMUL (Scr RCX) RAX else ALUQ X_IMUL (Scr RCX) RAX] @
     store_rax_to C (dst i)"

text \<open>Division and remainder (\<open>rm\<close>), with the test of \<^verbatim>\<open>ZCC_SAFE_DIV\<close> around the instruction that divides.\<close>

definition guarded_div :: "emit_ctx \<Rightarrow> addr \<Rightarrow> bool \<Rightarrow> x86 list \<Rightarrow> x86 list" where
  "guarded_div C a long code = (if \<not> safe_div C then code
     else [if long then TESTQ RCX else TESTL RCX, JNE (Div_ok a)] @
       (if long then [ALUQ X_XOR (Scr RAX) RAX, ALUQ X_XOR (Scr RDX) RDX] else [ALUL X_XOR (Scr RAX) RAX, ALUL X_XOR (Scr RDX) RDX]) @
       [JMP (Div_end a), LABEL (Div_ok a)] @ code @ [LABEL (Div_end a)])"

definition lower_div :: "emit_ctx \<Rightarrow> addr \<Rightarrow> bool \<Rightarrow> instr \<Rightarrow> x86 list" where
  "lower_div C a rm i = (let
     remq = (if rm then [MOVQ (Scr RDX) (Scr RAX)] else []); reml = (if rm then [MOVL (Scr RDX) RAX] else [])
   in load_to_rax_typed C (src1 i) (ir_type i) @
     (case ir_type i of
        IR_TY_I32 \<Rightarrow> [CLTD] @ load_to_rcx_typed C (src2 i) (ir_type i) @ guarded_div C a False (IDIVL # reml)
      | IR_TY_U32 \<Rightarrow> [ALUL X_XOR (Scr RDX) RDX] @ load_to_rcx_typed C (src2 i) (ir_type i) @ guarded_div C a False (DIVL # reml)
      | IR_TY_U64 \<Rightarrow> [ALUL X_XOR (Scr RDX) RDX, MOVQ (Place (loc C (src2 i))) (Scr RCX)] @ guarded_div C a True (DIVQ # remq)
      | IR_TY_I64 \<Rightarrow> [CQO, MOVQ (Place (loc C (src2 i))) (Scr RCX)] @ guarded_div C a True (IDIVQ # remq)) @
     store_rax_to C (dst i))"

text \<open>The count of a shift by a constant is put into the instruction.\<close>

definition shift_count :: "func \<Rightarrow> instr \<Rightarrow> int64 option" where
  "shift_count fn i = (if src2 i < MAX_INSTRS then (case def_tab fn (src2 i) of None \<Rightarrow> None
     | Some a \<Rightarrow> if op (heap fn a) = OP_CONST then Some (imm (heap fn a)) else None) else None)"

definition lower_shift :: "emit_ctx \<Rightarrow> func \<Rightarrow> shifter \<Rightarrow> instr \<Rightarrow> x86 list" where
  "lower_shift C fn f i = load_to_rax_typed C (src1 i) (ir_type i) @
     (case shift_count fn i of
        Some k \<Rightarrow> [if is32 (ir_type i) then SHIFTL f (Some (unat (k AND 31))) else SHIFTQ f (Some (unat (k AND 63)))]
      | None \<Rightarrow> [MOVQ (Place (loc C (src2 i))) (Scr RCX), if is32 (ir_type i) then SHIFTL f None else SHIFTQ f None]) @
     store_rax_to C (dst i)"

text \<open>Only the signed 32-bit type is shifted arithmetically.\<close>

definition right_shifter :: "irtype \<Rightarrow> shifter" where
  "right_shifter t = (if t = IR_TY_I32 then X_SAR else X_SHR)"

definition lower_cmp :: "emit_ctx \<Rightarrow> cond \<Rightarrow> instr \<Rightarrow> x86 list" where
  "lower_cmp C c i = load_to_rax_typed C (src1 i) (ir_type i) @
     (if is32 (ir_type i) then [MOVQ (Place (loc C (src2 i))) (Scr RCX), CMPL (Scr RCX)] else [CMPQ (Place (loc C (src2 i)))]) @
     [SETCC c, MOVZB] @ store_rax_to C (dst i)"

definition lower_not :: "emit_ctx \<Rightarrow> instr \<Rightarrow> x86 list" where
  "lower_not C i = load_to_rax_typed C (src1 i) (ir_type i) @ [if is32 (ir_type i) then NOTL RAX else NOTQ RAX] @ store_rax_to C (dst i)"

definition lower_ret :: "emit_ctx \<Rightarrow> instr \<Rightarrow> x86 list" where
  "lower_ret C i = (if 1 \<le> n_src i then (if is_float i \<noteq> 0 then [OTHER OP_RET] else load_to_rax C (src1 i)) else []) @
     (if 2 \<le> n_src i then load_to_rdx C (src2 i) else []) @
     (if ret_size C = 4 \<and> is_float i = 0 then [MOVL (Scr RAX) RAX] else []) @
     (if \<not> body_only C then List.map (\<lambda>p. POPQ (Place (Phys p))) (rev (filter (\<lambda>p. p \<in> phys_of C ` {..<MAX_INSTRS}) [0, 3, 4, 5, 6]))
      else if csave_base C \<noteq> 0 then List.map (\<lambda>(k, p). MOVQ (Place (Stack (csave_base C - k))) (Place (Phys p))) [(0, 0), (8, 3), (16, 4), (24, 5), (32, 6)]
      else []) @ [JMP Func_end]"

text \<open>The text of the other operations is one unit; the code emits none for \<open>OP_GEP\<close> and \<open>OP_UNDEF\<close>.\<close>

definition lower_effect :: "emit_ctx \<Rightarrow> instr \<Rightarrow> x86 list" where
  "lower_effect C i = [EFFECT (op i) (call_name i) (imm i) (List.map (\<lambda>r. if r = 0 then None else Some (loc C r)) (eff_regs i))
     (if dst i = 0 then None else Some (loc C (dst i)))]"

definition ir_asm_lower_insn :: "emit_ctx \<Rightarrow> func \<Rightarrow> blockid \<Rightarrow> addr \<Rightarrow> x86 list" where
  "ir_asm_lower_insn C fn b a = (let i = heap fn a; fl = is_float i \<noteq> 0 in case op i of
     OP_CONST \<Rightarrow> lower_const C i
   | OP_ADD \<Rightarrow> if fl then [OTHER (op i)] else lower_alu C X_ADD i
   | OP_SUB \<Rightarrow> if fl then [OTHER (op i)] else lower_alu C X_SUB i
   | OP_MUL \<Rightarrow> if fl then [OTHER (op i)] else lower_mul C i
   | OP_DIV \<Rightarrow> if fl then [OTHER (op i)] else lower_div C a False i
   | OP_MOD \<Rightarrow> lower_div C a True i
   | OP_BAND \<Rightarrow> lower_alu C X_AND i
   | OP_BOR \<Rightarrow> lower_alu C X_OR i
   | OP_BXOR \<Rightarrow> lower_alu C X_XOR i
   | OP_BNOT \<Rightarrow> lower_not C i
   | OP_SHL \<Rightarrow> lower_shift C fn X_SHL i
   | OP_SHR \<Rightarrow> lower_shift C fn (right_shifter (ir_type i)) i
   | OP_LT \<Rightarrow> if fl then [OTHER (op i)] else lower_cmp C C_L i
   | OP_EQ \<Rightarrow> if fl then [OTHER (op i)] else lower_cmp C C_E i
   | OP_NE \<Rightarrow> if fl then [OTHER (op i)] else lower_cmp C C_NE i
   | OP_GT \<Rightarrow> if fl then [OTHER (op i)] else lower_cmp C C_G i
   | OP_GE \<Rightarrow> if fl then [OTHER (op i)] else lower_cmp C C_GE i
   | OP_LE \<Rightarrow> if fl then [OTHER (op i)] else lower_cmp C C_LE i
   | OP_COPY \<Rightarrow> if n_src i = 0 then [] else if src_is_float i \<noteq> 0 \<or> fl then [OTHER (op i)]
       else load_to_rax_typed C (src1 i) (ir_type i) @ store_rax_to C (dst i)
   | OP_BR \<Rightarrow> if n_src i = 0 then [] else ir_asm_emit_phi_edge_copy C fn b (src1 i) @ [JMP (Block_label (src1 i))]
   | OP_CONDBR \<Rightarrow> if n_src i < 3 then []
       else load_to_rax C (src1 i) @ [TESTQ RAX, JZ (False_label b)] @
         ir_asm_emit_phi_edge_copy C fn b (src i 1) @ [JMP (Block_label (src i 1)), LABEL (False_label b)] @
         ir_asm_emit_phi_edge_copy C fn b (src i 2) @ [JMP (Block_label (src i 2))]
   | OP_RET \<Rightarrow> lower_ret C i
   | OP_STORE \<Rightarrow> if n_src i < 2 then [] else lower_effect C i
   | OP_LOAD \<Rightarrow> lower_effect C i | OP_ALLOCA \<Rightarrow> lower_effect C i | OP_CALL \<Rightarrow> lower_effect C i
   | OP_GLOBAL \<Rightarrow> lower_effect C i | OP_PGO_COUNTER_ADDR \<Rightarrow> lower_effect C i | OP_ASM \<Rightarrow> lower_effect C i
   | OP_VLA_ALLOC \<Rightarrow> lower_effect C i | OP_GET_RDX \<Rightarrow> lower_effect C i
   | _ \<Rightarrow> [])"

section \<open>Blocks and functions\<close>

definition emit_instrs :: "emit_ctx \<Rightarrow> func \<Rightarrow> blockid \<Rightarrow> addr list \<Rightarrow> x86 list" where
  "emit_instrs C fn b as = concat (List.map (\<lambda>a. if op (heap fn a) = OP_NOP then [] else ir_asm_lower_insn C fn b a) as)"

definition save_regs :: "emit_ctx \<Rightarrow> x86 list" where
  "save_regs C = List.map (\<lambda>p. PUSHQ (Place (Phys p))) (filter (\<lambda>p. p \<in> phys_of C ` {..<MAX_INSTRS}) [0, 3, 4, 5, 6])"

text \<open>The jump of a block that does not end in a terminator.\<close>

definition fall_through :: "emit_ctx \<Rightarrow> func \<Rightarrow> blockid \<Rightarrow> x86 list" where
  "fall_through C fn b = (let code = code_of fn b in
     if (code = [] \<or> op (heap fn (last code)) \<notin> {OP_BR, OP_CONDBR, OP_RET}) \<and> succs_at fn b \<noteq> []
     then ir_asm_emit_phi_edge_copy C fn b (hd (succs_at fn b)) @ [JMP (Block_label (hd (succs_at fn b)))] else [])"

text \<open>\<open>saved\<close>: the callee-saved registers have been pushed. A probe replaces the first five instructions.\<close>

definition ir_asm_emit_one_block :: "emit_ctx \<Rightarrow> func \<Rightarrow> bool \<Rightarrow> blockid \<Rightarrow> x86 list \<times> bool" where
  "ir_asm_emit_one_block C fn saved b = (case blk_at fn b of None \<Rightarrow> ([], saved)
   | Some blk \<Rightarrow> let
       probe = (instrs blk \<noteq> [] \<and> op (heap fn (hd (instrs blk))) = OP_PGO_COUNTER_ADDR);
       save = (\<not> body_only C \<and> \<not> saved \<and> save_regs C \<noteq> [])
     in ([LABEL (Block_label b)] @ (if probe then [OTHER OP_PGO_COUNTER_ADDR] else []) @ (if save then save_regs C else []) @
         emit_instrs C fn b (if probe then drop 5 (instrs blk) else instrs blk) @ fall_through C fn b, saved \<or> save))"

text \<open>The blocks of \<open>order\<close> first, then the others.\<close>

definition emission_order :: "func \<Rightarrow> blockid list \<Rightarrow> blockid list" where
  "emission_order fn order = filter (\<lambda>b. b < n_blocks fn) order @ filter (\<lambda>b. b \<notin> set order) [0..<n_blocks fn]"

definition ir_asm_emit_function_body :: "emit_ctx \<Rightarrow> func \<Rightarrow> blockid list \<Rightarrow> x86 list" where
  "ir_asm_emit_function_body C fn order = fst (fold (\<lambda>b (code, saved). case ir_asm_emit_one_block C fn saved b of
     (c, saved') \<Rightarrow> (code @ c, saved')) (emission_order fn order) ([], False))"

section \<open>The code of a value\<close>

lemma typed_wide: "\<not> is32 t \<Longrightarrow> load_to_rax_typed C r t = load_to_rax C r"
  by (auto simp: load_to_rax_typed_def load_to_rax_def is32_def split: location.split)

lemma value_in_simps [simp]:
  "value_in (Place l) m = place m l" "value_in (Scr s) m = scr m s" "value_in (Imm k) m = k"
  by (simp_all add: value_in_def)

lemma put_simps [simp]:
  "place (put (Place l) v m) = (place m)(l := v)" "scr (put (Place l) v m) = scr m"
  "place (put (Scr s) v m) = place m" "scr (put (Scr s) v m) = (scr m)(s := v)"
  "stk (put x v m) = stk m" "flags (put x v m) = flags m"
  by (simp_all add: put_def split: operand.split)

text \<open>What the code of a value does: it writes one place, and leaves the stack.\<close>

definition computes :: "x86 list \<Rightarrow> machine \<Rightarrow> location \<Rightarrow> int64 \<Rightarrow> bool" where
  "computes code m l v \<longleftrightarrow> (\<exists>m'. exec code m = Some m' \<and> place m' = (place m)(l := v) \<and> stk m' = stk m)"

lemma computes_store:
  assumes "\<exists>m'. exec code m = Some m' \<and> place m' = place m \<and> stk m' = stk m \<and> scr m' RAX = v"
  shows "computes (code @ store_rax_to C d) m (loc C d) v"
  using assms by (auto simp: computes_def exec_append store_rax_to_def)

text \<open>A signed quotient fits its type, but for the least number divided by minus one.\<close>

lemma sdiv_bounds:
  fixes x y M :: int
  assumes "y \<noteq> 0" "- M \<le> x" "x < M" "\<not> (x = - M \<and> y = - 1)"
  shows "- M \<le> x sdiv y \<and> x sdiv y < M"
proof -
  have bd: "\<bar>x sdiv y\<bar> = \<bar>x\<bar> div \<bar>y\<bar>"
    using assms(1) by (cases "x = 0") (simp_all add: signed_divide_int_def abs_mult abs_sgn_eq pos_imp_zdiv_nonneg_iff)
  show ?thesis
  proof (cases "\<bar>y\<bar> = 1")
    case True
    then consider "y = 1" | "y = - 1" by linarith
    then show ?thesis using assms(2-4) by cases (auto simp: signed_divide_int_def mult_sgn_abs sgn_if)
  next
    case False
    then have "2 \<le> \<bar>y\<bar>" using assms(1) by linarith
    then have "\<bar>x\<bar> div \<bar>y\<bar> \<le> \<bar>x\<bar> div 2" by (intro zdiv_mono2) auto
    moreover have "\<bar>x\<bar> div 2 < M" using assms(2,3) by linarith
    ultimately show ?thesis using bd assms(2,3) by linarith
  qed
qed

text \<open>A dividend that \<^verbatim>\<open>cqo\<close> or \<^verbatim>\<open>cltd\<close> has extended.\<close>

lemma extended_sint:
  fixes a :: "'a :: len word"
  shows "sint (if a <s 0 then -1 else (0 :: 'a word)) * 2 ^ LENGTH('a) + uint a = sint a"
proof -
  have r: "- (2 ^ (LENGTH('a) - 1)) \<le> sint a" "sint a < 2 ^ (LENGTH('a) - 1)" by (rule sint_ge sint_lt)+
  have p: "(2 :: int) ^ LENGTH('a) = 2 * 2 ^ (LENGTH('a) - 1)" by (cases "LENGTH('a)") simp_all
  show ?thesis
  proof (cases "sint a < 0")
    case True
    have "uint a = (sint a + 2 ^ LENGTH('a)) mod 2 ^ LENGTH('a)" by (simp add: uint_sint take_bit_eq_mod)
    also have "\<dots> = sint a + 2 ^ LENGTH('a)" using True r p by (intro mod_pos_pos_trivial) auto
    finally show ?thesis using True by (simp add: word_sless_alt)
  next
    case False
    then have "uint a = sint a" using r p by (simp add: uint_sint take_bit_int_eq_self)
    with False show ?thesis by (simp add: word_sless_alt)
  qed
qed

lemma idiv_extended_gen:
  fixes a b :: "'a :: len word"
  assumes "b \<noteq> 0" "\<not> (sint a = - (2 ^ (LENGTH('a) - 1)) \<and> b = -1)"
  shows "idiv_val (if a <s 0 then -1 else 0) a b = Some (word_of_int (sint a sdiv sint b), word_of_int (sint a smod sint b))"
proof -
  have "sint b \<noteq> 0" using assms(1) by (metis sint_0 signed_word_eqI)
  moreover have "sint b = - 1 \<Longrightarrow> b = - 1" by (metis sint_n1 signed_word_eqI)
  ultimately have "- (2 ^ (LENGTH('a) - 1)) \<le> sint a sdiv sint b \<and> sint a sdiv sint b < 2 ^ (LENGTH('a) - 1)"
    using assms(2) sint_ge [of a] sint_lt [of a] by (intro sdiv_bounds) auto
  then show ?thesis using assms(1) by (simp add: idiv_val_def Let_def extended_sint)
qed

lemma idiv_extended:
  fixes a b :: int64
  assumes "b \<noteq> 0" "\<not> (a = int64_min \<and> b = -1)"
  shows "idiv_val (if a <s 0 then -1 else 0) a b = Some (word_of_int (sint a sdiv sint b), word_of_int (sint a smod sint b))"
proof (rule idiv_extended_gen [OF assms(1)])
  have "sint a = - 9223372036854775808 \<Longrightarrow> a = int64_min" by (metis sint_int64_min signed_word_eqI)
  with assms(2) show "\<not> (sint a = - (2 ^ (LENGTH(64) - 1)) \<and> b = - 1)" by auto
qed

lemma div_wide:
  fixes a b :: "'a :: len word"
  assumes "b \<noteq> 0"
  shows "div_val 0 a b = Some (a div b, a mod b)"
proof -
  have "uint b \<noteq> 0" using assms by (simp add: uint_0_iff)
  then have "0 < uint b" using uint_ge_0 [of b] by linarith
  then have "uint a div uint b \<le> uint a" using int_div_bounds [of "uint b" "uint a"] by simp
  then have "uint a div uint b < 2 ^ LENGTH('a)" using uint_lt2p [of a] by linarith
  then show ?thesis using assms by (simp add: div_val_def Let_def word_div_def word_mod_def)
qed

lemma set_low_byte: "((x AND NOT 255) OR c_bool p) AND 255 = (c_bool p :: int64)"
proof -
  have low: "bit (255 :: int64) n \<longleftrightarrow> n < 8" for n
  proof -
    have "(255 :: int64) = mask 8" by (simp add: mask_eq_exp_minus_1)
    then show ?thesis by (simp only: bit_mask_iff) auto
  qed
  have b: "bit (NOT (255 :: int64)) n \<longleftrightarrow> \<not> n < 8" if "n < 64" for n using that low [of n] by (simp only: bit_not_iff possible_bit_word) simp
  have c: "bit (c_bool p) n \<Longrightarrow> n < 8" for n by (cases p) (auto simp: c_bool_def bit_1_iff)
  show ?thesis
  proof (rule bit_word_eqI)
    fix n assume "n < LENGTH(64)"
    then have "n < 64" by simp
    then show "bit (((x AND NOT 255) OR c_bool p) AND 255) n = bit (c_bool p) n"
      using b [of n] c [of n] low [of n] by (simp only: bit_and_iff bit_or_iff) blast
  qed
qed

lemma alu_xor_self [simp]: "alu_val X_XOR a a = 0" "ucast (0 :: 32 word) = (0 :: int64)"
  by (simp_all add: alu_val_def)


lemma signed_tests: "\<not> a <s b \<longleftrightarrow> b \<le>s a" "a \<noteq> b \<and> b \<le>s a \<longleftrightarrow> b <s a" "a = b \<or> a <s b \<longleftrightarrow> a \<le>s b"
  for a b :: "'a :: len word"
proof -
  have "sint a = sint b \<Longrightarrow> a = b" by (rule signed_word_eqI)
  then show "\<not> a <s b \<longleftrightarrow> b \<le>s a" "a \<noteq> b \<and> b \<le>s a \<longleftrightarrow> b <s a" "a = b \<or> a <s b \<longleftrightarrow> a \<le>s b"
    by (auto simp: word_sless_alt word_sle_eq less_le)
qed

text \<open>What the emitter needs of an instruction to keep its value, at 32 and at 64 bits; the value itself may still trap.\<close>

definition value_ok :: "instr \<Rightarrow> bool" where
  "value_ok i \<longleftrightarrow> is_pure (op i) \<and> is_float i = 0 \<and> (op i = OP_COPY \<longrightarrow> 0 < n_src i)"

lemma lower_alu_computes:
  assumes "\<not> is32 (ir_type i)"
  shows "computes (lower_alu C f i) m (loc C (dst i)) (alu_val f (place m (loc C (src1 i))) (place m (loc C (src2 i))))"
  unfolding lower_alu_def append_assoc [symmetric]
  by (rule computes_store) (simp add: assms typed_wide load_to_rax_def)

lemma lower_mul_computes:
  assumes "\<not> is32 (ir_type i)"
  shows "computes (lower_mul C i) m (loc C (dst i)) (place m (loc C (src1 i)) * place m (loc C (src2 i)))"
  unfolding lower_mul_def append_assoc [symmetric]
  by (rule computes_store) (simp add: assms typed_wide load_to_rax_def alu_val_def)

lemma lower_cmp_computes:
  assumes "\<not> is32 (ir_type i)"
  shows "computes (lower_cmp C c i) m (loc C (dst i)) (c_bool (holds_in c
    (place m (loc C (src1 i)) = place m (loc C (src2 i)), place m (loc C (src1 i)) <s place m (loc C (src2 i)))))"
  unfolding lower_cmp_def append_assoc [symmetric]
  by (rule computes_store) (simp add: assms typed_wide load_to_rax_def set_low_byte [simplified])

lemma lower_not_computes:
  assumes "\<not> is32 (ir_type i)"
  shows "computes (lower_not C i) m (loc C (dst i)) (NOT (place m (loc C (src1 i))))"
  unfolding lower_not_def append_assoc [symmetric]
  by (rule computes_store) (simp add: assms typed_wide load_to_rax_def)

lemma lower_shift_computes:
  assumes "\<not> is32 (ir_type i)" "\<And>k. shift_count fn i = Some k \<Longrightarrow> place m (loc C (src2 i)) = k"
  shows "computes (lower_shift C fn f i) m (loc C (dst i)) (shift_val f (unat (place m (loc C (src2 i)) AND 63)) (place m (loc C (src1 i))))"
  unfolding lower_shift_def append_assoc [symmetric]
  by (rule computes_store) (use assms in \<open>auto simp: typed_wide load_to_rax_def split: option.split\<close>)

lemma lower_const_computes: "computes (lower_const C i) m (loc C (dst i)) (imm i)"
  by (auto simp: computes_def lower_const_def Let_def split: location.split)

lemma lower_div_computes:
  assumes "\<not> is32 (ir_type i)" "\<not> safe_div C"
    and "bin_val64 (if rm then OP_MOD else OP_DIV) (ir_type i = IR_TY_U64) (place m (loc C (src1 i))) (place m (loc C (src2 i))) = Some v"
  shows "computes (lower_div C a rm i) m (loc C (dst i)) v"
proof (cases "ir_type i")
  case IR_TY_I64
  let ?a = "place m (loc C (src1 i))" and ?b = "place m (loc C (src2 i))"
  have nz: "?b \<noteq> 0" "\<not> (?a = int64_min \<and> ?b = -1)" and v: "v = word_of_int (if rm then sint ?a smod sint ?b else sint ?a sdiv sint ?b)"
    using assms(3) IR_TY_I64 by (auto simp: c_sdiv_def c_smod_def split: if_splits)
  show ?thesis
    unfolding lower_div_def Let_def append_assoc [symmetric] IR_TY_I64 irtype.case
    by (rule computes_store, cases "?a <s 0")
      (use idiv_extended [OF nz] in \<open>auto simp: typed_wide is32_def load_to_rax_def guarded_div_def assms(2) v\<close>)
next
  case IR_TY_U64
  let ?a = "place m (loc C (src1 i))" and ?b = "place m (loc C (src2 i))"
  have nz: "?b \<noteq> 0" and v: "v = (if rm then ?a mod ?b else ?a div ?b)" using assms(3) IR_TY_U64 by (auto split: if_splits)
  show ?thesis
    unfolding lower_div_def Let_def append_assoc [symmetric] IR_TY_U64 irtype.case
    by (rule computes_store) (use div_wide [OF nz] in \<open>auto simp: typed_wide is32_def load_to_rax_def guarded_div_def assms(2) v\<close>)
qed (use assms(1) in \<open>simp_all add: is32_def\<close>)


section \<open>32-bit types\<close>

lemma load_typed_exec: "exec (load_to_rax_typed C r t) m = Some (put (Scr RAX) (load_as t (place m (loc C r))) m)"
  by (auto simp: load_to_rax_typed_def load_as_def put_def lower_def split: location.split)

lemma lower_load_as: "is32 t \<Longrightarrow> lower (load_as t v) = lower v"
  by (rule bit_word_eqI) (auto simp: lower_def load_as_def is32_def bit_ucast_iff bit_signed_iff bit_unsigned_iff)

lemma lower_ucast [simp]: "lower (ucast (x :: 32 word)) = x"
  by (rule bit_word_eqI) (simp add: lower_def bit_ucast_iff bit_unsigned_iff)

lemma shift_count_low: "unat ((ucast b :: 32 word) AND 31) = unat (b AND 31)" for b :: int64
proof -
  have "uint ((ucast b :: 32 word) AND 31) = uint (b AND 31)"
  proof -
    have "(31 :: 32 word) = mask 5" "(31 :: int64) = mask 5" by (simp_all add: mask_eq_exp_minus_1)
    then show ?thesis by (simp only: flip: take_bit_eq_mask) (simp add: unsigned_take_bit_eq unsigned_ucast_eq)
  qed
  then show ?thesis by (metis unat_eq_nat_uint)
qed

abbreviation low_at :: "emit_ctx \<Rightarrow> machine \<Rightarrow> regid \<Rightarrow> 32 word" where
  "low_at C m r \<equiv> lower (place m (loc C r))"

lemma lower_alu_32:
  assumes "is32 (ir_type i)"
  shows "computes (lower_alu C f i) m (loc C (dst i)) (ucast (alu_val f (low_at C m (src1 i)) (low_at C m (src2 i))))"
  unfolding lower_alu_def append_assoc [symmetric]
  by (rule computes_store) (simp add: assms exec_append load_typed_exec lower_load_as)

lemma lower_mul_32:
  assumes "is32 (ir_type i)"
  shows "computes (lower_mul C i) m (loc C (dst i)) (ucast (low_at C m (src1 i) * low_at C m (src2 i)))"
  unfolding lower_mul_def append_assoc [symmetric]
  by (rule computes_store) (simp add: assms exec_append load_typed_exec lower_load_as alu_val_def)

lemma lower_cmp_32:
  assumes "is32 (ir_type i)"
  shows "computes (lower_cmp C c i) m (loc C (dst i)) (c_bool (holds_in c
    (low_at C m (src1 i) = low_at C m (src2 i), low_at C m (src1 i) <s low_at C m (src2 i))))"
  unfolding lower_cmp_def append_assoc [symmetric]
  by (rule computes_store) (simp add: assms exec_append load_typed_exec lower_load_as set_low_byte [simplified])

lemma lower_not_32:
  assumes "is32 (ir_type i)"
  shows "computes (lower_not C i) m (loc C (dst i)) (ucast (NOT (low_at C m (src1 i))))"
  unfolding lower_not_def append_assoc [symmetric]
  by (rule computes_store) (simp add: assms exec_append load_typed_exec lower_load_as)

lemma lower_copy_computes:
  "computes (load_to_rax_typed C (src1 i) (ir_type i) @ store_rax_to C (dst i)) m (loc C (dst i)) (load_as (ir_type i) (place m (loc C (src1 i))))"
  by (rule computes_store) (simp add: load_typed_exec)

lemma lower_shift_32:
  assumes "is32 (ir_type i)" "\<And>k. shift_count fn i = Some k \<Longrightarrow> place m (loc C (src2 i)) = k"
  shows "computes (lower_shift C fn f i) m (loc C (dst i))
    (ucast (shift_val f (unat (place m (loc C (src2 i)) AND 31)) (low_at C m (src1 i))))"
  unfolding lower_shift_def append_assoc [symmetric]
  by (rule computes_store) (use assms in \<open>auto simp: exec_append load_typed_exec lower_load_as split: option.split\<close>)

lemma lower_div_32:
  assumes t: "is32 (ir_type i)" and s: "\<not> safe_div C"
    and v: "bin_val32 (if rm then OP_MOD else OP_DIV) (ir_type i = IR_TY_U32) (low_at C m (src1 i)) (low_at C m (src2 i)) = Some v"
  shows "computes (lower_div C a rm i) m (loc C (dst i)) (ucast v)"
proof (cases "ir_type i")
  case IR_TY_I32
  let ?a = "low_at C m (src1 i)" and ?b = "low_at C m (src2 i)"
  have nz: "?b \<noteq> 0" "\<not> (sint ?a = - (2 ^ (LENGTH(32) - 1)) \<and> ?b = -1)"
    and v: "v = word_of_int (if rm then sint ?a smod sint ?b else sint ?a sdiv sint ?b)"
    using v IR_TY_I32 by (auto split: if_splits)
  have m1: "lower 4294967295 = -1" "lower 0 = 0" by (simp_all add: lower_def)
  show ?thesis
    unfolding lower_div_def Let_def append_assoc [symmetric] IR_TY_I32 irtype.case
    by (rule computes_store, cases "?a <s 0")
      (use idiv_extended_gen [OF nz] m1 in \<open>auto simp: exec_append load_typed_exec lower_load_as load_to_rcx_typed_def is32_def guarded_div_def s v\<close>)
next
  case IR_TY_U32
  let ?a = "low_at C m (src1 i)" and ?b = "low_at C m (src2 i)"
  have nz: "?b \<noteq> 0" and v: "v = (if rm then ?a mod ?b else ?a div ?b)" using v IR_TY_U32 by (auto split: if_splits)
  have "lower 0 = 0" by (simp add: lower_def)
  then show ?thesis
    unfolding lower_div_def Let_def append_assoc [symmetric] IR_TY_U32 irtype.case
    by (intro computes_store) (use div_wide [OF nz] in \<open>auto simp: exec_append load_typed_exec lower_load_as load_to_rcx_typed_def is32_def guarded_div_def s v\<close>)
qed (use t in \<open>simp_all add: is32_def\<close>)

section \<open>The value of an instruction\<close>

lemma lower_wide_computes:
  assumes "value_ok i" "\<not> safe_div C" "i = heap fn a" and w: "\<not> is32 (ir_type i)"
    and k: "\<And>k. op i \<in> {OP_SHL, OP_SHR} \<Longrightarrow> shift_count fn i = Some k \<Longrightarrow> place m (loc C (src2 i)) = k"
    and o: "is_binop (op i)" and v: "bin_val64 (op i) (ir_type i = IR_TY_U64) (place m (loc C (src1 i))) (place m (loc C (src2 i))) = Some v"
  shows "computes (ir_asm_lower_insn C fn b a) m (loc C (dst i)) v"
proof -
  have f: "is_float i = 0" "ir_type i \<noteq> IR_TY_I32" using assms(1) w by (auto simp: value_ok_def is32_def)
  note D = assms(3) [symmetric]
  consider "op i \<in> {OP_ADD, OP_SUB, OP_BAND, OP_BOR, OP_BXOR}"
    | "op i = OP_MUL" | "op i = OP_DIV" | "op i = OP_MOD" | "op i \<in> {OP_SHL, OP_SHR}" | "op i \<in> {OP_EQ, OP_NE, OP_LT, OP_LE, OP_GT, OP_GE}"
    using o by (auto simp: is_binop_def)
  then show ?thesis
  proof cases
    case 1
    note A = lower_alu_computes [OF w, where C = C and m = m]
    from 1 show ?thesis
      by (elim insertE emptyE)
        (use v f A [of X_ADD] A [of X_SUB] A [of X_AND] A [of X_OR] A [of X_XOR] in \<open>simp_all add: ir_asm_lower_insn_def D Let_def alu_val_def\<close>)
  next
    case 2
    then show ?thesis using lower_mul_computes [OF w, of C m] v f by (simp add: ir_asm_lower_insn_def D Let_def)
  next
    case 3
    then show ?thesis using lower_div_computes [OF w assms(2), of False m v a] v f by (simp add: ir_asm_lower_insn_def D Let_def)
  next
    case 4
    then show ?thesis using lower_div_computes [OF w assms(2), of True m v a] v f by (simp add: ir_asm_lower_insn_def D Let_def)
  next
    case 5
    note S = lower_shift_computes [OF w k [OF 5]]
    from 5 show ?thesis
      by (elim insertE emptyE)
        (use v f S [where f = X_SHL] S [where f = X_SHR] in \<open>auto simp: ir_asm_lower_insn_def D Let_def shift_val_def c_shl_def c_shr_def right_shifter_def\<close>)
  next
    case 6
    note A = lower_cmp_computes [OF w, where C = C and m = m]
    from 6 show ?thesis
      by (elim insertE emptyE)
        (use v f A [of C_E] A [of C_NE] A [of C_L] A [of C_LE] A [of C_G] A [of C_GE] in
          \<open>simp_all add: ir_asm_lower_insn_def D Let_def holds_in_def signed_tests\<close>)
  qed
qed

lemma lower_32_computes:
  assumes "value_ok i" "\<not> safe_div C" "i = heap fn a" and w: "is32 (ir_type i)"
    and k: "\<And>k. op i \<in> {OP_SHL, OP_SHR} \<Longrightarrow> shift_count fn i = Some k \<Longrightarrow> place m (loc C (src2 i)) = k"
    and o: "is_binop (op i)" and v: "bin_val32 (op i) (ir_type i = IR_TY_U32) (low_at C m (src1 i)) (low_at C m (src2 i)) = Some v"
  shows "computes (ir_asm_lower_insn C fn b a) m (loc C (dst i)) (ucast v)"
proof -
  have f: "is_float i = 0" using assms(1) by (simp add: value_ok_def)
  note D = assms(3) [symmetric]
  have c: "ucast (if p then 1 else (0 :: 32 word)) = c_bool p" for p by (simp add: c_bool_def)
  consider "op i \<in> {OP_ADD, OP_SUB, OP_BAND, OP_BOR, OP_BXOR}"
    | "op i = OP_MUL" | "op i = OP_DIV" | "op i = OP_MOD" | "op i \<in> {OP_SHL, OP_SHR}" | "op i \<in> {OP_EQ, OP_NE, OP_LT, OP_LE, OP_GT, OP_GE}"
    using o by (auto simp: is_binop_def)
  then show ?thesis
  proof cases
    case 1
    note A = lower_alu_32 [OF w, where C = C and m = m]
    from 1 show ?thesis
      by (elim insertE emptyE)
        (use v f A [of X_ADD] A [of X_SUB] A [of X_AND] A [of X_OR] A [of X_XOR] in \<open>auto simp: ir_asm_lower_insn_def D Let_def alu_val_def\<close>)
  next
    case 2
    then show ?thesis using lower_mul_32 [OF w, of C m] v f by (auto simp: ir_asm_lower_insn_def D Let_def)
  next
    case 3
    then show ?thesis using lower_div_32 [OF w assms(2), of False m v a] v f by (simp add: ir_asm_lower_insn_def D Let_def)
  next
    case 4
    then show ?thesis using lower_div_32 [OF w assms(2), of True m v a] v f by (simp add: ir_asm_lower_insn_def D Let_def)
  next
    case 5
    note S = lower_shift_32 [OF w k [OF 5]]
    have n: "unat (low_at C m (src2 i) AND 31) = unat (place m (loc C (src2 i)) AND 31)"
      by (simp add: lower_def shift_count_low)
    have u: "ir_type i = IR_TY_U32 \<or> ir_type i = IR_TY_I32" using w by (auto simp: is32_def)
    from 5 show ?thesis
      by (elim insertE emptyE)
        (use v f u n S [where f = X_SHL] S [where f = X_SHR] S [where f = X_SAR] in
          \<open>auto simp: ir_asm_lower_insn_def D Let_def shift_val_def right_shifter_def\<close>)
  next
    case 6
    note A = lower_cmp_32 [OF w, where C = C and m = m]
    from 6 show ?thesis
      by (elim insertE emptyE)
        (use v f A [of C_E] A [of C_NE] A [of C_L] A [of C_LE] A [of C_G] A [of C_GE] in
          \<open>auto simp only: ir_asm_lower_insn_def D Let_def holds_in_def signed_tests opcode.case bin_val32.simps option.inject c fst_conv snd_conv cond.case simp_thms if_False\<close>)
  qed
qed

lemma lower_insn_computes:
  assumes "value_ok i" "\<not> safe_div C" "i = heap fn a"
    and k: "\<And>k. op i \<in> {OP_SHL, OP_SHR} \<Longrightarrow> shift_count fn i = Some k \<Longrightarrow> place m (loc C (src2 i)) = k"
    and v: "value_of i (\<lambda>r. place m (loc C r)) = Some v"
  shows "computes (ir_asm_lower_insn C fn b a) m (loc C (dst i)) v"
proof -
  note D = assms(3) [symmetric]
  have f: "is_float i = 0" using assms(1) by (simp add: value_ok_def)
  consider "op i = OP_CONST" | "op i = OP_COPY" | "op i = OP_BNOT" | "is_binop (op i)"
    using assms(1) by (auto simp: value_ok_def is_pure_def)
  then show ?thesis
  proof cases
    case 1
    then show ?thesis using lower_const_computes [of C i m] v f by (simp add: ir_asm_lower_insn_def D Let_def value_of_def)
  next
    case 2
    then show ?thesis using lower_copy_computes [of C i m] v f assms(1)
      by (auto simp: ir_asm_lower_insn_def D Let_def value_of_def value_ok_def split: if_splits)
  next
    case 3
    then show ?thesis
      using lower_not_computes [of i C m] lower_not_32 [of i C m] v f
      by (auto simp: ir_asm_lower_insn_def D Let_def value_of_def lower_def split: if_splits)
  next
    case 4
    then have "op i \<noteq> OP_CONST" "op i \<noteq> OP_COPY" "op i \<noteq> OP_BNOT" by (auto simp: is_binop_def)
    then have b: "bin_val (op i) (ir_type i) (place m (loc C (src1 i))) (place m (loc C (src2 i))) = Some v"
      using v f by (simp add: value_of_def)
    show ?thesis
    proof (cases "is32 (ir_type i)")
      case True
      with b obtain w where "bin_val32 (op i) (ir_type i = IR_TY_U32) (low_at C m (src1 i)) (low_at C m (src2 i)) = Some w" "v = ucast w"
        by (auto simp: bin_val_def lower_def)
      with lower_32_computes [OF assms(1-3) True k 4] show ?thesis by blast
    next
      case False
      with b lower_wide_computes [OF assms(1-3) False k 4] show ?thesis by (simp add: bin_val_def)
    qed
  qed
qed

section \<open>Copies on an edge\<close>

lemma exec_pushes:
  "\<exists>m'. exec (concat (List.map (\<lambda>(d, s). load_to_rax C s @ [PUSHQ (Scr RAX)]) ps)) m = Some m' \<and> place m' = place m \<and>
     stk m' = rev (List.map (\<lambda>(d, s). place m (loc C s)) ps) @ stk m"
proof (induction ps arbitrary: m)
  case (Cons p ps)
  obtain d s where p: "p = (d, s)" by fastforce
  define m1 where "m1 = (put (Scr RAX) (place m (loc C s)) m)\<lparr>stk := place m (loc C s) # stk m\<rparr>"
  have "exec (load_to_rax C s @ [PUSHQ (Scr RAX)]) m = Some m1" "place m1 = place m" "stk m1 = place m (loc C s) # stk m"
    by (simp_all add: load_to_rax_def m1_def)
  then have "exec (concat (List.map (\<lambda>(d, s). load_to_rax C s @ [PUSHQ (Scr RAX)]) (p # ps))) m =
      exec (concat (List.map (\<lambda>(d, s). load_to_rax C s @ [PUSHQ (Scr RAX)]) ps)) m1" "place m1 = place m" "stk m1 = place m (loc C s) # stk m"
    by (simp_all only: p list.map concat.simps exec_append prod.case option.case)
  with Cons.IH [of m1] show ?case by (simp add: p)
qed simp

lemma exec_pops:
  assumes "stk m = List.map snd qs @ vs"
  shows "\<exists>m'. exec (concat (List.map (\<lambda>(d, v). POPQ (Scr RAX) # store_rax_to C d) qs)) m = Some m' \<and> stk m' = vs \<and>
     place m' = fold (\<lambda>(d, v) p. p(loc C d := v)) qs (place m)"
  using assms
proof (induction qs arbitrary: m)
  case (Cons q qs)
  obtain d v where q: "q = (d, v)" by fastforce
  define m1 where "m1 = put (Place (loc C d)) v (put (Scr RAX) v (m\<lparr>stk := List.map snd qs @ vs\<rparr>))"
  have "exec (POPQ (Scr RAX) # store_rax_to C d) m = Some m1" "stk m1 = List.map snd qs @ vs" "place m1 = (place m)(loc C d := v)"
    using Cons.prems by (simp_all add: q store_rax_to_def m1_def)
  then have "exec (concat (List.map (\<lambda>(d, v). POPQ (Scr RAX) # store_rax_to C d) (q # qs))) m =
      exec (concat (List.map (\<lambda>(d, v). POPQ (Scr RAX) # store_rax_to C d) qs)) m1" "stk m1 = List.map snd qs @ vs" "place m1 = (place m)(loc C d := v)"
    by (simp_all only: q list.map concat.simps exec_append prod.case option.case)
  with Cons.IH [of m1] show ?case by (simp add: q)
qed simp

lemma fold_places_out: "l \<notin> (\<lambda>(d, v). f d) ` set qs \<Longrightarrow> fold (\<lambda>(d, v) p. p(f d := v)) qs p l = p l"
  by (induction qs arbitrary: p) auto

lemma fold_places_in:
  assumes "(d, v) \<in> set qs" "distinct (List.map (\<lambda>(d, v). f d) qs)"
  shows "fold (\<lambda>(d, v) p. p(f d := v)) qs p (f d) = v"
  using assms
proof (induction qs arbitrary: p)
  case (Cons q qs)
  show ?case
  proof (cases "q = (d, v)")
    case True
    then have "f d \<notin> (\<lambda>(d, v). f d) ` set qs" using Cons.prems(2) by auto
    then show ?thesis using True fold_places_out [of "f d" f qs "p(f d := v)"] by (simp del: fun_upd_apply) simp
  next
    case False
    then show ?thesis using Cons by (cases q) auto
  qed
qed simp

lemma edge_copy_exec:
  assumes "distinct (List.map (\<lambda>(d, s). loc C d) (edge_phis fn b t))"
  shows "\<exists>m'. exec (ir_asm_emit_phi_edge_copy C fn b t) m = Some m' \<and> stk m' = stk m \<and>
    (\<forall>(d, s) \<in> set (edge_phis fn b t). place m' (loc C d) = place m (loc C s)) \<and>
    (\<forall>l. l \<notin> (\<lambda>(d, s). loc C d) ` set (edge_phis fn b t) \<longrightarrow> place m' l = place m l)"
proof -
  consider "edge_phis fn b t = []" | d s where "edge_phis fn b t = [(d, s)]" | p q ps where "edge_phis fn b t = p # q # ps"
    by (metis list.exhaust surj_pair)
  then show ?thesis
  proof cases
    case 3
    define es where "es = edge_phis fn b t"
    define qs where "qs = rev (List.map (\<lambda>(d, s). (d, place m (loc C s))) es)"
    obtain m1 where m1: "exec (concat (List.map (\<lambda>(d, s). load_to_rax C s @ [PUSHQ (Scr RAX)]) es)) m = Some m1" "place m1 = place m"
      "stk m1 = rev (List.map (\<lambda>(d, s). place m (loc C s)) es) @ stk m" using exec_pushes [of C es m] by blast
    have "List.map snd qs = rev (List.map (\<lambda>(d, s). place m (loc C s)) es)" by (simp add: qs_def rev_map split_def comp_def)
    with m1(3) exec_pops [of m1 qs "stk m" C] obtain m2 where
      m2: "exec (concat (List.map (\<lambda>(d, v). POPQ (Scr RAX) # store_rax_to C d) qs)) m1 = Some m2" "stk m2 = stk m"
        "place m2 = fold (\<lambda>(d, v) p. p(loc C d := v)) qs (place m)" using m1(2) by auto
    have c: "List.map (\<lambda>(d, v). POPQ (Scr RAX) # store_rax_to C d) qs = List.map (\<lambda>(d, s). POPQ (Scr RAX) # store_rax_to C d) (rev es)"
      by (simp add: qs_def rev_map split_def comp_def)
    have e: "ir_asm_emit_phi_edge_copy C fn b t = concat (List.map (\<lambda>(d, s). load_to_rax C s @ [PUSHQ (Scr RAX)]) es) @
        concat (List.map (\<lambda>(d, s). POPQ (Scr RAX) # store_rax_to C d) (rev es))"
      using 3 by (cases p; cases q) (simp add: ir_asm_emit_phi_edge_copy_def es_def)
    have "List.map (\<lambda>(d, v). loc C d) qs = rev (List.map (\<lambda>(d, s). loc C d) es)" by (simp add: qs_def rev_map split_def comp_def)
    then have di: "distinct (List.map (\<lambda>(d, v). loc C d) qs)" using assms by (simp add: es_def)
    have "exec (ir_asm_emit_phi_edge_copy C fn b t) m = Some m2" using m1(1) m2(1) by (simp add: e exec_append c)
    moreover have "place m2 (loc C d) = place m (loc C s)" if "(d, s) \<in> set es" for d s
      unfolding m2(3) by (rule fold_places_in [OF _ di]) (use that in \<open>force simp: qs_def\<close>)
    moreover have "place m2 l = place m l" if "l \<notin> (\<lambda>(d, s). loc C d) ` set es" for l
      unfolding m2(3) by (rule fold_places_out) (use that in \<open>force simp: qs_def\<close>)
    ultimately show ?thesis using m2(2) unfolding es_def by blast
  qed (simp_all add: ir_asm_emit_phi_edge_copy_def load_to_rax_def store_rax_to_def)
qed

end
