(* ===== verification/EmitSim.thy ===== *)
theory EmitSim
  imports EmitAsm
begin

text \<open>
  The emitted code against the IR: a run of the function is matched by a run of its code, effect by effect, up to
  the value it returns.
\<close>

section \<open>Labels\<close>

lemma target_skip: "LABEL l \<notin> set xs \<Longrightarrow> target (xs @ ys) l = target ys l"
proof (induction xs)
  case (Cons x xs)
  then show ?case by (auto simp: target_def)
qed simp

lemma target_here: "target (LABEL l # xs) l = LABEL l # xs"
  by (simp add: target_def)

lemma edge_copy_labels: "LABEL l \<notin> set (ir_asm_emit_phi_edge_copy C fn b t)"
  by (auto simp: ir_asm_emit_phi_edge_copy_def load_to_rax_def store_rax_to_def split: list.splits)

lemma typed_labels: "LABEL l \<notin> set (load_to_rax_typed C r t)"
  by (auto simp: load_to_rax_typed_def split: location.splits if_splits)

lemma lower_labels:
  assumes "LABEL l \<in> set (ir_asm_lower_insn C fn b a)"
  shows "(\<exists>a. l = Div_ok a \<or> l = Div_end a) \<or> (l = False_label b \<and> op (heap fn a) = OP_CONDBR)"
proof (cases "op (heap fn a)")
  case OP_DIV
  with assms show ?thesis
    by (auto simp: ir_asm_lower_insn_def Let_def lower_div_def guarded_div_def typed_labels load_to_rcx_typed_def store_rax_to_def split: if_splits irtype.splits)
next
  case OP_MOD
  with assms show ?thesis
    by (auto simp: ir_asm_lower_insn_def Let_def lower_div_def guarded_div_def typed_labels load_to_rcx_typed_def store_rax_to_def split: if_splits irtype.splits)
next
  case OP_CONDBR
  with assms show ?thesis
    by (auto simp: ir_asm_lower_insn_def Let_def edge_copy_labels load_to_rax_def split: if_splits)
qed (use assms in \<open>auto simp: ir_asm_lower_insn_def Let_def lower_alu_def lower_mul_def lower_cmp_def lower_not_def lower_shift_def lower_const_def
    lower_effect_def lower_ret_def load_to_rax_def load_to_rdx_def typed_labels edge_copy_labels store_rax_to_def split: if_splits option.splits location.splits\<close>)


text \<open>The code of a block when the frame is the caller's, and the whole body with its end.\<close>

definition block_code :: "emit_ctx \<Rightarrow> func \<Rightarrow> blockid \<Rightarrow> x86 list" where
  "block_code C fn b = fst (ir_asm_emit_one_block C fn False b)"

definition body_code :: "emit_ctx \<Rightarrow> func \<Rightarrow> blockid list \<Rightarrow> x86 list" where
  "body_code C fn order = ir_asm_emit_function_body C fn order @ [LABEL Func_end]"

lemma body_blocks:
  assumes "body_only C"
  shows "ir_asm_emit_function_body C fn order = concat (List.map (block_code C fn) (emission_order fn order))"
proof -
  have one: "ir_asm_emit_one_block C fn saved b = (block_code C fn b, saved)" for saved b
    using assms by (auto simp: block_code_def ir_asm_emit_one_block_def Let_def split: option.split)
  have "fold (\<lambda>b (code, saved). case ir_asm_emit_one_block C fn saved b of (c, saved') \<Rightarrow> (code @ c, saved')) bs (code, saved) =
      (code @ concat (List.map (block_code C fn) bs), saved)" for bs code saved
    by (induction bs arbitrary: code) (simp_all add: one)
  then show ?thesis by (simp add: ir_asm_emit_function_body_def)
qed

lemma fall_through_labels: "LABEL l \<notin> set (fall_through C fn b)"
  by (auto simp: fall_through_def Let_def edge_copy_labels)

lemma instrs_labels:
  "LABEL l \<in> set (emit_instrs C fn b as) \<Longrightarrow> (\<exists>a. l = Div_ok a \<or> l = Div_end a) \<or> (l = False_label b \<and> (\<exists>a \<in> set as. op (heap fn a) = OP_CONDBR))"
  by (auto simp: emit_instrs_def split: if_splits dest!: lower_labels)

lemma block_labels:
  assumes "LABEL l \<in> set (block_code C fn b)" "body_only C"
  shows "(\<exists>a. l = Div_ok a \<or> l = Div_end a) \<or> l = False_label b \<or> l = Block_label b"
proof (cases "blk_at fn b")
  case (Some blk)
  with assms instrs_labels show ?thesis
    by (fastforce simp: block_code_def ir_asm_emit_one_block_def Let_def fall_through_labels split: if_splits)
qed (use assms in \<open>simp add: block_code_def ir_asm_emit_one_block_def\<close>)

lemma emission_order_facts:
  "distinct order \<Longrightarrow> distinct (emission_order fn order)" "b < n_blocks fn \<Longrightarrow> b \<in> set (emission_order fn order)"
  by (auto simp: emission_order_def)

text \<open>Labels lead where they should.\<close>

lemma body_split:
  assumes "body_only C" "distinct order" "b < n_blocks fn"
  obtains P1 P2 where "body_code C fn order = P1 @ block_code C fn b @ P2"
    "LABEL (Block_label b) \<notin> set P1" "LABEL (False_label b) \<notin> set P1"
proof -
  obtain us vs where o: "emission_order fn order = us @ b # vs" using emission_order_facts(2) [OF assms(3)] by (metis split_list)
  then have nb: "b \<notin> set us" using emission_order_facts(1) [OF assms(2), of fn] by simp
  have "LABEL l \<notin> set (concat (List.map (block_code C fn) us))" if "l = Block_label b \<or> l = False_label b" for l
    using that nb block_labels [OF _ assms(1)] by fastforce
  moreover have "body_code C fn order = concat (List.map (block_code C fn) us) @ block_code C fn b @
      (concat (List.map (block_code C fn) vs) @ [LABEL Func_end])" by (simp add: body_code_def body_blocks [OF assms(1)] o)
  ultimately show thesis by (intro that) auto
qed

lemma target_end:
  assumes "body_only C"
  shows "target (body_code C fn order) Func_end = [LABEL Func_end]"
proof -
  have "LABEL Func_end \<notin> set (ir_asm_emit_function_body C fn order)"
    using block_labels [OF _ assms] by (fastforce simp: body_blocks [OF assms])
  then show ?thesis by (simp add: body_code_def target_skip target_here)
qed

definition no_probe :: "func \<Rightarrow> blockid \<Rightarrow> bool" where
  "no_probe fn b \<longleftrightarrow> (case blk_instrs (blk_at fn b) of [] \<Rightarrow> True | a # _ \<Rightarrow> op (heap fn a) \<noteq> OP_PGO_COUNTER_ADDR)"

lemma block_code_plain:
  assumes "blk_at fn b = Some blk" "body_only C" "no_probe fn b"
  shows "block_code C fn b = LABEL (Block_label b) # emit_instrs C fn b (instrs blk) @ fall_through C fn b"
  using assms by (cases "instrs blk") (simp_all add: block_code_def ir_asm_emit_one_block_def Let_def no_probe_def blk_instrs_def)

lemma target_block:
  assumes "body_only C" "distinct order" "blk_at fn b = Some blk" "no_probe fn b"
  obtains tl where "target (body_code C fn order) (Block_label b) = LABEL (Block_label b) # emit_instrs C fn b (instrs blk) @ tl"
proof -
  obtain P1 P2 where P: "body_code C fn order = P1 @ block_code C fn b @ P2" "LABEL (Block_label b) \<notin> set P1"
    by (rule body_split [OF assms(1,2), of b fn]) (use assms(3) blk_at_Some_lt in auto)
  then have "target (body_code C fn order) (Block_label b) = LABEL (Block_label b) # emit_instrs C fn b (instrs blk) @ fall_through C fn b @ P2"
    using block_code_plain [OF assms(3,1,4)] by (simp add: target_skip target_here)
  then show thesis by (rule that)
qed

lemma emit_instrs_append: "emit_instrs C fn b (xs @ ys) = emit_instrs C fn b xs @ emit_instrs C fn b ys"
  by (simp add: emit_instrs_def)

lemma emit_instrs_nops: "emit_instrs C fn b (filter (\<lambda>a. op (heap fn a) \<noteq> OP_NOP) as) = emit_instrs C fn b as"
  by (induction as) (simp_all add: emit_instrs_def)

lemma emit_instrs_phis: "emit_instrs C fn b (filter (\<lambda>a. op (heap fn a) \<noteq> OP_PHI) as) = emit_instrs C fn b as"
  by (induction as) (simp_all add: emit_instrs_def ir_asm_lower_insn_def Let_def)

section \<open>What the emitter relies on\<close>

definition is_end :: "opcode \<Rightarrow> bool" where
  "is_end opc \<longleftrightarrow> opc = OP_BR \<or> opc = OP_CONDBR \<or> opc = OP_RET"

definition emit_instr_ok :: "func \<Rightarrow> blockid \<Rightarrow> instr \<Rightarrow> bool" where
  "emit_instr_ok fn b i \<longleftrightarrow>
     (is_pure (op i) \<longrightarrow> value_ok i \<and> dst i \<noteq> 0 \<and> set (opnds i) \<subseteq> set (reads i)) \<and>
     (is_effect (op i) \<longrightarrow> op i \<noteq> OP_GEP \<and> op i \<noteq> OP_UNDEF \<and> (op i = OP_STORE \<longrightarrow> 2 \<le> n_src i \<and> dst i = 0) \<and> (op i \<noteq> OP_CALL \<longrightarrow> call_args i = [])) \<and>
     (is_end (op i) \<longrightarrow> dst i = 0) \<and>
     (op i = OP_PHI \<longrightarrow> 0 \<notin> fst ` set (phi i)) \<and>
     (op i = OP_BR \<longrightarrow> 1 \<le> n_src i \<and> src1 i \<in> set (succs_at fn b)) \<and>
     (op i = OP_CONDBR \<longrightarrow> 3 \<le> n_src i \<and> src1 i \<noteq> 0 \<and> {src i 1, src i 2} \<subseteq> set (succs_at fn b)) \<and>
     (op i = OP_RET \<longrightarrow> n_src i \<le> 1 \<and> (n_src i = 1 \<longrightarrow> src1 i \<noteq> 0) \<and> is_float i = 0)"

text \<open>Every phi result is read, as after the removal of dead code.\<close>

definition emit_fn_ok :: "func \<Rightarrow> bool" where
  "emit_fn_ok fn \<longleftrightarrow> alloc_fn_ok 0 fn \<and> repairs_suffice 0 fn \<and> table_ok fn \<and>
     (\<forall>b \<in> reached 0 fn. no_probe fn b \<and> (\<forall>a \<in> set (code_of fn b). emit_instr_ok fn b (heap fn a)) \<and>
        (\<forall>k < length (code_of fn b). is_end (op (code_at fn b k)) \<longrightarrow> Suc k = length (code_of fn b)) \<and>
        (\<forall>k < length (code_of fn b). is_phi fn b k \<longrightarrow> live_at fn (dst (code_at fn b k)) b 0)) \<and>
     (\<forall>k < length (code_of fn 0). \<not> is_phi fn 0 k)"

text \<open>A context whose registers are those of the allocator, in a frame of the caller.\<close>

definition emit_ctx_ok :: "emit_ctx \<Rightarrow> func \<Rightarrow> bool" where
  "emit_ctx_ok C fn \<longleftrightarrow> body_only C \<and> \<not> safe_div C \<and> (\<exists>spill seq0. allocate_registers spill 0 fn seq0 = Some (phys_of C))"

section \<open>The relation\<close>

definition consts_known :: "func \<Rightarrow> env \<Rightarrow> bool" where
  "consts_known fn \<rho> \<longleftrightarrow> (\<forall>r v a. \<rho> r = Some v \<longrightarrow> def_tab fn r = Some a \<longrightarrow> op (heap fn a) = OP_CONST \<longrightarrow> v = imm (heap fn a))"

definition agree :: "emit_ctx \<Rightarrow> func \<Rightarrow> env \<Rightarrow> machine \<Rightarrow> blockid \<Rightarrow> nat \<Rightarrow> bool" where
  "agree C fn \<rho> m b k \<longleftrightarrow> (\<forall>v. live_at fn v b k \<longrightarrow> \<rho> v = Some (place m (loc C v)))"

text \<open>\<open>k\<close> is the position in the code of the block; a finished run has the value it returns in \<open>RAX\<close>.\<close>

definition ret_value :: "emit_ctx \<Rightarrow> int64 \<Rightarrow> int64" where
  "ret_value C v = (if ret_size C = 4 then ucast (lower v) else v)"

fun matches :: "emit_ctx \<Rightarrow> func \<Rightarrow> config \<Rightarrow> x86 list \<times> machine \<Rightarrow> bool" where
  "matches C fn (At b as \<rho>) (rest, m) \<longleftrightarrow> b \<in> reached 0 fn \<and> consts_known fn \<rho> \<and>
     (\<exists>k tl. k \<le> length (code_of fn b) \<and> filter (\<lambda>a. op (heap fn a) \<noteq> OP_NOP) as = drop k (code_of fn b) \<and>
        rest = emit_instrs C fn b as @ tl \<and> agree C fn \<rho> m b k)"
| "matches C fn Halted (rest, m) \<longleftrightarrow> rest = [LABEL Func_end]"

lemma live_nonzero: "live_at fn v b k \<Longrightarrow> v \<noteq> 0"
  by (induction rule: live_at.induct) (auto simp: reads_def)

text \<open>Registers that are live when another is written keep their place.\<close>

lemma places_differ:
  assumes "emit_fn_ok fn" "emit_ctx_ok C fn" "b \<in> reached 0 fn" "defined_in fn b k x" "x \<noteq> v"
  shows "\<not> is_phi fn b k \<Longrightarrow> live_at fn v b (Suc k) \<Longrightarrow> loc C x \<noteq> loc C v"
    "is_phi fn b k \<Longrightarrow> live_at fn v b 0 \<Longrightarrow> loc C x \<noteq> loc C v"
proof -
  obtain spill seq0 where al: "allocate_registers spill 0 fn seq0 = Some (phys_of C)" using assms(2) by (auto simp: emit_ctx_ok_def)
  have ok: "alloc_fn_ok 0 fn" "repairs_suffice 0 fn" using assms(1) by (auto simp: emit_fn_ok_def)
  obtain F where F: "ir_asm_number_and_liveness fn (alloc_order 0 fn) seq0 = Some F"
    "phys_of C = ir_asm_register_allocate spill fn (def_seq F) (last_use F)" using al by (auto simp: allocate_registers_def)
  obtain N where n: "numbers 0 fn N F" by (rule numbers_exist [OF ok(1) F(1)])
  have p: "proper (def_seq F) (last_use F) UNIV (phys_of C)" unfolding F(2) by (rule register_allocate_proper(1))
  show "loc C x \<noteq> loc C v" if "\<not> is_phi fn b k" "live_at fn v b (Suc k)"
    by (rule location_differs [OF p body_overlap [OF ok n assms(3,4) that assms(5)] assms(5)])
  have "live_at fn x b 0" if "is_phi fn b k"
    using assms(1,3,4) that by (auto simp: emit_fn_ok_def defined_in_def)
  then show "loc C x \<noteq> loc C v" if "is_phi fn b k" "live_at fn v b 0"
    using that by (intro location_differs [OF p phi_overlap [OF ok n assms(3,4) that assms(5)] assms(5)]) auto
qed


section \<open>One step\<close>

lemma match_head:
  assumes "filter (\<lambda>a. op (heap fn a) \<noteq> OP_NOP) (a # as) = drop k (code_of fn b)" "op (heap fn a) \<noteq> OP_NOP"
  shows "k < length (code_of fn b)" "code_of fn b ! k = a" "filter (\<lambda>a. op (heap fn a) \<noteq> OP_NOP) as = drop (Suc k) (code_of fn b)"
    "a \<in> set (code_of fn b)" "a \<in> set (all_addrs fn)"
proof -
  have d: "drop k (code_of fn b) = a # filter (\<lambda>a. op (heap fn a) \<noteq> OP_NOP) as" using assms by simp
  then show k: "k < length (code_of fn b)" by (metis drop_all list.distinct(1) not_le)
  then have "drop k (code_of fn b) = code_of fn b ! k # drop (Suc k) (code_of fn b)" by (simp add: Cons_nth_drop_Suc)
  with d show c: "code_of fn b ! k = a" "filter (\<lambda>a. op (heap fn a) \<noteq> OP_NOP) as = drop (Suc k) (code_of fn b)" by auto
  with k show "a \<in> set (code_of fn b)" by auto
  then show "a \<in> set (all_addrs fn)" by (rule code_in_all)
qed

lemma consts_change:
  assumes "consts_known fn \<rho>" "table_ok fn" "ssa_unique fn"
    and "\<And>r. \<rho>' r \<noteq> \<rho> r \<Longrightarrow> \<exists>a \<in> set (all_addrs fn). dst (heap fn a) = r \<and> (op (heap fn a) = OP_CONST \<longrightarrow> \<rho>' r = Some (imm (heap fn a)))"
  shows "consts_known fn \<rho>'"
  unfolding consts_known_def
proof (intro allI impI)
  fix r v a assume r: "\<rho>' r = Some v" "def_tab fn r = Some a" "op (heap fn a) = OP_CONST"
  show "v = imm (heap fn a)"
  proof (cases "\<rho>' r = \<rho> r")
    case True
    with assms(1) r show ?thesis unfolding consts_known_def by metis
  next
    case False
    then obtain a' where a': "a' \<in> set (all_addrs fn)" "dst (heap fn a') = r" "op (heap fn a') = OP_CONST \<longrightarrow> \<rho>' r = Some (imm (heap fn a'))"
      using assms(4) by blast
    have "a \<in> set (all_addrs fn)" "dst (heap fn a) = r" "r \<noteq> 0" using assms(2) r(2) by (auto simp: table_ok_def)
    with a'(1,2) assms(3) have "a' = a" unfolding ssa_unique_def by metis
    with a'(3) r show ?thesis by simp
  qed
qed

lemma consts_set:
  assumes "consts_known fn \<rho>" "emit_fn_ok fn" "a \<in> set (all_addrs fn)" "op (heap fn a) = OP_CONST \<longrightarrow> w = imm (heap fn a)"
  shows "consts_known fn (set_reg (dst (heap fn a)) w \<rho>)"
proof (rule consts_change [OF assms(1)])
  show "table_ok fn" "ssa_unique fn" using assms(2) by (auto simp: emit_fn_ok_def alloc_fn_ok_def)
  fix r assume "set_reg (dst (heap fn a)) w \<rho> r \<noteq> \<rho> r"
  then show "\<exists>c \<in> set (all_addrs fn). dst (heap fn c) = r \<and> (op (heap fn c) = OP_CONST \<longrightarrow> set_reg (dst (heap fn a)) w \<rho> r = Some (imm (heap fn c)))"
    using assms(3,4) by (intro bexI [of _ a]) (auto simp: set_reg_def split: if_splits)
qed

text \<open>A value or an effect writes its place; the other live registers keep theirs.\<close>

lemma agree_write:
  assumes "emit_fn_ok fn" "emit_ctx_ok C fn" "b \<in> reached 0 fn" "agree C fn \<rho> m b k" "k < length (code_of fn b)"
    and i: "\<not> is_phi fn b k" "dst (code_at fn b k) \<noteq> 0 \<Longrightarrow> numbers_def (code_at fn b k)"
    and m': "place m' = (if dst (code_at fn b k) = 0 then place m else (place m)(loc C (dst (code_at fn b k)) := w))"
  shows "agree C fn (set_reg (dst (code_at fn b k)) w \<rho>) m' b (Suc k)"
  unfolding agree_def
proof (intro allI impI)
  fix v assume l: "live_at fn v b (Suc k)"
  let ?d = "dst (code_at fn b k)"
  have v0: "v \<noteq> 0" by (rule live_nonzero [OF l])
  show "set_reg ?d w \<rho> v = Some (place m' (loc C v))"
  proof (cases "v = ?d")
    case True
    then show ?thesis using v0 m' by (simp add: set_reg_def)
  next
    case False
    then have "live_at fn v b k" using live_at.pass [OF assms(5) _ l] by simp
    then have old: "\<rho> v = Some (place m (loc C v))" using assms(4) by (simp add: agree_def)
    have "loc C ?d \<noteq> loc C v" if "?d \<noteq> 0"
      by (rule places_differ(1) [OF assms(1-3) _ False [symmetric] i(1) l]) (use i(2) that assms(5) in \<open>simp add: defined_in_def\<close>)
    with old False m' show ?thesis by (auto simp: set_reg_def)
  qed
qed

lemma sim_pure:
  assumes ok: "emit_fn_ok fn" "emit_ctx_ok C fn" and m: "matches C fn (At b (a # as) \<rho>) (rest, m)"
    and s: "is_pure (op (heap fn a))" "eval (heap fn a) \<rho> = Some v"
  shows "\<exists>x. xrun P (rest, m) [] x \<and> matches C fn (At b as (set_reg (dst (heap fn a)) v \<rho>)) x"
proof -
  let ?i = "heap fn a"
  have nn: "op ?i \<noteq> OP_NOP" "op ?i \<noteq> OP_PHI" "op ?i \<noteq> OP_STORE" "op ?i \<noteq> OP_BR" "op ?i \<noteq> OP_CONDBR" using s(1) by (auto simp: is_pure_def is_binop_def)
  obtain k tl where k: "filter (\<lambda>a. op (heap fn a) \<noteq> OP_NOP) (a # as) = drop k (code_of fn b)" "rest = emit_instrs C fn b (a # as) @ tl"
    "agree C fn \<rho> m b k" and b: "b \<in> reached 0 fn" "consts_known fn \<rho>" using m by auto
  note h = match_head [OF k(1) nn(1)]
  have i: "value_ok ?i" "dst ?i \<noteq> 0" "set (opnds ?i) \<subseteq> set (reads ?i)" using ok(1) b(1) h(4) s(1) by (auto simp: emit_fn_ok_def emit_instr_ok_def)
  have l: "\<rho> r = Some (place m (loc C r))" if "r \<in> set (opnds ?i)" for r
    using live_at.used [of k fn b r] h(1,2) nn(2) i(3) that k(3) by (auto simp: agree_def)
  then have "value_of ?i (\<lambda>r. place m (loc C r)) = Some v"
    using s(2) value_of_cong [of ?i "\<lambda>r. the (\<rho> r)" "\<lambda>r. place m (loc C r)"] by (auto simp: eval_def split: if_splits)
  moreover have "place m (loc C (src2 ?i)) = n" if sh: "op ?i \<in> {OP_SHL, OP_SHR}" and sc: "shift_count fn ?i = Some n" for n
  proof -
    obtain c where c: "def_tab fn (src2 ?i) = Some c" "op (heap fn c) = OP_CONST" "n = imm (heap fn c)"
      using sc by (auto simp: shift_count_def split: if_splits option.splits)
    have "src2 ?i \<in> set (opnds ?i)" using sh by (auto simp: opnds_def)
    with l c b(2) show ?thesis unfolding consts_known_def by blast
  qed
  ultimately have "computes (ir_asm_lower_insn C fn b a) m (loc C (dst ?i)) v"
    using lower_insn_computes [OF i(1) _ refl] ok(2) by (simp add: emit_ctx_ok_def)
  then obtain m' where m': "exec (ir_asm_lower_insn C fn b a) m = Some m'" "place m' = (place m)(loc C (dst ?i) := v)"
    by (auto simp: computes_def)
  have "rest = ir_asm_lower_insn C fn b a @ (emit_instrs C fn b as @ tl)" using k(2) nn(1) by (simp add: emit_instrs_def)
  then have "xrun P (rest, m) [] (emit_instrs C fn b as @ tl, m')" using exec_xrun [OF m'(1)] by simp
  moreover have "agree C fn (set_reg (dst ?i) v \<rho>) m' b (Suc k)"
    using agree_write [OF ok b(1) k(3) h(1), of m' v] h(2) nn i(2) m'(2) by (simp add: is_phi_def numbers_def_def)
  moreover have "consts_known fn (set_reg (dst ?i) v \<rho>)"
    by (rule consts_set [OF b(2) ok(1) h(5)]) (use s(2) in \<open>auto simp: eval_def value_of_def split: if_splits\<close>)
  ultimately show ?thesis using h(1,3) b(1) by (intro exI [of _ "(emit_instrs C fn b as @ tl, m')"]) (auto intro!: exI [of _ "Suc k"])
qed


lemma effect_operands:
  assumes "read_all \<rho> rs = Some vs" "\<And>r. r \<in> set rs \<Longrightarrow> r \<noteq> 0 \<Longrightarrow> \<rho> r = Some (place m (loc C r))"
  shows "vs = List.map (place_or_0 m) (List.map (\<lambda>r. if r = 0 then None else Some (loc C r)) rs)"
  using assms
proof (induction rs arbitrary: vs)
  case (Cons r rs)
  obtain v ws where v: "(if r = 0 then Some 0 else \<rho> r) = Some v" "read_all \<rho> rs = Some ws" "vs = v # ws"
    using Cons.prems(1) by (auto split: option.splits)
  then have "ws = List.map (place_or_0 m) (List.map (\<lambda>r. if r = 0 then None else Some (loc C r)) rs)" using Cons by simp
  moreover have "v = place_or_0 m (if r = 0 then None else Some (loc C r))"
    using v(1) Cons.prems(2) [of r] by (auto simp: place_or_0_def split: if_splits)
  ultimately show ?case using v(3) by simp
qed simp

lemma lower_effect_insn:
  assumes "is_effect (op (heap fn a))" "emit_instr_ok fn b (heap fn a)"
  shows "ir_asm_lower_insn C fn b a = lower_effect C (heap fn a)"
proof -
  have "op (heap fn a) \<noteq> OP_GEP" "op (heap fn a) \<noteq> OP_UNDEF" "op (heap fn a) = OP_STORE \<Longrightarrow> \<not> n_src (heap fn a) < 2"
    using assms by (auto simp: emit_instr_ok_def)
  with assms(1) show ?thesis
    unfolding is_effect_def by (elim insertE emptyE) (simp_all add: ir_asm_lower_insn_def Let_def)
qed

lemma sim_effect:
  assumes ok: "emit_fn_ok fn" "emit_ctx_ok C fn" and m: "matches C fn (At b (a # as) \<rho>) (rest, m)"
    and s: "is_effect (op (heap fn a))" "read_all \<rho> (eff_regs (heap fn a)) = Some vs"
  shows "\<exists>x. xrun P (rest, m) [Eff (op (heap fn a)) (call_name (heap fn a)) (imm (heap fn a)) vs w] x \<and>
    matches C fn (At b as (set_reg (dst (heap fn a)) w \<rho>)) x"
proof -
  let ?i = "heap fn a"
  have nn: "op ?i \<noteq> OP_NOP" "op ?i \<noteq> OP_PHI" "op ?i \<noteq> OP_BR" "op ?i \<noteq> OP_CONDBR" "op ?i \<noteq> OP_CONST" using s(1) by (auto simp: is_effect_def)
  obtain k tl where k: "filter (\<lambda>a. op (heap fn a) \<noteq> OP_NOP) (a # as) = drop k (code_of fn b)" "rest = emit_instrs C fn b (a # as) @ tl"
    "agree C fn \<rho> m b k" and b: "b \<in> reached 0 fn" "consts_known fn \<rho>" using m by auto
  note h = match_head [OF k(1) nn(1)]
  have i: "emit_instr_ok fn b ?i" using ok(1) b(1) h(4) by (auto simp: emit_fn_ok_def)
  then have st: "op ?i = OP_STORE \<Longrightarrow> dst ?i = 0" "op ?i \<noteq> OP_CALL \<Longrightarrow> call_args ?i = []" using s(1) by (auto simp: emit_instr_ok_def)
  have rd: "\<rho> r = Some (place m (loc C r))" if "r \<in> set (eff_regs ?i)" "r \<noteq> 0" for r
  proof -
    have "r \<in> set (reads ?i)" using that st(2) nn by (cases "op ?i = OP_CALL") (auto simp: eff_regs_def reads_def)
    then show ?thesis using live_at.used [of k fn b r] h(1,2) nn(2) k(3) by (auto simp: agree_def)
  qed
  have vs: "vs = List.map (place_or_0 m) (List.map (\<lambda>r. if r = 0 then None else Some (loc C r)) (eff_regs ?i))"
    by (rule effect_operands [OF s(2) rd])
  define m' where "m' = (case (if dst ?i = 0 then None else Some (loc C (dst ?i))) of None \<Rightarrow> m\<lparr>scr := scr m, flags := None\<rparr>
    | Some l \<Rightarrow> put (Place l) w (m\<lparr>scr := scr m, flags := None\<rparr>))"
  have "rest = lower_effect C ?i @ (emit_instrs C fn b as @ tl)" using k(2) nn(1) lower_effect_insn [OF s(1) i] by (simp add: emit_instrs_def)
  then have "xstep P (rest, m) (Some (Eff (op ?i) (call_name ?i) (imm ?i) vs w)) (emit_instrs C fn b as @ tl, m')"
    unfolding m'_def by (simp only: lower_effect_def append_Cons append_Nil vs) (rule xstep.effect)
  from xrun_Cons [OF this xrun_Nil] have r: "xrun P (rest, m) [Eff (op ?i) (call_name ?i) (imm ?i) vs w] (emit_instrs C fn b as @ tl, m')"
    by (simp add: ev_def)
  have "agree C fn (set_reg (dst ?i) w \<rho>) m' b (Suc k)"
    using agree_write [OF ok b(1) k(3) h(1), of m' w] h(2) nn st(1)
    by (cases "op ?i = OP_STORE") (auto simp: is_phi_def numbers_def_def m'_def)
  moreover have "consts_known fn (set_reg (dst ?i) w \<rho>)" by (rule consts_set [OF b(2) ok(1) h(5)]) (use nn(5) in simp)
  ultimately show ?thesis using r h(1,3) b(1) by (intro exI [of _ "(emit_instrs C fn b as @ tl, m')"]) (auto intro!: exI [of _ "Suc k"])
qed

section \<open>Edges\<close>

lemma phi_val_source: "phi_val \<rho> p i = (case phi_source p i of None \<Rightarrow> None | Some r \<Rightarrow> \<rho> r)"
proof -
  have "map_of (List.map (\<lambda>(r, b). (b, r)) xs) p = map_option fst (find (\<lambda>(r, q). q = p) xs)" for xs :: "(regid \<times> blockid) list"
    by (induction xs) auto
  then show ?thesis by (simp add: phi_val_def phi_source_def)
qed

lemma phi_source_in: "phi_source p i = Some r \<Longrightarrow> (r, p) \<in> set (phi i)"
  by (auto simp: phi_source_def find_Some_iff) (metis nth_mem)

lemma run_phis_vals:
  assumes "run_phis h \<rho> p as \<rho>0 = Some \<rho>'" "distinct as"
    and "\<And>a b. a \<in> set as \<Longrightarrow> b \<in> set as \<Longrightarrow> op (h a) = OP_PHI \<Longrightarrow> op (h b) = OP_PHI \<Longrightarrow> a \<noteq> b \<Longrightarrow> dst (h a) \<noteq> dst (h b)"
    and "\<And>a. a \<in> set as \<Longrightarrow> op (h a) = OP_PHI \<Longrightarrow> dst (h a) \<noteq> 0"
  shows "(\<forall>a \<in> set as. op (h a) = OP_PHI \<longrightarrow> phi_val \<rho> p (h a) \<noteq> None \<and> \<rho>' (dst (h a)) = phi_val \<rho> p (h a)) \<and>
    (\<forall>r. (\<forall>a \<in> set as. op (h a) = OP_PHI \<longrightarrow> dst (h a) \<noteq> r) \<longrightarrow> \<rho>' r = \<rho>0 r)"
  using assms
proof (induction as arbitrary: \<rho>0)
  case (Cons a as)
  show ?case
  proof (cases "op (h a) = OP_PHI")
    case True
    then obtain v where v: "phi_val \<rho> p (h a) = Some v" "run_phis h \<rho> p as (set_reg (dst (h a)) v \<rho>0) = Some \<rho>'"
      using Cons.prems(1) by (auto split: option.splits)
    have IH: "(\<forall>c \<in> set as. op (h c) = OP_PHI \<longrightarrow> phi_val \<rho> p (h c) \<noteq> None \<and> \<rho>' (dst (h c)) = phi_val \<rho> p (h c)) \<and>
        (\<forall>r. (\<forall>c \<in> set as. op (h c) = OP_PHI \<longrightarrow> dst (h c) \<noteq> r) \<longrightarrow> \<rho>' r = set_reg (dst (h a)) v \<rho>0 r)"
      using Cons.IH [OF v(2)] Cons.prems(2,3,4) by simp
    have "\<forall>c \<in> set as. op (h c) = OP_PHI \<longrightarrow> dst (h c) \<noteq> dst (h a)"
      using Cons.prems(2,3) True by (metis distinct.simps(2) list.set_intros)
    then have "\<rho>' (dst (h a)) = Some v" using IH Cons.prems(4) [of a] True by (simp add: set_reg_def)
    then show ?thesis using IH v(1) True by (auto simp: set_reg_def)
  next
    case False
    then have "run_phis h \<rho> p as \<rho>0 = Some \<rho>'" using Cons.prems(1) by simp
    from Cons.IH [OF this] Cons.prems(2,3,4) False show ?thesis by simp
  qed
qed simp

lemma edge_phis_in: "(d, s) \<in> set (edge_phis fn b t) \<longleftrightarrow>
    (\<exists>a \<in> set (blk_instrs (blk_at fn t)). op (heap fn a) = OP_PHI \<and> dst (heap fn a) = d \<and> phi_source b (heap fn a) = Some s)"
  by (force simp: edge_phis_def List.map_filter_def Let_def split: if_splits)

lemma distinct_map_filter:
  assumes "distinct as" "\<And>a b x y. a \<in> set as \<Longrightarrow> b \<in> set as \<Longrightarrow> f a = Some x \<Longrightarrow> f b = Some y \<Longrightarrow> a \<noteq> b \<Longrightarrow> g x \<noteq> g y"
  shows "distinct (List.map g (List.map_filter f as))"
  using assms
proof (induction as)
  case (Cons a as)
  have IH: "distinct (List.map g (List.map_filter f as))" using Cons by (metis distinct.simps(2) list.set_intros(2))
  show ?case
  proof (cases "f a")
    case (Some x)
    have "g x \<notin> g ` set (List.map_filter f as)"
    proof
      assume "g x \<in> g ` set (List.map_filter f as)"
      then obtain c y where "c \<in> set as" "f c = Some y" "g x = g y" by (auto simp: List.map_filter_def)
      with Cons.prems Some show False by (metis distinct.simps(2) list.set_intros)
    qed
    with IH Some show ?thesis by (simp add: List.map_filter_simps)
  qed (use IH in \<open>simp add: List.map_filter_simps\<close>)
qed (simp add: List.map_filter_simps)

lemma phi_in_code:
  assumes "a \<in> set (blk_instrs (blk_at fn t))" "op (heap fn a) = OP_PHI"
  obtains k where "k < length (code_of fn t)" "code_of fn t ! k = a" "is_phi fn t k"
proof -
  have "a \<in> set (code_of fn t)" using assms by (simp add: code_of_def)
  then obtain k where "k < length (code_of fn t)" "code_of fn t ! k = a" by (auto simp: in_set_conv_nth)
  with assms(2) that show thesis by (simp add: is_phi_def)
qed

text \<open>The results of the phi nodes of a block have places of their own.\<close>

lemma phi_places:
  assumes ok: "emit_fn_ok fn" "emit_ctx_ok C fn" and t: "t \<in> reached 0 fn"
    and a: "a \<in> set (blk_instrs (blk_at fn t))" "op (heap fn a) = OP_PHI"
  shows "dst (heap fn a) \<noteq> 0" "v \<noteq> dst (heap fn a) \<Longrightarrow> live_at fn v t 0 \<Longrightarrow> loc C (dst (heap fn a)) \<noteq> loc C v"
    "live_at fn (dst (heap fn a)) t 0"
proof -
  obtain k where k: "k < length (code_of fn t)" "code_of fn t ! k = a" "is_phi fn t k" by (rule phi_in_code [OF a])
  have "alloc_instr_ok (heap fn a)" using ok(1) t k(1,2) by (auto simp: emit_fn_ok_def alloc_fn_ok_def alloc_block_ok_def)
  then show d: "dst (heap fn a) \<noteq> 0" using a(2) by (simp add: alloc_instr_ok_def)
  then have "defined_in fn t k (dst (heap fn a))" using k a(2) by (simp add: defined_in_def numbers_def_def)
  then show "v \<noteq> dst (heap fn a) \<Longrightarrow> live_at fn v t 0 \<Longrightarrow> loc C (dst (heap fn a)) \<noteq> loc C v"
    using places_differ(2) [OF ok t _ _ k(3)] by metis
  show "live_at fn (dst (heap fn a)) t 0" using ok(1) t k by (auto simp: emit_fn_ok_def)
qed


lemma live_before_phis:
  assumes "live_at fn v b k" "k \<le> length (code_of fn b)" "\<forall>j < k. is_phi fn b j"
  shows "live_at fn v b 0"
  using assms
proof (induction k rule: nat_induct)
  case (Suc k)
  have "live_at fn v b k" by (rule live_at.pass [OF _ _ Suc.prems(1)]) (use Suc.prems(2,3) in \<open>auto simp: is_phi_def\<close>)
  with Suc show ?case by simp
qed simp

text \<open>The code of a block after its phi nodes.\<close>

lemma first_elements:
  "\<forall>k < length xs. \<forall>j < k. P (xs ! k) \<longrightarrow> P (xs ! j) \<Longrightarrow>
    \<exists>k \<le> length xs. (\<forall>j < k. P (xs ! j)) \<and> filter (\<lambda>x. \<not> P x) xs = drop k xs"
proof (induction xs)
  case (Cons x xs)
  show ?case
  proof (cases "P x")
    case True
    have "\<forall>k < length xs. \<forall>j < k. P (xs ! k) \<longrightarrow> P (xs ! j)"
    proof (intro allI impI)
      fix k j assume "k < length xs" "j < k" "P (xs ! k)"
      with Cons.prems [rule_format, of "Suc k" "Suc j"] show "P (xs ! j)" by simp
    qed
    from Cons.IH [OF this] obtain k where "k \<le> length xs" "\<forall>j < k. P (xs ! j)" "filter (\<lambda>x. \<not> P x) xs = drop k xs" by blast
    with True show ?thesis by (intro exI [of _ "Suc k"]) (auto simp: less_Suc_eq_0_disj)
  next
    case False
    have "\<not> P y" if y: "y \<in> set xs" for y
    proof
      assume "P y"
      obtain k where "k < length xs" "xs ! k = y" using y by (metis in_set_conv_nth)
      with Cons.prems [rule_format, of "Suc k" 0] \<open>P y\<close> False show False by simp
    qed
    with False show ?thesis by (intro exI [of _ 0]) (auto simp: filter_id_conv)
  qed
qed simp

lemma body_position:
  assumes "alloc_block_ok fn t" "blk_at fn t = Some blk"
  obtains k where "k \<le> length (code_of fn t)" "\<forall>j < k. is_phi fn t j"
    "filter (\<lambda>a. op (heap fn a) \<noteq> OP_NOP) (body_addrs fn blk) = drop k (code_of fn t)"
proof -
  have "\<forall>k < length (code_of fn t). \<forall>j < k. op (code_at fn t k) = OP_PHI \<longrightarrow> op (code_at fn t j) = OP_PHI"
    using assms(1) unfolding alloc_block_ok_def by blast
  from first_elements [OF this] obtain k where k: "k \<le> length (code_of fn t)" "\<forall>j < k. op (code_at fn t j) = OP_PHI"
    "filter (\<lambda>a. op (heap fn a) \<noteq> OP_PHI) (code_of fn t) = drop k (code_of fn t)" by blast
  have "filter (\<lambda>a. op (heap fn a) \<noteq> OP_NOP) (body_addrs fn blk) = filter (\<lambda>a. op (heap fn a) \<noteq> OP_PHI) (code_of fn t)"
    using assms(2) by (simp add: body_addrs_def code_of_def blk_instrs_def conj_commute)
  with k show thesis by (intro that [of k]) (simp_all add: is_phi_def)
qed

lemma jump_to_block:
  assumes ok: "emit_fn_ok fn" "emit_ctx_ok C fn" "distinct order" and t: "t \<in> reached 0 fn" "blk_at fn t = Some blk"
  obtains tl where "xrun (body_code C fn order) (target (body_code C fn order) (Block_label t), m) [] (emit_instrs C fn t (body_addrs fn blk) @ tl, m)"
proof -
  have C: "body_only C" "no_probe fn t" using ok t(1) by (auto simp: emit_ctx_ok_def emit_fn_ok_def)
  obtain tl where tl: "target (body_code C fn order) (Block_label t) = LABEL (Block_label t) # emit_instrs C fn t (instrs blk) @ tl"
    by (rule target_block [OF C(1) ok(3) t(2) C(2)])
  have "exec [LABEL (Block_label t)] m = Some m" by simp
  from exec_xrun [OF this, of "body_code C fn order" "emit_instrs C fn t (instrs blk) @ tl"] show thesis
    by (intro that [of tl]) (simp add: tl body_addrs_def emit_instrs_phis)
qed

text \<open>What holds of a block the control enters.\<close>

lemma entered_block:
  assumes ok: "emit_fn_ok fn" "emit_ctx_ok C fn" and t: "t \<in> reached 0 fn" "blk_at fn t = Some blk"
  shows "blk_instrs (blk_at fn t) = instrs blk" "distinct (instrs blk)" "x \<in> set (instrs blk) \<Longrightarrow> x \<in> set (all_addrs fn)"
    "x \<in> set (instrs blk) \<Longrightarrow> y \<in> set (instrs blk) \<Longrightarrow> op (heap fn x) = OP_PHI \<Longrightarrow> op (heap fn y) = OP_PHI \<Longrightarrow> x \<noteq> y \<Longrightarrow>
      dst (heap fn x) \<noteq> dst (heap fn y)"
    "distinct (List.map (\<lambda>(d, s). loc C d) (edge_phis fn b t))"
proof -
  show bi: "blk_instrs (blk_at fn t) = instrs blk" using t(2) by (simp add: blk_instrs_def)
  have g: "heap_ok fn" "ssa_unique fn" using ok(1) by (auto simp: emit_fn_ok_def alloc_fn_ok_def)
  show di: "distinct (instrs blk)" using g(1) t(2) unfolding heap_ok_def by (blast intro: distinct_blk)
  show all: "x \<in> set (all_addrs fn)" if "x \<in> set (instrs blk)" for x using that t(2) by (auto simp: set_all_addrs)
  note pl = phi_places [OF ok t(1), unfolded bi]
  show dd: "dst (heap fn x) \<noteq> dst (heap fn y)"
    if "x \<in> set (instrs blk)" "y \<in> set (instrs blk)" "op (heap fn x) = OP_PHI" "op (heap fn y) = OP_PHI" "x \<noteq> y" for x y
    using g(2) all [OF that(1)] all [OF that(2)] pl(1) [OF that(1,3)] that(5) unfolding ssa_unique_def by blast
  show "distinct (List.map (\<lambda>(d, s). loc C d) (edge_phis fn b t))"
    unfolding edge_phis_def bi
  proof (rule distinct_map_filter [OF di])
    fix x y p q assume xy: "x \<in> set (instrs blk)" "y \<in> set (instrs blk)" "x \<noteq> y"
      "(let i = heap fn x in if op i = OP_PHI then map_option (Pair (dst i)) (phi_source b i) else None) = Some p"
      "(let i = heap fn y in if op i = OP_PHI then map_option (Pair (dst i)) (phi_source b i) else None) = Some q"
    then have ph: "op (heap fn x) = OP_PHI" "op (heap fn y) = OP_PHI" "fst p = dst (heap fn x)" "fst q = dst (heap fn y)"
      by (auto simp: Let_def split: if_splits)
    have "loc C (dst (heap fn x)) \<noteq> loc C (dst (heap fn y))"
      using pl(2) [OF xy(1) ph(1)] pl(3) [OF xy(2) ph(2)] dd [OF xy(1,2) ph(1,2) xy(3)] by metis
    with ph show "(case p of (d, s) \<Rightarrow> loc C d) \<noteq> (case q of (d, s) \<Rightarrow> loc C d)" by (simp add: split_def)
  qed
qed

text \<open>The copies on an edge make the registers at its target agree with the values the phi nodes get.\<close>

lemma agree_enter:
  assumes ok: "emit_fn_ok fn" "emit_ctx_ok C fn" and t: "t \<in> set (succs_at fn b)" "t \<in> reached 0 fn" "blk_at fn t = Some blk"
    and a: "agree C fn \<rho> m b (length (code_of fn b))"
    and \<rho>': "\<forall>x \<in> set (instrs blk). op (heap fn x) = OP_PHI \<longrightarrow> phi_val \<rho> b (heap fn x) \<noteq> None \<and> \<rho>' (dst (heap fn x)) = phi_val \<rho> b (heap fn x)"
      "\<forall>r. (\<forall>x \<in> set (instrs blk). op (heap fn x) = OP_PHI \<longrightarrow> dst (heap fn x) \<noteq> r) \<longrightarrow> \<rho>' r = \<rho> r"
    and m': "\<forall>(d, s) \<in> set (edge_phis fn b t). place m' (loc C d) = place m (loc C s)"
      "\<forall>l. l \<notin> (\<lambda>(d, s). loc C d) ` set (edge_phis fn b t) \<longrightarrow> place m' l = place m l"
    and l: "live_at fn v t 0"
  shows "\<rho>' v = Some (place m' (loc C v))"
proof (cases "\<exists>x \<in> set (instrs blk). op (heap fn x) = OP_PHI \<and> dst (heap fn x) = v")
  case True
  note bi = entered_block(1) [OF ok t(2,3)]
  obtain x where x: "x \<in> set (instrs blk)" "op (heap fn x) = OP_PHI" "dst (heap fn x) = v" using True by blast
  have "phi_val \<rho> b (heap fn x) \<noteq> None" "\<rho>' v = phi_val \<rho> b (heap fn x)" using \<rho>'(1) x by blast+
  then obtain s where s: "phi_source b (heap fn x) = Some s" "\<rho>' v = \<rho> s"
    by (cases "phi_source b (heap fn x)") (simp_all add: phi_val_source)
  obtain q where q: "q < length (code_of fn t)" "code_of fn t ! q = x" "is_phi fn t q" by (rule phi_in_code [of x fn t]) (use x bi in auto)
  have "emit_instr_ok fn t (heap fn x)" using ok(1) t(2) q(1,2) unfolding emit_fn_ok_def by (metis nth_mem)
  then have "0 \<notin> fst ` set (phi (heap fn x))" using x(2) by (simp add: emit_instr_ok_def)
  then have "s \<noteq> 0" using phi_source_in [OF s(1)] by force
  then have "live_at fn s b (length (code_of fn b))"
    using live_at.phi_source [OF t(1) q(1), of s] q(2) x(2) phi_source_in [OF s(1)] by simp
  then have "\<rho> s = Some (place m (loc C s))" using a by (simp add: agree_def)
  moreover have "(v, s) \<in> set (edge_phis fn b t)" using x s(1) by (auto simp: edge_phis_in bi)
  then have "place m' (loc C v) = place m (loc C s)" using m'(1) by blast
  ultimately show ?thesis using s(2) by simp
next
  case False
  note bi = entered_block(1) [OF ok t(2,3)]
  have r: "\<rho>' v = \<rho> v" using False \<rho>'(2) by blast
  have "live_at fn v b (length (code_of fn b))"
    by (rule live_at.edge [OF t(1) _ l]) (use False code_of_sub [of fn t] bi in auto)
  then have "\<rho> v = Some (place m (loc C v))" using a by (simp add: agree_def)
  moreover have "loc C v \<notin> (\<lambda>(d, s). loc C d) ` set (edge_phis fn b t)"
  proof
    assume "loc C v \<in> (\<lambda>(d, s). loc C d) ` set (edge_phis fn b t)"
    then obtain x where "x \<in> set (instrs blk)" "op (heap fn x) = OP_PHI" "loc C v = loc C (dst (heap fn x))"
      by (auto simp: edge_phis_in bi)
    with phi_places(2) [OF ok t(2), unfolded bi, of x v] l False show False by auto
  qed
  ultimately show ?thesis using m'(2) r by simp
qed

lemma sim_enter:
  assumes ok: "emit_fn_ok fn" "emit_ctx_ok C fn" "distinct order" and b: "b \<in> reached 0 fn" "t \<in> set (succs_at fn b)"
    and a: "agree C fn \<rho> m b (length (code_of fn b))" "consts_known fn \<rho>" and e: "enter fn b t \<rho> = Some c"
  shows "\<exists>x. xrun (body_code C fn order) (ir_asm_emit_phi_edge_copy C fn b t @ JMP (Block_label t) # rest, m) [] x \<and> matches C fn c x"
proof -
  let ?P = "body_code C fn order"
  obtain blk \<rho>' where blk: "blk_at fn t = Some blk" "run_phis (heap fn) \<rho> b (instrs blk) \<rho> = Some \<rho>'" "c = At t (body_addrs fn blk) \<rho>'"
    using e by (auto simp: enter_def split: option.splits)
  have g: "edges_ok fn" "ssa_unique fn" "table_ok fn" using ok(1) by (auto simp: emit_fn_ok_def alloc_fn_ok_def)
  have t: "t \<in> reached 0 fn" using b succs_edge [OF g(1) b(2)] by (auto intro: rtrancl_into_rtrancl)
  note E = entered_block [OF ok(1,2) t blk(1)]
  note R = run_phis_vals [OF blk(2) E(2,4) phi_places(1) [OF ok(1,2) t, unfolded E(1)]]
  obtain m' where m': "exec (ir_asm_emit_phi_edge_copy C fn b t) m = Some m'"
    "\<forall>(d, s) \<in> set (edge_phis fn b t). place m' (loc C d) = place m (loc C s)"
    "\<forall>l. l \<notin> (\<lambda>(d, s). loc C d) ` set (edge_phis fn b t) \<longrightarrow> place m' l = place m l"
    using edge_copy_exec [OF E(5), of b m] by blast
  obtain rest' where j: "xrun ?P (target ?P (Block_label t), m') [] (emit_instrs C fn t (body_addrs fn blk) @ rest', m')"
    by (rule jump_to_block [OF ok t blk(1)])
  have bo: "alloc_block_ok fn t" using ok(1) t by (auto simp: emit_fn_ok_def alloc_fn_ok_def)
  obtain k where k: "k \<le> length (code_of fn t)" "\<forall>j < k. is_phi fn t j"
    "filter (\<lambda>a. op (heap fn a) \<noteq> OP_NOP) (body_addrs fn blk) = drop k (code_of fn t)" by (rule body_position [OF bo blk(1)])
  have "agree C fn \<rho>' m' t k"
    unfolding agree_def
    using agree_enter [OF ok(1,2) b(2) t blk(1) a(1) R [THEN conjunct1] R [THEN conjunct2] m'(2,3)] live_before_phis k(1,2) by blast
  moreover have "consts_known fn \<rho>'"
  proof (rule consts_change [OF a(2) g(3,2)])
    fix r assume "\<rho>' r \<noteq> \<rho> r"
    with R [THEN conjunct2] obtain x where "x \<in> set (instrs blk)" "op (heap fn x) = OP_PHI" "dst (heap fn x) = r" by blast
    then show "\<exists>a \<in> set (all_addrs fn). dst (heap fn a) = r \<and> (op (heap fn a) = OP_CONST \<longrightarrow> \<rho>' r = Some (imm (heap fn a)))"
      using E(3) by (intro bexI [of _ x]) auto
  qed
  ultimately have mt: "matches C fn c (emit_instrs C fn t (body_addrs fn blk) @ rest', m')" using t k(1,3) blk(3) by auto
  have "xrun ?P (JMP (Block_label t) # rest, m') (ev None @ []) (emit_instrs C fn t (body_addrs fn blk) @ rest', m')"
    by (rule xrun_Cons [OF xstep.jump j])
  then have "xrun ?P (ir_asm_emit_phi_edge_copy C fn b t @ JMP (Block_label t) # rest, m) ([] @ (ev None @ []))
      (emit_instrs C fn t (body_addrs fn blk) @ rest', m')" by (rule xrun_append [OF exec_xrun [OF m'(1)]])
  then show ?thesis using mt by (intro exI conjI) (simp_all only: ev_def option.case append_Nil)
qed


section \<open>Ends of blocks\<close>

lemma agree_end:
  assumes "emit_fn_ok fn" "b \<in> reached 0 fn" "k < length (code_of fn b)" "is_end (op (code_at fn b k))" "agree C fn \<rho> m b k"
  shows "agree C fn \<rho> m b (length (code_of fn b))"
proof -
  have k: "Suc k = length (code_of fn b)" "dst (code_at fn b k) = 0"
    using assms(1-4) by (auto simp: emit_fn_ok_def emit_instr_ok_def)
  have "live_at fn v b k" if "live_at fn v b (Suc k)" for v
    by (rule live_at.pass [OF assms(3) _ that]) (use k(2) live_nonzero [OF that] in simp)
  with assms(5) k(1) show ?thesis by (auto simp: agree_def)
qed

lemma sim_br:
  assumes ok: "emit_fn_ok fn" "emit_ctx_ok C fn" "distinct order" and m: "matches C fn (At b (a # as) \<rho>) (rest, m)"
    and s: "op (heap fn a) = OP_BR" "enter fn b (src1 (heap fn a)) \<rho> = Some c"
  shows "\<exists>x. xrun (body_code C fn order) (rest, m) [] x \<and> matches C fn c x"
proof -
  let ?i = "heap fn a"
  obtain k r where k: "filter (\<lambda>a. op (heap fn a) \<noteq> OP_NOP) (a # as) = drop k (code_of fn b)" "rest = emit_instrs C fn b (a # as) @ r"
    "agree C fn \<rho> m b k" and b: "b \<in> reached 0 fn" "consts_known fn \<rho>" using m by auto
  note h = match_head [OF k(1)]
  have nn: "op ?i \<noteq> OP_NOP" using s(1) by simp
  have i: "emit_instr_ok fn b ?i" using ok(1) b(1) h(4) [OF nn] by (auto simp: emit_fn_ok_def)
  then have t: "1 \<le> n_src ?i" "src1 ?i \<in> set (succs_at fn b)" using s(1) by (simp_all add: emit_instr_ok_def)
  have "rest = ir_asm_emit_phi_edge_copy C fn b (src1 ?i) @ JMP (Block_label (src1 ?i)) # (emit_instrs C fn b as @ r)"
    using k(2) s(1) t(1) by (simp add: emit_instrs_def ir_asm_lower_insn_def Let_def)
  moreover have "agree C fn \<rho> m b (length (code_of fn b))"
    by (rule agree_end [OF ok(1) b(1) h(1) [OF nn] _ k(3)]) (use h(2) [OF nn] s(1) in \<open>simp add: is_end_def\<close>)
  ultimately show ?thesis using sim_enter [OF ok b(1) t(2) _ b(2) s(2)] by simp
qed

lemma target_false:
  assumes ok: "emit_fn_ok fn" "emit_ctx_ok C fn" "distinct order" and b: "b \<in> reached 0 fn" and k: "k < length (code_of fn b)"
    "op (code_at fn b k) = OP_CONDBR"
  obtains rest where "target (body_code C fn order) (False_label b) =
    LABEL (False_label b) # ir_asm_emit_phi_edge_copy C fn b (src (code_at fn b k) 2) @ JMP (Block_label (src (code_at fn b k) 2)) # rest"
proof -
  let ?i = "code_at fn b k" and ?F = "False_label b"
  have C: "body_only C" "no_probe fn b" using ok b by (auto simp: emit_ctx_ok_def emit_fn_ok_def)
  obtain blk where blk: "blk_at fn b = Some blk" using k(1) by (cases "blk_at fn b") (simp_all add: code_of_def blk_instrs_def)
  have n: "3 \<le> n_src ?i" using ok(1) b k by (auto simp: emit_fn_ok_def emit_instr_ok_def)
  have first: "op (heap fn a) \<noteq> OP_CONDBR" if a: "a \<in> set (take k (code_of fn b))" for a
  proof
    assume c: "op (heap fn a) = OP_CONDBR"
    obtain j where j: "j < k" "code_of fn b ! j = a" using a by (auto simp: in_set_conv_nth)
    with c k(1) have "j < length (code_of fn b)" "is_end (op (code_at fn b j))" by (simp_all add: is_end_def)
    then have "Suc j = length (code_of fn b)" using ok(1) b by (auto simp: emit_fn_ok_def)
    with j(1) k(1) show False by simp
  qed
  obtain P1 P2 where P: "body_code C fn order = P1 @ block_code C fn b @ P2" "LABEL ?F \<notin> set P1"
    by (rule body_split [OF C(1) ok(3), of b fn]) (use blk blk_at_Some_lt in auto)
  have "code_of fn b = take k (code_of fn b) @ code_of fn b ! k # drop (Suc k) (code_of fn b)" by (rule id_take_nth_drop [OF k(1)])
  then have "emit_instrs C fn b (instrs blk) = emit_instrs C fn b (take k (code_of fn b)) @ emit_instrs C fn b (code_of fn b ! k # drop (Suc k) (code_of fn b))"
    using emit_instrs_nops [of C fn b "instrs blk"] blk by (metis blk_instrs_def code_of_def emit_instrs_append option.case(2))
  moreover have "emit_instrs C fn b (code_of fn b ! k # drop (Suc k) (code_of fn b)) =
      (load_to_rax C (src1 ?i) @ [TESTQ RAX, JZ ?F] @ ir_asm_emit_phi_edge_copy C fn b (src ?i 1) @ [JMP (Block_label (src ?i 1))]) @
      LABEL ?F # ir_asm_emit_phi_edge_copy C fn b (src ?i 2) @ JMP (Block_label (src ?i 2)) # emit_instrs C fn b (drop (Suc k) (code_of fn b))"
    using k(2) n by (simp add: emit_instrs_def ir_asm_lower_insn_def Let_def)
  ultimately have "body_code C fn order = (P1 @ [LABEL (Block_label b)] @ emit_instrs C fn b (take k (code_of fn b)) @
      load_to_rax C (src1 ?i) @ [TESTQ RAX, JZ ?F] @ ir_asm_emit_phi_edge_copy C fn b (src ?i 1) @ [JMP (Block_label (src ?i 1))]) @
      LABEL ?F # ir_asm_emit_phi_edge_copy C fn b (src ?i 2) @ JMP (Block_label (src ?i 2)) #
        (emit_instrs C fn b (drop (Suc k) (code_of fn b)) @ fall_through C fn b @ P2)"
    using P(1) block_code_plain [OF blk C] by simp
  moreover have "LABEL ?F \<notin> set (emit_instrs C fn b (take k (code_of fn b)))" using instrs_labels first by blast
  then have "LABEL ?F \<notin> set (P1 @ [LABEL (Block_label b)] @ emit_instrs C fn b (take k (code_of fn b)) @
      load_to_rax C (src1 ?i) @ [TESTQ RAX, JZ ?F] @ ir_asm_emit_phi_edge_copy C fn b (src ?i 1) @ [JMP (Block_label (src ?i 1))])"
    using P(2) by (simp add: load_to_rax_def edge_copy_labels)
  ultimately show thesis using target_skip target_here that by metis
qed

lemma sim_condbr:
  assumes ok: "emit_fn_ok fn" "emit_ctx_ok C fn" "distinct order" and m: "matches C fn (At b (a # as) \<rho>) (rest, m)"
    and s: "op (heap fn a) = OP_CONDBR" "\<rho> (src1 (heap fn a)) = Some v"
      "enter fn b (if v \<noteq> 0 then src (heap fn a) 1 else src (heap fn a) 2) \<rho> = Some c"
  shows "\<exists>x. xrun (body_code C fn order) (rest, m) [] x \<and> matches C fn c x"
proof -
  let ?i = "heap fn a" and ?P = "body_code C fn order" and ?F = "False_label b"
  obtain k r where k: "filter (\<lambda>a. op (heap fn a) \<noteq> OP_NOP) (a # as) = drop k (code_of fn b)" "rest = emit_instrs C fn b (a # as) @ r"
    "agree C fn \<rho> m b k" and b: "b \<in> reached 0 fn" "consts_known fn \<rho>" using m by auto
  have nn: "op ?i \<noteq> OP_NOP" using s(1) by simp
  note h = match_head [OF k(1) nn]
  have i: "emit_instr_ok fn b ?i" using ok(1) b(1) h(4) by (auto simp: emit_fn_ok_def)
  then have t: "3 \<le> n_src ?i" "src1 ?i \<noteq> 0" "src ?i 1 \<in> set (succs_at fn b)" "src ?i 2 \<in> set (succs_at fn b)"
    using s(1) by (simp_all add: emit_instr_ok_def)
  let ?e = "\<lambda>j. ir_asm_emit_phi_edge_copy C fn b (src ?i j)"
  have code: "rest = (load_to_rax C (src1 ?i) @ [TESTQ RAX]) @ JZ ?F # ?e 1 @ JMP (Block_label (src ?i 1)) #
      (LABEL ?F # ?e 2 @ JMP (Block_label (src ?i 2)) # emit_instrs C fn b as @ r)"
    using k(2) s(1) t(1) by (simp add: emit_instrs_def ir_asm_lower_insn_def Let_def)
  have "src1 ?i \<in> set (reads ?i)" using s(1) t(2) by (simp add: reads_def)
  then have "live_at fn (src1 ?i) b k" using live_at.used [of k fn b] h(1,2) s(1) by simp
  then have v: "place m (loc C (src1 ?i)) = v" using k(3) s(2) by (simp add: agree_def)
  define m' where "m' = (put (Scr RAX) v m)\<lparr>flags := Some (v = 0, v <s 0)\<rparr>"
  have ex: "exec (load_to_rax C (src1 ?i) @ [TESTQ RAX]) m = Some m'" by (simp add: load_to_rax_def m'_def v)
  have "agree C fn \<rho> m b (length (code_of fn b))"
    by (rule agree_end [OF ok(1) b(1) h(1) _ k(3)]) (use h(2) s(1) in \<open>simp add: is_end_def\<close>)
  then have ag: "agree C fn \<rho> m' b (length (code_of fn b))" by (simp add: agree_def m'_def)
  have fl: "flags m' = Some (v = 0, v <s 0)" by (simp add: m'_def)
  let ?true = "?e 1 @ JMP (Block_label (src ?i 1)) # (LABEL ?F # ?e 2 @ JMP (Block_label (src ?i 2)) # emit_instrs C fn b as @ r)"
  have first: "xrun ?P (rest, m) [] x" if x: "xrun ?P (if v = 0 then target ?P ?F else ?true, m') [] x" for x
  proof -
    have "xstep ?P (JZ ?F # ?true, m') None (if v = 0 then target ?P ?F else ?true, m')"
      using xstep.jump_if_zero [OF fl, of ?P ?F ?true] by simp
    from xrun_append [OF exec_xrun [OF ex] xrun_Cons [OF this x]] show ?thesis unfolding code by (simp add: ev_def)
  qed
  show ?thesis
  proof (cases "v = 0")
    case False
    have e: "enter fn b (src ?i 1) \<rho> = Some c" using s(3) False by simp
    obtain x where x: "xrun ?P (?e 1 @ JMP (Block_label (src ?i 1)) # (LABEL ?F # ?e 2 @ JMP (Block_label (src ?i 2)) # emit_instrs C fn b as @ r), m') [] x"
      "matches C fn c x" using sim_enter [OF ok b(1) t(3) ag b(2) e] by blast
    from first [of x] x False show ?thesis by (intro exI [of _ x]) simp
  next
    case True
    obtain r' where r': "target ?P ?F = LABEL ?F # ?e 2 @ JMP (Block_label (src ?i 2)) # r'"
      by (rule target_false [OF ok b(1) h(1)]) (use h(2) s(1) in simp_all)
    have e: "enter fn b (src ?i 2) \<rho> = Some c" using s(3) True by simp
    obtain x where x: "xrun ?P (?e 2 @ JMP (Block_label (src ?i 2)) # r', m') [] x" "matches C fn c x"
      using sim_enter [OF ok b(1) t(4) ag b(2) e] by blast
    have "xstep ?P (LABEL ?F # ?e 2 @ JMP (Block_label (src ?i 2)) # r', m') None (?e 2 @ JMP (Block_label (src ?i 2)) # r', m')"
      by (rule xstep.next_ins) simp
    from xrun_Cons [OF this x(1)] have "xrun ?P (target ?P ?F, m') [] x" by (simp add: r' ev_def)
    with first [of x] x(2) True show ?thesis by (intro exI [of _ x]) simp
  qed
qed


lemma exec_restores:
  "\<exists>m'. exec (List.map (\<lambda>(k, p). MOVQ (Place (f k)) (Place (g p))) kps) m = Some m' \<and> scr m' = scr m"
proof (induction kps arbitrary: m)
  case (Cons q kps)
  obtain k p where "q = (k, p)" by fastforce
  with Cons.IH [of "put (Place (g p)) (place m (f k)) m"] show ?case by simp
qed simp

lemma sim_ret:
  assumes ok: "emit_fn_ok fn" "emit_ctx_ok C fn" and m: "matches C fn (At b (a # as) \<rho>) (rest, m)"
    and s: "op (heap fn a) = OP_RET" "read_all \<rho> (if n_src (heap fn a) > 0 then [src1 (heap fn a)] else []) = Some vs"
  shows "\<exists>x. xrun (body_code C fn order) (rest, m) [] x \<and> fst x = [LABEL Func_end] \<and> (\<forall>v. vs = [v] \<longrightarrow> scr (snd x) RAX = ret_value C v)"
proof -
  let ?i = "heap fn a" and ?P = "body_code C fn order"
  obtain k r where k: "filter (\<lambda>a. op (heap fn a) \<noteq> OP_NOP) (a # as) = drop k (code_of fn b)" "rest = emit_instrs C fn b (a # as) @ r"
    "agree C fn \<rho> m b k" and b: "b \<in> reached 0 fn" using m by auto
  have nn: "op ?i \<noteq> OP_NOP" using s(1) by simp
  note h = match_head [OF k(1) nn]
  have "emit_instr_ok fn b ?i" using ok(1) b h(4) by (auto simp: emit_fn_ok_def)
  then have t: "n_src ?i = 0 \<or> (n_src ?i = 1 \<and> src1 ?i \<noteq> 0)" "is_float ?i = 0" using s(1) by (auto simp: emit_instr_ok_def)
  have C: "body_only C" using ok(2) by (simp add: emit_ctx_ok_def)
  define load where "load = (if n_src ?i = 0 then [] else load_to_rax C (src1 ?i)) @ (if ret_size C = 4 then [MOVL (Scr RAX) RAX] else [])"
  define restore where "restore = (if csave_base C \<noteq> 0 then List.map (\<lambda>(k, p). MOVQ (Place (Stack (csave_base C - k))) (Place (Phys p)))
    [(0, 0), (8, 3), (16, 4), (24, 5), (32, 6)] else [])"
  have code: "rest = (load @ restore) @ JMP Func_end # (emit_instrs C fn b as @ r)"
    using k(2) s(1) t C by (auto simp: emit_instrs_def ir_asm_lower_insn_def Let_def lower_ret_def load_def restore_def)
  obtain m1 where m1: "exec load m = Some m1" "\<forall>v. vs = [v] \<longrightarrow> scr m1 RAX = ret_value C v"
  proof (cases "n_src ?i = 0")
    case True
    have "\<exists>m1. exec load m = Some m1" using True by (simp add: load_def)
    then show thesis using s(2) True that by auto
  next
    case False
    then have "src1 ?i \<in> set (reads ?i)" using t s(1) by (auto simp: reads_def)
    then have "live_at fn (src1 ?i) b k" using live_at.used [of k fn b] h(1,2) s(1) by simp
    then have "\<rho> (src1 ?i) = Some (place m (loc C (src1 ?i)))" using k(3) by (simp add: agree_def)
    then have "vs = [place m (loc C (src1 ?i))]" using s(2) False t by simp
    moreover have "\<exists>m1. exec load m = Some m1 \<and> scr m1 RAX = ret_value C (place m (loc C (src1 ?i)))"
      using False by (simp add: load_def load_to_rax_def ret_value_def)
    ultimately show thesis using that by auto
  qed
  obtain m2 where m2: "exec restore m1 = Some m2" "scr m2 = scr m1"
    using exec_restores [of "\<lambda>k. Stack (csave_base C - k)" Phys "[(0, 0), (8, 3), (16, 4), (24, 5), (32, 6)]" m1]
    by (cases "csave_base C = 0") (auto simp: restore_def)
  have ex: "exec (load @ restore) m = Some m2" using m1(1) m2(1) by (simp add: exec_append)
  have "xstep ?P (JMP Func_end # (emit_instrs C fn b as @ r), m2) None ([LABEL Func_end], m2)"
    using xstep.jump [of ?P Func_end] target_end [OF C] by metis
  from xrun_append [OF exec_xrun [OF ex] xrun_Cons [OF this xrun_Nil]] have "xrun ?P (rest, m) [] ([LABEL Func_end], m2)"
    unfolding code by (simp add: ev_def)
  then show ?thesis using m1(2) m2(2) by (intro exI [of _ "([LABEL Func_end], m2)"]) simp
qed

section \<open>Runs\<close>

definition effects :: "event list \<Rightarrow> event list" where
  "effects = filter (\<lambda>e. case e of Eff _ _ _ _ _ \<Rightarrow> True | Ret _ \<Rightarrow> False)"

lemma sim_step:
  assumes ok: "emit_fn_ok fn" "emit_ctx_ok C fn" "distinct order" and m: "matches C fn c x" and s: "step fn c e c'"
  shows "\<exists>x'. xrun (body_code C fn order) x (effects (ev e)) x' \<and> matches C fn c' x' \<and>
    (\<forall>v. e = Some (Ret (Some v)) \<longrightarrow> scr (snd x') RAX = ret_value C v)"
proof -
  obtain rest m0 where x: "x = (rest, m0)" by fastforce
  from s show ?thesis
  proof cases
    case (Pure a \<rho> v b as)
    with sim_pure [OF ok(1,2), of b a as \<rho> rest m0 v] m show ?thesis by (auto simp: x effects_def ev_def)
  next
    case (Nop a b as \<rho>)
    then have "matches C fn c' (rest, m0)" using m by (simp add: x emit_instrs_def)
    with Nop show ?thesis by (intro exI [of _ "(rest, m0)"]) (simp add: x effects_def ev_def xrun_Nil)
  next
    case (Effect a \<rho> vs b as w)
    with sim_effect [OF ok(1,2), of b a as \<rho> rest m0 vs _ w] m show ?thesis by (auto simp: x effects_def ev_def)
  next
    case (Br a b \<rho> as)
    with sim_br [OF ok, of b a as \<rho> rest m0 c'] m show ?thesis by (auto simp: x effects_def ev_def)
  next
    case (CondBr a \<rho> v b as)
    with sim_condbr [OF ok, of b a as \<rho> rest m0 v c'] m show ?thesis by (auto simp: x effects_def ev_def)
  next
    case (Return a \<rho> vs b as)
    obtain x' where r: "xrun (body_code C fn order) (rest, m0) [] x'" "fst x' = [LABEL Func_end]" "\<forall>v. vs = [v] \<longrightarrow> scr (snd x') RAX = ret_value C v"
      using sim_ret [OF ok(1,2), of b a as \<rho> rest m0 vs order] Return m by (auto simp: x)
    have "length vs \<le> 1" using Return(5) by (auto split: if_splits option.splits)
    then have "vs = [v]" if "e = Some (Ret (Some v))" for v using that Return(2) by (cases vs) (auto split: if_splits)
    then have "\<forall>v. e = Some (Ret (Some v)) \<longrightarrow> scr (snd x') RAX = ret_value C v" using r(3) by blast
    moreover have "effects (ev e) = []" using Return(2) by (simp add: ev_def effects_def)
    moreover have "matches C fn c' x'" using r(2) Return(3) by (cases x') simp
    ultimately show ?thesis using r(1) by (intro exI [of _ x']) (simp add: x)
  qed
qed

lemma effects_Cons: "effects (e # es) = effects [e] @ effects es"
  by (simp add: effects_def)

lemma run_Halted: "run fn Halted es c \<Longrightarrow> es = [] \<and> c = Halted"
  by (cases rule: run.cases) auto

lemma sim_run:
  assumes r: "run fn c es c'" and ok: "emit_fn_ok fn" "emit_ctx_ok C fn" "distinct order" and m: "matches C fn c x"
  shows "\<exists>x'. xrun (body_code C fn order) x (effects es) x' \<and> matches C fn c' x' \<and>
    (\<forall>v. Ret (Some v) \<in> set es \<longrightarrow> scr (snd x') RAX = ret_value C v)"
  using r m
proof (induction arbitrary: x rule: run.induct)
  case (run_Nil c)
  then show ?case by (intro exI [of _ x]) (simp add: effects_def xrun_Nil)
next
  case (run_tau c c1 es c')
  obtain x1 where x1: "xrun (body_code C fn order) x [] x1" "matches C fn c1 x1"
    using sim_step [OF ok run_tau.prems run_tau.hyps(1)] by (auto simp: ev_def effects_def)
  obtain x' where "xrun (body_code C fn order) x1 (effects es) x'" "matches C fn c' x'"
    "\<forall>v. Ret (Some v) \<in> set es \<longrightarrow> scr (snd x') RAX = ret_value C v" using run_tau.IH [OF x1(2)] by blast
  with xrun_append [OF x1(1)] show ?case by fastforce
next
  case (run_event c e c1 es c')
  obtain x1 where x1: "xrun (body_code C fn order) x (effects [e]) x1" "matches C fn c1 x1"
    "\<forall>v. e = Ret (Some v) \<longrightarrow> scr (snd x1) RAX = ret_value C v"
    using sim_step [OF ok run_event.prems run_event.hyps(1)] by (auto simp: ev_def)
  show ?case
  proof (cases "\<exists>r. e = Ret r")
    case True
    then have "c1 = Halted" using run_event.hyps(1) by (auto elim: step.cases)
    with run_event.hyps(2) run_Halted have "es = []" "c' = c1" by auto
    with x1 show ?thesis by (intro exI [of _ x1]) auto
  next
    case False
    obtain x' where "xrun (body_code C fn order) x1 (effects es) x'" "matches C fn c' x'"
      "\<forall>v. Ret (Some v) \<in> set es \<longrightarrow> scr (snd x') RAX = ret_value C v" using run_event.IH [OF x1(2)] by blast
    with xrun_append [OF x1(1)] False show ?thesis unfolding effects_Cons [of e es] by (intro exI [of _ x']) auto
  qed
qed

section \<open>The code of a function\<close>

lemma nothing_live_at_entry:
  assumes "emit_fn_ok fn"
  shows "\<not> live_at fn v 0 0"
proof
  assume l: "live_at fn v 0 0"
  have ok: "strict_ssa 0 fn" "edges_ok fn" using assms by (auto simp: emit_fn_ok_def alloc_fn_ok_def)
  have "def_before 0 fn v 0 0" by (rule strict_live [OF ok l]) simp
  moreover have "\<not> (defined_in fn 0 j v \<and> op (code_at fn 0 j) = OP_PHI)" for j
    using assms by (auto simp: emit_fn_ok_def defined_in_def is_phi_def)
  moreover have "\<not> (c \<noteq> 0 \<and> dominates (cfg_edges fn) 0 c 0)" for c using dominates_entry by blast
  ultimately show False unfolding def_before_def by blast
qed

text \<open>
  C39: The emitted code behaves as the IR. Take a function in strict SSA form as the allocator needs it (loops of more than
  one block, no phi node that takes the result of an earlier one of its block), whose computing instructions are
  integer ones, whose phi results are all read and which has no profile probes; let the frame be the caller's and safe
  division be off. For every run from its entry, with any results of its memory accesses and calls, the body that \<^verbatim>\<open>ir_asm_emit_function_body\<close> prints, with the
  registers the allocator gives, in whatever order its blocks are laid out and from any state of the machine, has a
  run with the same effects in the same order and with the same operands; and where the function returns a
  value, the code reaches the end of the function with that value in \<open>RAX\<close> (cut to 32 bits for a 32-bit result).
  Integer instructions of 32 and 64 bits, branches, phi copies and returns are run instruction by instruction; a memory
  access, a call and the like is one opaque unit that reads the places of its operands and writes that of its result.
\<close>

theorem emitted_code_simulates:
  assumes "emit_fn_ok fn" "emit_ctx_ok C fn" "distinct order" and "start fn Map.empty = Some c" "run fn c es c'"
  shows "\<exists>x. xrun (body_code C fn order) (target (body_code C fn order) (Block_label 0), m) (effects es) x \<and>
    (c' = Halted \<longrightarrow> fst x = [LABEL Func_end]) \<and> (\<forall>v. Ret (Some v) \<in> set es \<longrightarrow> scr (snd x) RAX = ret_value C v)"
proof -
  obtain blk where blk: "blk_at fn 0 = Some blk" "c = At 0 (body_addrs fn blk) Map.empty" using assms(4) by (auto simp: start_def)
  have r: "0 \<in> reached 0 fn" by simp
  obtain tl where j: "xrun (body_code C fn order) (target (body_code C fn order) (Block_label 0), m) [] (emit_instrs C fn 0 (body_addrs fn blk) @ tl, m)"
    by (rule jump_to_block [OF assms(1-3) r blk(1)])
  have bo: "alloc_block_ok fn 0" using assms(1) by (auto simp: emit_fn_ok_def alloc_fn_ok_def)
  obtain k where k: "k \<le> length (code_of fn 0)" "\<forall>j < k. is_phi fn 0 j"
    "filter (\<lambda>a. op (heap fn a) \<noteq> OP_NOP) (body_addrs fn blk) = drop k (code_of fn 0)" by (rule body_position [OF bo blk(1)])
  have "agree C fn Map.empty m 0 k"
    using live_before_phis [OF _ k(1,2)] nothing_live_at_entry [OF assms(1)] by (auto simp: agree_def)
  then have "matches C fn c (emit_instrs C fn 0 (body_addrs fn blk) @ tl, m)"
    using k(1,3) by (auto simp: blk(2) consts_known_def)
  from sim_run [OF assms(5,1-3) this] obtain x where x: "xrun (body_code C fn order) (emit_instrs C fn 0 (body_addrs fn blk) @ tl, m) (effects es) x"
    "matches C fn c' x" "\<forall>v. Ret (Some v) \<in> set es \<longrightarrow> scr (snd x) RAX = ret_value C v" by blast
  have "c' = Halted \<longrightarrow> fst x = [LABEL Func_end]" using x(2) by (cases x) auto
  with xrun_append [OF j x(1)] x(3) show ?thesis by (intro exI [of _ x]) simp
qed


section \<open>A function of three blocks\<close>

text \<open>Entry with an effect and a branch, one side that adds, a join with a phi node.\<close>

definition demo_emit :: func where
  "demo_emit = mk_func [mk_block [0, 1, 2] [1, 2] [], (mk_block [3, 4] [2] [0])\<lparr>block_id := 1\<rparr>, (mk_block [5, 6] [] [0, 1])\<lparr>block_id := 2\<rparr>]
     [mk_instr OP_GLOBAL 1 [], mk_const 2 7, mk_instr OP_CONDBR 0 [1, 1, 2], mk_instr OP_ADD 3 [1, 2], mk_instr OP_BR 0 [2],
      mk_phi 4 [(2, 0), (3, 1)], mk_instr OP_RET 0 [4]] 5"

lemma demo_emit_blk: "blk_at demo_emit b = (if b = 0 then Some (mk_block [0, 1, 2] [1, 2] [])
    else if b = 1 then Some ((mk_block [3, 4] [2] [0])\<lparr>block_id := 1\<rparr>)
    else if b = 2 then Some ((mk_block [5, 6] [] [0, 1])\<lparr>block_id := 2\<rparr>) else None)"
  by (auto simp: demo_emit_def blk_at_def mk_func_def nth_Cons' numeral_2_eq_2)

lemma demo_emit_heap:
  "heap demo_emit 0 = mk_instr OP_GLOBAL 1 []" "heap demo_emit (Suc 0) = mk_const 2 7" "heap demo_emit 2 = mk_instr OP_CONDBR 0 [1, 1, 2]"
  "heap demo_emit 3 = mk_instr OP_ADD 3 [1, 2]" "heap demo_emit 4 = mk_instr OP_BR 0 [2]" "heap demo_emit 5 = mk_phi 4 [(2, 0), (3, 1)]"
  "heap demo_emit 6 = mk_instr OP_RET 0 [4]" "all_addrs demo_emit = [0, 1, 2, 3, 4, 5, 6]" "next_addr demo_emit = 7" "def_tab demo_emit = (\<lambda>_. None)"
  by (simp_all add: demo_emit_def mk_func_def all_addrs_def blk_instrs_def mk_block_def calloc_block_def)

lemma demo_emit_ops:
  "op (heap demo_emit 0) = OP_GLOBAL" "op (heap demo_emit (Suc 0)) = OP_CONST" "op (heap demo_emit 2) = OP_CONDBR" "op (heap demo_emit 3) = OP_ADD"
  "op (heap demo_emit 4) = OP_BR" "op (heap demo_emit 5) = OP_PHI" "op (heap demo_emit 6) = OP_RET"
  "dst (heap demo_emit 0) = 1" "dst (heap demo_emit (Suc 0)) = 2" "dst (heap demo_emit 2) = 0" "dst (heap demo_emit 3) = 3"
  "dst (heap demo_emit 4) = 0" "dst (heap demo_emit 5) = 4" "dst (heap demo_emit 6) = 0" "phi (heap demo_emit 5) = [(2, 0), (3, 1)]"
  by (simp_all add: demo_emit_heap mk_instr_def mk_const_def mk_phi_def calloc_instr_def)

lemma demo_emit_code: "code_of demo_emit 0 = [0, 1, 2]" "code_of demo_emit (Suc 0) = [3, 4]" "code_of demo_emit 2 = [5, 6]"
  by (simp_all add: code_of_def blk_instrs_def demo_emit_blk demo_emit_ops mk_block_def calloc_block_def)

lemma demo_emit_reads:
  "reads (heap demo_emit 0) = []" "reads (heap demo_emit (Suc 0)) = []" "reads (heap demo_emit 2) = [1]" "reads (heap demo_emit 3) = [1, 2]"
  "reads (heap demo_emit 4) = []" "reads (heap demo_emit 6) = [4]"
  by (simp_all add: reads_def demo_emit_heap mk_instr_def mk_const_def calloc_instr_def)

lemma demo_emit_rec: "recorded (heap demo_emit 2) = [1]" "recorded (heap demo_emit 3) = [1, 2]" "recorded (heap demo_emit 6) = [4]"
  by (simp_all add: recorded_def demo_emit_heap mk_instr_def mk_const_def calloc_instr_def MAX_INSTRS_def)

lemma demo_emit_succs: "succs_at demo_emit b = (if b = 0 then [1, 2] else if b = 1 then [2] else [])"
  by (auto simp: succs_at_def demo_emit_blk mk_block_def calloc_block_def)

lemma demo_emit_defined: "defined_in demo_emit 0 0 1" "defined_in demo_emit 0 1 2" "defined_in demo_emit 1 0 3" "defined_in demo_emit 2 0 4"
  by (simp_all add: defined_in_def demo_emit_code numbers_def_def demo_emit_ops)

lemma demo_emit_reached: "reached 0 demo_emit \<subseteq> {0, 1, 2}"
  by (rule reached_within) (auto simp: demo_emit_succs split: if_splits)

lemma demo_emit_strict: "strict_ssa 0 demo_emit"
proof -
  have d: "def_before 0 demo_emit 1 0 2" "def_before 0 demo_emit 2 0 3" "def_before 0 demo_emit 3 1 2" "def_before 0 demo_emit 4 2 1"
    using demo_emit_defined by (force simp: def_before_def)+
  have r: "0 \<in> reached 0 demo_emit" by simp
  have d': "def_before 0 demo_emit 1 1 0" "def_before 0 demo_emit 2 1 0"
    unfolding def_before_def using demo_emit_defined(1,2) r dominates_self_entry(1) by force+
  show ?thesis
  proof (rule strict_ssaI [OF demo_emit_reached])
    show "\<forall>k < length (code_of demo_emit b). op (code_at demo_emit b k) \<noteq> OP_PHI \<longrightarrow>
        (\<forall>v \<in> set (reads (code_at demo_emit b k)). def_before 0 demo_emit v b k)" if b: "b \<in> {0, 1, 2}" for b
      using b d d' by (auto simp: demo_emit_code demo_emit_ops demo_emit_reads less_Suc_eq) (simp_all add: numeral_2_eq_2)
    fix b t k v assume "t \<in> set (succs_at demo_emit b)" "k < length (code_of demo_emit t)" "op (code_at demo_emit t k) = OP_PHI"
      "(v, b) \<in> set (phi (code_at demo_emit t k))"
    then show "def_before 0 demo_emit v b (length (code_of demo_emit b))"
      using d by (auto simp: demo_emit_succs demo_emit_code demo_emit_ops less_Suc_eq split: if_splits) (simp_all add: numeral_2_eq_2 numeral_3_eq_3)
  qed
qed

lemma demo_emit_alloc: "alloc_fn_ok 0 demo_emit"
proof -
  have "edges_ok demo_emit" by (auto simp: edges_ok_def demo_emit_blk mk_block_def calloc_block_def split: if_splits)
  moreover have "heap_ok demo_emit" by (simp add: heap_ok_def demo_emit_heap)
  moreover have "ssa_unique demo_emit" by (simp add: ssa_unique_def demo_emit_heap(8) demo_emit_ops)
  moreover have "alloc_block_ok demo_emit b" if "b \<in> {0, 1, 2}" for b
    using that by (auto simp: alloc_block_ok_def demo_emit_code blk_instrs_def demo_emit_blk mk_block_def calloc_block_def demo_emit_ops
        alloc_instr_ok_def demo_emit_reads demo_emit_rec MAX_INSTRS_def less_Suc_eq)
  ultimately show ?thesis using demo_emit_reached demo_emit_strict by (auto simp: alloc_fn_ok_def is_block_def demo_emit_blk)
qed


lemma demo_emit_instr_ok: "b \<in> {0, 1, 2} \<Longrightarrow> a \<in> set (code_of demo_emit b) \<Longrightarrow> emit_instr_ok demo_emit b (heap demo_emit a)"
  by (auto simp: demo_emit_code emit_instr_ok_def demo_emit_ops is_pure_def is_binop_def is_effect_def is_end_def demo_emit_succs
      value_ok_def demo_emit_reads opnds_def)
    (simp_all add: demo_emit_heap mk_instr_def mk_const_def calloc_instr_def)

lemma demo_emit_phi: "b \<in> {0, 1, 2} \<Longrightarrow> k < length (code_of demo_emit b) \<Longrightarrow> op (code_at demo_emit b k) = OP_PHI \<Longrightarrow> b = 2 \<and> k = 0"
  by (auto simp: demo_emit_code demo_emit_ops less_Suc_eq)

lemma demo_emit_live: "live_at demo_emit 4 2 0"
proof -
  have "live_at demo_emit 4 2 1" by (rule live_at.used) (simp_all add: demo_emit_code demo_emit_ops demo_emit_reads)
  then have "live_at demo_emit 4 2 (Suc 0)" by simp
  then show ?thesis by (rule live_at.pass [rotated 2]) (simp_all add: demo_emit_code demo_emit_ops)
qed

lemma demo_emit_repairs: "repairs_suffice 0 demo_emit"
  unfolding repairs_suffice_def
proof (intro ballI conjI allI impI)
  fix b assume "b \<in> reached 0 demo_emit"
  then have b: "b \<in> {0, 1, 2}" using demo_emit_reached by blast
  show "b \<notin> set (succs_at demo_emit b)" by (simp add: demo_emit_succs)
  fix k j assume "k < length (code_of demo_emit b)" "j \<le> k" "op (code_at demo_emit b k) = OP_PHI"
  with demo_emit_phi [OF b, of k] have "b = 2" "k = 0" "j = 0" by auto
  then show "dst (code_at demo_emit b j) \<notin> fst ` set (phi (code_at demo_emit b k))" by (simp add: demo_emit_code demo_emit_ops)
qed

lemma demo_emit_ok: "emit_fn_ok demo_emit"
  unfolding emit_fn_ok_def
proof (intro conjI ballI allI impI)
  show "alloc_fn_ok 0 demo_emit" by (rule demo_emit_alloc)
  show "repairs_suffice 0 demo_emit" by (rule demo_emit_repairs)
  show "table_ok demo_emit" by (simp add: table_ok_def demo_emit_heap)
  show "\<not> is_phi demo_emit 0 k" if "k < length (code_of demo_emit 0)" for k
    using demo_emit_phi [of 0 k] that by (auto simp: is_phi_def)
  fix b assume "b \<in> reached 0 demo_emit"
  then have b: "b \<in> {0, 1, 2}" using demo_emit_reached by blast
  show "no_probe demo_emit b"
    using b by (auto simp: no_probe_def blk_instrs_def demo_emit_blk mk_block_def calloc_block_def demo_emit_ops)
  show "emit_instr_ok demo_emit b (heap demo_emit a)" if "a \<in> set (code_of demo_emit b)" for a by (rule demo_emit_instr_ok [OF b that])
  fix k assume k: "k < length (code_of demo_emit b)"
  show "Suc k = length (code_of demo_emit b)" if "is_end (op (code_at demo_emit b k))"
    using b k that by (auto simp: demo_emit_code demo_emit_ops is_end_def less_Suc_eq)
  show "live_at demo_emit (dst (code_at demo_emit b k)) b 0" if "is_phi demo_emit b k"
    using demo_emit_phi [OF b k] that demo_emit_live by (auto simp: is_phi_def demo_emit_code demo_emit_ops)
qed

lemma demo_emit_allocated: obtains phys where "allocate_registers spill 0 demo_emit seq0 = Some phys"
proof (rule allocation_returns)
  show "\<forall>a \<in> set (layout demo_emit (alloc_order 0 demo_emit)). dst (heap demo_emit a) < MAX_INSTRS"
  proof
    fix a assume "a \<in> set (layout demo_emit (alloc_order 0 demo_emit))"
    then obtain b where "a \<in> set (blk_instrs (blk_at demo_emit b))" by (auto simp: layout_def)
    then have "a \<in> {0, 1, 2, 3, 4, 5, 6}" by (auto simp: demo_emit_blk blk_instrs_def mk_block_def calloc_block_def split: if_splits)
    then show "dst (heap demo_emit a) < MAX_INSTRS" by (auto simp: demo_emit_ops MAX_INSTRS_def)
  qed
qed

text \<open>The effect answers 5: the branch is taken, and the function returns 5 + 7.\<close>

lemma demo_emit_body: "body_addrs demo_emit (mk_block [0, 1, 2] [1, 2] []) = [0, 1, 2]"
  "body_addrs demo_emit ((mk_block [3, 4] [2] [0])\<lparr>block_id := 1\<rparr>) = [3, 4]"
  "body_addrs demo_emit ((mk_block [5, 6] [] [0, 1])\<lparr>block_id := 2\<rparr>) = [6]"
  by (simp_all add: body_addrs_def mk_block_def calloc_block_def demo_emit_ops)

lemma demo_emit_run:
  "start demo_emit Map.empty = Some (At 0 [0, 1, 2] Map.empty)"
  "run demo_emit (At 0 [0, 1, 2] Map.empty) [Eff OP_GLOBAL [] 0 [] 5, Ret (Some 12)] Halted"
proof -
  show "start demo_emit Map.empty = Some (At 0 [0, 1, 2] Map.empty)" using demo_emit_body(1) by (simp add: start_def demo_emit_blk)
  note f = mk_instr_def mk_const_def mk_phi_def calloc_instr_def
  have 0: "step demo_emit (At 0 [0, 1, 2] Map.empty) (Some (Eff OP_GLOBAL [] 0 [] 5)) (At 0 [1, 2] [1 \<mapsto> 5])"
    using step.Effect [of demo_emit 0 Map.empty "[]" 0 "[1, 2]" 5] by (simp add: demo_emit_heap f is_effect_def eff_regs_def set_reg_def)
  have 1: "step demo_emit (At 0 [1, 2] [1 \<mapsto> 5]) None (At 0 [2] [1 \<mapsto> 5, 2 \<mapsto> 7])"
    using step.Pure [of demo_emit 1 "[1 \<mapsto> 5]" 7 0 "[2]"] by (simp add: demo_emit_heap f is_pure_def eval_def opnds_def value_of_def set_reg_def)
  have 2: "step demo_emit (At 0 [2] [1 \<mapsto> 5, 2 \<mapsto> 7]) None (At 1 [3, 4] [1 \<mapsto> 5, 2 \<mapsto> 7])"
    using step.CondBr [of demo_emit 2 "[1 \<mapsto> 5, 2 \<mapsto> 7]" 5 0 "At 1 [3, 4] [1 \<mapsto> 5, 2 \<mapsto> 7]" "[]"] demo_emit_body(2)
    by (simp add: demo_emit_heap f enter_def demo_emit_blk) (simp add: mk_block_def calloc_block_def demo_emit_ops)
  have 3: "step demo_emit (At 1 [3, 4] [1 \<mapsto> 5, 2 \<mapsto> 7]) None (At 1 [4] [1 \<mapsto> 5, 2 \<mapsto> 7, 3 \<mapsto> 12])"
    using step.Pure [of demo_emit 3 "[1 \<mapsto> 5, 2 \<mapsto> 7]" 12 1 "[4]"]
    by (simp add: demo_emit_heap f is_pure_def is_binop_def eval_def opnds_def value_of_def bin_val_def set_reg_def)
  have 4: "step demo_emit (At 1 [4] [1 \<mapsto> 5, 2 \<mapsto> 7, 3 \<mapsto> 12]) None (At 2 [6] [1 \<mapsto> 5, 2 \<mapsto> 7, 3 \<mapsto> 12, 4 \<mapsto> 12])"
    using step.Br [of demo_emit 4 1 "[1 \<mapsto> 5, 2 \<mapsto> 7, 3 \<mapsto> 12]" "At 2 [6] [1 \<mapsto> 5, 2 \<mapsto> 7, 3 \<mapsto> 12, 4 \<mapsto> 12]" "[]"] demo_emit_body(3)
    by (simp add: demo_emit_heap(5) f enter_def demo_emit_blk) (simp add: mk_block_def calloc_block_def demo_emit_ops phi_val_def set_reg_def)
  have 5: "step demo_emit (At 2 [6] [1 \<mapsto> 5, 2 \<mapsto> 7, 3 \<mapsto> 12, 4 \<mapsto> 12]) (Some (Ret (Some 12))) Halted"
    using step.Return [of demo_emit 6 "[1 \<mapsto> 5, 2 \<mapsto> 7, 3 \<mapsto> 12, 4 \<mapsto> 12]" "[12]" 2 "[]"] by (simp add: demo_emit_heap f)
  show "run demo_emit (At 0 [0, 1, 2] Map.empty) [Eff OP_GLOBAL [] 0 [] 5, Ret (Some 12)] Halted"
    by (rule run.run_event [OF 0 run.run_tau [OF 1 run.run_tau [OF 2 run.run_tau [OF 3 run.run_tau [OF 4 run.run_event [OF 5 run.run_Nil]]]]]])
qed

theorem emitted_code_simulates_witness:
  "\<exists>C. \<forall>m. \<exists>x. xrun (body_code C demo_emit [0, 1, 2]) (target (body_code C demo_emit [0, 1, 2]) (Block_label 0), m) [Eff OP_GLOBAL [] 0 [] 5] x \<and>
     fst x = [LABEL Func_end] \<and> scr (snd x) RAX = 12"
proof -
  obtain phys where p: "allocate_registers True 0 demo_emit (\<lambda>_. 0) = Some phys" by (rule demo_emit_allocated)
  define C where "C = \<lparr>slot_base = 0, phys_of = phys, ret_size = 8, body_only = True, csave_base = -128, safe_div = False\<rparr>"
  have C: "emit_ctx_ok C demo_emit" using p by (auto simp: emit_ctx_ok_def C_def)
  have d: "distinct [0, 1, 2 :: nat]" by simp
  have "\<exists>x. xrun (body_code C demo_emit [0, 1, 2]) (target (body_code C demo_emit [0, 1, 2]) (Block_label 0), m) [Eff OP_GLOBAL [] 0 [] 5] x \<and>
     fst x = [LABEL Func_end] \<and> scr (snd x) RAX = 12" for m
    using emitted_code_simulates [OF demo_emit_ok C d demo_emit_run, of m] by (auto simp: effects_def ret_value_def C_def)
  then show ?thesis by blast
qed

end
