(* ===== verification/Spec2Isabelle.thy ===== *)
theory Spec2Isabelle
  imports IR_Verify InstCombine CfgSimplify CloneRemap SCCP
    ConstantFold StrengthReduction Peephole CopyProp AddressMode
    LoopValidator CapTripwire IrRoundtrip DeadCode LiveRanges EmitSim
begin

text \<open>
  Verification of the SSA middle end of the ZCC compiler.

  ZCC is a C compiler. Its front end (lexer, preprocessor, parser: \<open>src/part*.c\<close>) builds a syntax tree; functions
  are lowered to an SSA intermediate representation, which \<^verbatim>\<open>run_all_passes\<close> (\<open>src/compiler_passes.c\<close>) optimises
  and the emitter of the same file turns into x86-64 text. This development models the intermediate
  representation, the passes over it that decide the meaning of the compiled program, the allocation of
  registers and the emission of integer code, and proves them correct or shows where they are not.

  \<^bold>\<open>Common ground.\<close>
  \<open>Zcc_Prelude\<close>: 64-bit machine integers as words, C division with the host's traps, loops as folds, fact collections.
  \<open>Arith64\<close>: powers of two, shifts, masks. \<open>IR\<close>: the data model of \<open>src/prelude.h\<close>. A pointer to an instruction is an
  address into the heap of the function, so two lists that hold one address share the instruction; linked
  lists are lists of addresses; the static arrays the passes index by register are functions, with the bounds
  the code tests written out. \<open>IR_Helpers\<close> (\<open>zcc_ir_opt_helpers.c\<close>): definition table, constant pool, in-place
  rewrites, replacement of uses, unlinking. \<open>IR_Sem\<close>: the value of an instruction, which is what the emitted code computes
  (32-bit operations on the low halves, a logical right shift of signed 64-bit values); the theorems on folding
  exclude the operations the folders and the emitter do not agree on. \<open>IR_Machine\<close>: executions as a
  labelled small-step relation, and the locale of an analysis that finds constants. \<open>Graph_Search\<close>: the
  breadth-first search three parts of the code share.

  \<^bold>\<open>Components.\<close>
  \<^item> \<open>IrParser\<close>, \<open>IrRoundtrip\<close> (\<open>src/src/opt/ir_parser.c\<close>): lexer, parser and printer of the textual IR. A printed
    function is read back as itself up to an injective renaming of registers, for the operations the two agree on.
  \<^item> \<open>IR_Verify\<close> (\<open>ir_verify.c\<close>): every check with its report; the verifier decides its declarative specification.
  \<^item> \<open>InstCombine\<close> (\<open>instcombine_*.c\<close>): the 29 rules, the dispatch and the pass; every instruction keeps its value.
  \<^item> \<open>SCCP\<close> (\<open>sccp_pass.c\<close>): lattice, sweeps, rewriting; the constants hold in every execution.
  \<^item> \<open>CloneRemap\<close> (\<open>clone_remap.c\<close>), \<open>CfgSimplify\<close> (\<open>cfg_simplify_pass.c\<close>): cloning through a context, edge lists,
    reachability, phi edits, and the removal of unreachable blocks.
  \<^item> \<open>PassWalk\<close>, \<open>ConstantFold\<close>, \<open>StrengthReduction\<close>, \<open>Peephole\<close>, \<open>CopyProp\<close>, \<open>AddressMode\<close>
    (\<open>src/zcc_ir_opt_passes.h\<close>): the five scalar passes over one walk; each keeps the values of all instructions.
  \<^item> \<open>LoopValidator\<close> (\<open>loop_validator.c\<close>): canonical loops and their trip count.
  \<^item> \<open>CapTripwire\<close> (\<open>cap_tripwire.c\<close>): capabilities of pointers into stack slots and the insertion of traps.
  \<^item> \<open>DeadCode\<close> (\<open>compiler_passes.c\<close>, \<^verbatim>\<open>ssa_dce_pass\<close>): what is removed is exactly what no effect depends on.
  \<^item> \<open>Dom_Chains\<close>, \<open>Dominators\<close> (\<open>compiler_passes.c\<close>): reverse postorder, the Cooper-Harvey-Kennedy iteration and
    dominance frontiers, against the definition of dominance by paths.
  \<^item> \<open>RegAlloc\<close>, \<open>LiveRanges\<close> (\<open>compiler_passes.c\<close>): numbering of the instructions, the repairs of the live intervals,
    graph colouring and the linear scan; no two live registers share a place.
  \<^item> \<open>X86\<close>, \<open>EmitAsm\<close>, \<open>EmitSim\<close> (\<open>compiler_passes.c\<close>): the x86-64 code of integer instructions, branches, phi copies, blocks
    and functions as lists of instructions, with a machine that runs them. The code of an instruction leaves its value
    in the place of its result, and the body of a function simulates its runs, on top of the
    theorem on live registers.
  \<^item> \<open>Spec2Isabelle\<close> itself holds the property that spans the folders and the emitter: they disagree on the right
    shift of signed 64-bit values.

  \<^bold>\<open>How errors and endless runs appear.\<close> The result \<open>None\<close> stands for what the source does not return from or
  what C leaves undefined: a trap of the division instruction, \<^verbatim>\<open>exit\<close>, a write outside the tables of the constant
  propagation and of the dead-code pass, a chase along a cyclic chain. Four writes have no bound in the source and
  are modelled as total: the definition table in \<open>make_const\<close> and \<open>opt_create_const\<close>, the map of \<open>collect_copies\<close>, and the edge arrays
  in \<open>rebuild_preds_succs\<close>. What is proved of them holds of the code while new registers stay below \<open>MAX_INSTRS\<close>, copies
  define registers below it, and blocks have at most 2048 edges on a side. Recursion of the source without a bound (the capability analysis, the copy chains of the loop
  recognition, the iteration of the dominators and its walk to a common ancestor) is a partial function into
  \<open>option\<close>; that the dominator computation returns is a theorem, that the loop recognition need not is one too.
  The bounds the code has are kept: 1000 sweeps of the constant propagation, 100 and 50 steps along copies,
  64 rounds of the logarithm loops, 32 blocks per dominance frontier, 512 registers in the colouring, seven physical
  registers, the table sizes of \<open>src/prelude.h\<close>.

  \<^bold>\<open>What the theorems show.\<close> For each transformation, that the values the program computes are kept (or that the
  executions of the result are those of the original); for each analysis, that its answer is exact or sound
  against a specification that does not mention the algorithm; for the data structures, that the operations keep
  their invariants. Where the code does not do what it should, a theorem on a concrete function shows it: the
  peephole that copies \<open>x\<close> for \<open>x * -1\<close>, the unsigned rule that hits signed divisions, folded floating-point
  bits, stale counts in the module verifier, a loop of one block that loses a register, call arguments that
  \<open>replace_all_uses\<close> leaves behind.

  \<^bold>\<open>Not modelled.\<close> Telemetry, metrics and debug output; allocation and freeing of memory. Of \<open>compiler_passes.c\<close>: the
  lowering of the syntax tree, loop-invariant code motion, escape analysis and the promotion of allocas,
  global value numbering, redundant-load elimination, the second copy of constant folding, profile-guided
  reordering (floating-point frequencies), and of the emission the code for floating-point instructions, memory
  accesses, calls, inline assembly and probes (opaque units here) and the stack slots of allocas. Of \<open>src/src/opt\<close>: inlining, unrolling, pointer SSA, the
  quantum rules and \<open>q_licm_pass.c\<close>, and the driver \<open>zcc_opt_main.c\<close>. The front end, the linker, the object writers, the other targets
  (ARM, WebAssembly, EVM, Rust), the experiments, tests and vendored or preprocessed sources (\<open>pp_sqlite.c\<close>,
  \<open>doom\<close>, \<open>zcc_pre.c\<close>, \<open>lcode_pp.c\<close> and the like) are outside the middle end.
\<close>

section \<open>The right shift of signed values\<close>

text \<open>The shift of -2 by one, of type \<^verbatim>\<open>i64\<close>.\<close>

definition demo_shift :: func where
  "demo_shift = mk_func [mk_block [0, 1, 2, 3] [] []]
     [mk_const 1 (-2), mk_const 2 1, mk_instr OP_SHR 3 [1, 2], mk_instr OP_RET 0 [3]] 3"

lemma demo_shift_blk: "blk_at demo_shift b = (if b = 0 then Some (mk_block [0, 1, 2, 3] [] []) else None)"
  "n_blocks demo_shift = 1" "all_addrs demo_shift = [0, 1, 2, 3]"
  "heap demo_shift 0 = mk_const 1 (-2)" "heap demo_shift (Suc 0) = mk_const 2 1"
  "heap demo_shift 2 = mk_instr OP_SHR 3 [1, 2]" "heap demo_shift 3 = mk_instr OP_RET 0 [3]" "n_regs demo_shift = 3"
  by (auto simp: demo_shift_def blk_at_def mk_func_def mk_block_def calloc_block_def all_addrs_def blk_instrs_def)

lemma demo_shift_reach: "reach_list demo_shift = [(0, 0), (0, 1), (0, 2), (0, 3)]"
  by (simp add: reach_list_def demo_shift_blk mk_block_def calloc_block_def)

lemma sar_minus_2: "c_sar (-2) 1 = -1"
  by code_simp

lemma demo_shift_fold:
  "\<exists>fn' n. opt_constant_fold_pass demo_shift = Some (fn', n) \<and> op (heap fn' 2) = OP_CONST \<and> imm (heap fn' 2) = -1"
  by (simp add: opt_constant_fold_pass_def demo_shift_reach constant_fold_step_def fold_result_def const_def_def
      demo_shift_blk demo_instr licm_def_tab MAX_INSTRS_def foldable_def Let_def become_const_def sar_minus_2)

lemma demo_shift_visit:
  "sccp_visit demo_shift 0 s = Some (s\<lparr>lat := (lat s)(1 := konst (-2)), iter_changed := (iter_changed s \<or> lat s 1 \<noteq> konst (-2))\<rparr>)"
  "sccp_visit demo_shift (Suc 0) s = Some (s\<lparr>lat := (lat s)(2 := konst 1), iter_changed := (iter_changed s \<or> lat s 2 \<noteq> konst 1)\<rparr>)"
  "lat s 1 = konst (-2) \<Longrightarrow> lat s 2 = konst 1 \<Longrightarrow>
   sccp_visit demo_shift 2 s = Some (s\<lparr>lat := (lat s)(3 := konst (-1)), iter_changed := (iter_changed s \<or> lat s 3 \<noteq> konst (-1))\<rparr>)"
  "sccp_visit demo_shift 3 s = Some s"
  by (auto simp: sccp_eval demo_shift_blk mk_const_def mk_instr_def calloc_instr_def fun_upd_idem self_const_def sar_minus_2)

lemma demo_shift_sweep:
  assumes "bb_reach s 0"
  shows "sccp_sweep demo_shift s = Some (s\<lparr>lat := (lat s)(1 := konst (-2), 2 := konst 1, 3 := konst (-1)),
     iter_changed := (lat s 1 \<noteq> konst (-2) \<or> lat s 2 \<noteq> konst 1 \<or> lat s 3 \<noteq> konst (-1))\<rparr>)"
  using assms by (simp add: sccp_sweep_def sccp_block_def demo_shift_blk mk_block_def demo_shift_visit [unfolded One_nat_def])
    (auto intro!: sccp.equality)

lemma demo_shift_solve: "\<exists>s. sccp_solve demo_shift (\<lambda>_. False) = Some s \<and> sccp_const s 3 = Some (-1)"
  by (simp add: sccp_solve_def max_iters_def sccp_loop_num demo_shift_sweep [unfolded One_nat_def] sccp_init_def Let_def
      demo_shift_blk top_val_def sccp_const_def)

lemma demo_shift_tab: "def_tab (licm_build_def_block demo_shift) 2 = Some 1"
  by (simp add: licm_def_tab demo_shift_reach demo_shift_blk demo_instr MAX_INSTRS_def)

lemma demo_shift_code:
  "ir_asm_lower_insn C (licm_build_def_block demo_shift) 0 2 = load_to_rax C 1 @ [SHIFTQ X_SHR (Some 1)] @ store_rax_to C 3"
  by (simp add: ir_asm_lower_insn_def Let_def demo_shift_blk lower_shift_def shift_count_def demo_shift_tab demo_instr
      MAX_INSTRS_def right_shifter_def typed_wide is32_def)

text \<open>
  C40: The folders and the emitter disagree on the right shift of signed 64-bit values. Of \<open>-2 >> 1\<close> constant
  folding and conditional constant propagation make \<open>-1\<close>; the code that \<^verbatim>\<open>ir_asm_lower_insn\<close> prints for the
  instruction, run with -2 in the place of its first operand, leaves \<open>2^63 - 1\<close> in that of its result,
  whatever the places of the registers. The reference semantics follows the emitted code.
\<close>

theorem i64_shift_folded_unlike_emitted:
  "(\<exists>fn' n. opt_constant_fold_pass demo_shift = Some (fn', n) \<and> op (heap fn' 2) = OP_CONST \<and> imm (heap fn' 2) = -1) \<and>
   (\<exists>s. sccp_solve demo_shift (\<lambda>_. False) = Some s \<and> sccp_const s 3 = Some (-1)) \<and>
   (\<forall>C m. \<exists>m'. exec (ir_asm_lower_insn C (licm_build_def_block demo_shift) 0 2) (put (Place (loc C 1)) (-2) m) = Some m' \<and>
      place m' (loc C 3) = 0x7FFFFFFFFFFFFFFF) \<and>
   value_of (heap demo_shift 2) (\<lambda>r. if r = 1 then -2 else 1) = Some 0x7FFFFFFFFFFFFFFF"
proof (intro conjI allI)
  have d: "drop_bit 1 (-2 :: int64) = 0x7FFFFFFFFFFFFFFF" by code_simp
  show "\<exists>m'. exec (ir_asm_lower_insn C (licm_build_def_block demo_shift) 0 2) (put (Place (loc C 1)) (-2) m) = Some m' \<and>
      place m' (loc C 3) = 0x7FFFFFFFFFFFFFFF" for C m
    by (simp add: demo_shift_code load_to_rax_def store_rax_to_def shift_val_def d [simplified])
  show "value_of (heap demo_shift 2) (\<lambda>r. if r = 1 then -2 else 1) = Some 0x7FFFFFFFFFFFFFFF"
    using d by (simp add: demo_shift_blk demo_instr value_of_def bin_val_def c_shr_def is32_def)
qed (rule demo_shift_fold, rule demo_shift_solve)

end
